(* ===== verification/Prelude.thy ===== *)
theory Prelude
  imports Main "HOL-Library.Word" "HOL-Library.Multiset" "HOL-Library.Sublist"
begin

unbundle bit_operations_syntax

text \<open>
  What the components share: the names of the Go types (addresses, hashes, bytes,
  machine integers), big-endian byte encodings with their round trips, Go's
  \<open>sort.Search\<close>, the sequential \<open>for\<close> loop with early return, and the list lemmas
  that the component proofs use.

  Addresses and hashes are words: a Go \<open>[20]byte\<close> or \<open>[32]byte\<close> compared by
  \<open>bytes.Compare\<close> is ordered as the unsigned number its bytes spell in big-endian
  order. Keccak-256 is not part of the repository; every definition that hashes takes the
  hash function as its argument.
\<close>

type_synonym byte = "8 word"
type_synonym u32 = "32 word"
type_synonym u64 = "64 word"
type_synonym address = "160 word"
type_synonym hash = "256 word"
type_synonym hashfn = "byte list \<Rightarrow> hash"

named_theorems be_simps \<open>equations for big-endian encodings\<close>
named_theorems len_simps \<open>lengths of encodings\<close>

section \<open>Big-endian encodings\<close>

text \<open>\<open>nat_be n v\<close> is the low \<open>n\<close> bytes of \<open>v\<close>, most significant first: what
  \<open>binary.BigEndian.AppendUintX\<close> and the shift loops of the source write.\<close>

primrec nat_be :: "nat \<Rightarrow> nat \<Rightarrow> byte list" where
  "nat_be 0 v = []"
| "nat_be (Suc n) v = nat_be n (v div 256) @ [word_of_nat v]"

definition be_nat :: "byte list \<Rightarrow> nat" where
  "be_nat bs = foldl (\<lambda>a b. a * 256 + unat b) 0 bs"

definition be_bytes :: "nat \<Rightarrow> 'a::len word \<Rightarrow> byte list" where
  "be_bytes n x = nat_be n (unat x)"

definition of_be :: "byte list \<Rightarrow> 'a::len word" where
  "of_be bs = word_of_nat (be_nat bs)"

abbreviation addr_bytes :: "address \<Rightarrow> byte list" where
  "addr_bytes \<equiv> be_bytes 20"

abbreviation hash_bytes :: "hash \<Rightarrow> byte list" where
  "hash_bytes \<equiv> be_bytes 32"

lemma length_nat_be [simp, len_simps]: "length (nat_be n v) = n"
  by (induction n arbitrary: v) auto

lemma length_be_bytes [simp, len_simps]: "length (be_bytes n x) = n"
  by (simp add: be_bytes_def)

lemma be_nat_Nil [simp]: "be_nat [] = 0"
  by (simp add: be_nat_def)

lemma be_nat_snoc [simp, be_simps]: "be_nat (bs @ [b]) = be_nat bs * 256 + unat b"
  by (simp add: be_nat_def)

lemma be_nat_append [be_simps]: "be_nat (xs @ ys) = be_nat xs * 256 ^ length ys + be_nat ys"
  by (induction ys rule: rev_induct) (simp_all flip: append_assoc add: algebra_simps)

lemma be_nat_nat_be [be_simps]: "be_nat (nat_be n v) = v mod 256 ^ n"
proof (induction n arbitrary: v)
  case 0
  then show ?case by simp
next
  case (Suc n)
  have "unat (word_of_nat v :: byte) = v mod 256"
    by (simp add: unat_of_nat)
  then show ?case
    by (simp add: Suc.IH mod_mult2_eq [of v 256 "256 ^ n"])
qed

lemma nat_be_be_nat [be_simps]: "nat_be (length bs) (be_nat bs) = bs"
proof (induction bs rule: rev_induct)
  case Nil
  then show ?case by simp
next
  case (snoc b bs)
  have b: "unat b < 256" using unsigned_less [of b, where 'a = nat] by simp
  then have "(be_nat bs * 256 + unat b) div 256 = be_nat bs" by simp
  moreover have z: "(word_of_nat 256 :: byte) = 0" by simp
  have "word_of_nat (be_nat bs * 256 + unat b) = b"
    by (simp only: of_nat_add of_nat_mult z mult_zero_right add_0_left) simp
  ultimately show ?case using snoc.IH by simp
qed

lemma be_nat_less: "be_nat bs < 256 ^ length bs"
proof (induction bs rule: rev_induct)
  case Nil
  then show ?case by simp
next
  case (snoc b bs)
  have "unat b < 256" using unsigned_less [of b, where 'a = nat] by simp
  with snoc.IH show ?case by simp
qed

lemma pow256: "(256::nat) ^ n = 2 ^ (8 * n)"
  by (simp add: power_mult)

lemma be_nat_be_bytes:
  "LENGTH('a) \<le> 8 * n \<Longrightarrow> be_nat (be_bytes n (x :: 'a::len word)) = unat x"
proof -
  assume "LENGTH('a) \<le> 8 * n"
  then have "(2::nat) ^ LENGTH('a) \<le> 256 ^ n" by (simp add: pow256)
  then have "unat x < 256 ^ n" using unsigned_less [of x, where 'a = nat] by linarith
  then show ?thesis by (simp add: be_bytes_def be_simps)
qed

lemma of_be_be_bytes [be_simps]:
  "LENGTH('a) \<le> 8 * n \<Longrightarrow> of_be (be_bytes n (x :: 'a::len word)) = x"
  by (simp add: of_be_def be_nat_be_bytes)

lemma be_bytes_of_be:
  "8 * length bs \<le> LENGTH('a) \<Longrightarrow> be_bytes (length bs) (of_be bs :: 'a::len word) = bs"
proof -
  assume "8 * length bs \<le> LENGTH('a)"
  then have "256 ^ length bs \<le> (2::nat) ^ LENGTH('a)" by (simp add: pow256)
  then have "be_nat bs < 2 ^ LENGTH('a)" using be_nat_less [of bs] by linarith
  then show ?thesis
    by (simp add: be_bytes_def of_be_def unat_of_nat be_simps)
qed

lemma be_bytes_inject:
  "LENGTH('a) \<le> 8 * n \<Longrightarrow> be_bytes n (x :: 'a::len word) = be_bytes n y \<longleftrightarrow> x = y"
  by (metis of_be_be_bytes)

lemma addr_bytes_inject [simp]: "addr_bytes a = addr_bytes b \<longleftrightarrow> a = b"
  by (rule be_bytes_inject) simp

lemma hash_bytes_inject [simp]: "hash_bytes a = hash_bytes b \<longleftrightarrow> a = b"
  by (rule be_bytes_inject) simp

lemma be_bytes_u64_inject [simp]: "be_bytes 8 (a :: u64) = be_bytes 8 b \<longleftrightarrow> a = b"
  by (rule be_bytes_inject) simp

lemma nat_be_add: "nat_be (m + n) v = nat_be m (v div 256 ^ n) @ nat_be n v"
proof (induction n arbitrary: v)
  case 0
  then show ?case by simp
next
  case (Suc n)
  have "v div 256 div 256 ^ n = v div 256 ^ Suc n" by (simp add: div_mult2_eq)
  with Suc.IH [of "v div 256"] show ?case by simp
qed

lemma nat_be_zero [simp]: "nat_be n 0 = replicate n 0"
  by (induction n) (auto simp: replicate_append_same)

lemma nat_be_zero_iff: "(\<forall>b \<in> set (nat_be n v). b = 0) \<longleftrightarrow> v mod 256 ^ n = 0"
proof -
  have "(\<forall>b \<in> set (nat_be n v). b = 0) \<longleftrightarrow> nat_be n v = nat_be n 0"
    by (metis length_nat_be nat_be_zero replicate_eqI in_set_replicate)
  also have "\<dots> \<longleftrightarrow> be_nat (nat_be n v) = be_nat (nat_be n 0)"
    by (metis length_nat_be nat_be_be_nat)
  finally show ?thesis by (simp add: be_simps del: nat_be_zero)
qed

text \<open>The bytes of an ASCII literal.\<close>

definition ascii :: "string \<Rightarrow> byte list" where
  "ascii s = map (\<lambda>c. word_of_nat (of_char c)) s"

lemma concat_fixed_inject:
  assumes "\<forall>x \<in> set xs \<union> set ys. length (f x) = n" and "0 < n" and "inj f"
    and "concat (map f xs) = concat (map f ys)"
  shows "xs = ys"
  using assms(1,4)
proof (induction xs arbitrary: ys)
  case Nil
  then show ?case using assms(2) by (cases ys) auto
next
  case (Cons x xs)
  then obtain y zs where ys: "ys = y # zs" using assms(2) by (cases ys) fastforce+
  with Cons.prems have "f x = f y" and "concat (map f xs) = concat (map f zs)" by auto
  with Cons ys assms(3) show ?case by (auto dest: injD)
qed

lemma xor_Suc0 [simp]: "(n::nat) XOR Suc 0 = (if even n then Suc n else n - 1)"
  using xor_one_eq [of n] by simp

section \<open>Sorting without duplicates\<close>

text \<open>The source sorts a slice and then skips an element equal to its predecessor.\<close>

fun skip_repeats :: "'a list \<Rightarrow> 'a list" where
  "skip_repeats [] = []"
| "skip_repeats [x] = [x]"
| "skip_repeats (x # y # xs) =
     (if x = y then skip_repeats (y # xs) else x # skip_repeats (y # xs))"

lemma set_skip_repeats [simp]: "set (skip_repeats xs) = set xs"
  by (induction xs rule: skip_repeats.induct) auto

lemma hd_skip_repeats: "xs \<noteq> [] \<Longrightarrow> hd (skip_repeats xs) = hd xs"
  by (induction xs rule: skip_repeats.induct) auto

lemma skip_repeats_sorted:
  "sorted xs \<Longrightarrow> sorted (skip_repeats xs) \<and> distinct (skip_repeats xs)"
  by (induction xs rule: skip_repeats.induct) auto

lemma skip_repeats_sort: "skip_repeats (sort xs) = sorted_list_of_set (set xs)"
proof (rule sorted_distinct_set_unique)
  show "set (skip_repeats (sort xs)) = set (sorted_list_of_set (set xs))" by simp
qed (use skip_repeats_sorted [of "sort xs"] in auto)

section \<open>Binary search\<close>

text \<open>\<open>sort.Search(n, f)\<close> of the Go library: the loop that halves \<open>[i, j)\<close>.\<close>

function search_loop :: "(nat \<Rightarrow> bool) \<Rightarrow> nat \<Rightarrow> nat \<Rightarrow> nat" where
  "search_loop f i j =
     (if i < j then
        (let h = (i + j) div 2 in
         if \<not> f h then search_loop f (h + 1) j else search_loop f i h)
      else i)"
  by pat_completeness auto
termination
  by (relation "measure (\<lambda>(f, i, j). j - i)") (auto simp: Let_def)

declare search_loop.simps [simp del]

definition sort_search :: "nat \<Rightarrow> (nat \<Rightarrow> bool) \<Rightarrow> nat" where
  "sort_search n f = search_loop f 0 n"

lemma search_loop_least:
  assumes "\<forall>a b. a \<le> b \<and> b < n \<and> f a \<longrightarrow> f b" and "i \<le> j" and "j \<le> n"
    and "\<forall>a < i. \<not> f a" and "\<forall>a. j \<le> a \<and> a < n \<longrightarrow> f a"
  shows "(\<forall>a < search_loop f i j. \<not> f a) \<and> search_loop f i j \<le> n
    \<and> (search_loop f i j < n \<longrightarrow> f (search_loop f i j))"
  using assms
proof (induction f i j rule: search_loop.induct)
  case (1 f i j)
  note mono = "1.prems"(1)
  show ?case
  proof (cases "i < j")
    case False
    with "1.prems" have "i = j" by simp
    with "1.prems" show ?thesis by (simp add: search_loop.simps [of f j j])
  next
    case True
    define h where "h = (i + j) div 2"
    have h: "i \<le> h" "h < j" "h < n" using True "1.prems"(3) by (auto simp: h_def)
    have down: "\<forall>a < h + 1. \<not> f a" if "\<not> f h"
    proof (intro allI impI notI)
      fix a assume "a < h + 1" "f a"
      then have "a \<le> h" "f a" by auto
      then have "f h" using mono h(3) by blast
      with that show False ..
    qed
    show ?thesis
    proof (cases "f h")
      case True
      have eq: "search_loop f i j = search_loop f i h"
        using True \<open>i < j\<close> by (simp add: search_loop.simps [of f i j] Let_def h_def)
      have up: "\<forall>a. h \<le> a \<and> a < n \<longrightarrow> f a" using mono True by blast
      have "\<not> \<not> f h" "h \<le> n" using True h(3) by simp_all
      then show ?thesis unfolding eq
        using "1.IH"(2) [OF \<open>i < j\<close> h_def _ mono h(1) _ "1.prems"(4) up] by blast
    next
      case False
      have eq: "search_loop f i j = search_loop f (h + 1) j"
        using False \<open>i < j\<close> by (simp add: search_loop.simps [of f i j] Let_def h_def)
      have "h + 1 \<le> j" using h(2) by simp
      then show ?thesis unfolding eq
        using "1.IH"(1) [OF \<open>i < j\<close> h_def False mono _ "1.prems"(3) down [OF False] "1.prems"(5)]
        by blast
    qed
  qed
qed

lemma sort_search_least:
  assumes "\<forall>a b. a \<le> b \<and> b < n \<and> f a \<longrightarrow> f b"
  shows "(\<forall>a < sort_search n f. \<not> f a) \<and> sort_search n f \<le> n
    \<and> (sort_search n f < n \<longrightarrow> f (sort_search n f))"
  unfolding sort_search_def by (rule search_loop_least) (use assms in auto)

section \<open>Decimal numbers\<close>

text \<open>What \<open>strconv\<close> and the verb \<open>%d\<close> print for an unsigned number.\<close>

fun dec_string :: "nat \<Rightarrow> string" where
  "dec_string n = (if n < 10 then [char_of (48 + n)] else dec_string (n div 10) @ [char_of (48 + n mod 10)])"

declare dec_string.simps [simp del]

text \<open>The value of a list of decimal digits, \<open>None\<close> if a character is none.\<close>

definition digit_val :: "char \<Rightarrow> nat option" where
  "digit_val c = (let n = of_char c in if 48 \<le> n \<and> n \<le> 57 then Some (n - 48) else None)"

definition dec_step :: "nat option \<Rightarrow> char \<Rightarrow> nat option" where
  "dec_step acc c = (case acc of None \<Rightarrow> None | Some a \<Rightarrow> map_option (\<lambda>d. a * 10 + d) (digit_val c))"

definition dec_val :: "string \<Rightarrow> nat option" where
  "dec_val s = (if s = [] then None else foldl dec_step (Some 0) s)"

lemma digit_val_char [simp]: "d < 10 \<Longrightarrow> digit_val (char_of (48 + d)) = Some d"
  by (simp add: digit_val_def)

lemma dec_string_ne [simp]: "dec_string n \<noteq> []"
  by (simp add: dec_string.simps [of n])

lemma dec_val_dec_string [simp]: "dec_val (dec_string n) = Some n"
proof -
  have "foldl dec_step (Some 0) (dec_string n) = Some n"
  proof (induction n rule: dec_string.induct)
    case (1 n)
    show ?case
    proof (cases "n < 10")
      case True
      then show ?thesis by (simp add: dec_string.simps [of n] dec_step_def)
    next
      case False
      then show ?thesis using 1 by (simp add: dec_string.simps [of n] dec_step_def)
    qed
  qed
  then show ?thesis by (simp add: dec_val_def)
qed

lemma dec_string_inject [simp]: "dec_string m = dec_string n \<longleftrightarrow> m = n"
  by (metis dec_val_dec_string option.inject)

end
