(* ===== verification/Commitment.thy ===== *)
theory Commitment
  imports Prelude
begin

text \<open>
  What a hash commitment promises, as an interface: the two trees of the program, the sorted-pair
  tree of \<open>internal/merkle\<close> and the sparse trie of \<open>internal/userstate\<close>, implement it. A document
  has a root; a claim about the document can be proved against the root. The byte strings hashed
  for the document and for a check are part of the interface, because every promise holds as long
  as the hash does not collide on them.
\<close>

locale commitment =
  fixes hash :: "'s \<Rightarrow> 'h" and valid :: "'doc \<Rightarrow> bool" and claimable :: "'claim \<Rightarrow> bool"
    and commit :: "'doc \<Rightarrow> 'h" and holds :: "'doc \<Rightarrow> 'claim \<Rightarrow> bool"
    and prove :: "'doc \<Rightarrow> 'claim \<Rightarrow> 'proof option" and check :: "'h \<Rightarrow> 'claim \<Rightarrow> 'proof \<Rightarrow> bool"
    and doc_strings :: "'doc \<Rightarrow> 's set" and check_strings :: "'claim \<Rightarrow> 'proof \<Rightarrow> 's set"
  assumes complete: "valid d \<Longrightarrow> inj_on hash (doc_strings d) \<Longrightarrow> holds d c
      \<Longrightarrow> \<exists>p. prove d c = Some p \<and> check (commit d) c p \<and> check_strings c p \<subseteq> doc_strings d"
    and sound: "valid d \<Longrightarrow> claimable c \<Longrightarrow> inj_on hash (doc_strings d \<union> check_strings c p)
      \<Longrightarrow> check (commit d) c p \<Longrightarrow> holds d c"
begin

text \<open>What holds of a document is provable for every document with the same root, so the root
  determines what holds.\<close>

lemma transfer:
  assumes "valid d" "valid d'" "claimable c" "commit d = commit d'"
    and inj: "inj_on hash (doc_strings d \<union> doc_strings d')" and "holds d c"
  shows "holds d' c"
proof -
  have "inj_on hash (doc_strings d)" using inj by (rule inj_on_subset) simp
  then obtain p where p: "check (commit d) c p" "check_strings c p \<subseteq> doc_strings d"
    using complete assms(1,6) by blast
  have "inj_on hash (doc_strings d' \<union> check_strings c p)"
    by (rule inj_on_subset [OF inj]) (use p(2) in auto)
  then show ?thesis using sound [OF assms(2,3)] p(1) assms(4) by simp
qed

lemma binding:
  assumes "valid d" "valid d'" "claimable c" "commit d = commit d'" "inj_on hash (doc_strings d \<union> doc_strings d')"
  shows "holds d c \<longleftrightarrow> holds d' c"
  using transfer [of d d' c] transfer [of d' d c] assms by (auto simp: Un_commute)

end

end
