(* ===== verification/Merkle.thy ===== *)
theory Merkle
  imports Commitment
begin

text \<open>
  The commitment tree of \<open>internal/merkle/merkle.go\<close>: leaf encodings, the sorted-pair
  tree with promoted odd nodes, sibling paths and their replay. The hash function \<open>k\<close>
  is Keccak-256, an argument of every definition. The lemmas show that the path served
  for an index replays to the root, and that a replay which ends in the root starts at a
  leaf of the tree, as long as Keccak does not collide on the byte strings hashed on the
  way.
\<close>

section \<open>Leaves\<close>

definition AssetsHash :: "hashfn \<Rightarrow> address list \<Rightarrow> hash" where
  "AssetsHash k assets = k (concat (map addr_bytes (skip_repeats (sort assets))))"

definition leaf_preimage :: "address \<Rightarrow> u64 \<Rightarrow> hash \<Rightarrow> byte list" where
  "leaf_preimage account chainID assetsHash =
     replicate 12 0 @ addr_bytes account @ replicate 24 0 @ be_bytes 8 chainID
       @ hash_bytes assetsHash"

definition LeafHash :: "hashfn \<Rightarrow> address \<Rightarrow> u64 \<Rightarrow> hash \<Rightarrow> hash" where
  "LeafHash k account chainID assetsHash = k (leaf_preimage account chainID assetsHash)"

definition coverage_preimage :: "hash \<Rightarrow> u64 \<Rightarrow> u64 \<Rightarrow> byte list" where
  "coverage_preimage assetKey fromBlock toBlock =
     hash_bytes assetKey @ replicate 24 0 @ be_bytes 8 fromBlock
       @ replicate 24 0 @ be_bytes 8 toBlock"

definition CoverageLeaf :: "hashfn \<Rightarrow> hash \<Rightarrow> u64 \<Rightarrow> u64 \<Rightarrow> hash" where
  "CoverageLeaf k assetKey fromBlock toBlock = k (coverage_preimage assetKey fromBlock toBlock)"

section \<open>The tree\<close>

datatype merkle_error = ErrUnknownLeaf

definition pair_preimage :: "hash \<Rightarrow> hash \<Rightarrow> byte list" where
  "pair_preimage a b =
     (if a \<le> b then hash_bytes a @ hash_bytes b else hash_bytes b @ hash_bytes a)"

definition hashPair :: "hashfn \<Rightarrow> hash \<Rightarrow> hash \<Rightarrow> hash" where
  "hashPair k a b = k (pair_preimage a b)"

record tree =
  levels :: "hash list list"
  index :: "hash \<Rightarrow> nat option"

fun next_level :: "hashfn \<Rightarrow> hash list \<Rightarrow> hash list" where
  "next_level k [] = []"
| "next_level k [x] = [x]"
| "next_level k (x # y # xs) = hashPair k x y # next_level k xs"

lemma length_next_level [simp, len_simps]: "length (next_level k xs) = (length xs + 1) div 2"
  by (induction k xs rule: next_level.induct) auto

text \<open>The loop \<open>for len(level) > 1\<close> with every level kept.\<close>

function build_levels :: "hashfn \<Rightarrow> hash list \<Rightarrow> hash list list" where
  "build_levels k level =
     (if length level > 1 then level # build_levels k (next_level k level) else [level])"
  by pat_completeness auto
termination
  by (relation "measure (\<lambda>(k, level). length level)") auto

declare build_levels.simps [simp del]

primrec first_index :: "hash list \<Rightarrow> nat \<Rightarrow> (hash \<Rightarrow> nat option) \<Rightarrow> hash \<Rightarrow> nat option" where
  "first_index [] i m = m"
| "first_index (l # ls) i m =
     first_index ls (Suc i) (if m l = None then m(l := Some i) else m)"

definition Build :: "hashfn \<Rightarrow> hash list \<Rightarrow> tree" where
  "Build k leaves =
     (if leaves = [] then \<lparr>levels = [], index = (\<lambda>_. None)\<rparr>
      else \<lparr>levels = build_levels k leaves, index = first_index leaves 0 (\<lambda>_. None)\<rparr>)"

definition Root :: "tree \<Rightarrow> hash" where
  "Root t = (if levels t = [] then 0 else hd (last (levels t)))"

definition Len :: "tree \<Rightarrow> nat" where
  "Len t = (if levels t = [] then 0 else length (hd (levels t)))"

fun proof_path :: "hash list list \<Rightarrow> nat \<Rightarrow> hash list" where
  "proof_path (level # next # ls) idx =
     (let sibling = idx XOR 1 in
      (if sibling < length level then [level ! sibling] else [])
        @ proof_path (next # ls) (idx div 2))"
| "proof_path _ idx = []"

definition Proof :: "tree \<Rightarrow> int \<Rightarrow> merkle_error + hash list" where
  "Proof t i =
     (if levels t = [] \<or> i < 0 \<or> i \<ge> int (length (hd (levels t))) then Inl ErrUnknownLeaf
      else Inr (proof_path (levels t) (nat i)))"

definition ProofFor :: "tree \<Rightarrow> hash \<Rightarrow> merkle_error + hash list" where
  "ProofFor t leaf =
     (case index t leaf of None \<Rightarrow> Inl ErrUnknownLeaf | Some i \<Rightarrow> Proof t (int i))"

definition replay :: "hashfn \<Rightarrow> hash \<Rightarrow> hash list \<Rightarrow> hash" where
  "replay k leaf proof = foldl (hashPair k) leaf proof"

definition Verify :: "hashfn \<Rightarrow> hash \<Rightarrow> hash \<Rightarrow> hash list \<Rightarrow> bool" where
  "Verify k root leaf proof \<longleftrightarrow> replay k leaf proof = root"

section \<open>Encodings are injective\<close>

lemma length_leaf_preimage [simp, len_simps]: "length (leaf_preimage a c h) = 96"
  by (simp add: leaf_preimage_def)

lemma length_coverage_preimage [simp, len_simps]: "length (coverage_preimage a f t) = 96"
  by (simp add: coverage_preimage_def)

lemma length_pair_preimage [simp, len_simps]: "length (pair_preimage a b) = 64"
  by (simp add: pair_preimage_def)

lemma leaf_preimage_inject [simp]:
  "leaf_preimage a c h = leaf_preimage a' c' h' \<longleftrightarrow> a = a' \<and> c = c' \<and> h = h'"
  by (auto simp: leaf_preimage_def)

lemma coverage_preimage_inject [simp]:
  "coverage_preimage a f t = coverage_preimage a' f' t' \<longleftrightarrow> a = a' \<and> f = f' \<and> t = t'"
  by (auto simp: coverage_preimage_def)

lemma pair_preimage_commute: "pair_preimage a b = pair_preimage b a"
  by (auto simp: pair_preimage_def)

lemma pair_preimage_inject: "pair_preimage a b = pair_preimage c d \<longleftrightarrow> {a, b} = {c, d}"
proof
  assume "pair_preimage a b = pair_preimage c d"
  then show "{a, b} = {c, d}"
    by (auto simp: pair_preimage_def split: if_splits)
next
  assume "{a, b} = {c, d}"
  then show "pair_preimage a b = pair_preimage c d"
    by (auto simp: doubleton_eq_iff pair_preimage_commute)
qed

lemma hashPair_commute: "hashPair k a b = hashPair k b a"
  by (simp add: hashPair_def pair_preimage_commute)

lemma AssetsHash_set: "AssetsHash k assets = k (concat (map addr_bytes (sorted_list_of_set (set assets))))"
  by (simp add: AssetsHash_def skip_repeats_sort)

lemma addr_concat_inject:
  "concat (map addr_bytes xs) = concat (map addr_bytes ys) \<longleftrightarrow> xs = ys"
proof
  assume "concat (map addr_bytes xs) = concat (map addr_bytes ys)"
  then show "xs = ys"
    by (rule concat_fixed_inject [rotated 3]) (auto intro: injI)
qed simp

section \<open>Completeness: a served path replays to the root\<close>

lemma nth_next_level:
  "i < length xs \<Longrightarrow> next_level k xs ! (i div 2) =
     (if i XOR 1 < length xs then hashPair k (xs ! i) (xs ! (i XOR 1)) else xs ! i)"
proof (induction k xs arbitrary: i rule: next_level.induct)
  case (1 k)
  then show ?case by simp
next
  case (2 k x)
  then show ?case by simp
next
  case (3 k x y xs)
  consider "i = 0" | "i = 1" | j where "i = Suc (Suc j)" by (metis One_nat_def not0_implies_Suc)
  then show ?case
  proof cases
    case 1
    then show ?thesis by simp
  next
    case 2
    then show ?thesis by (simp add: hashPair_commute)
  next
    case (3 j)
    have "odd j \<Longrightarrow> \<exists>i. j = Suc i" by (metis odd_Suc_minus_one)
    then show ?thesis using "3.IH" [of j] "3.prems" 3 by auto
  qed
qed

lemma build_levels_ne: "build_levels k xs \<noteq> []"
  by (simp add: build_levels.simps [of k xs])

lemma hd_build_levels: "hd (build_levels k xs) = xs"
  by (simp add: build_levels.simps [of k xs])

lemma replay_path:
  "i < length xs \<Longrightarrow>
   replay k (xs ! i) (proof_path (build_levels k xs) i) = hd (last (build_levels k xs))"
proof (induction k xs arbitrary: i rule: build_levels.induct)
  case (1 k xs)
  show ?case
  proof (cases "length xs > 1")
    case False
    with "1.prems" obtain x where "xs = [x]" by (cases xs) auto
    with "1.prems" show ?thesis
      by (simp add: build_levels.simps [of k "[x]"] replay_def)
  next
    case True
    obtain n ns where n: "build_levels k (next_level k xs) = n # ns"
      using build_levels_ne by (metis neq_Nil_conv)
    have "i div 2 < length (next_level k xs)" using "1.prems" by simp
    from "1.IH" [OF True this] show ?thesis
      using True "1.prems" n
      by (auto simp: build_levels.simps [of k xs] replay_def nth_next_level Let_def)
  qed
qed

lemma Build_ne: "leaves \<noteq> [] \<Longrightarrow> levels (Build k leaves) = build_levels k leaves"
  by (simp add: Build_def)

lemma Root_Build: "leaves \<noteq> [] \<Longrightarrow> Root (Build k leaves) = hd (last (build_levels k leaves))"
  by (simp add: Root_def Build_ne build_levels_ne)

lemma Proof_Build:
  "i < length leaves \<Longrightarrow>
   \<exists>p. Proof (Build k leaves) (int i) = Inr p
     \<and> Verify k (Root (Build k leaves)) (leaves ! i) p"
  by (cases "leaves = []")
    (auto simp: Proof_def Build_ne build_levels_ne hd_build_levels Verify_def replay_path Root_Build)

lemma first_index_Some:
  "first_index ls i m l = (case m l of Some j \<Rightarrow> Some j
     | None \<Rightarrow> (if l \<in> set ls then Some (i + length (takeWhile (\<lambda>x. x \<noteq> l) ls)) else None))"
  by (induction ls arbitrary: i m) (auto split: option.splits)

lemma index_Build:
  "index (Build k leaves) l = (if l \<in> set leaves
     then Some (length (takeWhile (\<lambda>x. x \<noteq> l) leaves)) else None)"
  by (auto simp: Build_def first_index_Some)

lemma nth_takeWhile_neq: "l \<in> set ls \<Longrightarrow> ls ! length (takeWhile (\<lambda>x. x \<noteq> l) ls) = l
    \<and> length (takeWhile (\<lambda>x. x \<noteq> l) ls) < length ls"
  by (induction ls) auto

section \<open>Soundness: a replay that ends in the root starts at a leaf\<close>

text \<open>The byte strings hashed while the tree is built, and while a path is replayed.\<close>

fun level_queries :: "hash list \<Rightarrow> byte list list" where
  "level_queries (x # y # xs) = pair_preimage x y # level_queries xs"
| "level_queries _ = []"

definition build_queries :: "hashfn \<Rightarrow> hash list \<Rightarrow> byte list list" where
  "build_queries k leaves = concat (map level_queries (build_levels k leaves))"

fun replay_queries :: "hashfn \<Rightarrow> hash \<Rightarrow> hash list \<Rightarrow> byte list list" where
  "replay_queries k node [] = []"
| "replay_queries k node (p # ps) =
     pair_preimage node p # replay_queries k (hashPair k node p) ps"

text \<open>\<open>in_tree k leaves h\<close>: the hash \<open>h\<close> is a leaf or a pair of such nodes whose
  preimage was hashed while building.\<close>

inductive in_tree :: "hashfn \<Rightarrow> hash list \<Rightarrow> hash \<Rightarrow> bool" for k leaves where
  leaf: "l \<in> set leaves \<Longrightarrow> in_tree k leaves l"
| pair: "in_tree k leaves a \<Longrightarrow> in_tree k leaves b
    \<Longrightarrow> pair_preimage a b \<in> set (build_queries k leaves) \<Longrightarrow> in_tree k leaves (hashPair k a b)"

lemma next_level_cases:
  "h \<in> set (next_level k xs) \<Longrightarrow> h \<in> set xs
     \<or> (\<exists>a b. a \<in> set xs \<and> b \<in> set xs \<and> h = hashPair k a b \<and> pair_preimage a b \<in> set (level_queries xs))"
  by (induction k xs rule: next_level.induct) (auto 4 3)

lemma build_levels_in_tree:
  assumes "\<forall>h \<in> set xs. in_tree k leaves h"
    and "set (concat (map level_queries (build_levels k xs))) \<subseteq> set (build_queries k leaves)"
    and "ys \<in> set (build_levels k xs)" and "h \<in> set ys"
  shows "in_tree k leaves h"
  using assms
proof (induction k xs arbitrary: ys h rule: build_levels.induct)
  case (1 k xs)
  show ?case
  proof (cases "length xs > 1 \<and> ys \<noteq> xs")
    case False
    with 1 show ?thesis by (auto simp: build_levels.simps [of k xs] split: if_splits)
  next
    case True
    then have eq: "build_levels k xs = xs # build_levels k (next_level k xs)"
      by (simp add: build_levels.simps [of k xs])
    have q: "set (level_queries xs) \<subseteq> set (build_queries k leaves)"
      using "1.prems"(2) by (simp add: eq)
    have "\<forall>h \<in> set (next_level k xs). in_tree k leaves h"
      using "1.prems"(1) q by (auto dest!: next_level_cases intro: in_tree.pair)
    moreover have "set (concat (map level_queries (build_levels k (next_level k xs)))) \<subseteq> set (build_queries k leaves)"
      using "1.prems"(2) by (simp add: eq)
    ultimately show ?thesis
      using "1.IH" [of ys h] True "1.prems"(3,4) by (simp add: eq)
  qed
qed

lemma last_build_levels: "xs \<noteq> [] \<Longrightarrow> \<exists>h. last (build_levels k xs) = [h]"
proof (induction k xs rule: build_levels.induct)
  case (1 k xs)
  show ?case
  proof (cases "length xs > 1")
    case True
    then have "next_level k xs \<noteq> []" by (cases "(k, xs)" rule: next_level.cases) auto
    with True 1 show ?thesis
      by (simp add: build_levels.simps [of k xs] build_levels_ne)
  next
    case False
    with "1.prems" obtain x where "xs = [x]" by (cases xs) auto
    then show ?thesis by (simp add: build_levels.simps [of k "[x]"])
  qed
qed

lemma Root_in_tree: "leaves \<noteq> [] \<Longrightarrow> in_tree k leaves (Root (Build k leaves))"
proof -
  assume ne: "leaves \<noteq> []"
  then obtain h where h: "last (build_levels k leaves) = [h]"
    using last_build_levels by blast
  have mem: "[h] \<in> set (build_levels k leaves)"
    using last_in_set [OF build_levels_ne, of k leaves] h by simp
  have "in_tree k leaves h"
    by (rule build_levels_in_tree [OF _ _ mem]) (auto intro: in_tree.leaf simp: build_queries_def)
  with h ne show ?thesis by (simp add: Root_Build)
qed

lemma replay_snoc [simp]: "replay k h (ps @ [p]) = hashPair k (replay k h ps) p"
  by (simp add: replay_def)

lemma replay_queries_snoc [simp]:
  "replay_queries k h (ps @ [p]) = replay_queries k h ps @ [pair_preimage (replay k h ps) p]"
  by (induction ps arbitrary: h) (auto simp: replay_def)

text \<open>Every leaf of the tree and the claimed leaf are hashes of strings that are not
  64 bytes long, so none of them is mistaken for an inner node.\<close>

lemma replay_sound:
  assumes "leaves = map k pres" and "\<forall>p \<in> set pres. length p \<noteq> 64"
    and "inj_on k (set pres \<union> set (build_queries k leaves) \<union> {c} \<union> set (replay_queries k (k c) path))"
    and "in_tree k leaves (replay k (k c) path)" and "length c \<noteq> 64"
  shows "c \<in> set pres"
  using assms(3,4)
proof (induction path rule: rev_induct)
  case Nil
  from Nil.prems(2) have "in_tree k leaves (k c)" by (simp add: replay_def)
  then show ?case
  proof cases
    case leaf
    then obtain p where "p \<in> set pres" "k c = k p" using assms(1) by auto
    with Nil.prems(1) show ?thesis by (auto dest: inj_onD)
  next
    case (pair a b)
    then have "c = pair_preimage a b"
      using Nil.prems(1) unfolding hashPair_def by (auto dest: inj_onD)
    with assms(5) show ?thesis by simp
  qed
next
  case (snoc q ps)
  let ?h = "replay k (k c) ps"
  have q: "pair_preimage ?h q \<in> set (replay_queries k (k c) (ps @ [q]))" by simp
  from snoc.prems(2) have "in_tree k leaves (hashPair k ?h q)" by simp
  then have "in_tree k leaves ?h"
  proof cases
    case leaf
    then obtain p where p: "p \<in> set pres" "k (pair_preimage ?h q) = k p"
      using assms(1) by (auto simp: hashPair_def)
    then have "pair_preimage ?h q = p"
      using snoc.prems(1) q by (auto dest: inj_onD)
    with p assms(2) show ?thesis by fastforce
  next
    case (pair a b)
    then have "pair_preimage ?h q = pair_preimage a b"
      using snoc.prems(1) q unfolding hashPair_def by (auto dest: inj_onD)
    with pair show ?thesis by (auto simp: pair_preimage_inject doubleton_eq_iff)
  qed
  moreover have "inj_on k (set pres \<union> set (build_queries k leaves) \<union> {c} \<union> set (replay_queries k (k c) ps))"
    by (rule inj_on_subset [OF snoc.prems(1)]) auto
  ultimately show ?case by (rule snoc.IH [rotated])
qed

section \<open>The tree as a commitment\<close>

lemma pair_in_level_queries:
  "i < length xs \<Longrightarrow> i XOR 1 < length xs \<Longrightarrow> pair_preimage (xs ! i) (xs ! (i XOR 1)) \<in> set (level_queries xs)"
proof (induction xs arbitrary: i rule: level_queries.induct)
  case (1 x y xs)
  consider "i = 0" | "i = 1" | j where "i = Suc (Suc j)" by (metis One_nat_def not0_implies_Suc)
  then show ?case
  proof cases
    case 3
    then show ?thesis using "1.IH" [of j] "1.prems" by (cases "even j") (auto elim!: oddE)
  qed (auto simp: pair_preimage_commute)
qed (auto split: if_splits)

lemma honest_queries:
  "i < length xs \<Longrightarrow> set (replay_queries k (xs ! i) (proof_path (build_levels k xs) i)) \<subseteq> set (build_queries k xs)"
proof (induction k xs arbitrary: i rule: build_levels.induct)
  case (1 k xs)
  show ?case
  proof (cases "length xs > 1")
    case False
    then show ?thesis by (simp add: build_levels.simps [of k xs])
  next
    case True
    obtain n ns where n: "build_levels k (next_level k xs) = n # ns" using build_levels_ne by (metis neq_Nil_conv)
    have b: "set (build_queries k xs) = set (level_queries xs) \<union> set (build_queries k (next_level k xs))"
      using True by (simp add: build_queries_def build_levels.simps [of k xs])
    have "i div 2 < length (next_level k xs)" using "1.prems" by simp
    from "1.IH" [OF True this] show ?thesis
      using True "1.prems" n b pair_in_level_queries [of i xs]
      by (auto simp: build_levels.simps [of k xs] nth_next_level Let_def)
  qed
qed

definition leaf_list :: "byte list list \<Rightarrow> bool" where
  "leaf_list pres \<longleftrightarrow> pres \<noteq> [] \<and> (\<forall>p \<in> set pres. length p \<noteq> 64)"

definition leaf_strings :: "hashfn \<Rightarrow> byte list list \<Rightarrow> byte list set" where
  "leaf_strings k pres = set pres \<union> set (build_queries k (map k pres))"

definition leaf_proof :: "hashfn \<Rightarrow> byte list list \<Rightarrow> byte list \<Rightarrow> hash list option" where
  "leaf_proof k pres c = (case ProofFor (Build k (map k pres)) (k c) of Inr p \<Rightarrow> Some p | Inl _ \<Rightarrow> None)"

lemma leaf_proof_honest:
  assumes "pres \<noteq> []" "c \<in> set pres"
  shows "\<exists>p. leaf_proof k pres c = Some p \<and> Verify k (Root (Build k (map k pres))) (k c) p
    \<and> set (replay_queries k (k c) p) \<subseteq> set (build_queries k (map k pres))"
proof -
  let ?ls = "map k pres"
  define i where "i = length (takeWhile (\<lambda>x. x \<noteq> k c) ?ls)"
  have i: "?ls ! i = k c" "i < length ?ls" using nth_takeWhile_neq [of "k c" ?ls] assms(2) unfolding i_def by auto
  have p: "leaf_proof k pres c = Some (proof_path (build_levels k ?ls) i)"
    using assms i(2) by (simp add: leaf_proof_def ProofFor_def index_Build i_def [symmetric] Proof_def Build_ne build_levels_ne hd_build_levels)
  show ?thesis
    using p replay_path [OF i(2), of k] honest_queries [OF i(2), of k] assms(1)
    by (simp only: i(1) Verify_def) (simp add: Root_Build)
qed

interpretation leaves: commitment k leaf_list "\<lambda>c. length c \<noteq> 64" "\<lambda>pres. Root (Build k (map k pres))"
    "\<lambda>pres c. c \<in> set pres" "leaf_proof k" "\<lambda>r c p. Verify k r (k c) p" "leaf_strings k"
    "\<lambda>c p. insert c (set (replay_queries k (k c) p))"
  for k
proof (unfold_locales, goal_cases)
  case (1 pres c)
  then show ?case using leaf_proof_honest [of pres c k] by (auto simp: leaf_list_def leaf_strings_def)
next
  case (2 pres c p)
  have t: "in_tree k (map k pres) (replay k (k c) p)"
    using 2 Root_in_tree [of "map k pres" k] by (simp add: Verify_def leaf_list_def)
  have "inj_on k (set pres \<union> set (build_queries k (map k pres)) \<union> {c} \<union> set (replay_queries k (k c) p))"
    by (rule inj_on_subset [OF 2(3)]) (auto simp: leaf_strings_def)
  then show ?case using replay_sound [OF refl _ _ t] 2 by (auto simp: leaf_list_def)
qed

section \<open>Properties\<close>

text \<open>C25: For every index of the leaf list, \<open>Proof\<close> answers with a path that \<open>Verify\<close>
  accepts against the root of the built tree, and outside that range it answers
  \<open>ErrUnknownLeaf\<close>. \<open>ProofFor\<close> does the same by value.\<close>

theorem merkle_proofs_verify:
  "(if 0 \<le> i \<and> i < int (length leaves)
    then \<exists>p. Proof (Build k leaves) i = Inr p \<and> Verify k (Root (Build k leaves)) (leaves ! nat i) p
    else Proof (Build k leaves) i = Inl ErrUnknownLeaf)
   \<and> (if l \<in> set leaves
      then \<exists>p. ProofFor (Build k leaves) l = Inr p \<and> Verify k (Root (Build k leaves)) l p
      else ProofFor (Build k leaves) l = Inl ErrUnknownLeaf)"
proof
  show "if 0 \<le> i \<and> i < int (length leaves)
    then \<exists>p. Proof (Build k leaves) i = Inr p \<and> Verify k (Root (Build k leaves)) (leaves ! nat i) p
    else Proof (Build k leaves) i = Inl ErrUnknownLeaf"
    using Proof_Build [of "nat i" leaves k]
    by (cases "leaves = []") (auto simp: Proof_def Build_ne hd_build_levels build_levels_ne, simp add: Build_def)
  show "if l \<in> set leaves
      then \<exists>p. ProofFor (Build k leaves) l = Inr p \<and> Verify k (Root (Build k leaves)) l p
      else ProofFor (Build k leaves) l = Inl ErrUnknownLeaf"
    using nth_takeWhile_neq [of l leaves] Proof_Build [of "length (takeWhile (\<lambda>x. x \<noteq> l) leaves)" leaves k]
    by (auto simp: ProofFor_def index_Build)
qed

text \<open>C26: A path that \<open>Verify\<close> accepts for the hash of a string \<open>c\<close>, against the root of
  a tree over the hashes of the strings \<open>pres\<close>, proves that \<open>c\<close> is one of them, when none
  of these strings has the 64 bytes of an inner node (a leaf preimage has 96) and Keccak does
  not collide on the strings that were hashed while building and replaying.\<close>

theorem merkle_verify_sound:
  assumes "pres \<noteq> []" and "\<forall>p \<in> set pres. length p \<noteq> 64" and "length c \<noteq> 64"
    and "inj_on k (set pres \<union> set (build_queries k (map k pres)) \<union> {c}
           \<union> set (replay_queries k (k c) path))"
    and "Verify k (Root (Build k (map k pres))) (k c) path"
  shows "c \<in> set pres"
proof (rule leaves.sound [OF _ assms(3) _ assms(5)])
  show "leaf_list pres" using assms(1,2) by (simp add: leaf_list_def)
  show "inj_on k (leaf_strings k pres \<union> insert c (set (replay_queries k (k c) path)))"
    by (rule inj_on_subset [OF assms(4)]) (auto simp: leaf_strings_def)
qed

text \<open>A stand-in hash for concrete inputs: the number the string spells, plus its length.\<close>

definition toy_hash :: hashfn where
  "toy_hash bs = of_be bs + word_of_nat (length bs)"

lemma toy_hash_append: "toy_hash (xs @ hash_bytes h) = h + word_of_nat (length xs + 32)"
proof -
  have z: "(word_of_nat (256 ^ 32) :: hash) = 0" by simp
  have "(of_be (xs @ hash_bytes h) :: hash) = word_of_nat (be_nat xs) * word_of_nat (256 ^ 32) + h"
    by (simp only: of_be_def be_nat_append length_be_bytes of_nat_add of_nat_mult)
      (simp add: be_nat_be_bytes)
  then show ?thesis by (simp only: toy_hash_def z) simp
qed

lemma toy_hash_leaf: "toy_hash (leaf_preimage a c h) = h + 96"
  using toy_hash_append [of "replicate 12 0 @ addr_bytes a @ replicate 24 0 @ be_bytes 8 c" h]
  by (simp add: leaf_preimage_def)

lemma toy_hash_pair: "toy_hash (pair_preimage a b) = max a b + 64"
  by (simp add: pair_preimage_def toy_hash_append max_def)

theorem merkle_verify_sound_witness:
  "leaf_preimage 1 1 5 \<in> set [leaf_preimage 1 1 5, leaf_preimage 2 1 6, leaf_preimage 3 1 7]"
proof (rule merkle_verify_sound [where k = toy_hash and path = "[102, 103]"])
  have bl: "build_levels toy_hash [101, 102, 103] = [[101, 102, 103], [166, 103], [230]]"
    by (simp add: build_levels.simps [of toy_hash "[101, 102, 103]"]
        build_levels.simps [of toy_hash "[166, 103]"] build_levels.simps [of toy_hash "[230]"]
        hashPair_def toy_hash_pair)
  have l: "map toy_hash [leaf_preimage 1 1 5, leaf_preimage 2 1 6, leaf_preimage 3 1 7] = [101, 102, 103]"
    "toy_hash (leaf_preimage 1 1 5) = 101"
    by (simp_all add: toy_hash_leaf)
  have "inj_on toy_hash {leaf_preimage 1 1 5, leaf_preimage 2 1 6, leaf_preimage 3 1 7,
      pair_preimage 101 102, pair_preimage 166 103}"
    by (rule inj_onI) (auto simp: toy_hash_leaf toy_hash_pair)
  then show "inj_on toy_hash (set [leaf_preimage 1 1 5, leaf_preimage 2 1 6, leaf_preimage 3 1 7]
      \<union> set (build_queries toy_hash (map toy_hash [leaf_preimage 1 1 5, leaf_preimage 2 1 6, leaf_preimage 3 1 7]))
      \<union> {leaf_preimage 1 1 5}
      \<union> set (replay_queries toy_hash (toy_hash (leaf_preimage 1 1 5)) [102, 103]))"
    unfolding l by (rule inj_on_subset) (auto simp: build_queries_def bl hashPair_def toy_hash_pair)
  show "Verify toy_hash (Root (Build toy_hash (map toy_hash
      [leaf_preimage 1 1 5, leaf_preimage 2 1 6, leaf_preimage 3 1 7])))
      (toy_hash (leaf_preimage 1 1 5)) [102, 103]"
    unfolding l by (simp add: Verify_def Root_Build bl replay_def hashPair_def toy_hash_pair)
qed auto

text \<open>The digest of an asset list depends only on the set of its addresses, and two
  lists with the same digest have the same addresses unless Keccak collides on their packed
  encodings.\<close>

theorem AssetsHash_identifies_set:
  "(set xs = set ys \<longrightarrow> AssetsHash k xs = AssetsHash k ys)
   \<and> (inj_on k {concat (map addr_bytes (sorted_list_of_set (set zs))) |zs. zs \<in> {xs, ys}}
      \<longrightarrow> AssetsHash k xs = AssetsHash k ys \<longrightarrow> set xs = set ys)"
proof (intro conjI impI)
  assume "inj_on k {concat (map addr_bytes (sorted_list_of_set (set zs))) |zs. zs \<in> {xs, ys}}"
    and "AssetsHash k xs = AssetsHash k ys"
  then have "concat (map addr_bytes (sorted_list_of_set (set xs)))
      = concat (map addr_bytes (sorted_list_of_set (set ys)))"
    unfolding AssetsHash_set by (auto dest!: inj_onD)
  then have "sorted_list_of_set (set xs) = sorted_list_of_set (set ys)"
    by (simp only: addr_concat_inject)
  then show "set xs = set ys" by (metis List.finite_set set_sorted_list_of_set)
qed (simp add: AssetsHash_set)

theorem AssetsHash_identifies_set_witness:
  "AssetsHash toy_hash [3, 1, 3] = AssetsHash toy_hash [1, 3]
   \<and> AssetsHash toy_hash [3, 1] \<noteq> AssetsHash toy_hash [1, 2]"
proof
  show "AssetsHash toy_hash [3, 1, 3] = AssetsHash toy_hash [1, 3]"
    by (rule AssetsHash_identifies_set [THEN conjunct1, rule_format]) auto
  have ne: "set [3, 1 :: address] \<noteq> set [1, 2]"
  proof
    assume "set [3, 1 :: address] = set [1, 2]"
    moreover have "3 \<in> set [3, 1 :: address]" "3 \<notin> set [1, 2 :: address]" by simp_all
    ultimately show False by blast
  qed
  have "toy_hash (concat (map addr_bytes [1, 3])) \<noteq> toy_hash (concat (map addr_bytes [1, 2]))"
    by (simp add: toy_hash_def of_be_def be_nat_append be_nat_be_bytes)
  then have "inj_on toy_hash {concat (map addr_bytes [1, 3]), concat (map addr_bytes [1, 2])}"
    by (auto intro!: inj_onI)
  then have "inj_on toy_hash {concat (map addr_bytes (sorted_list_of_set (set zs))) |zs. zs \<in> {[3, 1], [1, 2]}}"
  proof (rule inj_on_subset)
    have "\<not> (3 :: address) \<le> 1" "(1 :: address) \<le> 2" "\<not> (2 :: address) \<le> 1" by (simp_all add: word_le_nat_alt)
    then have "sorted_list_of_set (set [3, 1 :: address]) = [1, 3]" "sorted_list_of_set (set [1, 2 :: address]) = [1, 2]"
      by (simp_all add: insort_key.simps)
    then show "{concat (map addr_bytes (sorted_list_of_set (set zs))) |zs. zs \<in> {[3, 1], [1, 2]}}
        \<subseteq> {concat (map addr_bytes [1, 3]), concat (map addr_bytes [1, 2])}" by auto
  qed
  then show "AssetsHash toy_hash [3, 1] \<noteq> AssetsHash toy_hash [1, 2]"
    using AssetsHash_identifies_set [of "[3, 1]" "[1, 2]" toy_hash] ne by blast
qed

text \<open>Two trees over leaf preimages with the same root have the same preimages, unless Keccak
  collides on the strings hashed for them.\<close>

theorem merkle_root_binds:
  assumes "pres \<noteq> []" "pres' \<noteq> []" and "\<forall>p \<in> set pres \<union> set pres'. length p \<noteq> 64"
    and "Root (Build k (map k pres)) = Root (Build k (map k pres'))"
    and "inj_on k (set pres \<union> set (build_queries k (map k pres)) \<union> set pres' \<union> set (build_queries k (map k pres')))"
  shows "set pres = set pres'"
proof -
  have l: "leaf_list pres" "leaf_list pres'" using assms(1-3) by (auto simp: leaf_list_def)
  have "inj_on k (leaf_strings k pres \<union> leaf_strings k pres')"
    using assms(5) by (simp add: leaf_strings_def Un_assoc)
  then have "c \<in> set pres \<longleftrightarrow> c \<in> set pres'" if "length c \<noteq> 64" for c
    using leaves.binding [OF l that assms(4)] by simp
  then show ?thesis using assms(3) by auto
qed

theorem merkle_root_binds_witness:
  "set [leaf_preimage 1 1 5, leaf_preimage 2 1 6] = set [leaf_preimage 2 1 6, leaf_preimage 1 1 5]"
proof (rule merkle_root_binds [where k = toy_hash])
  have bl: "build_levels toy_hash [101, 102] = [[101, 102], [166]]" "build_levels toy_hash [102, 101] = [[102, 101], [166]]"
    by (simp_all add: build_levels.simps [of toy_hash "[101, 102]"] build_levels.simps [of toy_hash "[102, 101]"]
        build_levels.simps [of toy_hash "[166]"] hashPair_def toy_hash_pair)
  have l: "map toy_hash [leaf_preimage 1 1 5, leaf_preimage 2 1 6] = [101, 102]"
    "map toy_hash [leaf_preimage 2 1 6, leaf_preimage 1 1 5] = [102, 101]"
    by (simp_all add: toy_hash_leaf)
  show "Root (Build toy_hash (map toy_hash [leaf_preimage 1 1 5, leaf_preimage 2 1 6]))
      = Root (Build toy_hash (map toy_hash [leaf_preimage 2 1 6, leaf_preimage 1 1 5]))"
    unfolding l by (simp add: Root_Build bl)
  have "inj_on toy_hash {leaf_preimage 1 1 5, leaf_preimage 2 1 6, pair_preimage 101 102}"
    by (rule inj_onI) (auto simp: toy_hash_leaf toy_hash_pair)
  then show "inj_on toy_hash (set [leaf_preimage 1 1 5, leaf_preimage 2 1 6]
      \<union> set (build_queries toy_hash (map toy_hash [leaf_preimage 1 1 5, leaf_preimage 2 1 6]))
      \<union> set [leaf_preimage 2 1 6, leaf_preimage 1 1 5]
      \<union> set (build_queries toy_hash (map toy_hash [leaf_preimage 2 1 6, leaf_preimage 1 1 5])))"
    unfolding l by (rule inj_on_subset) (auto simp: build_queries_def bl pair_preimage_commute)
qed auto

end
