(* ===== verification/EvmLog.thy ===== *)
theory EvmLog
  imports Prelude
begin

text \<open>
  The log decoder of \<open>internal/evmlog/decode.go\<close>: token standards, participant roles,
  the watched event signatures and \<open>Decode\<close>, which reads participants out of indexed
  topics. The signatures are hashes of their ASCII text, so they depend on the hash
  function \<open>k\<close>. A log is the part of go-ethereum's \<open>types.Log\<close> the source reads.
\<close>

section \<open>Data\<close>

datatype Standard = StandardUnknown | StandardERC20 | StandardERC721 | StandardERC1155

text \<open>The \<open>uint8\<close> a standard is stored as.\<close>

fun standard_code :: "Standard \<Rightarrow> nat" where
  "standard_code StandardUnknown = 0"
| "standard_code StandardERC20 = 20"
| "standard_code StandardERC721 = 21"
| "standard_code StandardERC1155 = 55"

fun standard_string :: "Standard \<Rightarrow> string" where
  "standard_string StandardERC20 = ''erc20''"
| "standard_string StandardERC721 = ''erc721''"
| "standard_string StandardERC1155 = ''erc1155''"
| "standard_string StandardUnknown = ''unknown''"

datatype Role = RoleSender | RoleReceiver | RoleOwner | RoleSpender | RoleOperator

text \<open>The \<open>uint8\<close> a role is stored as: \<open>iota + 1\<close> in the order of the constants.\<close>

fun role_code :: "Role \<Rightarrow> nat" where
  "role_code RoleSender = 1"
| "role_code RoleReceiver = 2"
| "role_code RoleOwner = 3"
| "role_code RoleSpender = 4"
| "role_code RoleOperator = 5"

fun role_string :: "Role \<Rightarrow> string" where
  "role_string RoleSender = ''sender''"
| "role_string RoleReceiver = ''receiver''"
| "role_string RoleOwner = ''owner''"
| "role_string RoleSpender = ''spender''"
| "role_string RoleOperator = ''operator''"

definition SigTransfer :: "hashfn \<Rightarrow> hash" where
  "SigTransfer k = k (ascii ''Transfer(address,address,uint256)'')"

definition SigApproval :: "hashfn \<Rightarrow> hash" where
  "SigApproval k = k (ascii ''Approval(address,address,uint256)'')"

definition SigApprovalForAll :: "hashfn \<Rightarrow> hash" where
  "SigApprovalForAll k = k (ascii ''ApprovalForAll(address,address,bool)'')"

definition SigTransferSingle :: "hashfn \<Rightarrow> hash" where
  "SigTransferSingle k = k (ascii ''TransferSingle(address,address,address,uint256,uint256)'')"

definition SigTransferBatch :: "hashfn \<Rightarrow> hash" where
  "SigTransferBatch k = k (ascii ''TransferBatch(address,address,address,uint256[],uint256[])'')"

lemmas sig_defs = SigTransfer_def SigApproval_def SigApprovalForAll_def
  SigTransferSingle_def SigTransferBatch_def

record Participant =
  part_address :: address
  part_role :: Role

record Decoded =
  dec_standard :: Standard
  dec_event :: string
  dec_participants :: "Participant list"

record evm_log =
  log_address :: address
  log_topics :: "hash list"
  log_block :: nat
  log_bhash :: hash
  log_index :: nat
  log_removed :: bool

definition WatchedTopics :: "hashfn \<Rightarrow> hash list list" where
  "WatchedTopics k =
     [[SigTransfer k, SigApproval k, SigApprovalForAll k, SigTransferSingle k, SigTransferBatch k]]"

section \<open>Decoding\<close>

definition topicAddress :: "hash \<Rightarrow> address option" where
  "topicAddress t =
     (if list_ex (\<lambda>b. b \<noteq> 0) (take 12 (hash_bytes t)) then None
      else (let addr = of_be (drop 12 (hash_bytes t)) in
            if addr = 0 then None else Some addr))"

definition append_participant :: "Decoded \<Rightarrow> hash \<Rightarrow> Role \<Rightarrow> Decoded" where
  "append_participant d topic role =
     (case topicAddress topic of
        None \<Rightarrow> d
      | Some addr \<Rightarrow>
          (if list_ex (\<lambda>p. part_address p = addr \<and> part_role p = role) (dec_participants d) then d
           else d\<lparr>dec_participants := dec_participants d @ [\<lparr>part_address = addr, part_role = role\<rparr>]\<rparr>))"

definition decode_pair :: "Standard \<Rightarrow> string \<Rightarrow> evm_log \<Rightarrow> Role \<Rightarrow> Role \<Rightarrow> Decoded option" where
  "decode_pair std event l r1 r2 =
     (let d = \<lparr>dec_standard = std, dec_event = event, dec_participants = []\<rparr>;
          d = append_participant d (log_topics l ! 1) r1;
          d = append_participant d (log_topics l ! 2) r2
      in if dec_participants d = [] then None else Some d)"

definition decode_triple ::
  "Standard \<Rightarrow> string \<Rightarrow> evm_log \<Rightarrow> Role \<Rightarrow> Role \<Rightarrow> Role \<Rightarrow> Decoded option" where
  "decode_triple std event l r1 r2 r3 =
     (let d = \<lparr>dec_standard = std, dec_event = event, dec_participants = []\<rparr>;
          d = append_participant d (log_topics l ! 1) r1;
          d = append_participant d (log_topics l ! 2) r2;
          d = append_participant d (log_topics l ! 3) r3
      in if dec_participants d = [] then None else Some d)"

text \<open>Decode's \<open>switch\<close> takes the first case that matches; a case whose topic count
  does not fit falls out of the switch to the final \<open>return Decoded{}, false\<close>.\<close>

definition Decode :: "hashfn \<Rightarrow> evm_log \<Rightarrow> Decoded option" where
  "Decode k l =
     (let n = length (log_topics l) in
      if n = 0 then None
      else let t0 = log_topics l ! 0 in
        if t0 = SigTransfer k then
          (if n = 3 then decode_pair StandardERC20 ''Transfer'' l RoleSender RoleReceiver
           else if n = 4 then decode_pair StandardERC721 ''Transfer'' l RoleSender RoleReceiver
           else None)
        else if t0 = SigApproval k then
          (if n = 3 then decode_pair StandardERC20 ''Approval'' l RoleOwner RoleSpender
           else if n = 4 then decode_pair StandardERC721 ''Approval'' l RoleOwner RoleSpender
           else None)
        else if t0 = SigApprovalForAll k then
          (if n = 3 then decode_pair StandardUnknown ''ApprovalForAll'' l RoleOwner RoleOperator
           else None)
        else if t0 = SigTransferSingle k \<or> t0 = SigTransferBatch k then
          (if n = 4 then
             decode_triple StandardERC1155
               (if t0 = SigTransferBatch k then ''TransferBatch'' else ''TransferSingle'')
               l RoleOperator RoleSender RoleReceiver
           else None)
        else None)"

definition InferStandard :: "(Standard \<Rightarrow> nat) \<Rightarrow> Standard" where
  "InferStandard seen =
     (if seen StandardERC1155 > 0 then StandardERC1155
      else if seen StandardERC721 > 0 then StandardERC721
      else if seen StandardERC20 > 0 then StandardERC20
      else StandardUnknown)"

section \<open>Topics that hold an address\<close>

lemma unat_ucast_address: "unat (ucast (a :: address) :: hash) = unat a"
proof -
  have "unat a < 2 ^ 256" using unsigned_less [of a, where 'a = nat] by simp
  then show ?thesis by (simp add: unsigned_ucast_eq take_bit_nat_eq_self)
qed

lemma hash_bytes_split:
  "hash_bytes t = nat_be 12 (unat t div 256 ^ 20) @ nat_be 20 (unat t)"
  using nat_be_add [of 12 20 "unat t"] by (simp add: be_bytes_def)

lemma topicAddress_iff: "topicAddress t = Some a \<longleftrightarrow> a \<noteq> 0 \<and> t = ucast a"
proof -
  have lt: "unat t div 256 ^ 20 < 256 ^ 12"
    using unsigned_less [of t, where 'a = nat] by (simp add: less_mult_imp_div_less)
  have hi: "list_ex (\<lambda>b. b \<noteq> 0) (take 12 (hash_bytes t)) \<longleftrightarrow> unat t \<ge> 2 ^ 160"
  proof -
    have "list_ex (\<lambda>b. b \<noteq> 0) (take 12 (hash_bytes t)) \<longleftrightarrow> (unat t div 256 ^ 20) mod 256 ^ 12 \<noteq> 0"
      using nat_be_zero_iff [of 12 "unat t div 256 ^ 20"]
      by (auto simp: hash_bytes_split list_ex_iff)
    also have "\<dots> \<longleftrightarrow> unat t div 256 ^ 20 \<noteq> 0" using lt by simp
    also have "\<dots> \<longleftrightarrow> unat t \<ge> 2 ^ 160" by (simp add: div_eq_0_iff not_less)
    finally show ?thesis .
  qed
  have lo: "(of_be (drop 12 (hash_bytes t)) :: address) = word_of_nat (unat t mod 2 ^ 160)"
    by (simp add: hash_bytes_split of_be_def be_simps)
  have small: "unat t < 2 ^ 160 \<Longrightarrow> (word_of_nat (unat t) :: address) = a \<longleftrightarrow> t = ucast a"
  proof
    assume "unat t < 2 ^ 160" "(word_of_nat (unat t) :: address) = a"
    then have "unat a = unat t" by (auto simp: unsigned_ucast_eq take_bit_nat_eq_self)
    then show "t = ucast a" by (simp add: word_unat_eq_iff unat_ucast_address)
  next
    assume "unat t < 2 ^ 160" "t = ucast a"
    then show "(word_of_nat (unat t) :: address) = a"
      by (simp add: word_unat_eq_iff unat_ucast_address)
  qed
  have up: "t = ucast a \<Longrightarrow> unat t < 2 ^ 160"
    using unsigned_less [of a, where 'a = nat] by (simp add: unat_ucast_address)
  show ?thesis
    by (cases "unat t < 2 ^ 160") (use hi lo small up in \<open>auto simp: topicAddress_def Let_def\<close>)
qed

section \<open>What Decode returns\<close>

definition wf_decoded :: "evm_log \<Rightarrow> Decoded \<Rightarrow> bool" where
  "wf_decoded l d \<longleftrightarrow>
     distinct (dec_participants d)
     \<and> (\<forall>p \<in> set (dec_participants d). part_address p \<noteq> 0
          \<and> ucast (part_address p) \<in> set (tl (log_topics l)))"

lemma wf_decoded_empty [simp]:
  "wf_decoded l \<lparr>dec_standard = std, dec_event = e, dec_participants = []\<rparr>"
  by (simp add: wf_decoded_def)

lemma append_participant_wf:
  "wf_decoded l d \<Longrightarrow> t \<in> set (tl (log_topics l)) \<Longrightarrow> wf_decoded l (append_participant d t r)"
  by (auto simp: append_participant_def wf_decoded_def list_ex_iff topicAddress_iff
      split: option.splits)

lemma append_participant_frame [simp]:
  "dec_standard (append_participant d t r) = dec_standard d"
  "dec_event (append_participant d t r) = dec_event d"
  by (simp_all add: append_participant_def split: option.splits)

lemma append_participant_roles:
  "part_role ` set (dec_participants (append_participant d t r))
     \<subseteq> insert r (part_role ` set (dec_participants d))"
  by (auto simp: append_participant_def split: option.splits if_splits)

lemma tl_nth: "0 < i \<Longrightarrow> i < length ts \<Longrightarrow> ts ! i \<in> set (tl ts)"
  by (cases ts) (auto simp: nth_Cons')

lemma decode_pair_wf:
  "decode_pair std e l r1 r2 = Some d \<Longrightarrow> 3 \<le> length (log_topics l) \<Longrightarrow>
   wf_decoded l d \<and> dec_participants d \<noteq> [] \<and> dec_standard d = std"
  unfolding decode_pair_def Let_def
  by (auto intro!: append_participant_wf tl_nth split: if_splits)

lemma decode_triple_wf:
  "decode_triple std e l r1 r2 r3 = Some d \<Longrightarrow> 4 \<le> length (log_topics l) \<Longrightarrow>
   wf_decoded l d \<and> dec_participants d \<noteq> [] \<and> dec_standard d = std"
  unfolding decode_triple_def Let_def
  by (auto intro!: append_participant_wf tl_nth split: if_splits)

lemma Decode_wf: "Decode k l = Some d \<Longrightarrow> wf_decoded l d \<and> dec_participants d \<noteq> []"
  by (auto simp: Decode_def Let_def dest: decode_pair_wf decode_triple_wf split: if_splits)

lemma Decode_topic0:
  "Decode k l = Some d \<Longrightarrow> log_topics l \<noteq> [] \<and> hd (log_topics l) \<in> set (hd (WatchedTopics k))"
  by (cases "log_topics l") (auto simp: Decode_def WatchedTopics_def Let_def split: if_splits)

section \<open>The table of events\<close>

text \<open>What the comments of the source promise: one row per watched event and topic count,
  with the roles of the indexed addresses in topic order.\<close>

definition event_table :: "hashfn \<Rightarrow> ((hash \<times> nat) \<times> Standard \<times> string \<times> Role list) list" where
  "event_table k =
     [((SigTransfer k, 3), StandardERC20, ''Transfer'', [RoleSender, RoleReceiver]),
      ((SigTransfer k, 4), StandardERC721, ''Transfer'', [RoleSender, RoleReceiver]),
      ((SigApproval k, 3), StandardERC20, ''Approval'', [RoleOwner, RoleSpender]),
      ((SigApproval k, 4), StandardERC721, ''Approval'', [RoleOwner, RoleSpender]),
      ((SigApprovalForAll k, 3), StandardUnknown, ''ApprovalForAll'', [RoleOwner, RoleOperator]),
      ((SigTransferSingle k, 4), StandardERC1155, ''TransferSingle'', [RoleOperator, RoleSender, RoleReceiver]),
      ((SigTransferBatch k, 4), StandardERC1155, ''TransferBatch'', [RoleOperator, RoleSender, RoleReceiver])]"

definition topic_parts :: "hash list \<Rightarrow> Role list \<Rightarrow> (address \<times> Role) set" where
  "topic_parts ts roles = {(a, r). a \<noteq> 0 \<and> (ucast a, r) \<in> set (zip ts roles)}"

definition part_pairs :: "Decoded \<Rightarrow> (address \<times> Role) set" where
  "part_pairs d = (\<lambda>p. (part_address p, part_role p)) ` set (dec_participants d)"

definition decode_spec :: "hashfn \<Rightarrow> evm_log \<Rightarrow> Decoded option \<Rightarrow> bool" where
  "decode_spec k l res \<longleftrightarrow>
     (case log_topics l of [] \<Rightarrow> res = None
      | t0 # ts \<Rightarrow>
        (case map_of (event_table k) (t0, Suc (length ts)) of None \<Rightarrow> res = None
         | Some (std, ev, roles) \<Rightarrow>
             (case res of None \<Rightarrow> topic_parts ts roles = {}
              | Some d \<Rightarrow> dec_standard d = std \<and> dec_event d = ev \<and> distinct (dec_participants d)
                  \<and> part_pairs d = topic_parts ts roles \<and> topic_parts ts roles \<noteq> {})))"

lemma part_pairs_append:
  "part_pairs (append_participant d t r) =
     part_pairs d \<union> {(a, r') |a r'. r' = r \<and> topicAddress t = Some a}"
  by (auto simp: append_participant_def part_pairs_def list_ex_iff image_iff split: option.splits)

lemma part_pairs_empty: "part_pairs d = {} \<longleftrightarrow> dec_participants d = []"
  by (simp add: part_pairs_def)

lemma distinct_append_participant:
  "distinct (dec_participants d) \<Longrightarrow> distinct (dec_participants (append_participant d t r))"
  by (auto simp: append_participant_def list_ex_iff split: option.splits)

lemmas parts_simps = part_pairs_append topic_parts_def topicAddress_iff distinct_append_participant

lemma decode_pair_spec:
  assumes "log_topics l = t0 # t1 # t2 # ts"
  shows "case decode_pair std ev l r1 r2 of None \<Rightarrow> topic_parts (t1 # t2 # ts) [r1, r2] = {}
     | Some d \<Rightarrow> dec_standard d = std \<and> dec_event d = ev \<and> distinct (dec_participants d)
         \<and> part_pairs d = topic_parts (t1 # t2 # ts) [r1, r2] \<and> topic_parts (t1 # t2 # ts) [r1, r2] \<noteq> {}"
proof -
  let ?d = "append_participant (append_participant
    \<lparr>dec_standard = std, dec_event = ev, dec_participants = []\<rparr> t1 r1) t2 r2"
  have eq: "part_pairs ?d = topic_parts (t1 # t2 # ts) [r1, r2]"
    by (auto simp: parts_simps) (simp_all add: part_pairs_def)
  have ne: "dec_participants ?d = [] \<longleftrightarrow> topic_parts (t1 # t2 # ts) [r1, r2] = {}"
    by (simp only: eq [symmetric] part_pairs_empty)
  have "distinct (dec_participants ?d)" by (simp add: distinct_append_participant)
  then show ?thesis using assms eq ne by (simp add: decode_pair_def Let_def)
qed

lemma decode_triple_spec:
  assumes "log_topics l = t0 # t1 # t2 # t3 # ts"
  shows "case decode_triple std ev l r1 r2 r3 of None \<Rightarrow> topic_parts (t1 # t2 # t3 # ts) [r1, r2, r3] = {}
     | Some d \<Rightarrow> dec_standard d = std \<and> dec_event d = ev \<and> distinct (dec_participants d)
         \<and> part_pairs d = topic_parts (t1 # t2 # t3 # ts) [r1, r2, r3]
         \<and> topic_parts (t1 # t2 # t3 # ts) [r1, r2, r3] \<noteq> {}"
proof -
  let ?d = "append_participant (append_participant (append_participant
    \<lparr>dec_standard = std, dec_event = ev, dec_participants = []\<rparr> t1 r1) t2 r2) t3 r3"
  have eq: "part_pairs ?d = topic_parts (t1 # t2 # t3 # ts) [r1, r2, r3]"
    by (auto simp: parts_simps) (simp_all add: part_pairs_def)
  have ne: "dec_participants ?d = [] \<longleftrightarrow> topic_parts (t1 # t2 # t3 # ts) [r1, r2, r3] = {}"
    by (simp only: eq [symmetric] part_pairs_empty)
  have "distinct (dec_participants ?d)" by (simp add: distinct_append_participant)
  then show ?thesis using assms eq ne by (simp add: decode_triple_def Let_def)
qed

lemma length3: "length ts = 3 \<Longrightarrow> \<exists>a b c. ts = [a, b, c]"
  by (auto simp: length_Suc_conv numeral_3_eq_3)

lemma length4: "length ts = 4 \<Longrightarrow> \<exists>a b c d. ts = [a, b, c, d]"
  by (auto simp: length_Suc_conv numeral_eq_Suc)

lemma Decode_3:
  "log_topics l = [t0, t1, t2] \<Longrightarrow> Decode k l =
     (if t0 = SigTransfer k then decode_pair StandardERC20 ''Transfer'' l RoleSender RoleReceiver
      else if t0 = SigApproval k then decode_pair StandardERC20 ''Approval'' l RoleOwner RoleSpender
      else if t0 = SigApprovalForAll k then decode_pair StandardUnknown ''ApprovalForAll'' l RoleOwner RoleOperator
      else None)"
  by (simp add: Decode_def)

lemma event_table_3:
  "map_of (event_table k) (t0, 3) =
     (if t0 = SigTransfer k then Some (StandardERC20, ''Transfer'', [RoleSender, RoleReceiver])
      else if t0 = SigApproval k then Some (StandardERC20, ''Approval'', [RoleOwner, RoleSpender])
      else if t0 = SigApprovalForAll k then Some (StandardUnknown, ''ApprovalForAll'', [RoleOwner, RoleOperator])
      else None)"
  by (simp add: event_table_def)

lemma Decode_4:
  "log_topics l = [t0, t1, t2, t3] \<Longrightarrow> distinct (hd (WatchedTopics k)) \<Longrightarrow> Decode k l =
     (if t0 = SigTransfer k then decode_pair StandardERC721 ''Transfer'' l RoleSender RoleReceiver
      else if t0 = SigApproval k then decode_pair StandardERC721 ''Approval'' l RoleOwner RoleSpender
      else if t0 = SigTransferSingle k
        then decode_triple StandardERC1155 ''TransferSingle'' l RoleOperator RoleSender RoleReceiver
      else if t0 = SigTransferBatch k
        then decode_triple StandardERC1155 ''TransferBatch'' l RoleOperator RoleSender RoleReceiver
      else None)"
  by (simp add: Decode_def WatchedTopics_def) metis

lemma event_table_4:
  "map_of (event_table k) (t0, 4) =
     (if t0 = SigTransfer k then Some (StandardERC721, ''Transfer'', [RoleSender, RoleReceiver])
      else if t0 = SigApproval k then Some (StandardERC721, ''Approval'', [RoleOwner, RoleSpender])
      else if t0 = SigTransferSingle k
        then Some (StandardERC1155, ''TransferSingle'', [RoleOperator, RoleSender, RoleReceiver])
      else if t0 = SigTransferBatch k
        then Some (StandardERC1155, ''TransferBatch'', [RoleOperator, RoleSender, RoleReceiver])
      else None)"
  by (simp add: event_table_def)

lemma decode_spec_Cons:
  "log_topics l = t0 # ts \<Longrightarrow> decode_spec k l res \<longleftrightarrow>
     (case map_of (event_table k) (t0, Suc (length ts)) of None \<Rightarrow> res = None
      | Some (std, ev, roles) \<Rightarrow>
          (case res of None \<Rightarrow> topic_parts ts roles = {}
           | Some d \<Rightarrow> dec_standard d = std \<and> dec_event d = ev \<and> distinct (dec_participants d)
               \<and> part_pairs d = topic_parts ts roles \<and> topic_parts ts roles \<noteq> {}))"
  by (simp only: decode_spec_def list.case)

lemma decode_spec_3: "log_topics l = [t0, t1, t2] \<Longrightarrow> decode_spec k l (Decode k l)"
  using decode_pair_spec [of l t0 t1 t2 "[]"] event_table_3 [of k t0]
  by (simp only: decode_spec_Cons Decode_3 list.size add_Suc_right add_0_right flip: numeral_3_eq_3) simp

lemma decode_spec_4:
  "log_topics l = [t0, t1, t2, t3] \<Longrightarrow> distinct (hd (WatchedTopics k)) \<Longrightarrow> decode_spec k l (Decode k l)"
proof -
  assume l: "log_topics l = [t0, t1, t2, t3]" and d: "distinct (hd (WatchedTopics k))"
  have n: "Suc (length [t1, t2, t3]) = 4" by simp
  show ?thesis
    using decode_pair_spec [OF l] decode_triple_spec [OF l]
    by (simp only: decode_spec_Cons [OF l] Decode_4 [OF l d] n event_table_4) simp
qed

section \<open>Properties\<close>

text \<open>C34: \<open>Decode\<close> implements the event table. When the five watched signatures have
  different hashes, a log whose first topic and topic count are in the table is decoded with
  the standard and name of its row, and its participants are exactly the non-zero addresses in
  the indexed topics with the role of their position, each pair once; a log without such an
  address, or that is not in the table, is not decoded.\<close>

theorem Decode_implements_table:
  assumes "distinct (hd (WatchedTopics k))"
  shows "decode_spec k l (Decode k l)"
proof -
  consider "length (log_topics l) = 3" | "length (log_topics l) = 4"
    | "length (log_topics l) \<notin> {3, 4}" by blast
  then show ?thesis
  proof cases
    case 1
    then show ?thesis using decode_spec_3 length3 by blast
  next
    case 2
    then show ?thesis using decode_spec_4 [OF _ assms] length4 by blast
  next
    case 3
    then have "Decode k l = None" by (simp add: Decode_def Let_def)
    with 3 show ?thesis by (cases "log_topics l") (simp_all add: decode_spec_def event_table_def)
  qed
qed

text \<open>A stand-in hash that tells the five signatures apart: the first byte and the length.\<close>

definition sig_hash :: hashfn where
  "sig_hash bs = word_of_nat (length bs + 1000 * unat (hd bs))"

lemma sig_hash_values:
  "SigTransfer sig_hash = 84033" "SigApproval sig_hash = 65033"
  "SigApprovalForAll sig_hash = 65036" "SigTransferSingle sig_hash = 84055" "SigTransferBatch sig_hash = 84058"
  by (simp_all add: sig_defs sig_hash_def ascii_def)

theorem Decode_implements_table_witness:
  "decode_spec sig_hash
     \<lparr>log_address = 9, log_topics = [84033, 1, 2], log_block = 5, log_bhash = 7, log_index = 0, log_removed = False\<rparr>
     (Decode sig_hash
       \<lparr>log_address = 9, log_topics = [84033, 1, 2], log_block = 5, log_bhash = 7, log_index = 0, log_removed = False\<rparr>)"
  by (rule Decode_implements_table) (simp add: WatchedTopics_def sig_hash_values)

end
