(* ===== verification/IndexStore.thy ===== *)
theory IndexStore
  imports Prelude "HOL-Library.AList"
begin

unbundle bit_operations_syntax

text \<open>
  The rollup and the pending buffer of \<open>internal/store/index.go\<close>. Each table is an
  association list from its primary key to the other columns; an \<open>INSERT ... ON CONFLICT\<close>
  is an update of that list and a \<open>DELETE\<close> a filter. Block heights, counters and chain
  ids are natural numbers: the columns are \<open>BIGINT\<close>, so stored values stay below \<open>2 ^ 63\<close>.
  The role mask keeps its 32 bits. \<open>updated_at\<close> is not modelled.

  The lemmas give the abstract meaning of the rollup: what \<open>summary\<close> says about a list of
  events is what a row holds, and summaries of event lists with no log in common add up.
\<close>

section \<open>Tables\<close>

record Interaction =
  ia_account :: address
  ia_asset :: address
  ia_first :: nat
  ia_last :: nat
  ia_count :: nat
  ia_roles :: u32

record PendingEvent =
  pe_block :: nat
  pe_bhash :: hash
  pe_logindex :: nat
  pe_asset :: address
  pe_account :: address
  pe_role :: nat

type_synonym row_key = "nat \<times> address \<times> address"
type_synonym pending_key = "nat \<times> nat \<times> hash \<times> nat \<times> address \<times> nat"

record index_db =
  interactions :: "(row_key \<times> Interaction) list"
  pending_events :: "(nat \<times> PendingEvent) list"

definition row_key :: "nat \<Rightarrow> Interaction \<Rightarrow> row_key" where
  "row_key chainID r = (chainID, ia_account r, ia_asset r)"

fun pending_key :: "nat \<times> PendingEvent \<Rightarrow> pending_key" where
  "pending_key (c, e) = (c, pe_block e, pe_bhash e, pe_logindex e, pe_account e, pe_role e)"

section \<open>Writes\<close>

definition merge_row :: "Interaction \<Rightarrow> Interaction \<Rightarrow> Interaction" where
  "merge_row old new = old\<lparr>
     ia_first := min (ia_first old) (ia_first new),
     ia_last := max (ia_last old) (ia_last new),
     ia_count := ia_count old + ia_count new,
     ia_roles := ia_roles old OR ia_roles new\<rparr>"

definition upsert_row ::
  "nat \<Rightarrow> Interaction \<Rightarrow> (row_key \<times> Interaction) list \<Rightarrow> (row_key \<times> Interaction) list" where
  "upsert_row chainID r tab =
     AList.update (row_key chainID r)
       (case map_of tab (row_key chainID r) of None \<Rightarrow> r | Some old \<Rightarrow> merge_row old r) tab"

definition FoldInteractions :: "nat \<Rightarrow> Interaction list \<Rightarrow> 'a index_db_scheme \<Rightarrow> 'a index_db_scheme" where
  "FoldInteractions chainID rows db =
     db\<lparr>interactions := fold (upsert_row chainID) rows (interactions db)\<rparr>"

definition insert_pending_row ::
  "nat \<Rightarrow> PendingEvent \<Rightarrow> (nat \<times> PendingEvent) list \<Rightarrow> (nat \<times> PendingEvent) list" where
  "insert_pending_row chainID e tab =
     (if pending_key (chainID, e) \<in> pending_key ` set tab then tab else tab @ [(chainID, e)])"

definition InsertPending :: "nat \<Rightarrow> PendingEvent list \<Rightarrow> 'a index_db_scheme \<Rightarrow> 'a index_db_scheme" where
  "InsertPending chainID evs db =
     db\<lparr>pending_events := fold (insert_pending_row chainID) evs (pending_events db)\<rparr>"

text \<open>The \<open>agg\<close> query of \<open>PromotePending\<close>: one row per (account, asset) of the moved
  events.\<close>

definition role_mask :: "nat \<Rightarrow> u32" where
  "role_mask role = push_bit (role - 1) 1"

definition agg_row :: "PendingEvent list \<Rightarrow> address \<times> address \<Rightarrow> Interaction" where
  "agg_row moved key =
     (let evs = filter (\<lambda>e. (pe_account e, pe_asset e) = key) moved in
      \<lparr>ia_account = fst key, ia_asset = snd key,
       ia_first = Min (set (map pe_block evs)),
       ia_last = Max (set (map pe_block evs)),
       ia_count = length (remdups (map (\<lambda>e. (pe_block e, pe_logindex e)) evs)),
       ia_roles = fold (\<lambda>e m. m OR role_mask (pe_role e)) evs 0\<rparr>)"

definition agg_rows :: "PendingEvent list \<Rightarrow> Interaction list" where
  "agg_rows moved = map (agg_row moved) (remdups (map (\<lambda>e. (pe_account e, pe_asset e)) moved))"

definition PromotePending :: "nat \<Rightarrow> nat \<Rightarrow> 'a index_db_scheme \<Rightarrow> 'a index_db_scheme \<times> nat" where
  "PromotePending chainID confirmedTo db =
     (let due = (\<lambda>(c, e). c = chainID \<and> pe_block e \<le> confirmedTo);
          moved = map snd (filter due (pending_events db));
          rows = agg_rows moved
      in (FoldInteractions chainID rows
            (db\<lparr>pending_events := filter (Not \<circ> due) (pending_events db)\<rparr>), length rows))"

definition DropPendingFrom :: "nat \<Rightarrow> nat \<Rightarrow> 'a index_db_scheme \<Rightarrow> 'a index_db_scheme \<times> nat" where
  "DropPendingFrom chainID fromBlock db =
     (let gone = (\<lambda>(c, e). c = chainID \<and> fromBlock \<le> pe_block e)
      in (db\<lparr>pending_events := filter (Not \<circ> gone) (pending_events db)\<rparr>,
          length (filter gone (pending_events db))))"

section \<open>Reads\<close>

text \<open>The rows arrive ordered by block number, and a later row overwrites an earlier one of
  the same block; which of two hashes of one block comes last is left open by the query, here
  it is the one buffered last.\<close>

definition PendingBlockHashes :: "nat \<Rightarrow> nat \<Rightarrow> 'a index_db_scheme \<Rightarrow> nat \<Rightarrow> hash option" where
  "PendingBlockHashes chainID fromBlock db =
     map_of (rev (map (\<lambda>(c, e). (pe_block e, pe_bhash e))
       (filter (\<lambda>(c, e). c = chainID \<and> fromBlock \<le> pe_block e) (pending_events db))))"

record AccountAssetSet =
  set_account :: address
  set_assets :: "address list"

definition SnapshotIndex :: "nat \<Rightarrow> nat \<Rightarrow> 'a index_db_scheme \<Rightarrow> AccountAssetSet list" where
  "SnapshotIndex chainID toBlock db =
     (let rows = filter (\<lambda>((c, acc, ast), r). c = chainID \<and> ia_first r \<le> toBlock) (interactions db)
      in map (\<lambda>acc. \<lparr>set_account = acc,
            set_assets = sort (map (\<lambda>((c, a, ast), r). ast) (filter (\<lambda>((c, a, ast), r). a = acc) rows))\<rparr>)
          (sort (remdups (map (\<lambda>((c, a, ast), r). a) rows))))"

definition CoverageRange :: "nat \<Rightarrow> 'a index_db_scheme \<Rightarrow> nat \<times> nat" where
  "CoverageRange chainID db =
     (let rows = map snd (filter (\<lambda>((c, acc, ast), r). c = chainID) (interactions db))
      in if rows = [] then (0, 0)
         else (Min (set (map ia_first rows)), Max (set (map ia_last rows))))"

section \<open>The meaning of a rollup row\<close>

text \<open>An event is one participation of an account in a log of an asset. \<open>summary\<close> is what
  the index promises to keep of a set of them.\<close>

type_synonym event = "(nat \<times> nat) \<times> nat"

record summary =
  s_first :: nat
  s_last :: nat
  s_count :: nat
  s_roles :: u32

definition or_masks :: "nat list \<Rightarrow> u32" where
  "or_masks rs = foldr (\<lambda>r m. role_mask r OR m) rs 0"

definition summarise :: "event list \<Rightarrow> summary option" where
  "summarise evs =
     (if evs = [] then None
      else Some \<lparr>s_first = Min (set (map (fst \<circ> fst) evs)), s_last = Max (set (map (fst \<circ> fst) evs)),
             s_count = card (set (map fst evs)), s_roles = or_masks (map snd evs)\<rparr>)"

definition merge_summary :: "summary \<Rightarrow> summary \<Rightarrow> summary" where
  "merge_summary a b =
     \<lparr>s_first = min (s_first a) (s_first b), s_last = max (s_last a) (s_last b),
      s_count = s_count a + s_count b, s_roles = s_roles a OR s_roles b\<rparr>"

fun add_summary :: "summary option \<Rightarrow> summary option \<Rightarrow> summary option" where
  "add_summary None y = y"
| "add_summary x None = x"
| "add_summary (Some a) (Some b) = Some (merge_summary a b)"

definition row_summary :: "Interaction \<Rightarrow> summary" where
  "row_summary r = \<lparr>s_first = ia_first r, s_last = ia_last r, s_count = ia_count r, s_roles = ia_roles r\<rparr>"

text \<open>The abstraction of the table: what it says about an account and an asset.\<close>

definition rollup :: "'a index_db_scheme \<Rightarrow> row_key \<Rightarrow> summary option" where
  "rollup db key = map_option row_summary (map_of (interactions db) key)"

lemma add_summary_None [simp]: "add_summary x None = x"
  by (cases x) auto

lemma or_masks_append: "or_masks (xs @ ys) = or_masks xs OR or_masks ys"
  by (induction xs) (auto simp: or_masks_def or.assoc)

lemma bit_or_masks: "bit (or_masks rs) n \<longleftrightarrow> (\<exists>r \<in> set rs. bit (role_mask r) n)"
  by (induction rs) (auto simp: or_masks_def bit_or_iff)

lemma or_masks_set: "set rs = set rs' \<Longrightarrow> or_masks rs = or_masks rs'"
  by (rule bit_eqI) (simp add: bit_or_masks)

lemma summarise_append:
  assumes "set (map fst xs) \<inter> set (map fst ys) = {}"
  shows "summarise (xs @ ys) = add_summary (summarise xs) (summarise ys)"
proof (cases "xs = [] \<or> ys = []")
  case True
  then show ?thesis by (auto simp: summarise_def)
next
  case False
  then have "card (set (map fst (xs @ ys))) = card (set (map fst xs)) + card (set (map fst ys))"
    using assms by (simp add: card_Un_disjoint)
  moreover have "Min (set (map (fst \<circ> fst) (xs @ ys)))
      = min (Min (set (map (fst \<circ> fst) xs))) (Min (set (map (fst \<circ> fst) ys)))"
    using False by (simp add: Min_Un)
  moreover have "Max (set (map (fst \<circ> fst) (xs @ ys)))
      = max (Max (set (map (fst \<circ> fst) xs))) (Max (set (map (fst \<circ> fst) ys)))"
    using False by (simp add: Max_Un)
  ultimately show ?thesis
    using False by (simp add: summarise_def merge_summary_def or_masks_append)
qed

lemma summarise_set: "set xs = set ys \<Longrightarrow> summarise xs = summarise ys"
proof -
  assume "set xs = set ys"
  then have "set (map f xs) = set (map f ys)" for f :: "event \<Rightarrow> 'c" by simp
  moreover from \<open>set xs = set ys\<close> have "xs = [] \<longleftrightarrow> ys = []" by auto
  moreover from \<open>set xs = set ys\<close> have "or_masks (map snd xs) = or_masks (map snd ys)"
    by (intro or_masks_set) simp
  ultimately show ?thesis using \<open>set xs = set ys\<close> by (simp add: summarise_def)
qed

section \<open>Writes in terms of the rollup\<close>

definition rows_wf :: "Interaction list \<Rightarrow> bool" where
  "rows_wf rows \<longleftrightarrow> distinct (map (\<lambda>r. (ia_account r, ia_asset r)) rows)"

definition find_row :: "Interaction list \<Rightarrow> address \<times> address \<Rightarrow> Interaction option" where
  "find_row rows key = find (\<lambda>r. (ia_account r, ia_asset r) = key) rows"

lemma find_row_Cons:
  "find_row (r # rows) key = (if (ia_account r, ia_asset r) = key then Some r else find_row rows key)"
  by (simp add: find_row_def)

lemma upsert_row_lookup:
  "map_option row_summary (map_of (upsert_row c r tab) key) =
     (if key = row_key c r
      then add_summary (map_option row_summary (map_of tab key)) (Some (row_summary r))
      else map_option row_summary (map_of tab key))"
  by (auto simp: upsert_row_def update_conv merge_row_def merge_summary_def row_summary_def
      split: option.splits)

lemma fold_upsert_lookup:
  assumes "rows_wf rows"
  shows "map_option row_summary (map_of (fold (upsert_row c) rows tab) key) =
     add_summary (map_option row_summary (map_of tab key))
       (if fst key = c then map_option row_summary (find_row rows (snd key)) else None)"
  using assms
proof (induction rows arbitrary: tab)
  case Nil
  then show ?case by (simp add: find_row_def)
next
  case (Cons r rows)
  have wf: "rows_wf rows" using Cons.prems by (simp add: rows_wf_def)
  have fresh: "find_row rows (ia_account r, ia_asset r) = None"
    using Cons.prems by (auto simp: rows_wf_def find_row_def find_None_iff image_iff)
  show ?case
    using Cons.IH [OF wf, of "upsert_row c r tab"] fresh
    by (cases "key = row_key c r") (auto simp: upsert_row_lookup row_key_def find_row_Cons)
qed

lemma rollup_Fold:
  "rows_wf rows \<Longrightarrow> rollup (FoldInteractions c rows db) key =
     add_summary (rollup db key)
       (if fst key = c then map_option row_summary (find_row rows (snd key)) else None)"
  by (simp add: rollup_def FoldInteractions_def fold_upsert_lookup)

definition events_of :: "PendingEvent list \<Rightarrow> address \<times> address \<Rightarrow> event list" where
  "events_of evs key = map (\<lambda>e. ((pe_block e, pe_logindex e), pe_role e))
     (filter (\<lambda>e. (pe_account e, pe_asset e) = key) evs)"

lemma fold_or_masks: "fold (\<lambda>e m. m OR role_mask (f e)) evs a = a OR or_masks (map f evs)"
  by (induction evs arbitrary: a) (auto simp: or_masks_def or.assoc or.commute or.left_commute)

lemma agg_row_summary:
  "events_of moved key \<noteq> [] \<Longrightarrow> Some (row_summary (agg_row moved key)) = summarise (events_of moved key)"
  by (auto simp: agg_row_def row_summary_def summarise_def events_of_def Let_def fold_or_masks
      comp_def length_remdups_card_conv)

lemma find_agg_rows:
  "map_option row_summary (find_row (agg_rows moved) key) = summarise (events_of moved key)"
proof (cases "events_of moved key = []")
  case True
  then have "\<forall>e \<in> set moved. (pe_account e, pe_asset e) \<noteq> key"
    by (auto simp: events_of_def filter_empty_conv)
  then have "find_row (agg_rows moved) key = None"
    by (auto simp: find_row_def find_None_iff agg_rows_def agg_row_def Let_def)
  with True show ?thesis by (simp add: summarise_def)
next
  case False
  then obtain e where e: "e \<in> set moved" "(pe_account e, pe_asset e) = key"
    by (auto simp: events_of_def filter_empty_conv)
  have key: "(ia_account (agg_row moved x), ia_asset (agg_row moved x)) = x" for x
    by (simp add: agg_row_def Let_def)
  have "find (\<lambda>r. (ia_account r, ia_asset r) = key) (map (agg_row moved) ks)
      = (if key \<in> set ks then Some (agg_row moved key) else None)" for ks
    by (induction ks) (auto simp: key)
  with e have "find_row (agg_rows moved) key = Some (agg_row moved key)"
    by (auto simp: find_row_def agg_rows_def image_iff)
  with False show ?thesis by (simp add: agg_row_summary)
qed

lemma agg_rows_wf: "rows_wf (agg_rows moved)"
  by (auto simp: rows_wf_def agg_rows_def agg_row_def Let_def comp_def)

text \<open>What a confirmed height moves out of the buffer.\<close>

definition due_events :: "nat \<Rightarrow> nat \<Rightarrow> 'a index_db_scheme \<Rightarrow> PendingEvent list" where
  "due_events c to db = map snd (filter (\<lambda>(c', e). c' = c \<and> pe_block e \<le> to) (pending_events db))"

lemma set_due_events: "set (due_events c to db) = {e. (c, e) \<in> set (pending_events db) \<and> pe_block e \<le> to}"
  unfolding due_events_def by (auto simp: image_iff intro: bexI)

lemma rollup_Promote:
  "rollup (fst (PromotePending c to db)) key =
     add_summary (rollup db key)
       (if fst key = c then summarise (events_of (due_events c to db) (snd key)) else None)"
  unfolding PromotePending_def Let_def fst_conv
  by (subst rollup_Fold [OF agg_rows_wf])
    (simp add: find_agg_rows rollup_def due_events_def)

lemma pending_Promote:
  "pending_events (fst (PromotePending c to db)) =
     filter (\<lambda>(c', e). \<not> (c' = c \<and> pe_block e \<le> to)) (pending_events db)"
  by (auto simp: PromotePending_def FoldInteractions_def Let_def intro!: filter_cong)

lemma rollup_Insert [simp]: "rollup (InsertPending c evs db) = rollup db"
  by (simp add: InsertPending_def rollup_def fun_eq_iff)

lemma rollup_Drop [simp]: "rollup (fst (DropPendingFrom c b db)) = rollup db"
  by (simp add: DropPendingFrom_def rollup_def Let_def fun_eq_iff)

text \<open>Buffered rows have distinct keys, and inserting a buffered row again changes nothing.\<close>

definition pending_wf :: "'a index_db_scheme \<Rightarrow> bool" where
  "pending_wf db \<longleftrightarrow> distinct (map pending_key (pending_events db))"

lemma set_insert_pending:
  "pending_key ` set (fold (insert_pending_row c) evs tab) =
     pending_key ` set tab \<union> pending_key ` (\<lambda>e. (c, e)) ` set evs"
  by (induction evs arbitrary: tab) (auto simp: insert_pending_row_def)

lemma insert_pending_wf: "pending_wf db \<Longrightarrow> pending_wf (InsertPending c evs db)"
proof -
  have "distinct (map pending_key tab) \<Longrightarrow>
    distinct (map pending_key (fold (insert_pending_row c) evs tab))" for tab
  proof (induction evs arbitrary: tab)
    case Nil
    then show ?case by simp
  next
    case (Cons e evs)
    have "distinct (map pending_key (insert_pending_row c e tab))"
      using Cons.prems by (auto simp: insert_pending_row_def image_iff)
    then show ?case by (simp add: Cons.IH)
  qed
  then show "pending_wf db \<Longrightarrow> pending_wf (InsertPending c evs db)"
    by (simp add: pending_wf_def InsertPending_def)
qed

lemma insert_pending_again:
  "pending_key ` (\<lambda>e. (c, e)) ` set evs \<subseteq> pending_key ` set tab
    \<Longrightarrow> fold (insert_pending_row c) evs tab = tab"
  by (induction evs) (auto simp: insert_pending_row_def)

lemma InsertPending_idem: "InsertPending c evs (InsertPending c evs db) = InsertPending c evs db"
  by (simp add: InsertPending_def insert_pending_again set_insert_pending)

section \<open>The contract of a mergeable rollup\<close>

text \<open>What the indexer relies on when it folds windows of a chain one at a time and in any
  order: the summary of two lists of events that share no log is the merge of their
  summaries, and merging is commutative and associative.\<close>

locale mergeable =
  fixes summ :: "'e list \<Rightarrow> 's" and add :: "'s \<Rightarrow> 's \<Rightarrow> 's" and ref :: "'e \<Rightarrow> 'r"
  assumes add_assoc: "add (add x y) z = add x (add y z)"
    and add_commute: "add x y = add y x"
    and add_empty: "add x (summ []) = x"
    and summ_append: "ref ` set xs \<inter> ref ` set ys = {} \<Longrightarrow> summ (xs @ ys) = add (summ xs) (summ ys)"
begin

fun apart :: "'e list list \<Rightarrow> bool" where
  "apart [] = True"
| "apart (w # ws) = (ref ` set w \<inter> ref ` set (concat ws) = {} \<and> apart ws)"

lemma fold_windows: "apart ws \<Longrightarrow> fold (\<lambda>w a. add a (summ w)) ws a = add a (summ (concat ws))"
  by (induction ws arbitrary: a) (simp_all add: add_empty add_assoc summ_append)

lemma fold_order: "mset ws = mset ws' \<Longrightarrow> fold (\<lambda>w a. add a (summ w)) ws a = fold (\<lambda>w a. add a (summ w)) ws' a"
proof (rule fold_multiset_equiv [THEN fun_cong])
  show "\<And>x y. x \<in> set ws \<Longrightarrow> y \<in> set ws \<Longrightarrow>
      (\<lambda>a. add a (summ x)) \<circ> (\<lambda>a. add a (summ y)) = (\<lambda>a. add a (summ y)) \<circ> (\<lambda>a. add a (summ x))"
    by (simp add: fun_eq_iff add_assoc add_commute [of "summ _" "summ _"])
qed

end

lemma merge_summary_assoc: "merge_summary (merge_summary a b) c = merge_summary a (merge_summary b c)"
  by (simp add: merge_summary_def or.assoc min.assoc max.assoc)

lemma merge_summary_commute: "merge_summary a b = merge_summary b a"
  by (simp add: merge_summary_def or.commute min.commute max.commute)

interpretation rows: mergeable summarise add_summary "fst :: event \<Rightarrow> nat \<times> nat"
proof
  show "add_summary (add_summary x y) z = add_summary x (add_summary y z)" for x y z
    by (cases x; cases y; cases z) (simp_all add: merge_summary_assoc)
  show "add_summary x y = add_summary y x" for x y
    by (cases x; cases y) (simp_all add: merge_summary_commute)
qed (simp_all add: summarise_append, simp add: summarise_def)

end
