(* ===== verification/Aggregate.thy ===== *)
theory Aggregate
  imports EvmLog IndexStore
begin

unbundle bit_operations_syntax

text \<open>
  Folding logs into rollup rows and into pending rows: \<open>internal/indexer/aggregate.go\<close>.
  The Go map from (account, asset) to an accumulator is an association list in the order of
  first insertion; the source ranges over the map, so the order of the returned rows is not
  promised, and no lemma depends on it. The lemmas show that a row is the summary of its
  events, that windows with no log in common can be folded one by one, and that the
  buffered path of the follower and the direct path of the backfiller write the same rollup.
\<close>

section \<open>Definitions\<close>

record acc =
  acc_row :: Interaction
  acc_seen :: "(nat \<times> nat) list"

type_synonym by_key = "((address \<times> address) \<times> acc) list"

definition roleBit :: "Role \<Rightarrow> u32" where
  "roleBit r = push_bit (role_code r - 1) 1"

definition new_acc :: "evm_log \<Rightarrow> Participant \<Rightarrow> acc" where
  "new_acc l p =
     \<lparr>acc_row = \<lparr>ia_account = part_address p, ia_asset = log_address l,
        ia_first = log_block l, ia_last = log_block l, ia_count = 0, ia_roles = 0\<rparr>,
      acc_seen = []\<rparr>"

definition note_event :: "evm_log \<Rightarrow> Participant \<Rightarrow> acc \<Rightarrow> acc" where
  "note_event l p a =
     (let row = acc_row a;
          row = (if log_block l < ia_first row then row\<lparr>ia_first := log_block l\<rparr> else row);
          row = (if log_block l > ia_last row then row\<lparr>ia_last := log_block l\<rparr> else row);
          row = row\<lparr>ia_roles := ia_roles row OR roleBit (part_role p)\<rparr>
      in \<lparr>acc_row = row, acc_seen = List.insert (log_block l, log_index l) (acc_seen a)\<rparr>)"

definition agg_participant :: "evm_log \<Rightarrow> Participant \<Rightarrow> by_key \<Rightarrow> by_key" where
  "agg_participant l p byKey =
     (let key = (part_address p, log_address l);
          a = (case map_of byKey key of None \<Rightarrow> new_acc l p | Some a \<Rightarrow> a)
      in AList.update key (note_event l p a) byKey)"

definition agg_log :: "hashfn \<Rightarrow> evm_log \<Rightarrow> by_key \<Rightarrow> by_key" where
  "agg_log k l byKey =
     (if log_removed l then byKey
      else case Decode k l of None \<Rightarrow> byKey
           | Some d \<Rightarrow> fold (agg_participant l) (dec_participants d) byKey)"

definition acc_result :: "acc \<Rightarrow> Interaction" where
  "acc_result a = (acc_row a)\<lparr>ia_count := length (acc_seen a)\<rparr>"

definition Aggregate :: "hashfn \<Rightarrow> evm_log list \<Rightarrow> Interaction list" where
  "Aggregate k logs = map (acc_result \<circ> snd) (fold (agg_log k) logs [])"

definition pending_of :: "evm_log \<Rightarrow> Participant \<Rightarrow> PendingEvent" where
  "pending_of l p =
     \<lparr>pe_block = log_block l, pe_bhash = log_bhash l, pe_logindex = log_index l mod 2 ^ 32,
      pe_asset = log_address l, pe_account = part_address p, pe_role = role_code (part_role p)\<rparr>"

definition PendingFrom :: "hashfn \<Rightarrow> evm_log list \<Rightarrow> PendingEvent list" where
  "PendingFrom k logs = concat (map (\<lambda>l.
     if log_removed l then []
     else case Decode k l of None \<Rightarrow> []
          | Some d \<Rightarrow> map (pending_of l) (dec_participants d)) logs)"

definition all_roles :: "Role list" where
  "all_roles = [RoleSender, RoleReceiver, RoleOwner, RoleSpender, RoleOperator]"

definition RoleNames :: "u32 \<Rightarrow> string list" where
  "RoleNames m = map role_string (filter (\<lambda>r. m AND roleBit r \<noteq> 0) all_roles)"

fun ObservedStandards :: "hashfn \<Rightarrow> evm_log list \<Rightarrow> Standard \<Rightarrow> nat" where
  "ObservedStandards k [] = (\<lambda>_. 0)"
| "ObservedStandards k (l # ls) =
     (let seen = ObservedStandards k ls in
      case Decode k l of
        None \<Rightarrow> seen
      | Some d \<Rightarrow> (if dec_standard d \<noteq> StandardUnknown
                  then seen(dec_standard d := seen (dec_standard d) + 1) else seen))"

section \<open>A row is the summary of its events\<close>

text \<open>The participations a log list holds, and those of one account in one asset.\<close>

definition participations :: "hashfn \<Rightarrow> evm_log list \<Rightarrow> (evm_log \<times> Participant) list" where
  "participations k logs = concat (map (\<lambda>l.
     if log_removed l then []
     else case Decode k l of None \<Rightarrow> [] | Some d \<Rightarrow> map (Pair l) (dec_participants d)) logs)"

definition part_events :: "(evm_log \<times> Participant) list \<Rightarrow> address \<times> address \<Rightarrow> event list" where
  "part_events ps key =
     map (\<lambda>(l, p). ((log_block l, log_index l), role_code (part_role p)))
       (filter (\<lambda>(l, p). (part_address p, log_address l) = key) ps)"

lemma participations_append [simp]:
  "participations k (xs @ ys) = participations k xs @ participations k ys"
  by (simp add: participations_def)

lemma part_events_append [simp]: "part_events (xs @ ys) key = part_events xs key @ part_events ys key"
  by (simp add: part_events_def)

lemma fold_agg_log:
  "fold (agg_log k) logs b = fold (\<lambda>(l, p). agg_participant l p) (participations k logs) b"
proof (induction logs arbitrary: b)
  case Nil
  then show ?case by (simp add: participations_def)
next
  case (Cons l logs)
  have "fold (\<lambda>(l, p). agg_participant l p) (participations k [l]) b = agg_log k l b"
    by (auto simp: participations_def agg_log_def fold_map comp_def split: option.splits)
  then show ?case using Cons.IH participations_append [of k "[l]" logs] by simp
qed

definition acc_ok :: "address \<times> address \<Rightarrow> event list \<Rightarrow> acc \<Rightarrow> bool" where
  "acc_ok key evs a \<longleftrightarrow> (ia_account (acc_row a), ia_asset (acc_row a)) = key
     \<and> evs \<noteq> [] \<and> distinct (acc_seen a) \<and> set (acc_seen a) = set (map fst evs)
     \<and> ia_first (acc_row a) = Min (set (map (fst \<circ> fst) evs))
     \<and> ia_last (acc_row a) = Max (set (map (fst \<circ> fst) evs))
     \<and> ia_roles (acc_row a) = or_masks (map snd evs)"

lemma acc_ok_summary: "acc_ok key evs a \<Longrightarrow> Some (row_summary (acc_result a)) = summarise evs"
  by (auto simp: acc_ok_def acc_result_def row_summary_def summarise_def comp_def
      simp flip: distinct_card)

lemma role_mask_roleBit: "role_mask (role_code r) = roleBit r"
  by (simp add: role_mask_def roleBit_def)

lemma or_masks_snoc: "or_masks (rs @ [r]) = or_masks rs OR role_mask r"
  by (simp add: or_masks_append) (simp add: or_masks_def)

lemma note_new_ok:
  "acc_ok (part_address p, log_address l) [((log_block l, log_index l), role_code (part_role p))]
     (note_event l p (new_acc l p))"
  by (simp add: acc_ok_def note_event_def new_acc_def or_masks_def role_mask_roleBit Let_def)

lemma note_event_fields:
  "ia_account (acc_row (note_event l p a)) = ia_account (acc_row a)"
  "ia_asset (acc_row (note_event l p a)) = ia_asset (acc_row a)"
  "ia_first (acc_row (note_event l p a)) = min (log_block l) (ia_first (acc_row a))"
  "ia_last (acc_row (note_event l p a)) = max (log_block l) (ia_last (acc_row a))"
  "ia_roles (acc_row (note_event l p a)) = ia_roles (acc_row a) OR roleBit (part_role p)"
  "acc_seen (note_event l p a) = List.insert (log_block l, log_index l) (acc_seen a)"
  by (auto simp: note_event_def Let_def)

lemma note_event_ok:
  assumes "acc_ok key evs a"
  shows "acc_ok key (evs @ [((log_block l, log_index l), role_code (part_role p))]) (note_event l p a)"
proof -
  define bs where "bs = set (map (fst \<circ> fst) evs)"
  have bs: "bs \<noteq> {}" "finite bs" using assms by (auto simp: acc_ok_def bs_def)
  have set_snoc: "set (map (fst \<circ> fst) (evs @ [((log_block l, log_index l), r)])) = insert (log_block l) bs" for r
    by (auto simp: bs_def)
  show ?thesis
    using assms unfolding acc_ok_def set_snoc note_event_fields bs_def [symmetric]
    by (auto simp: bs Min_insert Max_insert or_masks_snoc role_mask_roleBit)
qed

definition by_key_ok :: "(evm_log \<times> Participant) list \<Rightarrow> by_key \<Rightarrow> bool" where
  "by_key_ok ps b \<longleftrightarrow> distinct (map fst b)
     \<and> (\<forall>key. case map_of b key of None \<Rightarrow> part_events ps key = []
               | Some a \<Rightarrow> acc_ok key (part_events ps key) a)"

lemma by_key_okD:
  assumes "by_key_ok ps b"
  shows "distinct (map fst b)"
    and "map_of b key = None \<Longrightarrow> part_events ps key = []"
    and "map_of b key = Some a \<Longrightarrow> acc_ok key (part_events ps key) a"
  using assms unfolding by_key_ok_def by (metis option.simps(4,5))+

lemma by_key_okI:
  assumes "distinct (map fst b)"
    and "\<And>key. map_of b key = None \<Longrightarrow> part_events ps key = []"
    and "\<And>key a. map_of b key = Some a \<Longrightarrow> acc_ok key (part_events ps key) a"
  shows "by_key_ok ps b"
  unfolding by_key_ok_def using assms by (auto split: option.split)

lemma agg_participant_ok:
  assumes "by_key_ok ps b"
  shows "by_key_ok (ps @ [(l, p)]) (agg_participant l p b)"
proof -
  let ?key = "(part_address p, log_address l)"
  let ?e = "((log_block l, log_index l), role_code (part_role p))"
  have ev: "part_events [(l, p)] key = (if key = ?key then [?e] else [])" for key
    by (auto simp: part_events_def)
  have "acc_ok ?key (part_events ps ?key @ [?e])
      (note_event l p (case map_of b ?key of None \<Rightarrow> new_acc l p | Some a \<Rightarrow> a))"
    using assms note_new_ok [of p l] note_event_ok [of ?key "part_events ps ?key" _ l p]
    by (cases "map_of b ?key") (auto dest: by_key_okD)
  then show ?thesis
    by (intro by_key_okI)
      (use by_key_okD [OF assms] in
        \<open>auto simp: agg_participant_def Let_def update_conv ev distinct_update split: if_splits\<close>)
qed

lemma fold_participations_ok:
  "by_key_ok ps (fold (\<lambda>(l, p). agg_participant l p) ps [])"
proof (induction ps rule: rev_induct)
  case Nil
  then show ?case by (simp add: by_key_ok_def part_events_def)
next
  case (snoc x ps)
  then show ?case by (cases x) (simp add: agg_participant_ok)
qed

lemma find_rows_of_map:
  assumes "distinct (map fst b)" and "\<forall>(key, a) \<in> set b. (ia_account (f a), ia_asset (f a)) = key"
  shows "find_row (map (f \<circ> snd) b) key = map_option f (map_of b key)
    \<and> rows_wf (map (f \<circ> snd) b)"
proof -
  have "map (\<lambda>r. (ia_account r, ia_asset r)) (map (f \<circ> snd) b) = map fst b"
    using assms(2) by auto
  then have "rows_wf (map (f \<circ> snd) b)" using assms(1) by (simp add: rows_wf_def del: map_map)
  moreover have "find_row (map (f \<circ> snd) b) key = map_option f (map_of b key)"
    using assms(2) by (induction b) (auto simp: find_row_def)
  ultimately show ?thesis by blast
qed

lemma Aggregate_rows:
  "rows_wf (Aggregate k logs)"
  "map_option row_summary (find_row (Aggregate k logs) key) = summarise (part_events (participations k logs) key)"
proof -
  let ?ps = "participations k logs"
  let ?b = "fold (agg_log k) logs []"
  have ok: "by_key_ok ?ps ?b" by (simp add: fold_agg_log fold_participations_ok)
  have res_key: "(ia_account (acc_result a), ia_asset (acc_result a)) = key" if "(key, a) \<in> set ?b" for key a
  proof -
    from that have "map_of ?b key = Some a" using ok by (simp add: by_key_ok_def)
    then have "acc_ok key (part_events ?ps key) a" using by_key_okD(3) [OF ok] by blast
    then show "(ia_account (acc_result a), ia_asset (acc_result a)) = key"
      by (simp add: acc_ok_def acc_result_def)
  qed
  then have keys: "\<forall>(key, a) \<in> set ?b. (ia_account (acc_result a), ia_asset (acc_result a)) = key"
    by blast
  have d: "distinct (map fst ?b)" using ok by (simp add: by_key_ok_def)
  note fr = find_rows_of_map [OF d keys]
  show "rows_wf (Aggregate k logs)" using fr by (simp add: Aggregate_def)
  have "map_option row_summary (map_option acc_result (map_of ?b key)) = summarise (part_events ?ps key)"
  proof (cases "map_of ?b key")
    case None
    then show ?thesis using by_key_okD(2) [OF ok None] by (simp add: summarise_def)
  next
    case (Some a)
    then show ?thesis using acc_ok_summary [OF by_key_okD(3) [OF ok Some]] by simp
  qed
  then show "map_option row_summary (find_row (Aggregate k logs) key) = summarise (part_events ?ps key)"
    using fr by (simp add: Aggregate_def)
qed

lemma rollup_Fold_Aggregate:
  "rollup (FoldInteractions c (Aggregate k logs) db) (c', key) =
     add_summary (rollup db (c', key))
       (if c' = c then summarise (part_events (participations k logs) key) else None)"
  by (simp add: rollup_Fold Aggregate_rows)

section \<open>The buffered path\<close>

definition log_ref :: "evm_log \<Rightarrow> nat \<times> nat" where
  "log_ref l = (log_block l, log_index l)"

text \<open>The logs of a chain: a block and an index name one log, and indexes fit 32 bits.\<close>

definition chain_logs :: "evm_log list \<Rightarrow> bool" where
  "chain_logs logs \<longleftrightarrow>
     (\<forall>l \<in> set logs. log_index l < 2 ^ 32 \<and> (\<forall>l' \<in> set logs. log_ref l = log_ref l' \<longrightarrow> l = l'))"

lemma PendingFrom_participations:
  "PendingFrom k logs = map (\<lambda>(l, p). pending_of l p) (participations k logs)"
  by (auto simp: PendingFrom_def participations_def map_concat comp_def
      intro!: arg_cong [of _ _ concat] split: option.splits)

lemma participations_log: "(l, p) \<in> set (participations k logs) \<Longrightarrow> l \<in> set logs"
  by (auto simp: participations_def split: if_splits option.splits)

lemma participations_filter:
  "participations k (filter P logs) = filter (\<lambda>(l, p). P l) (participations k logs)"
  by (induction logs) (auto simp: participations_def comp_def split: option.splits)

lemma set_insert_pending_inj:
  assumes "inj_on pending_key (set tab \<union> (\<lambda>e. (c, e)) ` set evs)"
  shows "set (fold (insert_pending_row c) evs tab) = set tab \<union> (\<lambda>e. (c, e)) ` set evs"
  using assms
proof (induction evs arbitrary: tab)
  case Nil
  then show ?case by simp
next
  case (Cons e evs)
  have tab: "set (insert_pending_row c e tab) = insert (c, e) (set tab)"
    using Cons.prems by (auto simp: insert_pending_row_def inj_on_def image_iff)
  then show ?case
    using Cons.IH [of "insert_pending_row c e tab"] Cons.prems by simp
qed

lemma pending_key_inj:
  assumes "chain_logs logs"
  shows "inj_on pending_key ((\<lambda>e. (c, e)) ` set (PendingFrom k logs))"
proof (rule inj_onI)
  fix x y
  assume "x \<in> (\<lambda>e. (c, e)) ` set (PendingFrom k logs)" "y \<in> (\<lambda>e. (c, e)) ` set (PendingFrom k logs)"
    and eq: "pending_key x = pending_key y"
  then obtain l p l' p' where lp: "(l, p) \<in> set (participations k logs)" "x = (c, pending_of l p)"
      "(l', p') \<in> set (participations k logs)" "y = (c, pending_of l' p')"
    by (auto simp: PendingFrom_participations)
  then have mem: "l \<in> set logs" "l' \<in> set logs" by (auto dest: participations_log)
  then have idx: "log_index l mod 2 ^ 32 = log_index l" "log_index l' mod 2 ^ 32 = log_index l'"
    using assms by (simp_all add: chain_logs_def)
  have "log_ref l = log_ref l'"
    using lp eq idx by (simp add: pending_of_def log_ref_def)
  then have "l = l'" using assms mem unfolding chain_logs_def by blast
  then show "x = y" using lp eq by (simp add: pending_of_def)
qed

lemma filter_insert_pending:
  "filter (\<lambda>(c', e). c' = c) (fold (insert_pending_row c) evs tab)
     = fold (insert_pending_row c) evs (filter (\<lambda>(c', e). c' = c) tab)"
proof (induction evs arbitrary: tab)
  case Nil
  then show ?case by simp
next
  case (Cons e evs)
  have "filter (\<lambda>(c', e). c' = c) (insert_pending_row c e tab)
      = insert_pending_row c e (filter (\<lambda>(c', e). c' = c) tab)"
    by (auto simp: insert_pending_row_def image_iff)
  then show ?case by (simp add: Cons.IH)
qed

lemma due_after_insert:
  assumes "chain_logs logs" and "\<forall>(c', e) \<in> set (pending_events db). c' \<noteq> c"
  shows "set (events_of (due_events c to (InsertPending c (PendingFrom k logs) db)) key)
    = set (part_events (participations k (filter (\<lambda>l. log_block l \<le> to) logs)) key)"
proof -
  let ?evs = "PendingFrom k logs"
  have mem: "(c, e) \<in> set (fold (insert_pending_row c) ?evs (pending_events db)) \<longleftrightarrow> e \<in> set ?evs" for e
  proof -
    have "filter (\<lambda>(c', e). c' = c) (pending_events db) = []"
      using assms(2) by (auto simp: filter_empty_conv)
    then have "set (filter (\<lambda>(c', e). c' = c) (fold (insert_pending_row c) ?evs (pending_events db)))
        = set (fold (insert_pending_row c) ?evs [])"
      by (simp only: filter_insert_pending)
    then have "(c, e) \<in> set (filter (\<lambda>(c', e). c' = c) (fold (insert_pending_row c) ?evs (pending_events db)))
        \<longleftrightarrow> (c, e) \<in> set (fold (insert_pending_row c) ?evs [])"
      by (simp only:)
    then have "(c, e) \<in> set (fold (insert_pending_row c) ?evs (pending_events db)) \<longleftrightarrow>
        (c, e) \<in> set (fold (insert_pending_row c) ?evs [])"
      by simp
    also have "\<dots> \<longleftrightarrow> e \<in> set ?evs"
      using set_insert_pending_inj [of "[]" c ?evs] pending_key_inj [OF assms(1)] by auto
    finally show ?thesis .
  qed
  have idx: "(l, p) \<in> set (participations k logs) \<Longrightarrow> log_index l mod 2 ^ 32 = log_index l" for l p
    using assms(1) by (auto simp: chain_logs_def dest!: participations_log)
  have due: "set (due_events c to (InsertPending c ?evs db)) = {e \<in> set ?evs. pe_block e \<le> to}"
    by (simp add: set_due_events InsertPending_def mem)
  let ?h = "\<lambda>e. ((pe_block e, pe_logindex e), pe_role e)"
  let ?S = "{x \<in> set (participations k logs). log_block (fst x) \<le> to
      \<and> (part_address (snd x), log_address (fst x)) = key}"
  have evs: "set ?evs = (\<lambda>(l, p). pending_of l p) ` set (participations k logs)"
    by (simp add: PendingFrom_participations)
  have "set (events_of (due_events c to (InsertPending c ?evs db)) key)
      = ?h ` {e \<in> set ?evs. pe_block e \<le> to \<and> (pe_account e, pe_asset e) = key}"
    using due by (auto simp: events_of_def)
  also have "{e \<in> set ?evs. pe_block e \<le> to \<and> (pe_account e, pe_asset e) = key}
      = (\<lambda>(l, p). pending_of l p) ` ?S"
    unfolding evs Compr_image_eq
    by (rule arg_cong [where f = "(`) (\<lambda>(l, p). pending_of l p)"]) (auto simp: pending_of_def)
  also have "?h ` (\<lambda>(l, p). pending_of l p) ` ?S
      = (\<lambda>(l, p). ((log_block l, log_index l), role_code (part_role p))) ` ?S"
    unfolding image_image by (rule image_cong) (auto simp: pending_of_def dest: idx)
  also have "\<dots> = set (part_events (participations k (filter (\<lambda>l. log_block l \<le> to) logs)) key)"
    by (auto simp: participations_filter part_events_def)
  finally show ?thesis .
qed

section \<open>Folding windows\<close>

definition fold_windows :: "hashfn \<Rightarrow> nat \<Rightarrow> evm_log list list \<Rightarrow> 'a index_db_scheme \<Rightarrow> 'a index_db_scheme" where
  "fold_windows k c ws db = fold (\<lambda>w. FoldInteractions c (Aggregate k w)) ws db"

text \<open>No log is in two windows.\<close>

fun windows_apart :: "evm_log list list \<Rightarrow> bool" where
  "windows_apart [] = True"
| "windows_apart (w # ws) = (log_ref ` set w \<inter> log_ref ` set (concat ws) = {} \<and> windows_apart ws)"

lemma part_events_refs: "fst ` set (part_events (participations k logs) key) \<subseteq> log_ref ` set logs"
  by (force simp: part_events_def log_ref_def dest: participations_log)

lemma participations_concat:
  "part_events (participations k (concat ws)) key = concat (map (\<lambda>w. part_events (participations k w) key) ws)"
  by (induction ws) (auto simp: participations_def part_events_def)

lemma windows_apart_events:
  "windows_apart ws \<Longrightarrow> rows.apart (map (\<lambda>w. part_events (participations k w) key) ws)"
proof (induction ws)
  case (Cons w ws)
  have "fst ` set (part_events (participations k w) key) \<inter> fst ` set (part_events (participations k (concat ws)) key) = {}"
    using Cons.prems part_events_refs [of k w key] part_events_refs [of k "concat ws" key]
    unfolding windows_apart.simps by blast
  then show ?case using Cons by (simp add: participations_concat)
qed simp

lemma rollup_windows:
  "rollup (fold_windows k c ws db) (c', key) =
     (if c' = c then fold (\<lambda>es a. add_summary a (summarise es))
        (map (\<lambda>w. part_events (participations k w) key) ws) (rollup db (c', key))
      else rollup db (c', key))"
  by (induction ws arbitrary: db) (simp_all add: fold_windows_def rollup_Fold_Aggregate)

section \<open>Properties\<close>

text \<open>C3: Folding a chain's logs window by window, in any order of the windows, leaves every
  row as one fold of all the logs does, and as the summary of that account's events added to
  what was stored, provided no log is in two windows.\<close>

theorem windows_fold_as_one:
  assumes "windows_apart ws" and "mset ws = mset ws'"
  shows "rollup (fold_windows k c ws' db) = rollup (FoldInteractions c (Aggregate k (concat ws)) db)
    \<and> rollup (fold_windows k c ws' db) (c, key) =
        add_summary (rollup db (c, key)) (summarise (part_events (participations k (concat ws)) key))"
proof -
  have one: "rollup (fold_windows k c ws' db) (c', key) =
      rollup (FoldInteractions c (Aggregate k (concat ws)) db) (c', key)" for c' key
  proof -
    let ?es = "\<lambda>ws. map (\<lambda>w. part_events (participations k w) key) ws"
    have "mset (?es ws) = mset (?es ws')" using assms(2) by simp
    then show ?thesis
      using rows.fold_windows [OF windows_apart_events [OF assms(1), of k key]] rows.fold_order [of "?es ws'" "?es ws"]
      by (simp add: rollup_windows rollup_Fold_Aggregate participations_concat)
  qed
  then have "rollup (fold_windows k c ws' db) = rollup (FoldInteractions c (Aggregate k (concat ws)) db)"
    by auto
  then show ?thesis by (simp add: rollup_Fold_Aggregate)
qed

text \<open>Two transfers for concrete inputs.\<close>

definition demo_log :: "nat \<Rightarrow> nat \<Rightarrow> evm_log" where
  "demo_log b i = \<lparr>log_address = 9, log_topics = [84033, 1, 2], log_block = b, log_bhash = 7,
     log_index = i, log_removed = False\<rparr>"

definition empty_db :: index_db where
  "empty_db = \<lparr>interactions = [], pending_events = []\<rparr>"

lemma demo_simps [simp]:
  "rollup empty_db key = None" "log_ref (demo_log b i) = (b, i)" "log_block (demo_log b i) = b"
  "log_index (demo_log b i) = i" "pending_events empty_db = []"
  by (simp_all add: rollup_def empty_db_def log_ref_def demo_log_def)

lemma demo_topics: "topicAddress 1 = Some 1" "topicAddress 2 = Some 2"
  by (simp_all add: topicAddress_iff)

lemma demo_decode:
  "Decode sig_hash (demo_log b i) = Some \<lparr>dec_standard = StandardERC20, dec_event = ''Transfer'',
     dec_participants = [\<lparr>part_address = 1, part_role = RoleSender\<rparr>, \<lparr>part_address = 2, part_role = RoleReceiver\<rparr>]\<rparr>"
  by (simp add: Decode_def demo_log_def sig_hash_values decode_pair_def append_participant_def demo_topics)

lemma demo_parts:
  "part_events (participations sig_hash [demo_log b i, demo_log b' i']) (1, 9) = [((b, i), 1), ((b', i'), 1)]"
  by (simp add: participations_def demo_decode part_events_def) (simp add: demo_log_def)

theorem windows_fold_as_one_witness:
  "rollup (fold_windows sig_hash 1 [[demo_log 8 3], [demo_log 5 0]] empty_db) (1, 1, 9)
     = Some \<lparr>s_first = 5, s_last = 8, s_count = 2, s_roles = 1\<rparr>"
proof -
  have "rollup (fold_windows sig_hash 1 [[demo_log 8 3], [demo_log 5 0]] empty_db) (1, 1, 9)
    = summarise (part_events (participations sig_hash (concat [[demo_log 5 0], [demo_log 8 3]])) (1, 9))"
    using windows_fold_as_one [of "[[demo_log 5 0], [demo_log 8 3]]" "[[demo_log 8 3], [demo_log 5 0]]"
        sig_hash 1 empty_db "(1, 9)", THEN conjunct2]
    by simp
  then show ?thesis
    by (simp add: demo_parts summarise_def or_masks_def role_mask_def)
qed

text \<open>C4: The buffered path and the direct path agree. Logs of a chain of which nothing is buffered
  yet, and that are buffered by \<open>PendingFrom\<close> and later promoted at a confirmed height leave the rollup that
  \<open>Aggregate\<close> and \<open>FoldInteractions\<close> of the logs up to this height leave, and exactly
  the events above it stay buffered.\<close>

theorem promote_equals_direct_fold:
  assumes "chain_logs logs" and "\<forall>(c', e) \<in> set (pending_events db). c' \<noteq> c"
  shows "rollup (fst (PromotePending c to (InsertPending c (PendingFrom k logs) db)))
      = rollup (FoldInteractions c (Aggregate k (filter (\<lambda>l. log_block l \<le> to) logs)) db)
    \<and> (\<forall>x. x \<in> set (pending_events (fst (PromotePending c to (InsertPending c (PendingFrom k logs) db))))
        \<longleftrightarrow> x \<in> set (pending_events (InsertPending c (PendingFrom k logs) db))
           \<and> \<not> (fst x = c \<and> pe_block (snd x) \<le> to))"
proof
  show "rollup (fst (PromotePending c to (InsertPending c (PendingFrom k logs) db)))
      = rollup (FoldInteractions c (Aggregate k (filter (\<lambda>l. log_block l \<le> to) logs)) db)"
  proof
    fix key :: row_key
    show "rollup (fst (PromotePending c to (InsertPending c (PendingFrom k logs) db))) key
      = rollup (FoldInteractions c (Aggregate k (filter (\<lambda>l. log_block l \<le> to) logs)) db) key"
      using summarise_set [OF due_after_insert [OF assms, of to k "snd key"]]
      by (cases key) (auto simp: rollup_Promote rollup_Fold_Aggregate)
  qed
  show "\<forall>x. x \<in> set (pending_events (fst (PromotePending c to (InsertPending c (PendingFrom k logs) db))))
      \<longleftrightarrow> x \<in> set (pending_events (InsertPending c (PendingFrom k logs) db))
         \<and> \<not> (fst x = c \<and> pe_block (snd x) \<le> to)"
    by (auto simp: pending_Promote)
qed

theorem promote_equals_direct_fold_witness:
  "rollup (fst (PromotePending 1 6 (InsertPending 1 (PendingFrom sig_hash [demo_log 5 0, demo_log 8 3]) empty_db)))
     (1, 1, 9) = rollup (FoldInteractions 1 (Aggregate sig_hash [demo_log 5 0]) empty_db) (1, 1, 9)"
  using promote_equals_direct_fold [of "[demo_log 5 0, demo_log 8 3]" empty_db 1 6 sig_hash]
  by (simp add: chain_logs_def)

text \<open>Folding a window twice does not leave the rollup of folding it once: first and last
  block and the roles stay, and every event of the window is counted twice.\<close>

lemma fold_twice_counts_twice:
  assumes "rollup db (c, key) = None"
  shows "rollup (fold_windows k c [logs, logs] db) (c, key) =
     map_option (\<lambda>s. s\<lparr>s_count := 2 * s_count s\<rparr>) (rollup (fold_windows k c [logs] db) (c, key))"
  using assms
  by (cases "summarise (part_events (participations k logs) key)")
    (simp_all add: fold_windows_def rollup_Fold_Aggregate merge_summary_def)

end
