(* ===== verification/Chain.thy ===== *)
theory Chain
  imports Prelude EvmLog
begin

text \<open>
  Reading an execution client: \<open>internal/chain/source.go\<close> (the adaptive \<open>SweepLogs\<close>),
  \<open>internal/chain/logs_errors.go\<close> (what an error of \<open>eth_getLogs\<close> means) and
  \<open>internal/chain/history.go\<close> (the search for the oldest block a node still serves).

  The node and the Go context are arguments. A node answers its calls one after the other,
  so its answer depends on the number of calls made before; the same holds for the points at
  which the context is read. Block heights are natural numbers, and an operation that can
  leave 64 bits is reduced \<open>mod 2 ^ 64\<close> as Go does.
\<close>

section \<open>Errors of a node\<close>

text \<open>What \<open>errors.Is\<close>, \<open>errors.As\<close> and \<open>Error()\<close> read of an error value. \<open>err_io\<close>
  stands for the sentinel errors of one \<open>if\<close> of the source (EOF, the syscall errnos and the
  three \<open>rpc\<close> errors). Messages are ASCII.\<close>

record chain_err =
  err_msg :: string
  err_ctx :: bool
  err_rpc :: "int option"
  err_http :: "int option"
  err_io :: bool
  err_net :: bool

datatype LogsErrorKind = LogsErrUnknown | LogsErrHistoryUnavailable | LogsErrTransient

definition kind_string :: "LogsErrorKind \<Rightarrow> string" where
  "kind_string k = (case k of LogsErrHistoryUnavailable \<Rightarrow> ''history_unavailable''
     | LogsErrTransient \<Rightarrow> ''transient'' | LogsErrUnknown \<Rightarrow> ''unknown'')"

definition char_lower :: "char \<Rightarrow> char" where
  "char_lower c = (let n = (of_char c :: nat) in if 65 \<le> n \<and> n \<le> 90 then char_of (n + 32) else c)"

definition to_lower :: "string \<Rightarrow> string" where
  "to_lower s = map char_lower s"

fun str_contains :: "string \<Rightarrow> string \<Rightarrow> bool" where
  "str_contains [] needle = (needle = [])"
| "str_contains (c # s) needle = (prefix needle (c # s) \<or> str_contains s needle)"

definition contains_any :: "string \<Rightarrow> string list \<Rightarrow> bool" where
  "contains_any s needles = list_ex (str_contains s) needles"

definition rangeLimitNeedles :: "string list" where
  "rangeLimitNeedles =
    [''more than'', ''query returned more than'', ''limit exceeded'', ''response size'',
     ''too many results'', ''block range'', ''range is too large'', ''query timeout'',
     ''exceed maximum'', ''-32005'', ''response is too big'', ''memory capacity exceeded'',
     ''error sending request for url'']"

definition isRangeLimit :: "chain_err \<Rightarrow> bool" where
  "isRangeLimit e = contains_any (to_lower (err_msg e)) rangeLimitNeedles"

definition gethPrunedHistoryCode :: int where
  "gethPrunedHistoryCode = 4444"

definition historyUnavailableNeedles :: "string list" where
  "historyUnavailableNeedles =
    [''pruned history unavailable'', ''failed to get logs for block'', ''header not found'',
     ''unknown block'', ''block body not found'', ''header found, but block body is missing'',
     ''receipt not found'', ''receipts not found'', ''missing trie node'',
     ''outside eip-2935 ring buffer range'', ''history not available'', ''history unavailable'',
     ''historical data'', ''pruned'', ''block not found'', ''beyond the last available block'',
     ''distance to target block exceeds maximum'']"

definition transientNeedles :: "string list" where
  "transientNeedles =
    [''timeout'', ''timed out'', ''deadline exceeded'', ''connection reset'', ''connection refused'',
     ''broken pipe'', ''connection closed'', ''use of closed network connection'', ''unexpected eof'',
     ''eof'', ''too many requests'', ''rate limit'', ''rate-limit'', ''request limit'', ''429'',
     ''busy'', ''overloaded'', ''temporarily unavailable'', ''service unavailable'', ''bad gateway'',
     ''gateway timeout'', ''try again'', ''backoff'', ''client is closed'', ''no result'',
     ''bad result in json-rpc response'', ''context canceled'']"

text \<open>The two \<open>switch\<close> statements over codes; \<open>None\<close> falls through to what follows.\<close>

definition rpc_kind :: "int \<Rightarrow> LogsErrorKind option" where
  "rpc_kind code =
     (if code = gethPrunedHistoryCode then Some LogsErrHistoryUnavailable
      else if code = -32002 \<or> code = -32005 then Some LogsErrTransient
      else if code = -32601 \<or> code = -32600 then Some LogsErrUnknown
      else None)"

definition http_kind :: "int \<Rightarrow> LogsErrorKind option" where
  "http_kind code =
     (if code \<in> {429, 500, 502, 503, 504, 408} then Some LogsErrTransient
      else if code = 404 then Some LogsErrTransient
      else None)"

definition ClassifyLogsError :: "chain_err option \<Rightarrow> LogsErrorKind" where
  "ClassifyLogsError err =
     (case err of None \<Rightarrow> LogsErrUnknown
      | Some e \<Rightarrow>
          if err_ctx e then LogsErrTransient
          else case Option.bind (err_rpc e) rpc_kind of Some k \<Rightarrow> k
          | None \<Rightarrow> (case Option.bind (err_http e) http_kind of Some k \<Rightarrow> k
            | None \<Rightarrow>
                (let msg = to_lower (err_msg e) in
                 if contains_any msg historyUnavailableNeedles then LogsErrHistoryUnavailable
                 else if err_io e then LogsErrTransient
                 else if err_net e then LogsErrTransient
                 else if contains_any msg transientNeedles then LogsErrTransient
                 else LogsErrUnknown)))"

section \<open>Sweeping a range\<close>

record ChunkOpts =
  co_max :: nat
  co_min :: nat

definition chunk_defaults :: "ChunkOpts \<Rightarrow> ChunkOpts" where
  "chunk_defaults opts =
     (let opts = (if co_max opts = 0 then opts\<lparr>co_max := 10000\<rparr> else opts);
          opts = (if co_min opts = 0 then opts\<lparr>co_min := 1\<rparr> else opts)
      in if co_min opts > co_max opts then opts\<lparr>co_min := co_max opts\<rparr> else opts)"

text \<open>What the loop depends on: the node's answer to its \<open>i\<close>-th call for a range, and
  whether the context is done when a failed \<open>i\<close>-th call returns. The callback takes a
  window and its logs and threads a state; \<open>Some e\<close> is its error.\<close>

type_synonym logs_node = "nat \<Rightarrow> nat \<Rightarrow> nat \<Rightarrow> chain_err + evm_log list"
type_synonym ('s, 'e) chunk_fn = "nat \<Rightarrow> nat \<Rightarrow> evm_log list \<Rightarrow> 's \<Rightarrow> 's \<times> 'e option"

datatype 'e sweep_end = SweepDone | SweepCancelled | SweepNode nat nat chain_err | SweepFn 'e

partial_function (option) sweep_loop ::
  "logs_node \<Rightarrow> (nat \<Rightarrow> bool) \<Rightarrow> ChunkOpts \<Rightarrow> nat \<Rightarrow> ('s, 'e) chunk_fn
   \<Rightarrow> nat \<Rightarrow> nat \<Rightarrow> nat \<Rightarrow> 's \<Rightarrow> ('s \<times> 'e sweep_end) option" where
  "sweep_loop src done opts to fn calls cursor window s =
     (if cursor > to then Some (s, SweepDone)
      else let end0 = (cursor + window + 2 ^ 64 - 1) mod 2 ^ 64;
               endb = (if end0 > to then to else end0)
        in case src calls cursor endb of
             Inl e \<Rightarrow>
               if done calls then Some (s, SweepCancelled)
               else if window > co_min opts \<and> isRangeLimit e
                 then sweep_loop src done opts to fn (calls + 1) cursor (max (co_min opts) (window div 2)) s
               else Some (s, SweepNode cursor endb e)
           | Inr logs \<Rightarrow>
               (case fn cursor endb logs s of
                  (s', Some e) \<Rightarrow> Some (s', SweepFn e)
                | (s', None) \<Rightarrow>
                    sweep_loop src done opts to fn (calls + 1) ((endb + 1) mod 2 ^ 64)
                      (if window < co_max opts then min (co_max opts) ((window * 2) mod 2 ^ 64) else window) s'))"

definition SweepLogs ::
  "logs_node \<Rightarrow> (nat \<Rightarrow> bool) \<Rightarrow> nat \<Rightarrow> nat \<Rightarrow> ChunkOpts \<Rightarrow> ('s, 'e) chunk_fn
   \<Rightarrow> 's \<Rightarrow> ('s \<times> 'e sweep_end) option" where
  "SweepLogs src done from to opts0 fn s =
     (let opts = chunk_defaults opts0 in
      if to < from then Some (s, SweepDone)
      else sweep_loop src done opts to fn 0 from (co_max opts) s)"

section \<open>What a sweep delivers\<close>

text \<open>Windows that follow one another from \<open>a\<close> up to, not including, \<open>c\<close>.\<close>

fun tiles :: "nat \<Rightarrow> (nat \<times> nat \<times> 'l) list \<Rightarrow> nat \<Rightarrow> bool" where
  "tiles a [] c \<longleftrightarrow> a = c"
| "tiles a ((f, t, l) # ws) c \<longleftrightarrow> f = a \<and> f \<le> t \<and> tiles (Suc t) ws c"

fun run_chunks :: "('s, 'e) chunk_fn \<Rightarrow> (nat \<times> nat \<times> evm_log list) list \<Rightarrow> 's \<Rightarrow> 's \<times> 'e option" where
  "run_chunks fn [] s = (s, None)"
| "run_chunks fn ((f, t, l) # ws) s =
     (case fn f t l s of (s', Some e) \<Rightarrow> (s', Some e) | (s', None) \<Rightarrow> run_chunks fn ws s')"

definition answered :: "logs_node \<Rightarrow> nat \<times> nat \<times> evm_log list \<Rightarrow> bool" where
  "answered src w \<longleftrightarrow> (case w of (f, t, l) \<Rightarrow> \<exists>i. src i f t = Inr l)"

text \<open>The contract of a sweep of \<open>[from, to]\<close> that ended with \<open>s\<close> and \<open>r\<close>: \<open>ws\<close> are the
  windows given to the callback.\<close>

definition sweep_post ::
  "logs_node \<Rightarrow> nat \<Rightarrow> nat \<Rightarrow> nat \<Rightarrow> ('s, 'e) chunk_fn \<Rightarrow> 's
   \<Rightarrow> 's \<times> 'e sweep_end \<Rightarrow> (nat \<times> nat \<times> evm_log list) list \<Rightarrow> bool" where
  "sweep_post src from to width fn s0 res ws \<longleftrightarrow>
     (\<forall>w \<in> set ws. answered src w \<and> fst (snd w) \<le> to \<and> fst (snd w) < fst w + width) \<and>
     (case snd res of
        SweepDone \<Rightarrow> tiles from ws (Suc to) \<and> run_chunks fn ws s0 = (fst res, None)
      | SweepFn e \<Rightarrow> (\<exists>c. tiles from ws c) \<and> run_chunks fn ws s0 = (fst res, Some e)
      | SweepCancelled \<Rightarrow> (\<exists>i f t e. src i f t = Inl e)
          \<and> (\<exists>c \<le> to. tiles from ws c) \<and> run_chunks fn ws s0 = (fst res, None)
      | SweepNode f t e \<Rightarrow> (\<exists>i. src i f t = Inl e)
          \<and> f \<le> t \<and> t \<le> to \<and> tiles from ws f \<and> run_chunks fn ws s0 = (fst res, None))"

lemma sweep_post_Cons:
  assumes "sweep_post src (Suc t) to width fn s' res ws" and "fn f t l s = (s', None)"
    and "answered src (f, t, l)" and "f \<le> t" and "t \<le> to" and "t < f + width"
  shows "sweep_post src f to width fn s res ((f, t, l) # ws)"
  using assms unfolding sweep_post_def by (cases "snd res") auto

lemma sweep_loop_post:
  assumes "to + co_max opts < 2 ^ 64" and "2 * co_max opts < 2 ^ 64"
    and "0 < co_min opts" and "0 < window" and "window \<le> co_max opts" and "cursor \<le> Suc to"
  shows "\<exists>res ws. sweep_loop src done opts to fn calls cursor window s = Some res
    \<and> sweep_post src cursor to (co_max opts) fn s res ws"
  using assms(4-6)
proof (induction "(Suc to - cursor, window)" arbitrary: calls cursor window s
    rule: wf_induct_rule [OF wf_lex_prod [OF wf_less_than wf_less_than]])
  case 1
  let ?e = "min (cursor + window - 1) to"
  show ?case
  proof (cases "cursor > to")
    case True
    then have "sweep_post src cursor to (co_max opts) fn s (s, SweepDone) []"
      using "1.prems" by (simp add: sweep_post_def)
    with True show ?thesis by (subst sweep_loop.simps) auto
  next
    case False
    have e0: "(cursor + window + 2 ^ 64 - 1) mod 2 ^ 64 = cursor + window - 1"
    proof -
      have "cursor + window + 2 ^ 64 - 1 = (cursor + window - 1) + 2 ^ 64" using "1.prems" by simp
      moreover have "cursor + window - 1 < 2 ^ 64" using False "1.prems" assms(1) by linarith
      ultimately show ?thesis by (simp only: mod_add_self2 mod_less)
    qed
    have eb: "(if cursor + window - 1 > to then to else cursor + window - 1) = ?e" by simp
    have ce: "cursor \<le> ?e" "?e \<le> to" "?e < cursor + co_max opts" using False "1.prems" by auto
    have w2: "(window * 2) mod 2 ^ 64 = window * 2" using "1.prems" assms(2) by simp
    have nx: "(?e + 1) mod 2 ^ 64 = Suc ?e" using ce assms(1) by simp
    note unf = sweep_loop.simps [of src "done" opts to fn calls cursor window s, unfolded Let_def e0 eb]
    show ?thesis
    proof (cases "src calls cursor ?e")
      case (Inl e)
      show ?thesis
      proof (cases "\<not> done calls \<and> window > co_min opts \<and> isRangeLimit e")
        case True
        have "0 < max (co_min opts) (window div 2)" "max (co_min opts) (window div 2) < window"
          using True assms(3) by auto
        moreover have "window div 2 \<le> co_max opts" using "1.prems" by linarith
        ultimately obtain res ws where
          "sweep_loop src done opts to fn (calls + 1) cursor (max (co_min opts) (window div 2)) s = Some res"
          "sweep_post src cursor to (co_max opts) fn s res ws"
          using "1.hyps" [of cursor "max (co_min opts) (window div 2)" "calls + 1" s] "1.prems" by auto
        then show ?thesis using True Inl False by (subst unf) auto
      next
        case F: False
        have "sweep_post src cursor to (co_max opts) fn s (s, SweepCancelled) []"
          "sweep_post src cursor to (co_max opts) fn s (s, SweepNode cursor ?e e) []"
          using False Inl ce by (auto simp: sweep_post_def)
        then show ?thesis using F Inl False by (subst unf) auto
      qed
    next
      case (Inr logs)
      then have ans: "answered src (cursor, ?e, logs)" unfolding answered_def by auto
      obtain s' r where fn: "fn cursor ?e logs s = (s', r)" by (cases "fn cursor ?e logs s")
      show ?thesis
      proof (cases r)
        case (Some e)
        have "sweep_post src cursor to (co_max opts) fn s (s', SweepFn e) [(cursor, ?e, logs)]"
          using ans ce fn Some by (auto simp: sweep_post_def)
        then show ?thesis using Inr False fn Some by (subst unf) auto
      next
        case None
        let ?w = "if window < co_max opts then min (co_max opts) (window * 2) else window"
        have "Suc to - Suc ?e < Suc to - cursor" "0 < ?w" "?w \<le> co_max opts" "Suc ?e \<le> Suc to"
          using ce "1.prems" by auto
        then obtain res ws where
          "sweep_loop src done opts to fn (calls + 1) (Suc ?e) ?w s' = Some res"
          "sweep_post src (Suc ?e) to (co_max opts) fn s' res ws"
          using "1.hyps" [of "Suc ?e" ?w "calls + 1" s'] by auto
        moreover have "sweep_loop src done opts to fn calls cursor window s
            = sweep_loop src done opts to fn (calls + 1) (Suc ?e) ?w s'"
          by (simp only: unf False Inr fn None w2 nx if_False sum.case prod.case option.case)
        ultimately show ?thesis using sweep_post_Cons [OF _ _ ans ce] fn None by metis
      qed
    qed
  qed
qed

lemma chunk_defaults_pos: "0 < co_min (chunk_defaults o') \<and> 0 < co_max (chunk_defaults o')"
  by (auto simp: chunk_defaults_def Let_def)

lemma SweepLogs_spec:
  assumes "to + co_max (chunk_defaults opts) < 2 ^ 64" and "2 * co_max (chunk_defaults opts) < 2 ^ 64"
    and "from \<le> to"
  shows "\<exists>res ws. SweepLogs src done from to opts fn s = Some res
    \<and> sweep_post src from to (co_max (chunk_defaults opts)) fn s res ws"
  using sweep_loop_post [OF assms(1,2), of "co_max (chunk_defaults opts)" "from" src "done" fn 0 s]
    chunk_defaults_pos [of opts] assms(3)
  by (simp add: SweepLogs_def Let_def)

section \<open>Properties\<close>

text \<open>C6: A sweep of \<open>[from, to]\<close> returns, whatever the node answers, as long as the range
  and the window stay clear of the end of 64 bits. The windows given to the callback follow
  one another without gap or overlap from \<open>from\<close>, none is wider than the maximum, each
  carries an answer of the node for exactly that window, and a sweep without error ends at
  \<open>to\<close>; after an error of the node or the callback, the state is that of the windows before
  it, and an error of the node names the window that follows them.\<close>

theorem SweepLogs_tiles_range:
  assumes "to + co_max (chunk_defaults opts) < 2 ^ 64" and "2 * co_max (chunk_defaults opts) < 2 ^ 64"
    and "from \<le> to"
  shows "\<exists>res ws. SweepLogs src done from to opts fn s = Some res
    \<and> sweep_post src from to (co_max (chunk_defaults opts)) fn s res ws"
  by (rule SweepLogs_spec [OF assms])

text \<open>A node that serves at most two blocks per call.\<close>

definition narrow_node :: logs_node where
  "narrow_node i f t = (if t - f > 1
     then Inl \<lparr>err_msg = ''Block range is too large'', err_ctx = False, err_rpc = None, err_http = None,
            err_io = False, err_net = False\<rparr>
     else Inr [])"

theorem SweepLogs_tiles_range_witness:
  "\<exists>res ws. SweepLogs narrow_node (\<lambda>_. False) 3 9 \<lparr>co_max = 4, co_min = 0\<rparr>
       (\<lambda>f t l s. (s @ [(f, t)], None :: nat option)) [] = Some res
     \<and> sweep_post narrow_node 3 9 (co_max (chunk_defaults \<lparr>co_max = 4, co_min = 0\<rparr>))
         (\<lambda>f t l s. (s @ [(f, t)], None)) [] res ws"
  by (rule SweepLogs_tiles_range) (simp_all add: chunk_defaults_def)

text \<open>Structured signals decide before the text, and definite history answers before
  transient wording: geth's code 4444 means pruned history; a done context, a retryable code
  or an HTTP status of the transport never does; and a message that names missing history
  wins over one that also mentions a timeout.\<close>

theorem ClassifyLogsError_precedence:
  "(err_ctx e \<longrightarrow> ClassifyLogsError (Some e) = LogsErrTransient)
   \<and> (\<not> err_ctx e \<and> err_rpc e = Some 4444 \<longrightarrow> ClassifyLogsError (Some e) = LogsErrHistoryUnavailable)
   \<and> (\<not> err_ctx e \<and> err_rpc e \<in> {Some (-32002), Some (-32005)} \<longrightarrow> ClassifyLogsError (Some e) = LogsErrTransient)
   \<and> (\<not> err_ctx e \<and> err_rpc e = None \<and> err_http e \<in> {Some 404, Some 429, Some 500, Some 502, Some 503, Some 504}
        \<longrightarrow> ClassifyLogsError (Some e) = LogsErrTransient)
   \<and> (\<not> err_ctx e \<and> err_rpc e = None \<and> err_http e = None
        \<and> contains_any (to_lower (err_msg e)) historyUnavailableNeedles
        \<longrightarrow> ClassifyLogsError (Some e) = LogsErrHistoryUnavailable)
   \<and> (ClassifyLogsError (Some e) = LogsErrHistoryUnavailable \<longrightarrow> \<not> err_ctx e
        \<and> (err_rpc e = Some 4444 \<or> contains_any (to_lower (err_msg e)) historyUnavailableNeedles))"
  by (auto simp: ClassifyLogsError_def rpc_kind_def http_kind_def gethPrunedHistoryCode_def Let_def
      split: option.splits if_splits bind_splits)

theorem ClassifyLogsError_precedence_witness:
  "ClassifyLogsError (Some \<lparr>err_msg = ''request timeout: Pruned history unavailable'', err_ctx = False,
     err_rpc = None, err_http = None, err_io = True, err_net = True\<rparr>) = LogsErrHistoryUnavailable"
proof -
  let ?e = "\<lparr>err_msg = ''request timeout: Pruned history unavailable'', err_ctx = False,
     err_rpc = None, err_http = None, err_io = True, err_net = True\<rparr>"
  have "contains_any (to_lower (err_msg ?e)) historyUnavailableNeedles" by code_simp
  then show ?thesis using ClassifyLogsError_precedence [of ?e] by simp
qed

end
