(* ===== verification/History.thy ===== *)
theory History
  imports Chain
begin

text \<open>
  The history floor of a node: \<open>internal/chain/history.go\<close>. There is no call that says how
  far back a node can serve logs, so the source asks for single blocks and bisects. An
  environment gives the answer to every \<open>eth_getLogs\<close> call by its number and block, and says
  whether the context is done before a call, after a failed call and during the wait that
  follows it. The lemmas show that a floor always rests on evidence (a served block above a
  refused one, never a transient error), and that it is exact on a node whose availability is
  monotone even when calls fail transiently now and then.
\<close>

section \<open>Options and results\<close>

record Anchor =
  an_block :: nat
  an_minlogs :: int

record RetryPolicy =
  rp_attempts :: int
  rp_backoff :: int
  rp_max :: int

definition retry_defaults :: "RetryPolicy \<Rightarrow> RetryPolicy" where
  "retry_defaults r =
     (let r = (if rp_attempts r \<le> 0 then r\<lparr>rp_attempts := 5\<rparr> else r);
          r = (if rp_backoff r \<le> 0 then r\<lparr>rp_backoff := 250000000\<rparr> else r)
      in if rp_max r \<le> 0 then r\<lparr>rp_max := 4000000000\<rparr> else r)"

record HistoryFloorOptions =
  hf_anchor :: "Anchor option"
  hf_retry :: RetryPolicy

record HistoryProbe =
  hp_floor :: nat
  hp_boundary :: LogsErrorKind
  hp_cause :: "chain_err option"
  hp_probes :: nat
  hp_nonmonotone :: bool
  hp_anchored :: bool

datatype history_err =
    CtxDone
  | ErrProbeExhausted nat chain_err
  | HeadUnserved nat LogsErrorKind chain_err
  | AnchorUnserved nat nat LogsErrorKind chain_err
  | ErrEmptyHistory nat int nat nat

record hist_env =
  h_logs :: "nat \<Rightarrow> nat \<Rightarrow> chain_err + nat"
  h_ctx_before :: "nat \<Rightarrow> bool"
  h_ctx_after :: "nat \<Rightarrow> bool"
  h_ctx_sleep :: "nat \<Rightarrow> int \<Rightarrow> bool"

section \<open>One block\<close>

datatype probe_out = Served nat | Unserved LogsErrorKind chain_err | Failed history_err

text \<open>The inner \<open>probe\<close> with its retries; \<open>left\<close> counts the attempts that remain after this
  one and \<open>calls\<close> is \<open>res.Probes\<close>.\<close>

fun probe_loop :: "hist_env \<Rightarrow> RetryPolicy \<Rightarrow> nat \<Rightarrow> nat \<Rightarrow> int \<Rightarrow> nat \<Rightarrow> nat \<times> probe_out" where
  "probe_loop env r n left backoff calls =
     (if h_ctx_before env calls then (calls, Failed CtxDone)
      else case h_logs env calls n of
        Inr got \<Rightarrow> (calls + 1, Served got)
      | Inl e \<Rightarrow>
          if h_ctx_after env calls then (calls + 1, Failed CtxDone)
          else let kind = ClassifyLogsError (Some e) in
            if kind \<noteq> LogsErrTransient then (calls + 1, Unserved kind e)
            else if left = 0 then (calls + 1, Failed (ErrProbeExhausted n e))
            else if h_ctx_sleep env calls backoff then (calls + 1, Failed CtxDone)
            else probe_loop env r n (left - 1)
              (if backoff * 2 > rp_max r then rp_max r else backoff * 2) (calls + 1))"

declare probe_loop.simps [simp del]

definition probe :: "hist_env \<Rightarrow> RetryPolicy \<Rightarrow> nat \<Rightarrow> nat \<Rightarrow> nat \<times> probe_out" where
  "probe env r n calls = probe_loop env r n (nat (rp_attempts r) - 1) (rp_backoff r) calls"

section \<open>The search and the audit\<close>

type_synonym boundary = "LogsErrorKind \<times> chain_err option"

function bisect ::
  "hist_env \<Rightarrow> RetryPolicy \<Rightarrow> nat \<Rightarrow> nat \<Rightarrow> boundary \<Rightarrow> nat \<Rightarrow> nat \<times> (history_err + nat \<times> boundary)" where
  "bisect env r lo hi bnd calls =
     (if hi - lo > 1 then
        let mid = lo + (hi - lo) div 2 in
        case probe env r mid calls of
          (calls', Failed e) \<Rightarrow> (calls', Inl e)
        | (calls', Served _) \<Rightarrow> bisect env r lo mid bnd calls'
        | (calls', Unserved k e) \<Rightarrow> bisect env r mid hi (k, Some e) calls'
      else (calls, Inr (hi, bnd)))"
  by pat_completeness auto
termination
  by (relation "measure (\<lambda>(env, r, lo, hi, bnd, calls). hi - lo)") auto

declare bisect.simps [simp del]

definition monotonicitySamples :: nat where
  "monotonicitySamples = 12"

definition monotonicityRounds :: nat where
  "monotonicityRounds = 8"

definition sample_block :: "nat \<Rightarrow> nat \<Rightarrow> nat \<Rightarrow> nat" where
  "sample_block floor head i =
     (floor + ((head - floor) * i) mod 2 ^ 64 div (monotonicitySamples + 1)) mod 2 ^ 64"

text \<open>The loop of \<open>highestUnservable\<close> over the samples that are left; \<open>bad\<close> is the highest
  block refused so far with the reason.\<close>

primrec sample_loop ::
  "hist_env \<Rightarrow> RetryPolicy \<Rightarrow> nat \<Rightarrow> nat \<Rightarrow> nat list \<Rightarrow> (nat \<times> boundary) option \<Rightarrow> nat
   \<Rightarrow> nat \<times> (history_err + (nat \<times> boundary) option)" where
  "sample_loop env r floor head [] bad calls = (calls, Inr bad)"
| "sample_loop env r floor head (i # is) bad calls =
     (if h_ctx_before env calls then (calls, Inl CtxDone)
      else let n = sample_block floor head i
        in if n \<le> floor \<or> n \<ge> head then sample_loop env r floor head is bad calls
           else case probe env r n calls of
               (calls', Failed e) \<Rightarrow> (calls', Inl e)
             | (calls', Served _) \<Rightarrow> sample_loop env r floor head is bad calls'
             | (calls', Unserved k e) \<Rightarrow>
                 sample_loop env r floor head is
                   (if k = LogsErrHistoryUnavailable \<and> n > (case bad of None \<Rightarrow> 0 | Some (b, _) \<Rightarrow> b)
                    then Some (n, k, Some e) else bad) calls')"

definition highestUnservable ::
  "hist_env \<Rightarrow> RetryPolicy \<Rightarrow> nat \<Rightarrow> nat \<Rightarrow> nat \<Rightarrow> nat \<times> (history_err + (nat \<times> boundary) option)" where
  "highestUnservable env r floor head calls =
     (if head \<le> floor + 1 then (calls, Inr None)
      else sample_loop env r floor head [1..<monotonicitySamples + 1] None calls)"

text \<open>The result so far: floor, boundary and whether the audit raised the floor.\<close>

type_synonym found = "nat \<times> boundary \<times> bool"

primrec audit_loop ::
  "hist_env \<Rightarrow> RetryPolicy \<Rightarrow> nat \<Rightarrow> nat \<Rightarrow> found \<Rightarrow> nat \<Rightarrow> nat \<times> (history_err + found)" where
  "audit_loop env r head 0 res calls = (calls, Inr res)"
| "audit_loop env r head (Suc rounds) res calls =
     (if fst res \<noteq> 0 then (calls, Inr res)
      else case highestUnservable env r (fst res) head calls of
          (calls', Inl e) \<Rightarrow> (calls', Inl e)
        | (calls', Inr None) \<Rightarrow> (calls', Inr res)
        | (calls', Inr (Some (block, bnd))) \<Rightarrow>
            (case bisect env r block head bnd calls' of
               (calls'', Inl e) \<Rightarrow> (calls'', Inl e)
             | (calls'', Inr (hi, bnd')) \<Rightarrow> audit_loop env r head rounds (hi, bnd', True) calls''))"

section \<open>The probe\<close>

definition search_floor ::
  "hist_env \<Rightarrow> RetryPolicy \<Rightarrow> nat \<Rightarrow> nat \<times> (history_err + found)" where
  "search_floor env r head =
     (case probe env r head 0 of
        (c, Failed e) \<Rightarrow> (c, Inl e)
      | (c, Unserved k e) \<Rightarrow> (c, Inl (HeadUnserved head k e))
      | (c, Served _) \<Rightarrow>
          (case probe env r 0 c of
             (c', Failed e) \<Rightarrow> (c', Inl e)
           | (c', Served _) \<Rightarrow> (c', Inr (0, (LogsErrUnknown, None), False))
           | (c', Unserved k e) \<Rightarrow>
               (case bisect env r 0 head (k, Some e) c' of
                  (c'', Inl e) \<Rightarrow> (c'', Inl e)
                | (c'', Inr (hi, bnd)) \<Rightarrow> (c'', Inr (hi, bnd, False)))))"

definition check_anchor ::
  "hist_env \<Rightarrow> RetryPolicy \<Rightarrow> Anchor option \<Rightarrow> nat \<Rightarrow> found \<Rightarrow> nat \<Rightarrow> history_err + HistoryProbe" where
  "check_anchor env r anchor head res calls =
     (case res of (floor, (kind, cause), nonmono) \<Rightarrow>
        let mk = (\<lambda>calls anchored. \<lparr>hp_floor = floor, hp_boundary = kind, hp_cause = cause,
              hp_probes = calls, hp_nonmonotone = nonmono, hp_anchored = anchored\<rparr>)
        in case anchor of None \<Rightarrow> Inr (mk calls False)
           | Some a \<Rightarrow>
               if an_block a \<le> head \<and> an_block a \<ge> floor then
                 (let want = (if an_minlogs a \<le> 0 then 1 else an_minlogs a) in
                  case probe env r (an_block a) calls of
                    (c, Failed e) \<Rightarrow> Inl e
                  | (c, Unserved k e) \<Rightarrow> Inl (AnchorUnserved floor (an_block a) k e)
                  | (c, Served n) \<Rightarrow>
                      if int n < want then Inl (ErrEmptyHistory (an_block a) want n floor)
                      else Inr (mk c True))
               else Inr (mk calls False))"

definition ProbeHistoryFloor ::
  "hist_env \<Rightarrow> nat \<Rightarrow> HistoryFloorOptions \<Rightarrow> history_err + HistoryProbe" where
  "ProbeHistoryFloor env head opts =
     (let r = retry_defaults (hf_retry opts) in
      case search_floor env r head of
        (c, Inl e) \<Rightarrow> Inl e
      | (c, Inr res) \<Rightarrow>
          (case audit_loop env r head monotonicityRounds res c of
             (c', Inl e) \<Rightarrow> Inl e
           | (c', Inr res') \<Rightarrow> check_anchor env r (hf_anchor opts) head res' c'))"

definition HistoryFloor :: "hist_env \<Rightarrow> nat \<Rightarrow> history_err + nat" where
  "HistoryFloor env head =
     (case ProbeHistoryFloor env head
         \<lparr>hf_anchor = None, hf_retry = \<lparr>rp_attempts = 0, rp_backoff = 0, rp_max = 0\<rparr>\<rparr> of
        Inl e \<Rightarrow> Inl e | Inr p \<Rightarrow> Inr (hp_floor p))"

section \<open>Evidence\<close>

definition served_in :: "hist_env \<Rightarrow> nat \<Rightarrow> bool" where
  "served_in env n \<longleftrightarrow> (\<exists>c m. h_logs env c n = Inr m)"

definition refused_as :: "hist_env \<Rightarrow> nat \<Rightarrow> boundary \<Rightarrow> bool" where
  "refused_as env n bnd \<longleftrightarrow>
     (\<exists>c e. h_logs env c n = Inl e \<and> fst bnd = ClassifyLogsError (Some e) \<and> snd bnd = Some e
        \<and> fst bnd \<noteq> LogsErrTransient)"

lemma probe_loop_cases:
  assumes "probe_loop env r n left b calls = (c, out)"
  shows "(\<exists>m. out = Served m \<and> (\<exists>c. h_logs env c n = Inr m))
    \<or> (\<exists>k e. out = Unserved k e \<and> refused_as env n (k, Some e)) \<or> (\<exists>e. out = Failed e)"
  using assms
proof (induction env r n left b calls rule: probe_loop.induct)
  case (1 env r n left b calls)
  show ?case
    using "1.prems" "1.IH"
    unfolding probe_loop.simps [of env r n left b calls]
    by (auto simp: refused_as_def Let_def split: if_splits sum.splits)
qed

lemma probe_Served: "probe env r n calls = (c, Served m) \<Longrightarrow> \<exists>c. h_logs env c n = Inr m"
  unfolding probe_def by (drule probe_loop_cases) auto

lemma probe_served_in: "probe env r n calls = (c, Served m) \<Longrightarrow> served_in env n"
  unfolding served_in_def by (blast dest: probe_Served)

lemma probe_Unserved: "probe env r n calls = (c, Unserved k e) \<Longrightarrow> refused_as env n (k, Some e)"
  unfolding probe_def by (drule probe_loop_cases) auto

lemma bisect_evidence:
  assumes "bisect env r lo hi bnd calls = (c, Inr (f, b))"
    and "served_in env hi" and "refused_as env lo bnd" and "lo < hi"
  shows "lo < f \<and> f \<le> hi \<and> served_in env f \<and> refused_as env (f - 1) b"
  using assms
proof (induction env r lo hi bnd calls rule: bisect.induct)
  case (1 env r lo hi bnd calls)
  let ?mid = "lo + (hi - lo) div 2"
  show ?case
  proof (cases "hi - lo > 1")
    case False
    then have "f = hi \<and> b = bnd" using "1.prems"(1) by (simp add: bisect.simps [of env r lo hi])
    moreover have "hi = Suc lo" using False "1.prems"(4) by linarith
    ultimately show ?thesis using "1.prems" by simp
  next
    case True
    obtain c' out where p: "probe env r ?mid calls = (c', out)" by fastforce
    show ?thesis
    proof (cases out)
      case (Served m)
      then have "served_in env ?mid" using p probe_served_in by blast
      then have "lo < f \<and> f \<le> ?mid \<and> served_in env f \<and> refused_as env (f - 1) b"
        using "1.IH"(1) [OF True refl p [symmetric] Served] "1.prems" True p Served
        by (simp add: bisect.simps [of env r lo hi] Let_def)
      then show ?thesis using True by linarith
    next
      case (Unserved k e)
      then have "refused_as env ?mid (k, Some e)" using p probe_Unserved by blast
      then have "?mid < f \<and> f \<le> hi \<and> served_in env f \<and> refused_as env (f - 1) b"
        using "1.IH"(2) [OF True refl p [symmetric] Unserved] "1.prems" True p Unserved
        by (simp add: bisect.simps [of env r lo hi] Let_def)
      then show ?thesis by linarith
    next
      case (Failed e)
      then show ?thesis using "1.prems" True p by (simp add: bisect.simps [of env r lo hi] Let_def)
    qed
  qed
qed

definition sample_ok :: "hist_env \<Rightarrow> nat \<Rightarrow> nat \<Rightarrow> (nat \<times> boundary) option \<Rightarrow> bool" where
  "sample_ok env floor head bad \<longleftrightarrow>
     (case bad of None \<Rightarrow> True | Some (b, bnd) \<Rightarrow> floor < b \<and> b < head \<and> refused_as env b bnd)"

lemma sample_evidence:
  "sample_loop env r floor head is bad calls = (c, Inr res) \<Longrightarrow> sample_ok env floor head bad
    \<Longrightarrow> sample_ok env floor head res"
proof (induction "is" arbitrary: bad calls)
  case Nil
  then show ?case by simp
next
  case (Cons i "is")
  let ?n = "sample_block floor head i"
  show ?case
  proof (cases "?n \<le> floor \<or> ?n \<ge> head \<or> h_ctx_before env calls")
    case True
    then show ?thesis
      using Cons.prems Cons.IH [of bad calls] by (simp add: Let_def split: if_split_asm)
  next
    case False
    obtain c' out where p: "probe env r ?n calls = (c', out)" by fastforce
    show ?thesis
    proof (cases out)
      case (Served m)
      then show ?thesis using Cons.prems Cons.IH [of bad c'] False p by (simp add: Let_def)
    next
      case (Unserved k e)
      let ?bad = "if k = LogsErrHistoryUnavailable \<and> ?n > (case bad of None \<Rightarrow> 0 | Some (b, _) \<Rightarrow> b)
        then Some (?n, k, Some e) else bad"
      have "sample_ok env floor head (Some (?n, k, Some e))"
        using p Unserved probe_Unserved False by (simp add: sample_ok_def)
      then have "sample_ok env floor head ?bad" using Cons.prems(2) by presburger
      moreover have "sample_loop env r floor head is ?bad c' = (c, Inr res)"
        using Cons.prems(1) False p Unserved by (simp only: sample_loop.simps Let_def) simp
      ultimately show ?thesis using Cons.IH by blast
    next
      case (Failed e)
      then show ?thesis using Cons.prems False p by (simp add: Let_def)
    qed
  qed
qed

text \<open>What a result so far rests on.\<close>

definition floor_evidence :: "hist_env \<Rightarrow> nat \<Rightarrow> found \<Rightarrow> bool" where
  "floor_evidence env head res \<longleftrightarrow>
     (case res of (f, bnd, nonmono) \<Rightarrow>
        f \<le> head \<and> served_in env f \<and> (f > 0 \<longrightarrow> refused_as env (f - 1) bnd))"

lemma search_evidence:
  assumes "search_floor env r head = (c, Inr res)"
  shows "floor_evidence env head res \<and> served_in env head"
proof -
  obtain c1 o1 where p1: "probe env r head 0 = (c1, o1)" by fastforce
  with assms obtain m1 where o1: "o1 = Served m1"
    by (cases o1) (auto simp: search_floor_def)
  then have head: "served_in env head" using p1 probe_served_in by blast
  obtain c2 o2 where p2: "probe env r 0 c1 = (c2, o2)" by fastforce
  show ?thesis
  proof (cases o2)
    case (Served m)
    then have "served_in env 0" using p2 probe_served_in by blast
    then show ?thesis using assms p1 o1 p2 Served head by (auto simp: search_floor_def floor_evidence_def)
  next
    case (Unserved k e)
    then have ref: "refused_as env 0 (k, Some e)" using p2 probe_Unserved by blast
    from assms p1 o1 p2 Unserved obtain hi bnd where b: "bisect env r 0 head (k, Some e) c2 = (c, Inr (hi, bnd))"
      and res: "res = (hi, bnd, False)"
      by (auto simp: search_floor_def split: prod.splits sum.splits)
    show ?thesis
    proof (cases "head = 0")
      case True
      then show ?thesis using b res head by (simp add: bisect.simps [of env r 0] floor_evidence_def)
    next
      case False
      then show ?thesis using bisect_evidence [OF b head ref] res head by (simp add: floor_evidence_def)
    qed
  next
    case (Failed e)
    then show ?thesis using assms p1 o1 p2 by (simp add: search_floor_def)
  qed
qed

lemma audit_evidence:
  assumes "audit_loop env r head rounds res calls = (c, Inr res')"
    and "floor_evidence env head res" and "served_in env head"
  shows "floor_evidence env head res'"
  using assms
proof (induction rounds arbitrary: res calls)
  case 0
  then show ?case by simp
next
  case (Suc rounds)
  show ?case
  proof (cases "fst res \<noteq> 0")
    case True
    then show ?thesis using Suc.prems by simp
  next
    case False
    obtain c1 o1 where h: "highestUnservable env r (fst res) head calls = (c1, o1)" by fastforce
    consider e where "o1 = Inl e" | "o1 = Inr None" | b bnd where "o1 = Inr (Some (b, bnd))"
      by (metis old.prod.exhaust option.exhaust sum.exhaust)
    then show ?thesis
    proof cases
      case (3 b bnd)
      have bb: "b < head \<and> refused_as env b bnd"
        using h 3 sample_evidence [of env r "fst res" head "[1..<monotonicitySamples + 1]" None calls c1 "Some (b, bnd)"]
        by (simp add: highestUnservable_def sample_ok_def split: if_split_asm)
      obtain c2 o2 where bi: "bisect env r b head bnd c1 = (c2, o2)" by fastforce
      show ?thesis
      proof (cases o2)
        case (Inl e)
        then show ?thesis using Suc.prems False h 3 bi by simp
      next
        case (Inr p)
        obtain hi bnd' where p: "p = (hi, bnd')" by (cases p)
        have "floor_evidence env head (hi, bnd', True)"
          using bisect_evidence [of env r b head bnd c1 c2 hi bnd'] bi Inr p bb Suc.prems(3)
          by (simp add: floor_evidence_def)
        then show ?thesis using Suc False h 3 bi Inr p by simp
      qed
    qed (use Suc.prems False h in auto)
  qed
qed

lemma ProbeHistoryFloor_Inr:
  assumes "ProbeHistoryFloor env head opts = Inr p"
  obtains res c where "floor_evidence env head res" "served_in env head"
    "check_anchor env (retry_defaults (hf_retry opts)) (hf_anchor opts) head res c = Inr p"
proof -
  let ?r = "retry_defaults (hf_retry opts)"
  from assms obtain c res c' res' where s: "search_floor env ?r head = (c, Inr res)"
    and a: "audit_loop env ?r head monotonicityRounds res c = (c', Inr res')"
    and ch: "check_anchor env ?r (hf_anchor opts) head res' c' = Inr p"
    by (auto simp: ProbeHistoryFloor_def Let_def split: prod.splits sum.splits)
  show thesis
    using that [OF audit_evidence [OF a] _ ch] search_evidence [OF s] by blast
qed

section \<open>A node with a floor\<close>

text \<open>Calls fail transiently at most \<open>a - 1\<close> times in a row, and what is then answered is
  monotone: logs from block \<open>F\<close> on, a definite refusal below.\<close>

definition transient_at :: "hist_env \<Rightarrow> nat \<Rightarrow> nat \<Rightarrow> bool" where
  "transient_at env c n \<longleftrightarrow> (\<exists>e. h_logs env c n = Inl e \<and> ClassifyLogsError (Some e) = LogsErrTransient)"

definition settles :: "hist_env \<Rightarrow> nat \<Rightarrow> nat \<Rightarrow> nat \<Rightarrow> bool" where
  "settles env F c n \<longleftrightarrow>
     (if F \<le> n then \<exists>m. h_logs env c n = Inr m
      else \<exists>e. h_logs env c n = Inl e \<and> ClassifyLogsError (Some e) \<noteq> LogsErrTransient)"

definition monotone_node :: "hist_env \<Rightarrow> nat \<Rightarrow> nat \<Rightarrow> bool" where
  "monotone_node env a F \<longleftrightarrow>
     (\<forall>c n. \<exists>j < a. (\<forall>i < j. transient_at env (c + i) n) \<and> settles env F (c + j) n)"

definition no_cancel :: "hist_env \<Rightarrow> bool" where
  "no_cancel env \<longleftrightarrow> (\<forall>c. \<not> h_ctx_before env c \<and> \<not> h_ctx_after env c \<and> (\<forall>b. \<not> h_ctx_sleep env c b))"

definition settled :: "nat \<Rightarrow> nat \<Rightarrow> probe_out \<Rightarrow> bool" where
  "settled F n out \<longleftrightarrow> (if F \<le> n then \<exists>m. out = Served m else \<exists>k e. out = Unserved k e)"

lemma probe_loop_settles:
  assumes "no_cancel env" and "\<forall>i < j. transient_at env (c + i) n" and "settles env F (c + j) n" and "j \<le> left"
  shows "settled F n (snd (probe_loop env r n left b c))"
  using assms(2-)
proof (induction j arbitrary: left b c)
  case 0
  then show ?case
    using assms(1) by (auto simp: probe_loop.simps [of env r n left] settles_def settled_def no_cancel_def
        split: if_splits sum.splits)
next
  case (Suc j)
  from Suc.prems(1) obtain e where e: "h_logs env c n = Inl e" "ClassifyLogsError (Some e) = LogsErrTransient"
    by (metis add_0_right transient_at_def zero_less_Suc)
  have "\<forall>i < j. transient_at env (c + 1 + i) n" using Suc.prems(1) by (metis Suc_less_eq add_Suc_right add_Suc_shift plus_1_eq_Suc add.commute)
  moreover have "settles env F (c + 1 + j) n" using Suc.prems(2) by simp
  ultimately have "settled F n (snd (probe_loop env r n (left - 1) b' (c + 1)))" for b'
    using Suc.IH [of "c + 1" "left - 1" b'] Suc.prems(3) by simp
  then show ?case using e assms(1) Suc.prems(3)
    by (auto simp: probe_loop.simps [of env r n left] no_cancel_def)
qed

lemma probe_settles:
  assumes "no_cancel env" and "monotone_node env (nat (rp_attempts r)) F"
  shows "settled F n (snd (probe env r n c))"
proof -
  obtain j where "j < nat (rp_attempts r)" "\<forall>i < j. transient_at env (c + i) n" "settles env F (c + j) n"
    using assms(2) unfolding monotone_node_def by blast
  then show ?thesis using probe_loop_settles [OF assms(1), of j c n F "nat (rp_attempts r) - 1"]
    by (simp add: probe_def)
qed

lemma bisect_exact:
  assumes "no_cancel env" and "monotone_node env (nat (rp_attempts r)) F" and "lo < F" and "F \<le> hi"
  shows "\<exists>c b. bisect env r lo hi bnd calls = (c, Inr (F, b))"
  using assms
proof (induction env r lo hi bnd calls rule: bisect.induct)
  case (1 env r lo hi bnd calls)
  let ?mid = "lo + (hi - lo) div 2"
  show ?case
  proof (cases "hi - lo > 1")
    case False
    then have "bisect env r lo hi bnd calls = (calls, Inr (hi, bnd))" by (simp add: bisect.simps [of env r lo hi])
    moreover have "hi = F" using False "1.prems"(3,4) by linarith
    ultimately show ?thesis by blast
  next
    case True
    obtain c' out where p: "probe env r ?mid calls = (c', out)" by fastforce
    have out: "settled F ?mid out" using probe_settles [OF "1.prems"(1,2), of ?mid calls] p by simp
    show ?thesis
    proof (cases "F \<le> ?mid")
      case le: True
      then obtain m where "out = Served m" using out by (auto simp: settled_def)
      then show ?thesis
        using "1.IH"(1) [OF True refl p [symmetric]] "1.prems" le True p
        by (simp add: bisect.simps [of env r lo hi] Let_def)
    next
      case False
      then obtain k e where "out = Unserved k e" using out by (auto simp: settled_def)
      then show ?thesis
        using "1.IH"(2) [OF True refl p [symmetric]] "1.prems" False True p
        by (simp add: bisect.simps [of env r lo hi] Let_def)
    qed
  qed
qed

lemma sample_none:
  assumes "no_cancel env" and "monotone_node env (nat (rp_attempts r)) 0"
  shows "\<exists>c. sample_loop env r floor head is None calls = (c, Inr None)"
proof (induction "is" arbitrary: calls)
  case Nil
  then show ?case by simp
next
  case (Cons i "is")
  obtain c' out where p: "probe env r (sample_block floor head i) calls = (c', out)" by fastforce
  then obtain m where "out = Served m"
    using probe_settles [OF assms, of "sample_block floor head i" calls] by (auto simp: settled_def)
  with p assms(1) Cons.IH show ?case by (simp add: Let_def no_cancel_def)
qed

lemma search_exact:
  assumes "no_cancel env" and "monotone_node env (nat (rp_attempts r)) F" and "F \<le> head"
  shows "\<exists>c b. search_floor env r head = (c, Inr (F, b, False))"
proof -
  obtain c1 o1 where p1: "probe env r head 0 = (c1, o1)" by fastforce
  then obtain m1 where o1: "o1 = Served m1"
    using probe_settles [OF assms(1,2), of head 0] assms(3) by (auto simp: settled_def)
  obtain c2 o2 where p2: "probe env r 0 c1 = (c2, o2)" by fastforce
  then have o2: "settled F 0 o2" using probe_settles [OF assms(1,2), of 0 c1] by simp
  show ?thesis
  proof (cases "F = 0")
    case True
    then show ?thesis using p1 o1 p2 o2 by (auto simp: settled_def search_floor_def)
  next
    case False
    then obtain k e where "o2 = Unserved k e" using o2 by (auto simp: settled_def)
    then show ?thesis
      using p1 o1 p2 bisect_exact [OF assms(1,2) _ assms(3), of 0 "(k, Some e)" c2] False
      by (auto simp: search_floor_def)
  qed
qed

lemma audit_exact:
  assumes "no_cancel env" and "monotone_node env (nat (rp_attempts r)) F"
  shows "\<exists>c'. audit_loop env r head rounds (F, b, False) c = (c', Inr (F, b, False))"
proof (cases rounds)
  case 0
  then show ?thesis by simp
next
  case (Suc n)
  have "F = 0 \<Longrightarrow> \<exists>c'. highestUnservable env r F head c = (c', Inr None)"
    using sample_none [OF assms(1), of r 0 head "[1..<monotonicitySamples + 1]" c] assms(2)
    by (auto simp: highestUnservable_def)
  then show ?thesis using Suc by (cases "F = 0") auto
qed

section \<open>Properties\<close>

text \<open>C27: A floor rests on evidence. Whenever the probe returns one, the node served logs for
  the floor and for the head in some call, and a floor above genesis has a block just below it
  that the node refused with an error that is not transient, the one reported as the
  boundary. When the anchor lies in the claimed range it was read and held the logs it must
  hold.\<close>

theorem history_floor_evidence:
  assumes "ProbeHistoryFloor env head opts = Inr p"
  shows "served_in env head \<and> served_in env (hp_floor p) \<and> hp_floor p \<le> head
    \<and> (hp_floor p > 0 \<longrightarrow> refused_as env (hp_floor p - 1) (hp_boundary p, hp_cause p))
    \<and> (\<forall>a. hf_anchor opts = Some a \<longrightarrow> hp_floor p \<le> an_block a \<longrightarrow> an_block a \<le> head \<longrightarrow>
         (\<exists>c n. h_logs env c (an_block a) = Inr n \<and> max 1 (an_minlogs a) \<le> int n))"
proof -
  obtain res c where ev: "floor_evidence env head res" "served_in env head"
    and ch: "check_anchor env (retry_defaults (hf_retry opts)) (hf_anchor opts) head res c = Inr p"
    using ProbeHistoryFloor_Inr [OF assms] by blast
  obtain f k e nm where res: "res = (f, (k, e), nm)" by (metis prod.exhaust)
  have same: "hp_floor p = f \<and> hp_boundary p = k \<and> hp_cause p = e"
    using ch res by (auto simp: check_anchor_def Let_def split: option.splits if_splits prod.splits probe_out.splits)
  have "\<exists>c n. h_logs env c (an_block a) = Inr n \<and> max 1 (an_minlogs a) \<le> int n"
    if "hf_anchor opts = Some a" "f \<le> an_block a" "an_block a \<le> head" for a
  proof -
    obtain c' out where p: "probe env (retry_defaults (hf_retry opts)) (an_block a) c = (c', out)" by fastforce
    with ch res that obtain n where n: "out = Served n" "max 1 (an_minlogs a) \<le> int n"
      by (cases out) (auto simp: check_anchor_def Let_def split: if_splits)
    then show ?thesis using probe_Served p by blast
  qed
  then show ?thesis using ev same res by (auto simp: floor_evidence_def)
qed

text \<open>On a node that serves logs exactly from block \<open>F\<close> on, up to transient failures of
  fewer calls in a row than the retry budget, the probe finds \<open>F\<close>, and does not report the
  node as non-monotone.\<close>

theorem history_floor_exact:
  assumes "no_cancel env" and "monotone_node env (nat (rp_attempts (retry_defaults (hf_retry opts)))) F"
    and "F \<le> head" and "hf_anchor opts = None"
  shows "\<exists>p. ProbeHistoryFloor env head opts = Inr p \<and> hp_floor p = F \<and> \<not> hp_nonmonotone p"
proof -
  obtain c b where "search_floor env (retry_defaults (hf_retry opts)) head = (c, Inr (F, b, False))"
    using search_exact [OF assms(1-3)] by blast
  moreover obtain c' where
    "audit_loop env (retry_defaults (hf_retry opts)) head monotonicityRounds (F, b, False) c = (c', Inr (F, b, False))"
    using audit_exact [OF assms(1,2)] by blast
  ultimately show ?thesis
    using assms(4) by (cases b) (auto simp: ProbeHistoryFloor_def check_anchor_def Let_def)
qed

text \<open>A node pruned below block 5 whose every second call times out.\<close>

definition flaky_env :: hist_env where
  "flaky_env = \<lparr>h_logs = (\<lambda>c n.
       if odd c then Inl \<lparr>err_msg = [], err_ctx = True, err_rpc = None, err_http = None, err_io = False, err_net = False\<rparr>
       else if n < 5 then Inl \<lparr>err_msg = [], err_ctx = False, err_rpc = Some 4444, err_http = None, err_io = False, err_net = False\<rparr>
       else Inr 1),
     h_ctx_before = (\<lambda>_. False), h_ctx_after = (\<lambda>_. False), h_ctx_sleep = (\<lambda>_ _. False)\<rparr>"

definition probe_defaults :: HistoryFloorOptions where
  "probe_defaults = \<lparr>hf_anchor = None, hf_retry = \<lparr>rp_attempts = 0, rp_backoff = 0, rp_max = 0\<rparr>\<rparr>"

lemma flaky_monotone: "no_cancel flaky_env" "monotone_node flaky_env 5 5"
proof -
  have cl: "ClassifyLogsError (Some \<lparr>err_msg = [], err_ctx = True, err_rpc = None, err_http = None, err_io = False, err_net = False\<rparr>) = LogsErrTransient"
    "ClassifyLogsError (Some \<lparr>err_msg = [], err_ctx = False, err_rpc = Some 4444, err_http = None, err_io = False, err_net = False\<rparr>) = LogsErrHistoryUnavailable"
    by (simp_all add: ClassifyLogsError_def rpc_kind_def gethPrunedHistoryCode_def)
  have "\<exists>j < 5. (\<forall>i < j. transient_at flaky_env (c + i) n) \<and> settles flaky_env 5 (c + j) n" for c n
    by (rule exI [of _ "if odd c then 1 else 0"])
      (auto simp: flaky_env_def transient_at_def settles_def cl)
  then show "monotone_node flaky_env 5 5" by (simp add: monotone_node_def)
qed (simp add: no_cancel_def flaky_env_def)

theorem history_floor_exact_witness:
  "\<exists>p. ProbeHistoryFloor flaky_env 9 probe_defaults = Inr p \<and> hp_floor p = 5 \<and> \<not> hp_nonmonotone p"
  by (rule history_floor_exact)
    (use flaky_monotone in \<open>simp_all add: probe_defaults_def retry_defaults_def\<close>)

theorem history_floor_evidence_witness:
  "refused_as flaky_env 4 (LogsErrHistoryUnavailable, Some \<lparr>err_msg = [], err_ctx = False, err_rpc = Some 4444,
     err_http = None, err_io = False, err_net = False\<rparr>)"
proof -
  have eq: "ProbeHistoryFloor flaky_env 9 probe_defaults = Inr \<lparr>hp_floor = 5, hp_boundary = LogsErrHistoryUnavailable,
      hp_cause = Some \<lparr>err_msg = [], err_ctx = False, err_rpc = Some 4444, err_http = None, err_io = False, err_net = False\<rparr>,
      hp_probes = 9, hp_nonmonotone = False, hp_anchored = False\<rparr>"
    by code_simp
  show ?thesis using history_floor_evidence [OF eq] by simp
qed

end
