(* ===== verification/ChainStore.thy ===== *)
theory ChainStore
  imports IndexStore
begin

text \<open>
  Tables as association lists, and the chains table of \<open>internal/store/chains.go\<close>
  together with the columns that \<open>assets.go\<close> and \<open>discovery.go\<close> keep there (head and
  history floor). \<open>now()\<close> is an argument. A nullable text column that every reader passes
  through \<open>COALESCE(column, '')\<close> is a string that may be empty.
\<close>

section \<open>Tables\<close>

text \<open>\<open>UPDATE ... WHERE key = k\<close> and \<open>INSERT ... ON CONFLICT (key) DO UPDATE\<close>.\<close>

definition update_row :: "'k \<Rightarrow> ('v \<Rightarrow> 'v) \<Rightarrow> ('k \<times> 'v) list \<Rightarrow> ('k \<times> 'v) list" where
  "update_row k f tab = map (\<lambda>(k', v). (k', if k' = k then f v else v)) tab"

definition upsert :: "'k \<Rightarrow> 'v \<Rightarrow> ('v \<Rightarrow> 'v) \<Rightarrow> ('k \<times> 'v) list \<Rightarrow> ('k \<times> 'v) list" where
  "upsert k new merge tab =
     (if map_of tab k = None then tab @ [(k, new)] else update_row k merge tab)"

definition keys_unique :: "('k \<times> 'v) list \<Rightarrow> bool" where
  "keys_unique tab \<longleftrightarrow> distinct (map fst tab)"

lemma map_of_update_row [simp]:
  "map_of (update_row k f tab) k' = (if k' = k then map_option f (map_of tab k') else map_of tab k')"
  by (induction tab) (auto simp: update_row_def)

lemma fst_update_row [simp]: "map fst (update_row k f tab) = map fst tab"
  by (auto simp: update_row_def)

lemma update_row_last: "k \<notin> fst ` set tab \<Longrightarrow> update_row k f (tab @ [(k, v)]) = tab @ [(k, f v)]"
  by (induction tab) (auto simp: update_row_def)

lemma map_of_upsert [simp]:
  "map_of (upsert k new merge tab) k' =
     (if k' = k then Some (case map_of tab k of None \<Rightarrow> new | Some v \<Rightarrow> merge v) else map_of tab k')"
  by (auto simp: upsert_def map_add_def split: option.splits)

lemma keys_unique_update_row [simp]: "keys_unique (update_row k f tab) = keys_unique tab"
  by (simp add: keys_unique_def)

lemma keys_unique_upsert [simp]: "keys_unique tab \<Longrightarrow> keys_unique (upsert k new merge tab)"
  by (auto simp: upsert_def keys_unique_def map_of_eq_None_iff)

section \<open>Chains\<close>

datatype trust = TrustVerified | TrustUnverified | TrustQuarantined

datatype chain_source = ChainSourceConfig | ChainSourceAPI | ChainSourceDemand

record ChainRow =
  ch_name :: string
  ch_enabled :: bool
  ch_source :: chain_source
  ch_trust :: trust
  ch_node_url :: "string option"
  ch_native_symbol :: "string option"
  ch_native_decimals :: int
  ch_wrapped :: "address option"
  ch_profile :: string
  ch_ens_name :: "string option"
  ch_ens_at :: "nat option"
  ch_trust_at :: "nat option"
  ch_trust_by :: string
  ch_error :: string
  ch_error_at :: "nat option"
  ch_head :: nat
  ch_head_hash :: "hash option"
  ch_floor :: nat
  ch_probed_at :: "nat option"

text \<open>The column defaults of \<open>migrations\<close> for a row that names only its id and label.\<close>

definition default_chain :: "string \<Rightarrow> ChainRow" where
  "default_chain name =
     \<lparr>ch_name = name, ch_enabled = True, ch_source = ChainSourceConfig, ch_trust = TrustUnverified,
      ch_node_url = None, ch_native_symbol = None, ch_native_decimals = 18, ch_wrapped = None,
      ch_profile = ''{}'', ch_ens_name = None, ch_ens_at = None, ch_trust_at = None, ch_trust_by = [],
      ch_error = [], ch_error_at = None, ch_head = 0, ch_head_hash = None, ch_floor = 0,
      ch_probed_at = None\<rparr>"

record chain_db = index_db +
  chains :: "(nat \<times> ChainRow) list"

datatype store_error = ErrNotFound | ErrAlreadyPromoted | ErrNoChainID | ErrStaleVerdict | ErrTooMany | ErrBadDeadline | ErrBadWeight int | ErrBadTrust string

text \<open>What a caller of \<open>UpsertChainProfile\<close> passes; \<open>None\<close> stands for an empty trust or
  source string.\<close>

record ChainProfile =
  cp_id :: nat
  cp_name :: string
  cp_enabled :: bool
  cp_source :: "chain_source option"
  cp_trust :: "trust option"
  cp_node_url :: string
  cp_native_symbol :: string
  cp_native_decimals :: int
  cp_wrapped :: "address option"
  cp_tuning :: string
  cp_ens_name :: string
  cp_ens_at :: "nat option"

definition nullStr :: "string \<Rightarrow> string option" where
  "nullStr s = (if s = [] then None else Some s)"

definition coalesce :: "'a option \<Rightarrow> 'a option \<Rightarrow> 'a option" where
  "coalesce a b = (case a of None \<Rightarrow> b | Some x \<Rightarrow> Some x)"

definition profile_row :: "ChainProfile \<Rightarrow> ChainRow" where
  "profile_row p = (default_chain (cp_name p))
     \<lparr>ch_enabled := cp_enabled p,
      ch_source := (case cp_source p of None \<Rightarrow> ChainSourceConfig | Some s \<Rightarrow> s),
      ch_trust := (case cp_trust p of None \<Rightarrow> TrustUnverified | Some t \<Rightarrow> t),
      ch_node_url := nullStr (cp_node_url p),
      ch_native_symbol := nullStr (cp_native_symbol p),
      ch_native_decimals := (if cp_native_decimals p = 0 then 18 else cp_native_decimals p),
      ch_wrapped := cp_wrapped p,
      ch_profile := (if cp_tuning p = [] then ''{}'' else cp_tuning p),
      ch_ens_name := nullStr (cp_ens_name p),
      ch_ens_at := cp_ens_at p\<rparr>"

definition merge_profile :: "ChainRow \<Rightarrow> ChainRow \<Rightarrow> ChainRow" where
  "merge_profile new old = old
     \<lparr>ch_name := ch_name new, ch_enabled := ch_enabled new, ch_source := ch_source new,
      ch_node_url := coalesce (ch_node_url new) (ch_node_url old),
      ch_native_symbol := coalesce (ch_native_symbol new) (ch_native_symbol old),
      ch_native_decimals := ch_native_decimals new,
      ch_wrapped := coalesce (ch_wrapped new) (ch_wrapped old),
      ch_profile := ch_profile new,
      ch_ens_name := coalesce (ch_ens_name new) (ch_ens_name old),
      ch_ens_at := coalesce (ch_ens_at new) (ch_ens_at old)\<rparr>"

definition UpsertChainProfile :: "ChainProfile \<Rightarrow> 'a chain_db_scheme \<Rightarrow> store_error + 'a chain_db_scheme" where
  "UpsertChainProfile p db =
     (if cp_id p = 0 then Inl ErrNoChainID
      else Inr (db\<lparr>chains := upsert (cp_id p) (profile_row p) (merge_profile (profile_row p)) (chains db)\<rparr>))"

definition parse_trust :: "string \<Rightarrow> trust option" where
  "parse_trust s = (if s = ''verified'' then Some TrustVerified else if s = ''unverified'' then Some TrustUnverified
     else if s = ''quarantined'' then Some TrustQuarantined else None)"

definition SetChainTrust :: "nat \<Rightarrow> string \<Rightarrow> string \<Rightarrow> nat \<Rightarrow> 'a chain_db_scheme \<Rightarrow> store_error + 'a chain_db_scheme" where
  "SetChainTrust chainID trust who now db =
     (case parse_trust trust of None \<Rightarrow> Inl (ErrBadTrust trust)
      | Some t \<Rightarrow>
          if map_of (chains db) chainID = None then Inl ErrNotFound
          else Inr (db\<lparr>chains := update_row chainID
            (\<lambda>r. r\<lparr>ch_trust := t, ch_trust_at := Some now, ch_trust_by := who\<rparr>) (chains db)\<rparr>))"

definition SetChainEnabled :: "nat \<Rightarrow> bool \<Rightarrow> 'a chain_db_scheme \<Rightarrow> store_error + 'a chain_db_scheme" where
  "SetChainEnabled chainID enabled db =
     (if map_of (chains db) chainID = None then Inl ErrNotFound
      else Inr (db\<lparr>chains := update_row chainID (\<lambda>r. r\<lparr>ch_enabled := enabled\<rparr>) (chains db)\<rparr>))"

definition SetChainError :: "nat \<Rightarrow> string option \<Rightarrow> nat \<Rightarrow> 'a chain_db_scheme \<Rightarrow> 'a chain_db_scheme" where
  "SetChainError chainID cause now db =
     (case cause of
        None \<Rightarrow> db\<lparr>chains := update_row chainID (\<lambda>r. r\<lparr>ch_error := [], ch_error_at := None\<rparr>) (chains db)\<rparr>
      | Some msg \<Rightarrow> db\<lparr>chains := update_row chainID (\<lambda>r. r\<lparr>ch_error := msg, ch_error_at := Some now\<rparr>) (chains db)\<rparr>)"

definition GetChainProfile :: "nat \<Rightarrow> 'a chain_db_scheme \<Rightarrow> store_error + ChainRow" where
  "GetChainProfile chainID db =
     (case map_of (chains db) chainID of None \<Rightarrow> Inl ErrNotFound | Some r \<Rightarrow> Inr r)"

definition ListChainProfiles :: "bool \<Rightarrow> 'a chain_db_scheme \<Rightarrow> (nat \<times> ChainRow) list" where
  "ListChainProfiles enabledOnly db =
     sort_key (\<lambda>(i, r). (\<not> ch_enabled r))
       (sort_key fst (filter (\<lambda>(i, r). \<not> enabledOnly \<or> ch_enabled r) (chains db)))"

definition UpsertChain :: "nat \<Rightarrow> string \<Rightarrow> 'a chain_db_scheme \<Rightarrow> 'a chain_db_scheme" where
  "UpsertChain chainID name db =
     db\<lparr>chains := upsert chainID (default_chain name) (\<lambda>r. r\<lparr>ch_name := name\<rparr>) (chains db)\<rparr>"

definition ChainName :: "nat \<Rightarrow> 'a chain_db_scheme \<Rightarrow> string" where
  "ChainName chainID db = (case map_of (chains db) chainID of None \<Rightarrow> [] | Some r \<Rightarrow> ch_name r)"

definition SetChainHead :: "nat \<Rightarrow> nat \<Rightarrow> hash \<Rightarrow> 'a chain_db_scheme \<Rightarrow> 'a chain_db_scheme" where
  "SetChainHead chainID block h db =
     db\<lparr>chains := update_row chainID (\<lambda>r. r\<lparr>ch_head := block, ch_head_hash := Some h\<rparr>) (chains db)\<rparr>"

definition SetHistoryFloor :: "nat \<Rightarrow> nat \<Rightarrow> nat \<Rightarrow> 'a chain_db_scheme \<Rightarrow> 'a chain_db_scheme" where
  "SetHistoryFloor chainID floor now db =
     db\<lparr>chains := update_row chainID (\<lambda>r. r\<lparr>ch_floor := floor, ch_probed_at := Some now\<rparr>) (chains db)\<rparr>"

definition StoredHistoryFloor :: "nat \<Rightarrow> 'a chain_db_scheme \<Rightarrow> nat \<times> bool" where
  "StoredHistoryFloor chainID db =
     (case map_of (chains db) chainID of None \<Rightarrow> (0, False) | Some r \<Rightarrow> (ch_floor r, ch_probed_at r \<noteq> None))"

section \<open>Trust is kept\<close>

definition trust_of :: "'a chain_db_scheme \<Rightarrow> nat \<Rightarrow> trust option" where
  "trust_of db i = map_option ch_trust (map_of (chains db) i)"

text \<open>The operations on the chains table as steps, with their arguments.\<close>

inductive chain_step :: "'a chain_db_scheme \<Rightarrow> 'a chain_db_scheme \<Rightarrow> bool" where
  profile: "UpsertChainProfile p db = Inr db' \<Longrightarrow> chain_step db db'"
| enabled: "SetChainEnabled i b db = Inr db' \<Longrightarrow> chain_step db db'"
| error: "chain_step db (SetChainError i cause now db)"
| label: "chain_step db (UpsertChain i name db)"
| head: "chain_step db (SetChainHead i b h db)"
| floor: "chain_step db (SetHistoryFloor i f now db)"

inductive_cases chain_stepE: "chain_step db db'"

lemma chain_step_trust: "chain_step db db' \<Longrightarrow> trust_of db i = Some t \<Longrightarrow> trust_of db' i = Some t"
  by (erule chain_stepE)
    (auto simp: UpsertChainProfile_def SetChainEnabled_def SetChainError_def UpsertChain_def SetChainHead_def
      SetHistoryFloor_def trust_of_def merge_profile_def split: if_splits option.splits)

section \<open>Properties\<close>

text \<open>Only \<open>SetChainTrust\<close> changes the trust of a recorded chain. However many other
  operations run on the chains table, a configuration that names the chain again with another
  trust included, the trust an operator set stays.\<close>

theorem chain_trust_kept:
  assumes "SetChainTrust i level who now db = Inr db1" and "chain_step\<^sup>*\<^sup>* db1 db2"
  shows "parse_trust level \<noteq> None \<and> trust_of db2 i = parse_trust level"
proof -
  obtain t where t: "parse_trust level = Some t" and "trust_of db1 i = Some t"
    using assms(1) by (auto simp: SetChainTrust_def trust_of_def split: if_splits option.splits)
  with assms(2) have "trust_of db2 i = Some t" by (induction rule: rtranclp_induct) (auto dest: chain_step_trust)
  with t show ?thesis by simp
qed

definition demo_profile :: ChainProfile where
  "demo_profile = \<lparr>cp_id = 7, cp_name = ''base'', cp_enabled = True, cp_source = None,
     cp_trust = Some TrustUnverified, cp_node_url = [], cp_native_symbol = [], cp_native_decimals = 0,
     cp_wrapped = None, cp_tuning = [], cp_ens_name = [], cp_ens_at = None\<rparr>"

definition demo_chain_db :: chain_db where
  "demo_chain_db = \<lparr>interactions = [], pending_events = [], chains = [(7, default_chain ''b'')]\<rparr>"

definition demo_trusted :: chain_db where
  "demo_trusted = demo_chain_db\<lparr>chains :=
     [(7, (default_chain ''b'')\<lparr>ch_trust := TrustVerified, ch_trust_at := Some 5, ch_trust_by := ''op''\<rparr>)]\<rparr>"

theorem chain_trust_kept_witness:
  "trust_of (demo_trusted\<lparr>chains := upsert 7 (profile_row demo_profile) (merge_profile (profile_row demo_profile))
     (chains demo_trusted)\<rparr>) 7 = Some TrustVerified"
proof -
  have s: "SetChainTrust 7 ''verified'' ''op'' 5 demo_chain_db = Inr demo_trusted"
    by (simp add: SetChainTrust_def demo_chain_db_def demo_trusted_def update_row_def parse_trust_def)
  have "chain_step demo_trusted (demo_trusted\<lparr>chains := upsert 7 (profile_row demo_profile)
      (merge_profile (profile_row demo_profile)) (chains demo_trusted)\<rparr>)"
    by (rule chain_step.profile [where p = demo_profile]) (simp add: UpsertChainProfile_def demo_profile_def)
  from chain_trust_kept [OF s r_into_rtranclp [of chain_step, OF this]] show ?thesis by (simp add: parse_trust_def)
qed

end
