(* ===== verification/AssetStore.thy ===== *)
theory AssetStore
  imports ChainStore
begin

text \<open>
  Assets and their scan cursors: \<open>internal/store/assets.go\<close>, with \<open>SetBackfillFloor\<close> of
  \<open>discovery.go\<close>. Both tables are keyed by (chain, address). The lemmas are about what a
  registration may change and about the two ends of the range a cursor covers.
\<close>

section \<open>Tables\<close>

datatype asset_status = StatusPending | StatusScanning | StatusLive | StatusRevoked

datatype asset_source = SourceOnchain | SourceLocal | SourceDiscovered | SourceDemand | SourceSnapshot

record Asset =
  as_standard :: nat
  as_symbol :: string
  as_name :: string
  as_decimals :: "int option"
  as_hint_from :: nat
  as_registrant :: "address option"
  as_registry_key :: "byte list option"
  as_source :: asset_source
  as_status :: asset_status
  as_promoted :: bool
  as_reports :: nat
  as_reported_at :: "nat option"
  as_report_reason :: string

record Cursor =
  cu_anchor :: nat
  cu_next :: nat
  cu_done :: bool
  cu_tail :: nat
  cu_logs :: nat
  cu_floor :: nat

type_synonym asset_key = "nat \<times> address"

record asset_db = chain_db +
  assets :: "(asset_key \<times> Asset) list"
  asset_cursors :: "(asset_key \<times> Cursor) list"

section \<open>Registration\<close>

definition backfillStart :: "nat \<Rightarrow> nat" where
  "backfillStart anchor = (if anchor = 0 then 0 else anchor - 1)"

definition non_empty :: "string \<Rightarrow> string \<Rightarrow> string" where
  "non_empty new old = (if new = [] then old else new)"

definition merge_asset :: "Asset \<Rightarrow> Asset \<Rightarrow> Asset" where
  "merge_asset new old = old\<lparr>
     as_standard := (if as_standard old = 0 then as_standard new else as_standard old),
     as_symbol := non_empty (as_symbol new) (as_symbol old),
     as_name := non_empty (as_name new) (as_name old),
     as_decimals := coalesce (as_decimals new) (as_decimals old),
     as_registry_key := coalesce (as_registry_key new) (as_registry_key old),
     as_source := (if as_source new = SourceOnchain then as_source new else as_source old),
     as_status := (if as_status old = StatusRevoked then StatusPending else as_status old)\<rparr>"

definition fresh_cursor :: "nat \<Rightarrow> Cursor" where
  "fresh_cursor anchor = \<lparr>cu_anchor = anchor, cu_next = backfillStart anchor, cu_done = False,
     cu_tail = anchor, cu_logs = 0, cu_floor = 0\<rparr>"

text \<open>A row is inserted with status pending and without reports. The result says whether a
  cursor was created.\<close>

definition RegisterAsset :: "nat \<Rightarrow> address \<Rightarrow> Asset \<Rightarrow> nat \<Rightarrow> 'a asset_db_scheme \<Rightarrow> 'a asset_db_scheme \<times> bool" where
  "RegisterAsset chainID addr a anchorBlock db =
     (let key = (chainID, addr);
          row = a\<lparr>as_status := StatusPending, as_reports := 0, as_reported_at := None, as_report_reason := []\<rparr>;
          created = (map_of (asset_cursors db) key = None)
      in (db\<lparr>assets := upsert key row (merge_asset row) (assets db),
             asset_cursors := upsert key (fresh_cursor anchorBlock) (\<lambda>c. c) (asset_cursors db)\<rparr>,
          created))"

definition ReRegisterAsset :: "nat \<Rightarrow> address \<Rightarrow> nat \<Rightarrow> 'a asset_db_scheme \<Rightarrow> 'a asset_db_scheme" where
  "ReRegisterAsset chainID addr anchorBlock db =
     db\<lparr>asset_cursors := update_row (chainID, addr)
       (\<lambda>c. c\<lparr>cu_anchor := anchorBlock, cu_next := backfillStart anchorBlock, cu_done := False,
             cu_tail := anchorBlock\<rparr>) (asset_cursors db)\<rparr>"

section \<open>Reads\<close>

definition GetAsset :: "nat \<Rightarrow> address \<Rightarrow> 'a asset_db_scheme \<Rightarrow> store_error + Asset" where
  "GetAsset chainID addr db =
     (case map_of (assets db) (chainID, addr) of None \<Rightarrow> Inl ErrNotFound | Some a \<Rightarrow> Inr a)"

definition GetCursor :: "nat \<Rightarrow> address \<Rightarrow> 'a asset_db_scheme \<Rightarrow> store_error + Cursor" where
  "GetCursor chainID addr db =
     (case map_of (asset_cursors db) (chainID, addr) of None \<Rightarrow> Inl ErrNotFound | Some c \<Rightarrow> Inr c)"

text \<open>\<open>ORDER BY chain_id, (reports > 0), address\<close>, by stable sorts from the last key.\<close>

definition ListAssets :: "nat \<Rightarrow> bool \<Rightarrow> 'a asset_db_scheme \<Rightarrow> (asset_key \<times> Asset) list" where
  "ListAssets chainID includeRevoked db =
     sort_key (fst \<circ> fst) (sort_key (\<lambda>x. as_reports (snd x) > 0) (sort_key (snd \<circ> fst)
       (filter (\<lambda>((c, _), a). (chainID = 0 \<or> c = chainID) \<and> (includeRevoked \<or> as_status a \<noteq> StatusRevoked))
         (assets db))))"

definition ListCursors :: "nat \<Rightarrow> 'a asset_db_scheme \<Rightarrow> (address \<times> Cursor) list" where
  "ListCursors chainID db =
     sort_key fst (map (\<lambda>((c, addr), cur). (addr, cur))
       (filter (\<lambda>((c, addr), cur). c = chainID
           \<and> (case map_of (assets db) (c, addr) of None \<Rightarrow> False | Some a \<Rightarrow> as_status a \<noteq> StatusRevoked))
         (asset_cursors db)))"

section \<open>Updates\<close>

definition SetAssetStatus :: "nat \<Rightarrow> address \<Rightarrow> asset_status \<Rightarrow> 'a asset_db_scheme \<Rightarrow> 'a asset_db_scheme" where
  "SetAssetStatus chainID addr status db =
     db\<lparr>assets := update_row (chainID, addr) (\<lambda>a. a\<lparr>as_status := status\<rparr>) (assets db)\<rparr>"

definition SetAssetMetadata ::
  "nat \<Rightarrow> address \<Rightarrow> nat \<Rightarrow> string \<Rightarrow> string \<Rightarrow> int option \<Rightarrow> 'a asset_db_scheme \<Rightarrow> 'a asset_db_scheme" where
  "SetAssetMetadata chainID addr standard symbol name decimals db =
     db\<lparr>assets := update_row (chainID, addr) (\<lambda>a. a\<lparr>
         as_standard := (if standard = 0 then as_standard a else standard),
         as_symbol := non_empty symbol (as_symbol a),
         as_name := non_empty name (as_name a),
         as_decimals := coalesce decimals (as_decimals a)\<rparr>) (assets db)\<rparr>"

definition AdvanceBackfill ::
  "nat \<Rightarrow> address \<Rightarrow> nat \<Rightarrow> bool \<Rightarrow> nat \<Rightarrow> 'a asset_db_scheme \<Rightarrow> 'a asset_db_scheme" where
  "AdvanceBackfill chainID addr next done logsSeen db =
     db\<lparr>asset_cursors := update_row (chainID, addr)
       (\<lambda>c. c\<lparr>cu_next := next, cu_done := done, cu_logs := cu_logs c + logsSeen\<rparr>) (asset_cursors db)\<rparr>"

definition AdvanceTail :: "nat \<Rightarrow> address \<Rightarrow> nat \<Rightarrow> nat \<Rightarrow> 'a asset_db_scheme \<Rightarrow> 'a asset_db_scheme" where
  "AdvanceTail chainID addr tail logsSeen db =
     db\<lparr>asset_cursors := update_row (chainID, addr)
       (\<lambda>c. c\<lparr>cu_tail := max (cu_tail c) tail, cu_logs := cu_logs c + logsSeen\<rparr>) (asset_cursors db)\<rparr>"

definition RewindTail :: "nat \<Rightarrow> nat \<Rightarrow> 'a asset_db_scheme \<Rightarrow> 'a asset_db_scheme" where
  "RewindTail chainID to db =
     db\<lparr>asset_cursors := map (\<lambda>((c, addr), cur).
         ((c, addr), if c = chainID then cur\<lparr>cu_tail := min (cu_tail cur) to\<rparr> else cur)) (asset_cursors db)\<rparr>"

definition SetBackfillFloor :: "nat \<Rightarrow> address \<Rightarrow> nat \<Rightarrow> 'a asset_db_scheme \<Rightarrow> 'a asset_db_scheme" where
  "SetBackfillFloor chainID addr floor db =
     db\<lparr>asset_cursors := update_row (chainID, addr) (\<lambda>c. c\<lparr>cu_floor := floor\<rparr>) (asset_cursors db)\<rparr>"

definition ReportAsset :: "nat \<Rightarrow> address \<Rightarrow> string \<Rightarrow> nat \<Rightarrow> 'a asset_db_scheme \<Rightarrow> store_error + ('a asset_db_scheme \<times> nat)" where
  "ReportAsset chainID addr reason now db =
     (case map_of (assets db) (chainID, addr) of
        None \<Rightarrow> Inl ErrNotFound
      | Some a \<Rightarrow> Inr (db\<lparr>assets := update_row (chainID, addr) (\<lambda>a. a\<lparr>
            as_reports := as_reports a + 1, as_reported_at := Some now,
            as_report_reason := (if as_report_reason a = [] then reason else as_report_reason a)\<rparr>) (assets db)\<rparr>,
          as_reports a + 1))"

definition ClearAssetReports :: "nat \<Rightarrow> address \<Rightarrow> 'a asset_db_scheme \<Rightarrow> 'a asset_db_scheme" where
  "ClearAssetReports chainID addr db =
     db\<lparr>assets := update_row (chainID, addr)
       (\<lambda>a. a\<lparr>as_reports := 0, as_reported_at := None, as_report_reason := []\<rparr>) (assets db)\<rparr>"

section \<open>Cursors\<close>

definition cursor_of :: "'a asset_db_scheme \<Rightarrow> nat \<Rightarrow> address \<Rightarrow> Cursor option" where
  "cursor_of db c addr = map_of (asset_cursors db) (c, addr)"

lemmas asset_db_ops = RegisterAsset_def ReRegisterAsset_def SetAssetStatus_def SetAssetMetadata_def
  AdvanceBackfill_def AdvanceTail_def RewindTail_def SetBackfillFloor_def ReportAsset_def ClearAssetReports_def

lemma map_of_RewindTail:
  "map_of (map (\<lambda>((c, addr), cur). ((c, addr), if c = chainID then f cur else cur)) tab) (c, addr) =
     (if c = chainID then map_option f (map_of tab (c, addr)) else map_of tab (c, addr))"
  by (induction tab) auto

lemma cursor_of_simps [simp]:
  "cursor_of (SetAssetStatus c a st db) = cursor_of db"
  "cursor_of (SetAssetMetadata c a std symb nm dec db) = cursor_of db"
  "cursor_of (AdvanceBackfill c a nx dn ls db) c' a' =
     (if (c', a') = (c, a) then map_option (\<lambda>x. x\<lparr>cu_next := nx, cu_done := dn, cu_logs := cu_logs x + ls\<rparr>) (cursor_of db c' a')
      else cursor_of db c' a')"
  "cursor_of (AdvanceTail c a tb ls db) c' a' =
     (if (c', a') = (c, a) then map_option (\<lambda>x. x\<lparr>cu_tail := max (cu_tail x) tb, cu_logs := cu_logs x + ls\<rparr>) (cursor_of db c' a')
      else cursor_of db c' a')"
  "cursor_of (SetBackfillFloor c a fl db) c' a' =
     (if (c', a') = (c, a) then map_option (\<lambda>x. x\<lparr>cu_floor := fl\<rparr>) (cursor_of db c' a') else cursor_of db c' a')"
  "cursor_of (RewindTail c to db) c' a' =
     (if c' = c then map_option (\<lambda>x. x\<lparr>cu_tail := min (cu_tail x) to\<rparr>) (cursor_of db c' a') else cursor_of db c' a')"
  by (auto simp: cursor_of_def asset_db_ops map_of_RewindTail fun_eq_iff)

lemma set_ListCursors:
  "set (ListCursors c db) = {(addr, cur). ((c, addr), cur) \<in> set (asset_cursors db)
     \<and> (\<exists>a. map_of (assets db) (c, addr) = Some a \<and> as_status a \<noteq> StatusRevoked)}"
  by (force simp: ListCursors_def image_iff split: option.splits)

lemma distinct_ListCursors:
  assumes "keys_unique (asset_cursors db)"
  shows "distinct (map fst (ListCursors c db))"
proof -
  let ?P = "\<lambda>((c', addr), cur :: Cursor). c' = c
     \<and> (case map_of (assets db) (c', addr) of None \<Rightarrow> False | Some a \<Rightarrow> as_status a \<noteq> StatusRevoked)"
  let ?xs = "filter ?P (asset_cursors db)"
  have d: "distinct (map fst ?xs)"
    using assms by (simp add: keys_unique_def distinct_map_filter)
  have "inj_on snd (set (map fst ?xs))" by (auto simp: inj_on_def)
  with d have "distinct (map snd (map fst ?xs))" by (simp only: distinct_map [of snd] simp_thms)
  moreover have "mset (map fst (ListCursors c db)) = mset (map snd (map fst ?xs))"
    by (simp add: ListCursors_def case_prod_beta comp_def multiset.map_comp)
  ultimately show ?thesis using mset_eq_imp_distinct_iff by blast
qed

section \<open>Properties\<close>

definition asset_kept :: "Asset \<Rightarrow> Asset \<Rightarrow> bool" where
  "asset_kept old new \<longleftrightarrow>
     (as_standard old = 0 \<or> as_standard new = as_standard old)
     \<and> (as_symbol old = [] \<or> as_symbol new \<noteq> []) \<and> (as_name old = [] \<or> as_name new \<noteq> [])
     \<and> (as_decimals old = None \<or> as_decimals new \<noteq> None)
     \<and> (as_registry_key old = None \<or> as_registry_key new \<noteq> None)
     \<and> (as_source old \<noteq> SourceOnchain \<or> as_source new = SourceOnchain)
     \<and> as_hint_from new = as_hint_from old \<and> as_reports new = as_reports old
     \<and> as_promoted new = as_promoted old
     \<and> as_status new = (if as_status old = StatusRevoked then StatusPending else as_status old)"

text \<open>Registering an asset again never rewinds its scan and never erases what is known:
  its cursor is untouched and reported as not created, and its standard, labels, decimals,
  registry key, hint, reports and an on-chain source are kept where they were set; only a
  revoked asset changes its status, to pending. A first registration starts with a fresh
  cursor.\<close>

theorem RegisterAsset_keeps_progress:
  "(case (cursor_of db c addr, RegisterAsset c addr a anchor db) of
      (None, db', created) \<Rightarrow> created \<and> cursor_of db' c addr = Some (fresh_cursor anchor)
    | (Some cur, db', created) \<Rightarrow> \<not> created \<and> cursor_of db' = cursor_of db)
   \<and> (case (map_of (assets db) (c, addr), map_of (assets (fst (RegisterAsset c addr a anchor db))) (c, addr)) of
      (Some old, Some new) \<Rightarrow> asset_kept old new
    | (None, Some new) \<Rightarrow> as_status new = StatusPending \<and> as_reports new = 0
    | (_, None) \<Rightarrow> False)"
proof
  show "case (cursor_of db c addr, RegisterAsset c addr a anchor db) of
      (None, db', created) \<Rightarrow> created \<and> cursor_of db' c addr = Some (fresh_cursor anchor)
    | (Some cur, db', created) \<Rightarrow> \<not> created \<and> cursor_of db' = cursor_of db"
    by (auto simp: RegisterAsset_def cursor_of_def fun_eq_iff Let_def split: option.splits)
  show "case (map_of (assets db) (c, addr), map_of (assets (fst (RegisterAsset c addr a anchor db))) (c, addr)) of
      (Some old, Some new) \<Rightarrow> asset_kept old new
    | (None, Some new) \<Rightarrow> as_status new = StatusPending \<and> as_reports new = 0
    | (_, None) \<Rightarrow> False"
    by (cases "map_of (assets db) (c, addr)")
      (auto simp: RegisterAsset_def merge_asset_def non_empty_def coalesce_def asset_kept_def Let_def split: option.splits)
qed

end
