(* ===== verification/DemandStore.thy ===== *)
theory DemandStore
  imports AssetStore
begin

text \<open>
  Who wants a contract indexed, and what readers sign: \<open>internal/store/demand.go\<close> (votes and
  verdicts), \<open>assetcommits.go\<close> (signed asset lists), \<open>hints.go\<close> (signed hints) and
  \<open>markLegacyState\<close> of \<open>userstate.go\<close>. A voter is blinded by Keccak under the deployment's
  salt; both are arguments. A function that fails inside its transaction leaves the database as
  it was, so an error value carries none.

  All three signed records are guarded by a deadline that only rises. The locale
  \<open>deadline_guard\<close> states what a put of such a record promises and is interpreted for each of them.
  \<open>deadline_steps\<close> extends it with the other writes of the same records and concludes that no
  signature is replayed; it is interpreted in \<open>StateStore\<close>, where all the writers are known.
\<close>

section \<open>Tables\<close>

type_synonym demand_key = "nat \<times> address \<times> hash"

record DemandVote =
  dv_weight :: int
  dv_votes :: nat
  dv_last :: nat

record StateHead =
  sh_id :: hash
  sh_generation :: nat
  sh_legacy :: bool

record AssetCommitRow =
  ac_digest :: hash
  ac_deadline :: int

record AccountHint =
  ah_bytes :: "byte list"
  ah_digest :: hash
  ah_deadline :: int

record demand_db = asset_db +
  asset_demand :: "(demand_key \<times> DemandVote) list"
  asset_demand_onchain :: "(asset_key \<times> nat) list"
  account_verdicts :: "((nat \<times> hash) \<times> int) list"
  user_state_heads :: "(address \<times> StateHead) list"
  account_asset_commits :: "(address \<times> AssetCommitRow) list"
  account_asset_commit_items :: "(address \<times> nat \<times> address) list"
  account_hints :: "(address \<times> AccountHint) list"

definition MaxDemandPerVote :: nat where
  "MaxDemandPerVote = 200"

definition MaxAssetCommitItems :: nat where
  "MaxAssetCommitItems = 200"

section \<open>Votes\<close>

definition voter_preimage :: "byte list \<Rightarrow> u64 \<Rightarrow> address \<Rightarrow> byte list" where
  "voter_preimage salt chainID account = salt @ be_bytes 8 chainID @ addr_bytes account"

definition voterKey :: "hashfn \<Rightarrow> byte list \<Rightarrow> u64 \<Rightarrow> address \<Rightarrow> hash" where
  "voterKey k salt chainID account = k (voter_preimage salt chainID account)"

text \<open>Skip an address that was already seen in this request.\<close>

fun dedup_by :: "('a \<Rightarrow> 'k) \<Rightarrow> 'k list \<Rightarrow> 'a list \<Rightarrow> 'a list" where
  "dedup_by f seen [] = []"
| "dedup_by f seen (x # xs) =
     (if f x \<in> set seen then dedup_by f seen xs else x # dedup_by f (f x # seen) xs)"

definition vote_row :: "nat \<Rightarrow> DemandVote" where
  "vote_row now = \<lparr>dv_weight = 1, dv_votes = 1, dv_last = now\<rparr>"

definition RecordDemand ::
  "hashfn \<Rightarrow> byte list \<Rightarrow> u64 \<Rightarrow> address \<Rightarrow> address list \<Rightarrow> nat \<Rightarrow> 'a demand_db_scheme
   \<Rightarrow> store_error + ('a demand_db_scheme \<times> nat)" where
  "RecordDemand k salt chainID account addrs now db =
     (if addrs = [] then Inr (db, 0)
      else if length addrs > MaxDemandPerVote then Inl ErrTooMany
      else let voter = voterKey k salt chainID account;
               as = dedup_by id [] addrs;
               key = (\<lambda>a. (unat chainID, a, voter))
        in Inr (db\<lparr>asset_demand := fold (\<lambda>a. upsert (key a) (vote_row now)
                  (\<lambda>r. r\<lparr>dv_votes := dv_votes r + 1, dv_last := now\<rparr>)) as (asset_demand db)\<rparr>,
                length (filter (\<lambda>a. map_of (asset_demand db) (key a) = None) as)))"

definition SetOnchainDemand :: "nat \<Rightarrow> address \<Rightarrow> nat \<Rightarrow> 'a demand_db_scheme \<Rightarrow> 'a demand_db_scheme" where
  "SetOnchainDemand chainID addr voters db =
     db\<lparr>asset_demand_onchain := upsert (chainID, addr) voters (\<lambda>_. voters) (asset_demand_onchain db)\<rparr>"

text \<open>The copy fails on a repeated key; the registry lists an asset once.\<close>

definition ReplaceOnchainDemand :: "(asset_key \<times> nat) list \<Rightarrow> 'a demand_db_scheme \<Rightarrow> 'a demand_db_scheme option" where
  "ReplaceOnchainDemand rows db =
     (if keys_unique rows then Some (db\<lparr>asset_demand_onchain := rows\<rparr>) else None)"

text \<open>The view \<open>asset_demand_totals\<close>: votes for and against.\<close>

record DemandTotals =
  dt_for :: nat
  dt_against :: nat

definition demand_totals :: "'a demand_db_scheme \<Rightarrow> asset_key \<Rightarrow> DemandTotals option" where
  "demand_totals db key =
     (let rows = filter (\<lambda>((c, a, v), r). (c, a) = key) (asset_demand db);
          onchain = map_of (asset_demand_onchain db) key
      in if rows = [] \<and> onchain = None then None
         else Some \<lparr>dt_for = length (filter (\<lambda>(_, r). dv_weight r > 0) rows) + (case onchain of None \<Rightarrow> 0 | Some n \<Rightarrow> n),
                dt_against = length (filter (\<lambda>(_, r). dv_weight r < 0) rows)\<rparr>)"

definition Net :: "DemandTotals \<Rightarrow> int" where
  "Net d = int (dt_for d) - int (dt_against d)"

definition DemandFor :: "nat \<Rightarrow> address list \<Rightarrow> 'a demand_db_scheme \<Rightarrow> address \<Rightarrow> DemandTotals option" where
  "DemandFor chainID addrs db a = (if a \<in> set addrs then demand_totals db (chainID, a) else None)"

section \<open>Verdicts\<close>

definition markLegacyState :: "address \<Rightarrow> 'a demand_db_scheme \<Rightarrow> 'a demand_db_scheme" where
  "markLegacyState account db =
     db\<lparr>user_state_heads := update_row account
       (\<lambda>h. h\<lparr>sh_legacy := True, sh_generation := sh_generation h + 1\<rparr>) (user_state_heads db)\<rparr>"

text \<open>\<open>INSERT ... ON CONFLICT DO UPDATE ... WHERE stored < offered\<close>: \<open>None\<close> when no row was
  affected.\<close>

definition raise_deadline :: "'k \<Rightarrow> int \<Rightarrow> ('k \<times> int) list \<Rightarrow> ('k \<times> int) list option" where
  "raise_deadline key d tab =
     (case map_of tab key of None \<Rightarrow> Some (tab @ [(key, d)])
      | Some old \<Rightarrow> if old < d then Some (update_row key (\<lambda>_. d) tab) else None)"

definition ReplaceVerdicts ::
  "hashfn \<Rightarrow> byte list \<Rightarrow> u64 \<Rightarrow> address \<Rightarrow> int option \<Rightarrow> (address \<times> int) list \<Rightarrow> nat
   \<Rightarrow> 'a demand_db_scheme \<Rightarrow> store_error + ('a demand_db_scheme \<times> nat \<times> nat)" where
  "ReplaceVerdicts k salt chainID account deadline pairs now db =
     (if length pairs > MaxDemandPerVote then Inl ErrTooMany
      else case deadline of None \<Rightarrow> Inl ErrBadDeadline
      | Some d \<Rightarrow>
          if d < 0 then Inl ErrBadDeadline
          else case find (\<lambda>(a, w). w \<noteq> 1 \<and> w \<noteq> -1) pairs of
            Some (a, w) \<Rightarrow> Inl (ErrBadWeight w)
          | None \<Rightarrow>
              (let voter = voterKey k salt chainID account;
                   c = unat chainID;
                   db1 = markLegacyState account db
               in case raise_deadline (c, voter) d (account_verdicts db1) of
                    None \<Rightarrow> Inl ErrStaleVerdict
                  | Some verdicts \<Rightarrow>
                      let keep = dedup_by fst [] pairs;
                          gone = (\<lambda>((c', a, v), r). c' = c \<and> v = voter \<and> a \<notin> fst ` set pairs);
                          kept = filter (Not \<circ> gone) (asset_demand db1);
                          put = (\<lambda>(a, w). upsert (c, a, voter) \<lparr>dv_weight = w, dv_votes = 1, dv_last = now\<rparr>
                                  (\<lambda>r. r\<lparr>dv_weight := w, dv_votes := dv_votes r + 1, dv_last := now\<rparr>))
                      in Inr (db1\<lparr>account_verdicts := verdicts, asset_demand := fold put keep kept\<rparr>,
                              length keep, length (filter gone (asset_demand db1)))))"

section \<open>Asset lists and hints\<close>

type_synonym commit_item = "nat \<times> address"

definition AssetCommitDeadline :: "int option \<Rightarrow> store_error + int" where
  "AssetCommitDeadline deadline =
     (case deadline of None \<Rightarrow> Inl ErrBadDeadline
      | Some d \<Rightarrow> if d < 0 \<or> d \<ge> 2 ^ 63 then Inl ErrBadDeadline else Inr d)"

datatype commit_error = CommitTooMany | CommitBadDeadline | CommitBadChain nat | CommitTwice commit_item | ErrStaleAssetCommit

text \<open>The check loop over the sorted items, in order: an item's chain id first, then
  whether it repeats its predecessor.\<close>

fun check_items :: "commit_item option \<Rightarrow> commit_item list \<Rightarrow> commit_error option" where
  "check_items prev [] = None"
| "check_items prev (it # its) =
     (if fst it = 0 \<or> fst it > 2 ^ 63 - 1 then Some (CommitBadChain (fst it))
      else if prev = Some it then Some (CommitTwice it)
      else check_items (Some it) its)"

definition sortAssets :: "commit_item list \<Rightarrow> commit_item list" where
  "sortAssets items = sort_key fst (sort_key snd items)"

definition PutAssetCommit ::
  "address \<Rightarrow> commit_item list \<Rightarrow> hash \<Rightarrow> int \<Rightarrow> 'a demand_db_scheme \<Rightarrow> commit_error + 'a demand_db_scheme" where
  "PutAssetCommit account items0 digest deadline db =
     (if length items0 > MaxAssetCommitItems then Inl CommitTooMany
      else if deadline < 0 then Inl CommitBadDeadline
      else let items = sortAssets items0 in
        case check_items None items of Some e \<Rightarrow> Inl e
        | None \<Rightarrow>
            let db1 = markLegacyState account db;
                row = \<lparr>ac_digest = digest, ac_deadline = deadline\<rparr>;
                stale = (case map_of (account_asset_commits db1) account of None \<Rightarrow> False
                         | Some old \<Rightarrow> \<not> ac_deadline old < deadline)
            in if stale then Inl ErrStaleAssetCommit
               else Inr (db1\<lparr>account_asset_commits := upsert account row (\<lambda>_. row) (account_asset_commits db1),
                  account_asset_commit_items :=
                    filter (\<lambda>(a, _). a \<noteq> account) (account_asset_commit_items db1) @ map (Pair account) items\<rparr>))"

definition AssetCommit :: "address \<Rightarrow> 'a demand_db_scheme \<Rightarrow> store_error + (commit_item list \<times> AssetCommitRow)" where
  "AssetCommit account db =
     (case map_of (account_asset_commits db) account of
        None \<Rightarrow> Inl ErrNotFound
      | Some row \<Rightarrow> Inr (sortAssets (map snd (filter (\<lambda>(a, _). a = account) (account_asset_commit_items db))), row))"

datatype hint_error = ErrStaleHint

definition PutAccountHint :: "address \<Rightarrow> AccountHint \<Rightarrow> 'a demand_db_scheme \<Rightarrow> hint_error + 'a demand_db_scheme" where
  "PutAccountHint account h db =
     (let stale = (case map_of (account_hints db) account of None \<Rightarrow> False
                   | Some old \<Rightarrow> \<not> ah_deadline old < ah_deadline h)
      in if stale then Inl ErrStaleHint
         else Inr (db\<lparr>account_hints := upsert account h (\<lambda>_. h) (account_hints db)\<rparr>))"

definition GetAccountHint :: "address \<Rightarrow> 'a demand_db_scheme \<Rightarrow> store_error + AccountHint" where
  "GetAccountHint account db =
     (case map_of (account_hints db) account of None \<Rightarrow> Inl ErrNotFound | Some h \<Rightarrow> Inr h)"

section \<open>The contract of a rising deadline\<close>

locale deadline_guard =
  fixes deadline_of :: "'db \<Rightarrow> 'k \<Rightarrow> int option"
    and put :: "'k \<Rightarrow> int \<Rightarrow> 'v \<Rightarrow> 'db \<Rightarrow> 'e + 'db"
  assumes put_sets: "put k d v db = Inr db' \<Longrightarrow> deadline_of db' k = Some d"
    and put_rises: "put k d v db = Inr db' \<Longrightarrow> deadline_of db k = Some old \<Longrightarrow> old < d"
    and put_keeps: "put k d v db = Inr db' \<Longrightarrow> deadline_of db k' = Some old
      \<Longrightarrow> \<exists>new. deadline_of db' k' = Some new \<and> old \<le> new"

text \<open>Beside the puts other steps write the same records, none of which lowers a deadline.\<close>

locale deadline_steps = deadline_guard deadline_of put
  for deadline_of :: "'db \<Rightarrow> 'k \<Rightarrow> int option" and put :: "'k \<Rightarrow> int \<Rightarrow> 'v \<Rightarrow> 'db \<Rightarrow> 'e + 'db" +
  fixes step :: "'db \<Rightarrow> 'db \<Rightarrow> bool"
  assumes step_keeps: "step db db' \<Longrightarrow> deadline_of db k = Some old \<Longrightarrow> \<exists>new. deadline_of db' k = Some new \<and> old \<le> new"
begin

lemma steps_keep: "step\<^sup>*\<^sup>* db db' \<Longrightarrow> deadline_of db k = Some old \<Longrightarrow> \<exists>new. deadline_of db' k = Some new \<and> old \<le> new"
proof (induction rule: rtranclp_induct)
  case (step db1 db2)
  then obtain d1 where "deadline_of db1 k = Some d1" "old \<le> d1" by blast
  then show ?case using step_keeps [OF step.hyps(2), of k d1] by force
qed simp

lemma below_floor:
  assumes "deadline_of db k = Some floor" "step\<^sup>*\<^sup>* db db'" "d \<le> floor"
  shows "\<exists>e. put k d v db' = Inl e"
proof (cases "put k d v db'")
  case (Inr x)
  from steps_keep [OF assms(2,1)] assms(3) put_rises [OF Inr] show ?thesis by fastforce
qed blast

lemma no_replay:
  "put k d v db = Inr db1 \<Longrightarrow> step\<^sup>*\<^sup>* db1 db2 \<Longrightarrow> d' \<le> d \<Longrightarrow> \<exists>e. put k d' v' db2 = Inl e"
  using below_floor [OF put_sets] .

end

text \<open>Each signed record as a put that may be refused.\<close>

definition verdict_deadline :: "hashfn \<Rightarrow> byte list \<Rightarrow> 'a demand_db_scheme \<Rightarrow> u64 \<times> address \<Rightarrow> int option" where
  "verdict_deadline k salt db who =
     map_of (account_verdicts db) (unat (fst who), voterKey k salt (fst who) (snd who))"

definition put_verdict ::
  "hashfn \<Rightarrow> byte list \<Rightarrow> u64 \<times> address \<Rightarrow> int \<Rightarrow> (address \<times> int) list \<times> nat \<Rightarrow> 'a demand_db_scheme
   \<Rightarrow> store_error + 'a demand_db_scheme" where
  "put_verdict k salt who d v db =
     map_sum id fst (ReplaceVerdicts k salt (fst who) (snd who) (Some d) (fst v) (snd v) db)"

definition commit_deadline :: "'a demand_db_scheme \<Rightarrow> address \<Rightarrow> int option" where
  "commit_deadline db account = map_option ac_deadline (map_of (account_asset_commits db) account)"

definition put_commit ::
  "address \<Rightarrow> int \<Rightarrow> commit_item list \<times> hash \<Rightarrow> 'a demand_db_scheme \<Rightarrow> commit_error + 'a demand_db_scheme" where
  "put_commit account d v db = PutAssetCommit account (fst v) (snd v) d db"

definition hint_deadline :: "'a demand_db_scheme \<Rightarrow> address \<Rightarrow> int option" where
  "hint_deadline db account = map_option ah_deadline (map_of (account_hints db) account)"

definition put_hint ::
  "address \<Rightarrow> int \<Rightarrow> byte list \<times> hash \<Rightarrow> 'a demand_db_scheme \<Rightarrow> hint_error + 'a demand_db_scheme" where
  "put_hint account d v db = PutAccountHint account \<lparr>ah_bytes = fst v, ah_digest = snd v, ah_deadline = d\<rparr> db"

lemma raise_deadline_Some:
  "raise_deadline key d tab = Some tab' \<Longrightarrow>
     map_of tab' = (map_of tab)(key \<mapsto> d) \<and> (\<forall>old. map_of tab key = Some old \<longrightarrow> old < d)"
  by (auto simp: raise_deadline_def map_add_def fun_eq_iff split: option.splits if_splits)

lemma ReplaceVerdicts_Inr:
  assumes "ReplaceVerdicts k salt c account dl pairs now db = Inr (db', m, n)"
  obtains d verdicts where "dl = Some d" "0 \<le> d" "\<forall>(a, w) \<in> set pairs. w = 1 \<or> w = -1"
    "raise_deadline (unat c, voterKey k salt c account) d (account_verdicts db) = Some verdicts"
    "account_verdicts db' = verdicts"
    "asset_demand db' = fold (\<lambda>(a, w). upsert (unat c, a, voterKey k salt c account)
          \<lparr>dv_weight = w, dv_votes = 1, dv_last = now\<rparr>
          (\<lambda>r. r\<lparr>dv_weight := w, dv_votes := dv_votes r + 1, dv_last := now\<rparr>)) (dedup_by fst [] pairs)
        (filter (Not \<circ> (\<lambda>((c', a, v), r). c' = unat c \<and> v = voterKey k salt c account \<and> a \<notin> fst ` set pairs))
          (asset_demand db))"
proof -
  from assms obtain d where d: "dl = Some d" "0 \<le> d"
    by (auto simp: ReplaceVerdicts_def split: if_splits option.splits)
  with assms have "find (\<lambda>(a, w). w \<noteq> 1 \<and> w \<noteq> -1) pairs = None"
    by (auto simp: ReplaceVerdicts_def split: if_splits option.splits)
  then have w: "\<forall>(a, w) \<in> set pairs. w = 1 \<or> w = -1" by (auto simp: find_None_iff)
  with assms d obtain verdicts where
    "raise_deadline (unat c, voterKey k salt c account) d (account_verdicts db) = Some verdicts"
    by (auto simp: ReplaceVerdicts_def markLegacyState_def Let_def split: if_splits option.splits)
  then show thesis
    using that [OF d w] assms d
    by (auto simp: ReplaceVerdicts_def markLegacyState_def Let_def split: if_splits option.splits)
qed

interpretation verdicts: deadline_guard "verdict_deadline k salt" "put_verdict k salt" for k salt
proof
  fix who d v and db db' :: "'a demand_db_scheme"
  assume "put_verdict k salt who d v db = Inr db'"
  then obtain m n where "ReplaceVerdicts k salt (fst who) (snd who) (Some d) (fst v) (snd v) db = Inr (db', m, n)"
    by (auto simp: put_verdict_def map_sum_def split: sum.splits)
  then obtain tab where tab: "raise_deadline (unat (fst who), voterKey k salt (fst who) (snd who)) d
      (account_verdicts db) = Some tab" "account_verdicts db' = tab"
    by (rule ReplaceVerdicts_Inr) auto
  note r = raise_deadline_Some [OF tab(1)]
  show "verdict_deadline k salt db' who = Some d" using r tab by (simp add: verdict_deadline_def)
  show "\<And>old. verdict_deadline k salt db who = Some old \<Longrightarrow> old < d" using r by (simp add: verdict_deadline_def)
  show "\<And>who' old. verdict_deadline k salt db who' = Some old \<Longrightarrow>
      \<exists>new. verdict_deadline k salt db' who' = Some new \<and> old \<le> new"
    using r tab by (auto simp: verdict_deadline_def less_imp_le)
qed

interpretation commits: deadline_guard commit_deadline put_commit
  by unfold_locales
    (auto simp: commit_deadline_def put_commit_def PutAssetCommit_def markLegacyState_def Let_def
      split: if_splits option.splits)

interpretation hints: deadline_guard hint_deadline put_hint
  by unfold_locales
    (auto simp: hint_deadline_def put_hint_def PutAccountHint_def Let_def split: if_splits option.splits)

section \<open>What a verdict and a vote change\<close>

lemma map_of_filter_key: "map_of (filter (\<lambda>x. P (fst x)) tab) key = (if P key then map_of tab key else None)"
  by (induction tab) auto

lemma dedup_by_props:
  "distinct (map f (dedup_by f seen xs))"
  "f ` set (dedup_by f seen xs) = f ` set xs - set seen"
  by (induction f seen xs rule: dedup_by.induct) auto

lemma map_of_dedup: "map_of (dedup_by fst seen xs) a = (if a \<in> set seen then None else map_of xs a)"
  by (induction xs arbitrary: seen) auto

lemma map_of_fold_upsert:
  assumes "distinct (map f xs)"
  shows "map_of (fold (\<lambda>x. upsert (f x) (new x) (mrg x)) xs tab) key =
    (case find (\<lambda>x. f x = key) xs of None \<Rightarrow> map_of tab key
     | Some x \<Rightarrow> Some (case map_of tab key of None \<Rightarrow> new x | Some v \<Rightarrow> mrg x v))"
  using assms
proof (induction xs arbitrary: tab)
  case (Cons x xs)
  have "find (\<lambda>y. f y = f x) xs = None" using Cons.prems by (auto simp: find_None_iff image_iff)
  then show ?case using Cons by (auto split: option.splits)
qed simp

lemma find_map_of: "find (\<lambda>x. fst x = a) xs = (case map_of xs a of None \<Rightarrow> None | Some w \<Rightarrow> Some (a, w))"
  by (induction xs) (auto split: option.splits)

lemma keys_unique_fold_upsert:
  "keys_unique tab \<Longrightarrow> keys_unique (fold (\<lambda>x. upsert (f x) (new x) (mrg x)) xs tab)"
  by (induction xs arbitrary: tab) auto

text \<open>The sum of a view over a table is unchanged by an update that keeps what it counts.\<close>

lemma length_filter_update_row:
  "(\<And>v. P (key, f v) = P (key, v)) \<Longrightarrow> length (filter P (update_row key f tab)) = length (filter P tab)"
proof (induction tab)
  case (Cons x tab)
  then show ?case by (cases x; cases "fst x = key") (auto simp: update_row_def)
qed (simp add: update_row_def)

definition by_weight :: "(demand_key \<times> DemandVote \<Rightarrow> bool) \<Rightarrow> bool" where
  "by_weight P \<longleftrightarrow> (\<forall>key r r'. dv_weight r = dv_weight r' \<longrightarrow> P (key, r) = P (key, r'))"

abbreviation put_vote :: "u64 \<Rightarrow> hash \<Rightarrow> nat \<Rightarrow> address \<Rightarrow> (demand_key \<times> DemandVote) list \<Rightarrow> (demand_key \<times> DemandVote) list" where
  "put_vote c v t a \<equiv> upsert (unat c, a, v) (vote_row t) (\<lambda>r. r\<lparr>dv_votes := dv_votes r + 1, dv_last := t\<rparr>)"

lemma repeat_votes_count:
  assumes "by_weight P"
  shows "\<forall>a \<in> set as. map_of tab (unat c, a, v) \<noteq> None \<Longrightarrow>
    length (filter P (fold (put_vote c v t) as tab)) = length (filter P tab)"
proof (induction as arbitrary: tab)
  case (Cons a as)
  have "put_vote c v t a tab = update_row (unat c, a, v) (\<lambda>r. r\<lparr>dv_votes := dv_votes r + 1, dv_last := t\<rparr>) tab"
    using Cons.prems by (auto simp: upsert_def)
  moreover have "length (filter P (update_row (unat c, a, v) (\<lambda>r. r\<lparr>dv_votes := dv_votes r + 1, dv_last := t\<rparr>) tab))
      = length (filter P tab)"
    by (rule length_filter_update_row) (rule assms [unfolded by_weight_def, rule_format], simp)
  ultimately have "length (filter P (put_vote c v t a tab)) = length (filter P tab)" by (simp only:)
  moreover have "\<forall>b \<in> set as. map_of (put_vote c v t a tab) (unat c, b, v) \<noteq> None"
    using Cons.prems by (simp del: fun_upd_apply)
  note Cons.IH [OF this]
  ultimately show ?case by (simp only: fold.simps comp_apply)
qed simp

lemma demand_totals_by_weight:
  assumes "\<And>P. by_weight P \<Longrightarrow> length (filter P (asset_demand db2)) = length (filter P (asset_demand db1))"
    and "asset_demand_onchain db2 = asset_demand_onchain db1"
  shows "demand_totals db2 key = demand_totals db1 key"
proof -
  let ?of = "\<lambda>((c, a, v), r). (c, a) = key"
  have "length (filter ?of (asset_demand db2)) = length (filter ?of (asset_demand db1))"
    by (rule assms(1)) (auto simp: by_weight_def)
  then have e: "filter ?of (asset_demand db2) = [] \<longleftrightarrow> filter ?of (asset_demand db1) = []"
    by (metis length_0_conv)
  have b: "length (filter (\<lambda>(_, r). Q (dv_weight r)) (filter ?of (asset_demand db2)))
      = length (filter (\<lambda>(_, r). Q (dv_weight r)) (filter ?of (asset_demand db1)))" for Q
    unfolding filter_filter by (rule assms(1)) (auto simp: by_weight_def)
  show ?thesis
    unfolding demand_totals_def Let_def e assms(2) b [of "\<lambda>w. w > 0"] b [of "\<lambda>w. w < 0"] ..
qed

section \<open>Properties\<close>

definition demo_demand_db :: demand_db where
  "demo_demand_db = \<lparr>interactions = [], pending_events = [], chains = [], assets = [], asset_cursors = [],
     asset_demand = [], asset_demand_onchain = [], account_verdicts = [], user_state_heads = [],
     account_asset_commits = [], account_asset_commit_items = [], account_hints = []\<rparr>"

text \<open>An accepted verdict makes the voter's rows on the chain exactly the pairs signed (the
  first weight of a contract named twice), leaves the rows of every other voter and chain
  alone, and reports as many recorded rows as contracts were named.\<close>

theorem verdict_replaces_exactly:
  assumes "ReplaceVerdicts k salt c account dl pairs now db = Inr (db', recorded, cleared)"
  shows "map_option dv_weight (map_of (asset_demand db') (c', a, voter)) =
      (if c' = unat c \<and> voter = voterKey k salt c account then map_of pairs a
       else map_option dv_weight (map_of (asset_demand db) (c', a, voter)))
    \<and> recorded = card (fst ` set pairs)"
proof
  let ?v = "voterKey k salt c account"
  let ?row = "\<lambda>x :: address \<times> int. (unat c, fst x, ?v)"
  obtain tab where tab: "tab = filter (\<lambda>x. \<not> (fst (fst x) = unat c \<and> snd (snd (fst x)) = ?v \<and> fst (snd (fst x)) \<notin> fst ` set pairs)) (asset_demand db)"
    by blast
  have dem: "asset_demand db' = fold (\<lambda>x. upsert (?row x) \<lparr>dv_weight = snd x, dv_votes = 1, dv_last = now\<rparr>
      (\<lambda>r. r\<lparr>dv_weight := snd x, dv_votes := dv_votes r + 1, dv_last := now\<rparr>)) (dedup_by fst [] pairs) tab"
    using ReplaceVerdicts_Inr [OF assms] unfolding tab by (simp add: case_prod_beta' comp_def)
  have d: "distinct (map ?row (dedup_by fst [] pairs))"
    using dedup_by_props(1) [of fst "[]" pairs] by (simp add: distinct_map inj_on_def)
  have "find (\<lambda>x. ?row x = (c', a, voter)) xs =
      (if c' = unat c \<and> voter = ?v then find (\<lambda>x. fst x = a) xs else None)" for xs
    by (induction xs) auto
  then have f: "find (\<lambda>x. ?row x = (c', a, voter)) (dedup_by fst [] pairs) =
      (if c' = unat c \<and> voter = ?v then map_option (Pair a) (map_of pairs a) else None)"
    by (simp add: find_map_of map_of_dedup split: option.splits)
  have "map_of tab (c', a, voter) = (if c' = unat c \<and> voter = ?v \<and> a \<notin> fst ` set pairs then None
      else map_of (asset_demand db) (c', a, voter))"
    unfolding tab by (subst map_of_filter_key) auto
  moreover have "a \<in> fst ` set pairs \<longleftrightarrow> map_of pairs a \<noteq> None" by (simp add: map_of_eq_None_iff)
  ultimately show "map_option dv_weight (map_of (asset_demand db') (c', a, voter)) =
      (if c' = unat c \<and> voter = ?v then map_of pairs a
       else map_option dv_weight (map_of (asset_demand db) (c', a, voter)))"
    unfolding dem map_of_fold_upsert [OF d] f by (auto split: option.splits)
  have "recorded = length (dedup_by fst [] pairs)"
    using assms by (auto simp: ReplaceVerdicts_def Let_def split: if_splits option.splits)
  also have "\<dots> = card (fst ` set pairs)"
    using dedup_by_props [of fst "[]" pairs] by (metis Diff_empty distinct_card empty_set length_map list.set_map)
  finally show "recorded = card (fst ` set pairs)" .
qed

theorem verdict_replaces_exactly_witness:
  "case ReplaceVerdicts (\<lambda>_. 3) [] 1 5 (Some 9) [(7, 1), (8, -1), (7, -1)] 2 demo_demand_db of
     Inr (db', recorded, cleared) \<Rightarrow> map_option dv_weight (map_of (asset_demand db') (1, 7, 3)) = Some 1 \<and> recorded = 2
   | Inl _ \<Rightarrow> False"
proof -
  obtain db' m n where r: "ReplaceVerdicts (\<lambda>_. 3) [] 1 5 (Some 9) [(7, 1), (8, -1), (7, -1)] 2 demo_demand_db = Inr (db', m, n)"
    by (auto simp: ReplaceVerdicts_def demo_demand_db_def MaxDemandPerVote_def markLegacyState_def raise_deadline_def Let_def)
  show ?thesis
    using verdict_replaces_exactly [OF r, of 1 7 3] r by (simp add: voterKey_def card_insert_if)
qed

text \<open>A vote counts once. Repeating it reports no new pair and leaves every contract's
  totals as they were.\<close>

theorem repeated_vote_counts_once:
  assumes "RecordDemand k salt c account addrs now db = Inr (db1, n)"
  shows "\<exists>db2. RecordDemand k salt c account addrs later db1 = Inr (db2, 0)
    \<and> demand_totals db2 = demand_totals db1"
proof (cases "addrs = []")
  case True
  then show ?thesis by (auto simp: RecordDemand_def)
next
  case False
  let ?v = "voterKey k salt c account"
  let ?as = "dedup_by id [] addrs"
  have small: "\<not> length addrs > MaxDemandPerVote"
    and db1: "asset_demand db1 = fold (put_vote c ?v now) ?as (asset_demand db)"
    using assms False by (auto simp: RecordDemand_def Let_def split: if_splits)
  have d: "distinct (map (\<lambda>a. (unat c, a, ?v)) ?as)"
    using dedup_by_props(1) [of id "[]" addrs] by (simp add: distinct_map inj_on_def)
  have some: "\<forall>a \<in> set ?as. map_of (asset_demand db1) (unat c, a, ?v) \<noteq> None"
    unfolding db1 map_of_fold_upsert [OF d] by (auto simp: find_None_iff split: option.splits)
  then have zero: "filter (\<lambda>a. map_of (asset_demand db1) (unat c, a, ?v) = None) ?as = []"
    by (auto simp: filter_empty_conv)
  define db2 where "db2 = db1\<lparr>asset_demand := fold (put_vote c ?v later) ?as (asset_demand db1)\<rparr>"
  have "RecordDemand k salt c account addrs later db1 = Inr (db2, 0)"
    using False small zero by (simp add: RecordDemand_def Let_def db2_def)
  moreover have "demand_totals db2 = demand_totals db1"
  proof (rule ext, rule demand_totals_by_weight)
    have eq: "asset_demand db2 = fold (put_vote c ?v later) ?as (asset_demand db1)" by (simp add: db2_def)
    show "length (filter P (asset_demand db2)) = length (filter P (asset_demand db1))" if "by_weight P" for P
      by (simp only: eq repeat_votes_count [OF that some])
  qed (simp add: db2_def)
  ultimately show ?thesis by blast
qed

theorem repeated_vote_counts_once_witness:
  "\<exists>db1 db2. RecordDemand (\<lambda>_. 3) [] 1 5 [7, 8] 1 demo_demand_db = Inr (db1, 2)
     \<and> RecordDemand (\<lambda>_. 3) [] 1 5 [7, 8] 4 db1 = Inr (db2, 0) \<and> demand_totals db2 = demand_totals db1"
proof -
  obtain db1 where r: "RecordDemand (\<lambda>_. 3) [] 1 5 [7, 8] 1 demo_demand_db = Inr (db1, 2)"
    by (auto simp: RecordDemand_def demo_demand_db_def MaxDemandPerVote_def Let_def)
  show ?thesis using repeated_vote_counts_once [OF r, of 4] r by blast
qed

end
