(* ===== verification/CandidateStore.thy ===== *)
theory CandidateStore
  imports DemandStore
begin

text \<open>
  Contracts observed at the head: \<open>internal/store/discovery.go\<close>, \<open>promotions.go\<close> and the
  queries of \<open>demand.go\<close> that feed promotion. \<open>now\<close> is an argument wherever a query reads
  the clock. Where \<open>ORDER BY\<close> leaves ties open, the sorts here are stable.
\<close>

section \<open>Tables\<close>

record Candidate =
  ca_standard :: nat
  ca_first :: nat
  ca_last :: nat
  ca_events :: nat
  ca_blocks :: nat
  ca_promoted_at :: "nat option"
  ca_promotion_reason :: string
  ca_spam_at :: "nat option"
  ca_spam_reason :: string

record cand_db = demand_db +
  candidates :: "(asset_key \<times> Candidate) list"
  discovery_cursor :: "(nat \<times> nat) list"
  promotion_cooldowns :: "(asset_key \<times> nat) list"

record PromotionRule =
  pr_activity :: bool
  pr_min_events :: nat
  pr_min_blocks :: nat
  pr_min_voters :: nat

section \<open>The sweep\<close>

definition DiscoveryCursor :: "nat \<Rightarrow> 'a cand_db_scheme \<Rightarrow> nat" where
  "DiscoveryCursor chainID db = (case map_of (discovery_cursor db) chainID of None \<Rightarrow> 0 | Some n \<Rightarrow> n)"

definition SetDiscoveryCursor :: "nat \<Rightarrow> nat \<Rightarrow> 'a cand_db_scheme \<Rightarrow> 'a cand_db_scheme" where
  "SetDiscoveryCursor chainID block db =
     db\<lparr>discovery_cursor := upsert chainID block (\<lambda>_. block) (discovery_cursor db)\<rparr>"

definition merge_candidate :: "Candidate \<Rightarrow> Candidate \<Rightarrow> Candidate" where
  "merge_candidate new old = old\<lparr>
     ca_standard := (if ca_standard old = 0 then ca_standard new else ca_standard old),
     ca_first := min (ca_first old) (ca_first new),
     ca_last := max (ca_last old) (ca_last new),
     ca_events := ca_events old + ca_events new,
     ca_blocks := ca_blocks old + ca_blocks new\<rparr>"

definition UpsertCandidates :: "nat \<Rightarrow> (address \<times> Candidate) list \<Rightarrow> 'a cand_db_scheme \<Rightarrow> 'a cand_db_scheme" where
  "UpsertCandidates chainID rows db =
     (if rows = [] then db
      else db\<lparr>candidates := fold (\<lambda>(a, c). upsert (chainID, a) c (merge_candidate c)) rows (candidates db)\<rparr>)"

definition OldestCandidateBlock :: "nat \<Rightarrow> 'a cand_db_scheme \<Rightarrow> nat option" where
  "OldestCandidateBlock chainID db =
     (let rows = map (ca_first \<circ> snd) (filter (\<lambda>((c, a), r). c = chainID) (candidates db))
      in if rows = [] then None else Some (Min (set rows)))"

section \<open>Verdicts on candidates\<close>

definition GetCandidate :: "nat \<Rightarrow> address \<Rightarrow> 'a cand_db_scheme \<Rightarrow> store_error + Candidate" where
  "GetCandidate chainID addr db =
     (case map_of (candidates db) (chainID, addr) of None \<Rightarrow> Inl ErrNotFound | Some c \<Rightarrow> Inr c)"

definition MarkCandidatePromoted :: "nat \<Rightarrow> address \<Rightarrow> string \<Rightarrow> nat \<Rightarrow> 'a cand_db_scheme \<Rightarrow> 'a cand_db_scheme" where
  "MarkCandidatePromoted chainID addr reason now db =
     db\<lparr>candidates := update_row (chainID, addr) (\<lambda>c.
         if ca_promoted_at c = None
         then c\<lparr>ca_promoted_at := Some now, ca_promotion_reason := reason, ca_spam_at := None, ca_spam_reason := []\<rparr>
         else c) (candidates db)\<rparr>"

definition MarkCandidateSpam :: "nat \<Rightarrow> address \<Rightarrow> string \<Rightarrow> nat \<Rightarrow> 'a cand_db_scheme \<Rightarrow> store_error + 'a cand_db_scheme" where
  "MarkCandidateSpam chainID addr reason now db =
     (case map_of (candidates db) (chainID, addr) of
        None \<Rightarrow> Inl ErrNotFound
      | Some c \<Rightarrow>
          if ca_promoted_at c = None
          then Inr (db\<lparr>candidates := update_row (chainID, addr)
                 (\<lambda>c. if ca_promoted_at c = None then c\<lparr>ca_spam_at := Some now, ca_spam_reason := reason\<rparr> else c)
                 (candidates db)\<rparr>)
          else Inl ErrAlreadyPromoted)"

definition ClearCandidateSpam :: "nat \<Rightarrow> address \<Rightarrow> 'a cand_db_scheme \<Rightarrow> store_error + 'a cand_db_scheme" where
  "ClearCandidateSpam chainID addr db =
     (if map_of (candidates db) (chainID, addr) = None then Inl ErrNotFound
      else Inr (db\<lparr>candidates := update_row (chainID, addr)
             (\<lambda>c. c\<lparr>ca_spam_at := None, ca_spam_reason := []\<rparr>) (candidates db)\<rparr>))"

section \<open>Promotion queries\<close>

definition voters_of :: "'a cand_db_scheme \<Rightarrow> asset_key \<Rightarrow> DemandTotals" where
  "voters_of db key = (case demand_totals db key of None \<Rightarrow> \<lparr>dt_for = 0, dt_against = 0\<rparr> | Some t \<Rightarrow> t)"

definition cooling :: "nat \<Rightarrow> 'a cand_db_scheme \<Rightarrow> asset_key \<Rightarrow> bool" where
  "cooling now db key = (case map_of (promotion_cooldowns db) key of None \<Rightarrow> False | Some t \<Rightarrow> now < t)"

definition DeferPromotion :: "nat \<Rightarrow> address \<Rightarrow> nat \<Rightarrow> 'a cand_db_scheme \<Rightarrow> 'a cand_db_scheme" where
  "DeferPromotion chainID addr retryAfter db =
     db\<lparr>promotion_cooldowns := upsert (chainID, addr) retryAfter (\<lambda>_. retryAfter) (promotion_cooldowns db)\<rparr>"

definition promotable :: "nat \<Rightarrow> PromotionRule \<Rightarrow> 'a cand_db_scheme \<Rightarrow> asset_key \<times> Candidate \<Rightarrow> bool" where
  "promotable now rule db row =
     (case row of (key, c) \<Rightarrow>
        ca_promoted_at c = None \<and> ca_spam_at c = None \<and> \<not> cooling now db key
        \<and> (pr_activity rule \<and> ca_events c \<ge> pr_min_events rule \<and> ca_blocks c \<ge> pr_min_blocks rule
           \<or> pr_min_voters rule > 0 \<and> Net (voters_of db key) \<ge> int (pr_min_voters rule)))"

definition PromotableCandidates ::
  "nat \<Rightarrow> nat \<Rightarrow> PromotionRule \<Rightarrow> nat \<Rightarrow> 'a cand_db_scheme \<Rightarrow> (address \<times> Candidate) list" where
  "PromotableCandidates now chainID rule limit db =
     take limit (map (\<lambda>((_, a), c). (a, c))
       (sort_key (\<lambda>(key, c). - Net (voters_of db key)) (sort_key (\<lambda>(key, c). - int (ca_events c))
         (sort_key (\<lambda>(key, c). - int (ca_blocks c))
           (filter (\<lambda>row. fst (fst row) = chainID \<and> promotable now rule db row) (candidates db))))))"

definition demand_keys :: "'a cand_db_scheme \<Rightarrow> asset_key list" where
  "demand_keys db = remdups (map (\<lambda>((c, a, v), r). (c, a)) (asset_demand db) @ map fst (asset_demand_onchain db))"

definition DemandedUnseen :: "nat \<Rightarrow> nat \<Rightarrow> nat \<Rightarrow> nat \<Rightarrow> 'a cand_db_scheme \<Rightarrow> (address \<times> DemandTotals) list" where
  "DemandedUnseen now chainID minVoters limit db =
     take limit (map (\<lambda>key. (snd key, voters_of db key))
       (sort_key (\<lambda>key. - Net (voters_of db key))
         (filter (\<lambda>key. fst key = chainID \<and> Net (voters_of db key) \<ge> int minVoters
             \<and> map_of (assets db) key = None \<and> map_of (candidates db) key = None \<and> \<not> cooling now db key)
           (demand_keys db))))"

text \<open>The ledger of verdicts, newest first.\<close>

record Decision =
  de_address :: address
  de_standard :: nat
  de_approved :: bool
  de_at :: nat
  de_reason :: string
  de_symbol :: string
  de_name :: string

definition RecentDecisions :: "nat \<Rightarrow> nat \<Rightarrow> 'a cand_db_scheme \<Rightarrow> Decision list" where
  "RecentDecisions chainID limit db =
     take limit (sort_key (\<lambda>d. - int (de_at d)) (map (\<lambda>((ch, a), c).
         \<lparr>de_address = a, de_standard = ca_standard c, de_approved = (ca_promoted_at c \<noteq> None),
          de_at = (case ca_promoted_at c of Some t \<Rightarrow> t | None \<Rightarrow> (case ca_spam_at c of Some t \<Rightarrow> t | None \<Rightarrow> 0)),
          de_reason = (if ca_promotion_reason c \<noteq> [] then ca_promotion_reason c else ca_spam_reason c),
          de_symbol = (case map_of (assets db) (ch, a) of None \<Rightarrow> [] | Some x \<Rightarrow> as_symbol x),
          de_name = (case map_of (assets db) (ch, a) of None \<Rightarrow> [] | Some x \<Rightarrow> as_name x)\<rparr>)
       (filter (\<lambda>((ch, a), c). ch = chainID \<and> (ca_promoted_at c \<noteq> None \<or> ca_spam_at c \<noteq> None)) (candidates db))))"

record CandidateStats =
  cs_observed :: nat
  cs_promoted :: nat
  cs_promotable :: nat
  cs_spam :: nat

definition CandidateStats :: "nat \<Rightarrow> nat \<Rightarrow> nat \<Rightarrow> 'a cand_db_scheme \<Rightarrow> CandidateStats" where
  "CandidateStats chainID minEvents minBlocks db =
     (let rows = filter (\<lambda>((ch, a), c). ch = chainID) (candidates db);
          count = (\<lambda>P. length (filter (\<lambda>(_, c). P c) rows))
      in \<lparr>cs_observed = length rows,
          cs_promoted = count (\<lambda>c. ca_promoted_at c \<noteq> None),
          cs_promotable = count (\<lambda>c. ca_promoted_at c = None \<and> ca_spam_at c = None
             \<and> ca_events c \<ge> minEvents \<and> ca_blocks c \<ge> minBlocks),
          cs_spam = count (\<lambda>c. ca_spam_at c \<noteq> None)\<rparr>)"

section \<open>At most one verdict\<close>

definition one_verdict :: "'a cand_db_scheme \<Rightarrow> bool" where
  "one_verdict db \<longleftrightarrow> (\<forall>(key, c) \<in> set (candidates db). ca_promoted_at c = None \<or> ca_spam_at c = None)"

datatype cand_op =
    OpUpsert nat "(address \<times> Candidate) list"
  | OpPromote nat address string nat
  | OpSpam nat address string nat
  | OpUnspam nat address

fun cand_step :: "cand_op \<Rightarrow> 'a cand_db_scheme \<Rightarrow> 'a cand_db_scheme" where
  "cand_step (OpUpsert ch rows) db = UpsertCandidates ch rows db"
| "cand_step (OpPromote ch a why t) db = MarkCandidatePromoted ch a why t db"
| "cand_step (OpSpam ch a why t) db = (case MarkCandidateSpam ch a why t db of Inl _ \<Rightarrow> db | Inr db' \<Rightarrow> db')"
| "cand_step (OpUnspam ch a) db = (case ClearCandidateSpam ch a db of Inl _ \<Rightarrow> db | Inr db' \<Rightarrow> db')"

text \<open>Rows the sweep hands over carry no verdict.\<close>

fun unjudged :: "cand_op \<Rightarrow> bool" where
  "unjudged (OpUpsert ch rows) = list_all (\<lambda>(a, c). ca_promoted_at c = None \<and> ca_spam_at c = None) rows"
| "unjudged _ = True"

lemma set_update_row: "set (update_row k f tab) = (\<lambda>(k', v). (k', if k' = k then f v else v)) ` set tab"
  by (simp add: update_row_def)

lemma one_verdict_fold_upsert:
  "one_verdict db \<Longrightarrow> list_all (\<lambda>(a, c). ca_promoted_at c = None \<and> ca_spam_at c = None) rows \<Longrightarrow>
   \<forall>(key, c) \<in> set (fold (\<lambda>(a, c). upsert (ch, a) c (merge_candidate c)) rows (candidates db)).
     ca_promoted_at c = None \<or> ca_spam_at c = None"
proof (induction rows arbitrary: db)
  case (Cons r rows)
  define db' where "db' = db\<lparr>candidates := upsert (ch, fst r) (snd r) (merge_candidate (snd r)) (candidates db)\<rparr>"
  have "one_verdict db'"
    using Cons.prems by (cases r) (fastforce simp: one_verdict_def db'_def upsert_def set_update_row merge_candidate_def)
  from Cons.IH [OF this] Cons.prems(2) show ?case by (cases r) (simp add: db'_def)
qed (simp add: one_verdict_def)

lemma one_verdict_step: "one_verdict db \<Longrightarrow> unjudged op \<Longrightarrow> one_verdict (cand_step op db)"
proof (cases op)
  case (OpUpsert ch rows)
  assume "one_verdict db" "unjudged op"
  then show ?thesis
    using OpUpsert one_verdict_fold_upsert [of db rows ch]
    by (simp add: one_verdict_def UpsertCandidates_def)
qed (auto simp: one_verdict_def MarkCandidatePromoted_def MarkCandidateSpam_def ClearCandidateSpam_def
    set_update_row split: if_splits option.splits)

section \<open>Properties\<close>

text \<open>A candidate carries at most one live verdict: no sequence of sweeps, promotions, spam
  marks and cleared marks leaves a contract both promoted and marked as spam.\<close>

theorem candidates_one_verdict:
  assumes "one_verdict db" and "list_all unjudged ops"
  shows "one_verdict (fold cand_step ops db)"
  using assms by (induction ops arbitrary: db) (auto simp: one_verdict_step)

definition demo_candidate :: Candidate where
  "demo_candidate = \<lparr>ca_standard = 1, ca_first = 3, ca_last = 8, ca_events = 120, ca_blocks = 30,
     ca_promoted_at = None, ca_promotion_reason = [], ca_spam_at = None, ca_spam_reason = []\<rparr>"

definition demo_cand_db :: cand_db where
  "demo_cand_db = demand_db.extend demo_demand_db \<lparr>candidates = [((1, 7), demo_candidate)],
     discovery_cursor = [], promotion_cooldowns = []\<rparr>"

lemma demo_cand_db_simps [simp]: "candidates demo_cand_db = [((1, 7), demo_candidate)]" "promotion_cooldowns demo_cand_db = []"
  by (simp_all add: demo_cand_db_def demand_db.defs)

theorem candidates_one_verdict_witness:
  "one_verdict (fold cand_step [OpSpam 1 7 ''junk'' 2, OpPromote 1 7 ''op'' 3, OpUpsert 1 [(7, demo_candidate)]] demo_cand_db)"
  by (rule candidates_one_verdict) (simp_all add: one_verdict_def demo_candidate_def)

text \<open>The promotion queue holds only candidates of the chain that nobody has judged, that
  are not cooling down and that clear a leg of the rule; a candidate marked as spam is never
  in it, however much it is wanted; it is ordered by net demand; and with room for all, every
  such candidate is in it.\<close>

theorem PromotableCandidates_spec:
  "(\<forall>(a, c) \<in> set (PromotableCandidates now ch rule limit db).
      ((ch, a), c) \<in> set (candidates db) \<and> promotable now rule db ((ch, a), c) \<and> ca_spam_at c = None)
   \<and> sorted (map (\<lambda>(a, c). - Net (voters_of db (ch, a))) (PromotableCandidates now ch rule limit db))
   \<and> length (PromotableCandidates now ch rule limit db) \<le> limit
   \<and> (\<forall>a c. ((ch, a), c) \<in> set (candidates db) \<longrightarrow> promotable now rule db ((ch, a), c)
      \<longrightarrow> length (candidates db) \<le> limit \<longrightarrow> (a, c) \<in> set (PromotableCandidates now ch rule limit db))"
proof -
  define q where "q = sort_key (\<lambda>(key, c). - Net (voters_of db key)) (sort_key (\<lambda>(key, c). - int (ca_events c))
         (sort_key (\<lambda>(key, c). - int (ca_blocks c))
           (filter (\<lambda>row. fst (fst row) = ch \<and> promotable now rule db row) (candidates db))))"
  define f :: "asset_key \<times> Candidate \<Rightarrow> address \<times> Candidate" where "f = (\<lambda>((_, a), c). (a, c))"
  have P: "PromotableCandidates now ch rule limit db = take limit (map f q)"
    by (simp add: PromotableCandidates_def q_def f_def)
  have q: "set q = {row \<in> set (candidates db). fst (fst row) = ch \<and> promotable now rule db row}"
    by (simp add: q_def)
  have len: "length q \<le> length (candidates db)" by (simp add: q_def)
  have srt: "sorted (map (\<lambda>(key, c). - Net (voters_of db key)) q)"
    by (simp only: q_def sorted_sort_key)
  have "map (\<lambda>(a, c). - Net (voters_of db (ch, a))) (map f q) = map (\<lambda>(key, c). - Net (voters_of db key)) q"
    using q by (auto simp: f_def)
  then have "sorted (map (\<lambda>(a, c). - Net (voters_of db (ch, a))) (take limit (map f q)))"
    using srt by (metis sorted_wrt_take take_map)
  moreover have "\<forall>(a, c) \<in> set (map f q). ((ch, a), c) \<in> set (candidates db)
      \<and> promotable now rule db ((ch, a), c) \<and> ca_spam_at c = None"
    using q by (auto simp: f_def promotable_def)
  then have "\<forall>(a, c) \<in> set (take limit (map f q)). ((ch, a), c) \<in> set (candidates db)
      \<and> promotable now rule db ((ch, a), c) \<and> ca_spam_at c = None"
    by (blast dest: in_set_takeD)
  moreover have "(a, c) \<in> set (take limit (map f q))"
    if "((ch, a), c) \<in> set (candidates db)" "promotable now rule db ((ch, a), c)" "length (candidates db) \<le> limit" for a c
  proof -
    have "((ch, a), c) \<in> set q" using that q by simp
    then have "f ((ch, a), c) \<in> set (map f q)" by simp
    moreover have "take limit (map f q) = map f q" using len that(3) by simp
    ultimately show ?thesis by (simp add: f_def)
  qed
  ultimately show ?thesis unfolding P by auto
qed

theorem PromotableCandidates_spec_witness:
  "(7, demo_candidate) \<in> set (PromotableCandidates 5 1
     \<lparr>pr_activity = True, pr_min_events = 100, pr_min_blocks = 25, pr_min_voters = 0\<rparr> 5 demo_cand_db)"
  by (rule PromotableCandidates_spec [THEN conjunct2, THEN conjunct2, THEN conjunct2, rule_format])
    (simp_all add: promotable_def cooling_def, simp_all add: demo_candidate_def)

end
