(* ===== verification/Follower.thy ===== *)
theory Follower
  imports Aggregate History CandidateStore
begin

text \<open>
  The follower of \<open>internal/indexer/service.go\<close>: options, the service record, reorg
  handling and \<open>followTick\<close>. One record describes what a node answers during a tick; its
  \<open>eth_getLogs\<close> answers depend on the number of the call. Statements of the database
  succeed: a tick that ends early does so because of the node.

  The lemmas show that a tick that succeeds counts every new confirmed log once and buffers
  the rest, and that a rewind drops exactly the suffix that the next tick reads again. A block can be
  buffered under two hashes, of which the reorg check sees one.
\<close>

section \<open>The service\<close>

record DiscoveryOptions =
  di_enabled :: bool
  di_lookback :: nat
  di_max_blocks :: nat
  di_interval :: int
  di_auto :: bool
  di_min_events :: nat
  di_min_blocks :: nat
  di_max_promotions :: int
  di_min_voters :: nat

definition discovery_defaults :: "DiscoveryOptions \<Rightarrow> DiscoveryOptions" where
  "discovery_defaults opt =
     (let opt = (if di_lookback opt = 0 then opt\<lparr>di_lookback := 10000\<rparr> else opt);
          opt = (if di_max_blocks opt = 0 then opt\<lparr>di_max_blocks := 5000\<rparr> else opt);
          opt = (if di_interval opt \<le> 0 then opt\<lparr>di_interval := 5000000000\<rparr> else opt);
          opt = (if di_min_events opt = 0 then opt\<lparr>di_min_events := 100\<rparr> else opt);
          opt = (if di_min_blocks opt = 0 then opt\<lparr>di_min_blocks := 25\<rparr> else opt)
      in if di_max_promotions opt = 0 then opt\<lparr>di_max_promotions := 5\<rparr> else opt)"

record Options =
  op_chain_name :: string
  op_confirmations :: nat
  op_backfill_window :: nat
  op_tail_window :: nat
  op_poll :: int
  op_backfill_interval :: int
  op_discovery :: DiscoveryOptions

definition options_defaults :: "Options \<Rightarrow> Options" where
  "options_defaults opt =
     (let opt = (if op_backfill_window opt = 0 then opt\<lparr>op_backfill_window := 5000\<rparr> else opt);
          opt = (if op_tail_window opt = 0 then opt\<lparr>op_tail_window := 1000\<rparr> else opt);
          opt = (if op_poll opt \<le> 0 then opt\<lparr>op_poll := 3000000000\<rparr> else opt);
          opt = (if op_backfill_interval opt \<le> 0 then opt\<lparr>op_backfill_interval := 1000000000\<rparr> else opt)
      in opt\<lparr>op_discovery := discovery_defaults (op_discovery opt)\<rparr>)"

record Metadata =
  me_symbol :: string
  me_name :: string
  me_decimals :: "int option"

text \<open>What the node answers during a tick. \<open>n_logs\<close> takes the address filter of the query,
  \<open>None\<close> for no filter; \<open>n_meta\<close> is what \<open>token.Probe\<close> reads of a contract.\<close>

record node =
  n_head :: "chain_err + nat"
  n_header :: "nat \<Rightarrow> chain_err + hash"
  n_logs :: "address list option \<Rightarrow> logs_node"
  n_done :: "nat \<Rightarrow> bool"
  n_code :: "address \<Rightarrow> chain_err + byte list"
  n_meta :: "address \<Rightarrow> Metadata"
  n_hist :: hist_env

datatype tick_err =
    HeadErr chain_err
  | SweepErr "tick_err sweep_end"
  | LogsErr nat nat chain_err
  | HistErr history_err
  | NoAnchor address
  | StoreErr store_error
  | CodeErr chain_err
  | NoContractCode address

record Service =
  sv_chain :: nat
  sv_opt :: Options
  sv_floor :: nat
  sv_probed :: bool
  sv_run_err :: "tick_err option"
  sv_fails :: nat
  sv_wake :: bool

definition maxFailStreak :: nat where
  "maxFailStreak = 5"

definition New :: "nat \<Rightarrow> Options \<Rightarrow> Service" where
  "New chainID opt = \<lparr>sv_chain = chainID, sv_opt = options_defaults opt, sv_floor = 0, sv_probed = False,
     sv_run_err = None, sv_fails = 0, sv_wake = False\<rparr>"

datatype health = Healthy | IndexerStopped tick_err | IndexerFailing nat

definition Health :: "Service \<Rightarrow> health" where
  "Health s = (case sv_run_err s of Some e \<Rightarrow> IndexerStopped e
     | None \<Rightarrow> if sv_fails s \<ge> maxFailStreak then IndexerFailing (sv_fails s) else Healthy)"

definition noteTick :: "tick_err option \<Rightarrow> Service \<Rightarrow> Service" where
  "noteTick err s = (case err of Some _ \<Rightarrow> s\<lparr>sv_fails := sv_fails s + 1\<rparr> | None \<Rightarrow> s\<lparr>sv_fails := 0\<rparr>)"

definition Nudge :: "Service \<Rightarrow> Service" where
  "Nudge s = s\<lparr>sv_wake := True\<rparr>"

section \<open>Reorgs\<close>

definition rewind :: "nat \<Rightarrow> nat \<Rightarrow> 'a asset_db_scheme \<Rightarrow> 'a asset_db_scheme" where
  "rewind chainID from db =
     (let db1 = fst (DropPendingFrom chainID from db)
      in RewindTail chainID (if from > 0 then from - 1 else 0) db1)"

fun first_divergence :: "(nat \<Rightarrow> chain_err + hash) \<Rightarrow> (nat \<Rightarrow> hash option) \<Rightarrow> nat list \<Rightarrow> nat option" where
  "first_divergence header hashes [] = None"
| "first_divergence header hashes (b # bs) =
     (case header b of Inl _ \<Rightarrow> Some b
      | Inr got \<Rightarrow> if Some got \<noteq> hashes b then Some b else first_divergence header hashes bs)"

definition pending_blocks :: "nat \<Rightarrow> 'a index_db_scheme \<Rightarrow> nat list" where
  "pending_blocks chainID db =
     sort (remdups (map (\<lambda>(c, e). pe_block e) (filter (\<lambda>(c, e). c = chainID) (pending_events db))))"

definition handleReorg :: "node \<Rightarrow> nat \<Rightarrow> 'a asset_db_scheme \<Rightarrow> 'a asset_db_scheme" where
  "handleReorg node chainID db =
     (case first_divergence (n_header node) (PendingBlockHashes chainID 0 db) (pending_blocks chainID db) of
        None \<Rightarrow> db
      | Some b \<Rightarrow> rewind chainID b db)"

definition recordHead :: "node \<Rightarrow> nat \<Rightarrow> nat \<Rightarrow> 'a chain_db_scheme \<Rightarrow> 'a chain_db_scheme" where
  "recordHead node chainID head db =
     (case n_header node head of Inl _ \<Rightarrow> db | Inr h \<Rightarrow> SetChainHead chainID head h db)"

section \<open>A tick\<close>

text \<open>What the callback of the sweep changes.\<close>

record 'a sweep_state =
  ss_db :: 'a
  ss_seen :: "address \<Rightarrow> nat"
  ss_last :: "address \<Rightarrow> nat"

definition tail_of :: "(address \<times> Cursor) list \<Rightarrow> address \<Rightarrow> nat" where
  "tail_of cursors a = (case map_of cursors a of None \<Rightarrow> 0 | Some c \<Rightarrow> cu_tail c)"

definition keep_log :: "(address \<times> Cursor) list \<Rightarrow> evm_log \<Rightarrow> bool" where
  "keep_log cursors l \<longleftrightarrow> log_block l > tail_of cursors (log_address l)"

definition follow_chunk ::
  "hashfn \<Rightarrow> nat \<Rightarrow> (address \<times> Cursor) list \<Rightarrow> nat \<Rightarrow> nat \<Rightarrow> nat \<Rightarrow> evm_log list
   \<Rightarrow> 'a asset_db_scheme sweep_state \<Rightarrow> 'a asset_db_scheme sweep_state \<times> tick_err option" where
  "follow_chunk k chainID cursors confirmedTo cfrom cto logs st =
     (let kept = filter (keep_log cursors) logs;
          seen = fold (\<lambda>l m. m(log_address l := m (log_address l) + 1)) kept (ss_seen st);
          last = fold (\<lambda>a m. if cto > m a then m(a := cto) else m) (map fst cursors) (ss_last st);
          db1 = InsertPending chainID (PendingFrom k kept) (ss_db st);
          upto = min cto confirmedTo;
          db2 = (if upto \<ge> cfrom then fst (PromotePending chainID upto db1) else db1)
      in (\<lparr>ss_db = db2, ss_seen = seen, ss_last = last\<rparr>, None))"

definition follow_from :: "(address \<times> Cursor) list \<Rightarrow> nat" where
  "follow_from cursors = fold (\<lambda>(a, c) from. if (cu_tail c + 1) mod 2 ^ 64 < from then (cu_tail c + 1) mod 2 ^ 64 else from)
     cursors (2 ^ 64 - 1)"

definition confirmed_to :: "Service \<Rightarrow> nat \<Rightarrow> nat" where
  "confirmed_to s head = (if head > op_confirmations (sv_opt s) then head - op_confirmations (sv_opt s) else 0)"

definition advance_tails ::
  "nat \<Rightarrow> (address \<times> Cursor) list \<Rightarrow> 'a asset_db_scheme sweep_state \<Rightarrow> 'a asset_db_scheme" where
  "advance_tails chainID cursors st =
     fold (\<lambda>(a, c). AdvanceTail chainID a (ss_last st a) (ss_seen st a)) cursors (ss_db st)"

definition followTick ::
  "hashfn \<Rightarrow> node \<Rightarrow> Service \<Rightarrow> 'a asset_db_scheme \<Rightarrow> ('a asset_db_scheme \<times> tick_err option) option" where
  "followTick k node s db =
     (let c = sv_chain s in
      case n_head node of Inl e \<Rightarrow> Some (db, Some (HeadErr e))
      | Inr head \<Rightarrow>
          let db1 = handleReorg node c db;
              cursors = ListCursors c db1;
              from = follow_from cursors;
              confirmedTo = confirmed_to s head
          in if cursors = [] then Some (recordHead node c head db1, None)
             else if from > head then
               Some (recordHead node c head (fst (PromotePending c confirmedTo db1)), None)
             else
               (case SweepLogs (n_logs node (Some (map fst cursors))) (n_done node) from head
                   \<lparr>co_max = op_tail_window (sv_opt s), co_min = 0\<rparr>
                   (follow_chunk k c cursors confirmedTo)
                   \<lparr>ss_db = db1, ss_seen = (\<lambda>_. 0), ss_last = (\<lambda>_. 0)\<rparr> of
                  None \<Rightarrow> None
                | Some (st, SweepDone) \<Rightarrow>
                    Some (recordHead node c head (fst (PromotePending c confirmedTo (advance_tails c cursors st))), None)
                | Some (st, e) \<Rightarrow> Some (ss_db st, Some (SweepErr e))))"

section \<open>Pending events as a set\<close>

definition pend :: "nat \<Rightarrow> 'a index_db_scheme \<Rightarrow> PendingEvent set" where
  "pend c db = {e. (c, e) \<in> set (pending_events db)}"

definition pe_ref :: "PendingEvent \<Rightarrow> event" where
  "pe_ref e = ((pe_block e, pe_logindex e), pe_role e)"

definition ev_set :: "PendingEvent set \<Rightarrow> address \<times> address \<Rightarrow> event set" where
  "ev_set E key = pe_ref ` {e \<in> E. (pe_account e, pe_asset e) = key}"

text \<open>The summary of a finite set of events, through any list of them.\<close>

definition summ_set :: "event set \<Rightarrow> summary option" where
  "summ_set S = summarise (SOME xs. set xs = S)"

lemma summ_set_eq: "set xs = S \<Longrightarrow> summ_set S = summarise xs"
  unfolding summ_set_def by (rule summarise_set) (metis (mono_tags, lifting) someI)

lemma summ_set_Un:
  assumes "finite A" "finite B" "fst ` A \<inter> fst ` B = {}"
  shows "summ_set (A \<union> B) = add_summary (summ_set A) (summ_set B)"
proof -
  obtain xs ys where xy: "set xs = A" "set ys = B" using assms finite_list by metis
  then have "summ_set (A \<union> B) = summarise (xs @ ys)" by (intro summ_set_eq) simp
  also have "\<dots> = add_summary (summarise xs) (summarise ys)"
    by (rule summarise_append) (use assms(3) xy in \<open>simp add: image_comp\<close>)
  finally show ?thesis using summ_set_eq [OF xy(1)] summ_set_eq [OF xy(2)] by simp
qed

lemma finite_pend [simp]: "finite (pend c db)"
proof -
  have "pend c db \<subseteq> snd ` set (pending_events db)" by (force simp: pend_def)
  then show ?thesis by (rule finite_subset) simp
qed

lemma ev_set_Un: "ev_set (A \<union> B) key = ev_set A key \<union> ev_set B key"
  by (auto simp: ev_set_def)

lemma finite_ev_set [simp]: "finite E \<Longrightarrow> finite (ev_set E key)"
  by (simp add: ev_set_def)

lemma set_events_of: "set (events_of es key) = ev_set (set es) key"
  by (auto simp: events_of_def ev_set_def pe_ref_def)

lemma pend_simps [simp]:
  "pend c (fst (PromotePending c to db)) = {e \<in> pend c db. to < pe_block e}"
  "pend c (RewindTail c' b adb) = pend c adb"
  "pend c (AdvanceTail c' a t n adb) = pend c adb"
  "pend c (recordHead node c' h cdb) = pend c cdb"
  "pend c (fst (DropPendingFrom c b db)) = {e \<in> pend c db. pe_block e < b}"
  by (auto simp: pend_def pending_Promote RewindTail_def AdvanceTail_def recordHead_def SetChainHead_def
      DropPendingFrom_def Let_def split: sum.splits)

lemma rollup_simps [simp]:
  "rollup (RewindTail c' b adb) = rollup adb"
  "rollup (AdvanceTail c' a t n adb) = rollup adb"
  "rollup (recordHead node c' h cdb) = rollup cdb"
  by (auto simp: rollup_def fun_eq_iff RewindTail_def AdvanceTail_def recordHead_def SetChainHead_def split: sum.splits)

lemma rollup_Promote_set:
  "rollup (fst (PromotePending c to db)) (c, key) =
     add_summary (rollup db (c, key)) (summ_set (ev_set {e \<in> pend c db. pe_block e \<le> to} key))"
proof -
  have "set (due_events c to db) = {e \<in> pend c db. pe_block e \<le> to}" by (auto simp: set_due_events pend_def)
  then show ?thesis
    using summ_set_eq [OF set_events_of [of "due_events c to db" key]] by (simp add: rollup_Promote)
qed

lemma pend_Insert:
  assumes "inj_on pending_key ((\<lambda>e. (c, e)) ` (pend c db \<union> set evs))"
  shows "pend c (InsertPending c evs db) = pend c db \<union> set evs"
proof -
  let ?tab = "filter (\<lambda>(c', e). c' = c) (pending_events db)"
  have tab: "set ?tab = (\<lambda>e. (c, e)) ` pend c db" by (auto simp: pend_def)
  have "inj_on pending_key (set ?tab \<union> (\<lambda>e. (c, e)) ` set evs)" unfolding tab image_Un [symmetric] by (rule assms)
  then have "set (filter (\<lambda>(c', e). c' = c) (fold (insert_pending_row c) evs (pending_events db)))
      = (\<lambda>e. (c, e)) ` (pend c db \<union> set evs)"
    unfolding filter_insert_pending image_Un tab [symmetric] by (rule set_insert_pending_inj)
  then show ?thesis by (auto simp: pend_def InsertPending_def set_eq_iff)
qed

section \<open>Reorgs: what is left is canonical\<close>

text \<open>Of the hashes a block is buffered under the check sees one, whichever comes last.\<close>

lemma PendingBlockHashes_pend:
  assumes "e \<in> pend c db"
  shows "\<exists>e' \<in> pend c db. pe_block e' = pe_block e \<and> PendingBlockHashes c 0 db (pe_block e) = Some (pe_bhash e')"
proof -
  define xs where "xs = rev (map (\<lambda>(c, e). (pe_block e, pe_bhash e)) (filter (\<lambda>(c', e). c' = c \<and> 0 \<le> pe_block e) (pending_events db)))"
  have mem: "(b, h) \<in> set xs \<longleftrightarrow> (\<exists>e \<in> pend c db. b = pe_block e \<and> h = pe_bhash e)" for b h
    by (force simp: pend_def xs_def)
  have "(pe_block e, pe_bhash e) \<in> set xs" using mem assms by blast
  then obtain h where h: "map_of xs (pe_block e) = Some h" by (metis weak_map_of_SomeI)
  then show ?thesis using mem [of "pe_block e" h] map_of_SomeD [OF h] by (auto simp: PendingBlockHashes_def xs_def)
qed

text \<open>The node has the block under the hash the check sees.\<close>

definition seen_canonical :: "node \<Rightarrow> nat \<Rightarrow> 'a index_db_scheme \<Rightarrow> nat \<Rightarrow> bool" where
  "seen_canonical node c db b \<longleftrightarrow>
     (case n_header node b of Inl _ \<Rightarrow> False | Inr h \<Rightarrow> PendingBlockHashes c 0 db b = Some h)"

lemma first_divergence_None:
  "first_divergence header hashes bs = None \<Longrightarrow> b \<in> set bs \<Longrightarrow> \<exists>h. header b = Inr h \<and> hashes b = Some h"
  by (induction bs) (auto split: sum.splits if_splits)

lemma first_divergence_Some:
  "first_divergence header hashes bs = Some d \<Longrightarrow> sorted bs \<Longrightarrow> b \<in> set bs \<Longrightarrow> b < d
     \<Longrightarrow> \<exists>h. header b = Inr h \<and> hashes b = Some h"
  by (induction bs) (auto split: sum.splits if_splits)

lemma first_divergence_bad:
  "first_divergence header hashes bs = Some d \<Longrightarrow> d \<in> set bs \<and> (\<forall>h. header d = Inr h \<longrightarrow> hashes d \<noteq> Some h)"
  by (induction bs) (auto split: sum.splits if_splits)

lemma set_pending_blocks: "set (pending_blocks c db) = pe_block ` pend c db"
  by (force simp: pending_blocks_def pend_def)

lemma handleReorg_cases:
  obtains "handleReorg node c db = db"
      "first_divergence (n_header node) (PendingBlockHashes c 0 db) (pending_blocks c db) = None"
    | d where "handleReorg node c db = rewind c d db"
      "first_divergence (n_header node) (PendingBlockHashes c 0 db) (pending_blocks c db) = Some d"
  by (cases "first_divergence (n_header node) (PendingBlockHashes c 0 db) (pending_blocks c db)")
    (auto simp: handleReorg_def)

lemma pend_rewind: "pend c (rewind c d db) = {e \<in> pend c db. pe_block e < d}"
  by (simp add: rewind_def Let_def)

lemma pend_handleReorg:
  "pend c (handleReorg node c db) =
     {e \<in> pend c db. \<forall>e' \<in> pend c db. pe_block e' \<le> pe_block e \<longrightarrow> seen_canonical node c db (pe_block e')}"
proof (cases rule: handleReorg_cases [of node c db])
  case 1
  then show ?thesis using first_divergence_None [OF 1(2)] by (fastforce simp: seen_canonical_def set_pending_blocks)
next
  case (2 d)
  have srt: "sorted (pending_blocks c db)" by (simp add: pending_blocks_def)
  have ok: "seen_canonical node c db (pe_block e)" if "e \<in> pend c db" "pe_block e < d" for e
    using first_divergence_Some [OF 2(2) srt, of "pe_block e"] that by (auto simp: seen_canonical_def set_pending_blocks)
  obtain e0 where e0: "e0 \<in> pend c db" "pe_block e0 = d" "\<not> seen_canonical node c db d"
    using first_divergence_bad [OF 2(2)] by (auto simp: set_pending_blocks seen_canonical_def split: sum.splits)
  show ?thesis unfolding 2(1) pend_rewind using ok e0 by (auto simp: not_less)
qed

lemma rewind_cursor:
  "cursor_of (rewind c d db) c a = map_option (\<lambda>x. x\<lparr>cu_tail := min (cu_tail x) (d - 1)\<rparr>) (cursor_of db c a)"
  by (simp add: rewind_def Let_def DropPendingFrom_def cursor_of_def RewindTail_def map_of_RewindTail)

section \<open>The sweep of a tick\<close>

definition log_events :: "hashfn \<Rightarrow> evm_log \<Rightarrow> PendingEvent set" where
  "log_events k l = set (PendingFrom k [l])"

lemma set_PendingFrom: "set (PendingFrom k logs) = (\<Union>l \<in> set logs. log_events k l)"
  by (induction logs) (auto simp: log_events_def PendingFrom_def)

lemma log_events_block: "e \<in> log_events k l \<Longrightarrow> pe_block e = log_block l"
  by (auto simp: log_events_def PendingFrom_def pending_of_def split: if_splits option.splits)

text \<open>A node that answers a query with the logs of the chain \<open>L\<close>: the range and the addresses
  are respected, and no log that can be decoded is left out.\<close>

definition honest_logs :: "hashfn \<Rightarrow> evm_log list \<Rightarrow> address list \<Rightarrow> logs_node \<Rightarrow> bool" where
  "honest_logs k L addrs src \<longleftrightarrow>
     (\<forall>i f t logs. src i f t = Inr logs \<longrightarrow>
        set logs \<subseteq> {l \<in> set L. f \<le> log_block l \<and> log_block l \<le> t \<and> log_address l \<in> set addrs}
        \<and> {l \<in> set L. f \<le> log_block l \<and> log_block l \<le> t \<and> log_address l \<in> set addrs \<and> log_events k l \<noteq> {}} \<subseteq> set logs)"

text \<open>The logs that are new for a tick over the blocks \<open>[a, b)\<close>, and their events.\<close>

definition new_events :: "hashfn \<Rightarrow> evm_log list \<Rightarrow> (address \<times> Cursor) list \<Rightarrow> nat \<Rightarrow> nat \<Rightarrow> PendingEvent set" where
  "new_events k L cursors a b =
     (\<Union>l \<in> {l \<in> set L. log_address l \<in> fst ` set cursors \<and> keep_log cursors l \<and> a \<le> log_block l \<and> log_block l < b}.
        log_events k l)"

lemma new_events_split: "a \<le> b \<Longrightarrow> b \<le> c \<Longrightarrow> new_events k L cs a c = new_events k L cs a b \<union> new_events k L cs b c"
  by (auto simp: new_events_def) force+

lemma new_events_empty [simp]: "new_events k L cs a a = {}"
  by (auto simp: new_events_def)

lemma new_events_sub: "new_events k L cs a b \<subseteq> set (PendingFrom k L)"
  by (auto simp: new_events_def set_PendingFrom)

lemma new_events_block: "e \<in> new_events k L cs a b \<Longrightarrow> a \<le> pe_block e \<and> pe_block e < b"
  by (auto simp: new_events_def dest: log_events_block)

lemma chunk_events:
  assumes "honest_logs k L (map fst cs) src" and "src i f t = Inr logs"
  shows "set (PendingFrom k (filter (keep_log cs) logs)) = new_events k L cs f (Suc t)"
proof -
  have h: "set logs \<subseteq> {l \<in> set L. f \<le> log_block l \<and> log_block l \<le> t \<and> log_address l \<in> fst ` set cs}"
    "{l \<in> set L. f \<le> log_block l \<and> log_block l \<le> t \<and> log_address l \<in> fst ` set cs \<and> log_events k l \<noteq> {}} \<subseteq> set logs"
    using assms unfolding honest_logs_def by auto
  show ?thesis unfolding set_PendingFrom new_events_def
  proof (intro equalityI subsetI)
    fix e assume "e \<in> (\<Union>l \<in> set (filter (keep_log cs) logs). log_events k l)"
    then show "e \<in> (\<Union>l \<in> {l \<in> set L. log_address l \<in> fst ` set cs \<and> keep_log cs l \<and> f \<le> log_block l \<and> log_block l < Suc t}. log_events k l)"
      using h(1) by fastforce
  next
    fix e assume "e \<in> (\<Union>l \<in> {l \<in> set L. log_address l \<in> fst ` set cs \<and> keep_log cs l \<and> f \<le> log_block l \<and> log_block l < Suc t}. log_events k l)"
    then obtain l where l: "l \<in> set L" "log_address l \<in> fst ` set cs" "keep_log cs l" "f \<le> log_block l" "log_block l \<le> t"
      "e \<in> log_events k l" by (simp only: UN_iff Bex_def mem_Collect_eq less_Suc_eq_le) blast
    then have "l \<in> set logs" using h(2) by auto
    then show "e \<in> (\<Union>l \<in> set (filter (keep_log cs) logs). log_events k l)" using l by auto
  qed
qed

text \<open>The state of the index while a tick runs: of the events \<open>E\<close> known so far, those below
  \<open>v\<close> are in the rollup, on top of \<open>R\<close>, and the others are buffered.\<close>

definition tick_inv ::
  "nat \<Rightarrow> (row_key \<Rightarrow> summary option) \<Rightarrow> PendingEvent set \<Rightarrow> nat \<Rightarrow> 'a index_db_scheme \<Rightarrow> bool" where
  "tick_inv c R E v db \<longleftrightarrow> finite E \<and> pend c db = {e \<in> E. v \<le> pe_block e}
     \<and> (\<forall>key. rollup db (c, key) = add_summary (R (c, key)) (summ_set (ev_set {e \<in> E. pe_block e < v} key)))"

lemma tick_inv_start: "tick_inv c (rollup db) (pend c db) 0 db"
  by (simp add: tick_inv_def ev_set_def summ_set_eq [of "[]", symmetric] summ_set_eq [of "[]" "{}"] summarise_def)

lemma tick_inv_insert:
  assumes "tick_inv c R E v db" and "\<forall>e \<in> set evs. v \<le> pe_block e"
    and "inj_on pending_key ((\<lambda>e. (c, e)) ` (E \<union> set evs))"
  shows "tick_inv c R (E \<union> set evs) v (InsertPending c evs db)"
proof -
  have "inj_on pending_key ((\<lambda>e. (c, e)) ` (pend c db \<union> set evs))"
    using assms(1,3) by (auto simp: tick_inv_def intro: inj_on_subset)
  then have "pend c (InsertPending c evs db) = {e \<in> E \<union> set evs. v \<le> pe_block e}"
    using assms(1,2) by (auto simp: pend_Insert tick_inv_def)
  moreover have "{e \<in> E \<union> set evs. pe_block e < v} = {e \<in> E. pe_block e < v}"
    using assms(2) by (auto simp: not_le [symmetric])
  ultimately show ?thesis using assms(1) by (simp add: tick_inv_def)
qed

lemma tick_inv_promote:
  assumes "tick_inv c R E v db"
  shows "tick_inv c R E (max v (Suc to)) (fst (PromotePending c to db))"
proof -
  have E: "finite E" and p: "pend c db = {e \<in> E. v \<le> pe_block e}" using assms by (simp_all add: tick_inv_def)
  have "rollup (fst (PromotePending c to db)) (c, key) =
      add_summary (R (c, key)) (summ_set (ev_set {e \<in> E. pe_block e < max v (Suc to)} key))" for key
  proof -
    let ?A = "{e \<in> E. pe_block e < v}" and ?B = "{e \<in> pend c db. pe_block e \<le> to}"
    have AB: "{e \<in> E. pe_block e < max v (Suc to)} = ?A \<union> ?B" unfolding p by (auto simp: less_max_iff_disj not_le [symmetric])
    have "fst x < v" if "x \<in> fst ` ev_set ?A key" for x using that by (auto simp: ev_set_def pe_ref_def)
    moreover have "v \<le> fst x" if "x \<in> fst ` ev_set ?B key" for x
      using that unfolding p by (auto simp: ev_set_def pe_ref_def)
    ultimately have "fst ` ev_set ?A key \<inter> fst ` ev_set ?B key = {}"
      using not_le by (intro Int_emptyI) blast
    then have "summ_set (ev_set (?A \<union> ?B) key) = add_summary (summ_set (ev_set ?A key)) (summ_set (ev_set ?B key))"
      unfolding ev_set_Un using E by (intro summ_set_Un) auto
    moreover have "rollup db (c, key) = add_summary (R (c, key)) (summ_set (ev_set ?A key))"
      using assms unfolding tick_inv_def by blast
    ultimately show ?thesis unfolding AB rollup_Promote_set by (simp only: rows.add_assoc)
  qed
  then show ?thesis using E p by (auto simp: tick_inv_def)
qed

text \<open>A window that starts at or below the confirmed height moves the boundary to its end or to
  that height, whichever comes first.\<close>

lemma follow_chunk_exact:
  assumes "honest_logs k L (map fst cs) src" and "src i f t = Inr logs" and "f \<le> t"
    and "tick_inv c R E v (ss_db st)" and "v \<le> f" and "E \<subseteq> set (PendingFrom k L)" and "chain_logs L"
    and "follow_chunk k c cs conf f t logs st = (st', r)"
  shows "r = None \<and> tick_inv c R (E \<union> new_events k L cs f (Suc t)) (if f \<le> conf then min (Suc t) (Suc conf) else v) (ss_db st')"
proof -
  let ?evs = "PendingFrom k (filter (keep_log cs) logs)"
  let ?db1 = "InsertPending c ?evs (ss_db st)"
  have evs: "set ?evs = new_events k L cs f (Suc t)" by (rule chunk_events [OF assms(1,2)])
  have "tick_inv c R (E \<union> set ?evs) v ?db1"
  proof (rule tick_inv_insert [OF assms(4)])
    show "\<forall>e \<in> set ?evs. v \<le> pe_block e" using evs assms(5) by (auto dest: new_events_block)
    have "E \<union> set ?evs \<subseteq> set (PendingFrom k L)" using assms(6) new_events_sub evs by blast
    then show "inj_on pending_key ((\<lambda>e. (c, e)) ` (E \<union> set ?evs))"
      using pending_key_inj [OF assms(7)] by (rule inj_on_subset [OF _ image_mono, rotated])
  qed
  note ins = this [unfolded evs]
  show ?thesis
  proof (cases "f \<le> conf")
    case True
    then have "ss_db st' = fst (PromotePending c (min t conf) ?db1)" "r = None"
      using assms(3,8) by (auto simp: follow_chunk_def Let_def)
    moreover have "max v (Suc (min t conf)) = min (Suc t) (Suc conf)" using assms(3,5) True by simp
    ultimately show ?thesis using tick_inv_promote [OF ins, of "min t conf"] True by simp
  next
    case False
    then have "ss_db st' = ?db1" "r = None" using assms(8) by (auto simp: follow_chunk_def Let_def)
    then show ?thesis using ins False by simp
  qed
qed

lemma run_follow_exact:
  assumes "honest_logs k L (map fst cs) src" and "chain_logs L"
  shows "run_chunks (follow_chunk k c cs conf) ws st = (st', None) \<Longrightarrow> tiles a ws b
    \<Longrightarrow> \<forall>w \<in> set ws. answered src w \<Longrightarrow> tick_inv c R E v (ss_db st) \<Longrightarrow> v \<le> a
    \<Longrightarrow> E \<subseteq> set (PendingFrom k L)
    \<Longrightarrow> a \<le> b \<and> tick_inv c R (E \<union> new_events k L cs a b) (if a < b \<and> a \<le> conf then min b (Suc conf) else v) (ss_db st')"
proof (induction ws arbitrary: st E v a)
  case (Cons w ws)
  obtain f t logs where w: "w = (f, t, logs)" by (cases w)
  obtain i where i: "src i f t = Inr logs" using Cons.prems(3) w by (auto simp: answered_def)
  obtain st1 r where fn: "follow_chunk k c cs conf f t logs st = (st1, r)" by fastforce
  have ft: "f = a" "f \<le> t" "tiles (Suc t) ws b" using Cons.prems(2) w by auto
  let ?v = "if a \<le> conf then min (Suc t) (Suc conf) else v"
  have r: "r = None" and v1: "tick_inv c R (E \<union> new_events k L cs a (Suc t)) ?v (ss_db st1)"
    using follow_chunk_exact [OF assms(1) i ft(2) Cons.prems(4) _ Cons.prems(6) assms(2) fn] Cons.prems(5) ft(1) by auto
  have run: "run_chunks (follow_chunk k c cs conf) ws st1 = (st', None)" using Cons.prems(1) w fn r by simp
  have sub: "E \<union> new_events k L cs a (Suc t) \<subseteq> set (PendingFrom k L)" using Cons.prems(6) new_events_sub by blast
  have le: "?v \<le> Suc t" using Cons.prems(5) ft(1,2) by auto
  have "Suc t \<le> b \<and> tick_inv c R (E \<union> new_events k L cs a (Suc t) \<union> new_events k L cs (Suc t) b)
      (if Suc t < b \<and> Suc t \<le> conf then min b (Suc conf) else ?v) (ss_db st')"
    by (rule Cons.IH [OF run ft(3) _ v1 le sub]) (use Cons.prems(3) in simp)
  moreover have "new_events k L cs a b = new_events k L cs a (Suc t) \<union> new_events k L cs (Suc t) b" if "Suc t \<le> b"
    using new_events_split [of a "Suc t" b k L cs] ft that by simp
  moreover have "(if Suc t < b \<and> Suc t \<le> conf then min b (Suc conf) else ?v) = (if a < b \<and> a \<le> conf then min b (Suc conf) else v)"
    if "Suc t \<le> b" using that ft(1,2) by auto
  ultimately show ?case using ft(1,2) by (simp add: Un_assoc)
qed simp

lemma follow_last:
  "follow_chunk k c cs conf f t logs st = (st', r) \<Longrightarrow> a \<in> fst ` set cs \<Longrightarrow> ss_last st a \<le> t \<Longrightarrow> ss_last st' a = t"
proof -
  have "ss_last' a = (if a \<in> set as \<and> t > m a then t else m a)"
    if "ss_last' = fold (\<lambda>a m. if t > m a then m(a := t) else m) as m" for ss_last' m as
    using that by (induction as arbitrary: m ss_last') auto
  note l = this [OF refl]
  show "follow_chunk k c cs conf f t logs st = (st', r) \<Longrightarrow> a \<in> fst ` set cs \<Longrightarrow> ss_last st a \<le> t \<Longrightarrow> ss_last st' a = t"
  proof -
    assume fn: "follow_chunk k c cs conf f t logs st = (st', r)" and a: "a \<in> fst ` set cs" "ss_last st a \<le> t"
    from fn have "ss_last st' = fold (\<lambda>a m. if t > m a then m(a := t) else m) (map fst cs) (ss_last st)"
      by (auto simp: follow_chunk_def Let_def)
    then show "ss_last st' a = t" using a by (simp add: l)
  qed
qed

lemma run_follow_last:
  "run_chunks (follow_chunk k c cs conf) ws st = (st', None) \<Longrightarrow> tiles a ws b \<Longrightarrow> x \<in> fst ` set cs
    \<Longrightarrow> ss_last st x < a \<Longrightarrow> ws \<noteq> [] \<Longrightarrow> Suc (ss_last st' x) = b"
proof (induction ws arbitrary: st a)
  case (Cons w ws)
  obtain f t logs where w: "w = (f, t, logs)" by (cases w)
  obtain st1 r where fn: "follow_chunk k c cs conf f t logs st = (st1, r)" by fastforce
  then have r: "r = None" by (simp add: follow_chunk_def Let_def)
  have ft: "f = a" "f \<le> t" "tiles (Suc t) ws b" using Cons.prems(2) w by auto
  have run: "run_chunks (follow_chunk k c cs conf) ws st1 = (st', None)" using Cons.prems(1) w fn r by simp
  have "ss_last st1 x = t" using follow_last [OF fn Cons.prems(3)] Cons.prems(4) ft by simp
  then show ?case using Cons.IH [OF run ft(3) Cons.prems(3)] ft(3) run by (cases ws) auto
qed simp

section \<open>A whole tick\<close>

lemma fold_least:
  fixes g :: "'b \<Rightarrow> nat"
  shows "fold (\<lambda>(a, c) from. if g c < from then g c else from) cs x \<le> x
    \<and> (\<forall>(a, c) \<in> set cs. fold (\<lambda>(a, c) from. if g c < from then g c else from) cs x \<le> g c)"
proof (induction cs arbitrary: x)
  case (Cons p cs)
  show ?case using Cons.IH [of "if g (snd p) < x then g (snd p) else x"] by (cases p) auto
qed simp

lemma fold_least_mem:
  fixes g :: "'b \<Rightarrow> nat"
  shows "fold (\<lambda>(a, c) from. if g c < from then g c else from) cs x \<in> insert x (g ` snd ` set cs)"
proof (induction cs arbitrary: x)
  case (Cons p cs)
  show ?case using Cons.IH [of "if g (snd p) < x then g (snd p) else x"] by (cases p) (auto split: if_splits)
qed simp

definition tails_ok :: "(address \<times> Cursor) list \<Rightarrow> bool" where
  "tails_ok cs \<longleftrightarrow> (\<forall>(a, cur) \<in> set cs. cu_tail cur < 2 ^ 63)"

lemma follow_from_le: "tails_ok cs \<Longrightarrow> (a, cur) \<in> set cs \<Longrightarrow> follow_from cs \<le> Suc (cu_tail cur)"
  using fold_least [of "\<lambda>c. (cu_tail c + 1) mod 2 ^ 64" cs "2 ^ 64 - 1"]
  by (fastforce simp: follow_from_def tails_ok_def)

lemma follow_from_pos:
  assumes "tails_ok cs"
  shows "0 < follow_from cs"
proof -
  from fold_least_mem [of "\<lambda>c. (cu_tail c + 1) mod 2 ^ 64" cs "2 ^ 64 - 1"] show ?thesis
    using assms by (fastforce simp: follow_from_def tails_ok_def)
qed

lemma new_events_from:
  assumes "tails_ok cs"
  shows "new_events k L cs 0 b = new_events k L cs (follow_from cs) b"
proof -
  have "follow_from cs \<le> log_block l" if "log_address l \<in> fst ` set cs" "keep_log cs l" for l
  proof -
    from that(1) obtain cur where cur: "map_of cs (log_address l) = Some cur" "(log_address l, cur) \<in> set cs"
      by (metis map_of_SomeD map_of_eq_None_iff not_None_eq)
    then show ?thesis
      using follow_from_le [OF assms cur(2)] that(2) by (simp add: keep_log_def tail_of_def)
  qed
  then show ?thesis by (auto simp: new_events_def)
qed

lemma pend_advance [simp]: "pend c' (advance_tails c cs st) = pend c' (ss_db st)"
  and rollup_advance [simp]: "rollup (advance_tails c cs st) = rollup (ss_db st)"
proof -
  have "pend c' (fold (\<lambda>(a, x). AdvanceTail c a (f a) (g a)) cs db) = pend c' db
      \<and> rollup (fold (\<lambda>(a, x). AdvanceTail c a (f a) (g a)) cs db) = rollup db" for f g and db :: "'a asset_db_scheme"
    by (induction cs arbitrary: db) auto
  then show "pend c' (advance_tails c cs st) = pend c' (ss_db st)" "rollup (advance_tails c cs st) = rollup (ss_db st)"
    by (simp_all add: advance_tails_def)
qed

lemma tick_inv_advance [simp]: "tick_inv c R E v (advance_tails c' cs st) = tick_inv c R E v (ss_db st)"
  by (simp add: tick_inv_def)

lemma cursor_promote [simp]:
  "cursor_of (fst (PromotePending c' to db)) = cursor_of db" "cursor_of (recordHead node c' h db) = cursor_of db"
  "cursor_of (InsertPending c' evs db) = cursor_of db"
  by (auto simp: cursor_of_def fun_eq_iff PromotePending_def FoldInteractions_def recordHead_def SetChainHead_def
      InsertPending_def Let_def split: sum.splits)

lemma cursor_advance:
  assumes "distinct (map fst cs)" and "(a, cur) \<in> set cs"
  shows "cursor_of (advance_tails c cs st) c a =
    map_option (\<lambda>x. x\<lparr>cu_tail := max (cu_tail x) (ss_last st a), cu_logs := cu_logs x + ss_seen st a\<rparr>) (cursor_of (ss_db st) c a)"
proof -
  have "cursor_of (fold (\<lambda>(b, x). AdvanceTail c b (f b) (g b)) cs db) c a =
    (if a \<in> fst ` set cs then map_option (\<lambda>x. x\<lparr>cu_tail := max (cu_tail x) (f a), cu_logs := cu_logs x + g a\<rparr>) (cursor_of db c a)
     else cursor_of db c a)" for f g and db :: "'a asset_db_scheme"
    using assms(1) by (induction cs arbitrary: db) (auto simp: image_iff)
  then show ?thesis using assms(2) by (force simp: advance_tails_def)
qed

lemma run_chunks_assets:
  "run_chunks (follow_chunk k c cs conf) ws st = (st', r)
     \<Longrightarrow> assets (ss_db st') = assets (ss_db st) \<and> asset_cursors (ss_db st') = asset_cursors (ss_db st)"
proof (induction ws arbitrary: st)
  case (Cons w ws)
  obtain f t logs where w: "w = (f, t, logs)" by (cases w)
  obtain st1 r1 where fn: "follow_chunk k c cs conf f t logs st = (st1, r1)" by fastforce
  then have "assets (ss_db st1) = assets (ss_db st) \<and> asset_cursors (ss_db st1) = asset_cursors (ss_db st)" "r1 = None"
    by (auto simp: follow_chunk_def InsertPending_def PromotePending_def FoldInteractions_def Let_def)
  then show ?case using Cons w fn by auto
qed simp

lemma run_chunks_cursor:
  "run_chunks (follow_chunk k c cs conf) ws st = (st', r) \<Longrightarrow> cursor_of (ss_db st') = cursor_of (ss_db st)"
proof (induction ws arbitrary: st)
  case (Cons w ws)
  obtain f t logs where w: "w = (f, t, logs)" by (cases w)
  obtain st1 r1 where fn: "follow_chunk k c cs conf f t logs st = (st1, r1)" by fastforce
  then have "cursor_of (ss_db st1) = cursor_of (ss_db st)" "r1 = None"
    by (auto simp: follow_chunk_def Let_def)
  then show ?case using Cons w fn by auto
qed simp

lemma run_follow_None: "snd (run_chunks (follow_chunk k c cs conf) ws st) = None"
proof (induction ws arbitrary: st)
  case (Cons w ws)
  then show ?case by (cases w) (simp add: follow_chunk_def Let_def)
qed simp

text \<open>What a successful tick promises: \<open>E\<close> are the buffered events and the new ones.\<close>

definition tick_post ::
  "hashfn \<Rightarrow> evm_log list \<Rightarrow> Service \<Rightarrow> nat \<Rightarrow> 'a asset_db_scheme \<Rightarrow> 'a asset_db_scheme \<Rightarrow> bool" where
  "tick_post k L s head db db' \<longleftrightarrow>
     (let c = sv_chain s; conf = confirmed_to s head; cs = ListCursors c db;
          E = pend c db \<union> new_events k L cs 0 (Suc head)
      in pend c db' = {e \<in> E. conf < pe_block e}
         \<and> (\<forall>key. rollup db' (c, key) = add_summary (rollup db (c, key)) (summ_set (ev_set {e \<in> E. pe_block e \<le> conf} key)))
         \<and> (\<forall>(a, cur) \<in> set cs. map_option cu_tail (cursor_of db' c a) = Some (max (cu_tail cur) head)))"

lemma tick_inv_post:
  assumes "tick_inv c R E v db" and "v \<le> Suc conf"
  shows "pend c (fst (PromotePending c conf db)) = {e \<in> E. conf < pe_block e}
    \<and> (\<forall>key. rollup (fst (PromotePending c conf db)) (c, key)
         = add_summary (R (c, key)) (summ_set (ev_set {e \<in> E. pe_block e \<le> conf} key)))"
proof -
  have m: "max v (Suc conf) = Suc conf" using assms(2) by simp
  show ?thesis
    using tick_inv_promote [OF assms(1), of conf] unfolding m tick_inv_def
    by (simp only: less_Suc_eq_le Suc_le_eq) blast
qed

lemma ListCursors_cursor:
  "keys_unique (asset_cursors db) \<Longrightarrow> (a, cur) \<in> set (ListCursors c db) \<Longrightarrow> cursor_of db c a = Some cur"
  by (auto simp: set_ListCursors cursor_of_def keys_unique_def)

lemma followTick_sweep:
  assumes "n_head node = Inr head" and "ListCursors c db1 = cs" and "handleReorg node c db = db1" and "c = sv_chain s"
    and "cs \<noteq> []" and "follow_from cs \<le> head"
    and "SweepLogs (n_logs node (Some (map fst cs))) (n_done node) (follow_from cs) head
        \<lparr>co_max = op_tail_window (sv_opt s), co_min = 0\<rparr> (follow_chunk k c cs (confirmed_to s head))
        \<lparr>ss_db = db1, ss_seen = (\<lambda>_. 0), ss_last = (\<lambda>_. 0)\<rparr> = Some (st, e)"
  shows "followTick k node s db = Some (if e = SweepDone
    then (recordHead node c head (fst (PromotePending c (confirmed_to s head) (advance_tails c cs st))), None)
    else (ss_db st, Some (SweepErr e)))"
  using assms by (cases e) (simp_all add: followTick_def Let_def)

lemma sweep_done_post:
  assumes "tiles (follow_from cs) ws (Suc head)" and "follow_from cs \<le> head" and "0 < follow_from cs"
    and "run_chunks (follow_chunk k (sv_chain s) cs (confirmed_to s head)) ws
      \<lparr>ss_db = db, ss_seen = (\<lambda>_. 0), ss_last = (\<lambda>_. 0)\<rparr> = (st, None)"
    and "\<forall>w \<in> set ws. answered src w" and "honest_logs k L (map fst cs) src" and "chain_logs L"
    and "pend (sv_chain s) db \<subseteq> set (PendingFrom k L)" and "cs = ListCursors (sv_chain s) db"
    and "keys_unique (asset_cursors db)" and "tails_ok cs"
  shows "tick_post k L s head db (recordHead node (sv_chain s) head
    (fst (PromotePending (sv_chain s) (confirmed_to s head) (advance_tails (sv_chain s) cs st))))"
proof -
  let ?c = "sv_chain s" and ?conf = "confirmed_to s head"
  have ne: "ws \<noteq> []" using assms(1,2) by auto
  let ?v = "if follow_from cs < Suc head \<and> follow_from cs \<le> ?conf then min (Suc head) (Suc ?conf) else 0"
  have "tick_inv ?c (rollup db) (pend ?c db \<union> new_events k L cs (follow_from cs) (Suc head)) ?v (ss_db st)"
    by (rule run_follow_exact [OF assms(6,7,4,1,5), THEN conjunct2]) (use tick_inv_start [of ?c db] assms(8) in simp_all)
  moreover have "?v \<le> Suc ?conf" by simp
  moreover have "\<forall>x \<in> fst ` set cs. ss_last st x = head"
    using run_follow_last [OF assms(4,1) _ _ ne] assms(3) by simp
  ultimately obtain v where v: "tick_inv ?c (rollup db) (pend ?c db \<union> new_events k L cs (follow_from cs) (Suc head)) v (ss_db st)"
    "v \<le> Suc ?conf" "\<forall>x \<in> fst ` set cs. ss_last st x = head" by blast
  note post = tick_inv_post [of ?c "rollup db" _ v "advance_tails ?c cs st", OF _ v(2), unfolded tick_inv_advance, OF v(1)]
  have "map_option cu_tail (cursor_of (advance_tails ?c cs st) ?c a) = Some (max (cu_tail cur) head)"
    if "(a, cur) \<in> set cs" for a cur
  proof -
    have "cursor_of (ss_db st) ?c a = Some cur"
      using run_chunks_cursor [OF assms(4)] ListCursors_cursor [OF assms(10)] that assms(9) by simp
    moreover have "ss_last st a = head" using v(3) that by force
    moreover have "distinct (map fst cs)" using distinct_ListCursors [OF assms(10)] assms(9) by simp
    ultimately show ?thesis using cursor_advance [OF _ that, of ?c st] by simp
  qed
  then show ?thesis
    using post assms(9) new_events_from [OF assms(11)] by (simp add: tick_post_def Let_def case_prod_beta')
qed

lemma followTick_spec:
  assumes "n_head node = Inr head" and "head < 2 ^ 63" and "op_tail_window (sv_opt s) < 2 ^ 62"
    and "db1 = handleReorg node (sv_chain s) db" and "cs = ListCursors (sv_chain s) db1"
    and "cs \<noteq> []" and "keys_unique (asset_cursors db1)" and "tails_ok cs"
    and "chain_logs L" and "honest_logs k L (map fst cs) (n_logs node (Some (map fst cs)))"
    and "pend (sv_chain s) db1 \<subseteq> set (PendingFrom k L)"
  shows "\<exists>db' r. followTick k node s db = Some (db', r) \<and> (r = None \<longrightarrow> tick_post k L s head db1 db')
    \<and> ((\<forall>i f t. \<exists>logs. n_logs node (Some (map fst cs)) i f t = Inr logs) \<longrightarrow> r = None)"
proof (cases "follow_from cs > head")
  case True
  have "head < Suc (cu_tail cur)" if "(a, cur) \<in> set cs" for a cur
    using follow_from_le [OF assms(8) that] True by linarith
  moreover have "new_events k L cs 0 (Suc head) = {}"
    unfolding new_events_from [OF assms(8)] using True by (auto simp: new_events_def)
  ultimately have "tick_post k L s head db1 (recordHead node (sv_chain s) head
      (fst (PromotePending (sv_chain s) (confirmed_to s head) db1)))"
    using ListCursors_cursor [OF assms(7)] assms(5)
    by (fastforce simp: tick_post_def Let_def rollup_Promote_set max_def)
  then show ?thesis using True assms(1,4-6) by (simp add: followTick_def Let_def)
next
  case False
  let ?src = "n_logs node (Some (map fst cs))"
  let ?opts = "\<lparr>co_max = op_tail_window (sv_opt s), co_min = 0\<rparr>"
  let ?fn = "follow_chunk k (sv_chain s) cs (confirmed_to s head)"
  let ?st = "\<lparr>ss_db = db1, ss_seen = (\<lambda>_. 0), ss_last = (\<lambda>_. 0)\<rparr>"
  have co: "co_max (chunk_defaults ?opts) < 2 ^ 62" using assms(3) by (simp add: chunk_defaults_def)
  obtain st e ws where sw: "SweepLogs ?src (n_done node) (follow_from cs) head ?opts ?fn ?st = Some (st, e)"
    and post: "sweep_post ?src (follow_from cs) head (co_max (chunk_defaults ?opts)) ?fn ?st (st, e) ws"
    using SweepLogs_spec [of head ?opts "follow_from cs" ?src "n_done node" ?fn ?st] co assms(2) False by fastforce
  have tick: "followTick k node s db = Some (if e = SweepDone
    then (recordHead node (sv_chain s) head (fst (PromotePending (sv_chain s) (confirmed_to s head) (advance_tails (sv_chain s) cs st))), None)
    else (ss_db st, Some (SweepErr e)))"
    by (rule followTick_sweep) (use assms False sw in auto)
  have "e = SweepDone \<Longrightarrow> tick_post k L s head db1 (recordHead node (sv_chain s) head
      (fst (PromotePending (sv_chain s) (confirmed_to s head) (advance_tails (sv_chain s) cs st))))"
    by (rule sweep_done_post [of cs ws head k s db1 st ?src]) (use post follow_from_pos [OF assms(8)] False assms in \<open>auto simp: sweep_post_def\<close>)
  moreover have "e = SweepDone" if "\<forall>i f t. \<exists>logs. ?src i f t = Inr logs"
  proof -
    have "?src i f t \<noteq> Inl x" for i f t x using that by (metis sum.distinct(1))
    then show ?thesis
    using post run_follow_None [of k "sv_chain s" cs "confirmed_to s head" ws ?st]
    by (cases e) (auto simp: sweep_post_def)
  qed
  ultimately show ?thesis using tick by (cases "e = SweepDone") (simp_all, blast)
qed

section \<open>Properties\<close>

text \<open>C1: A tick of the follower returns. When it reports no error, every event that was
  buffered or is new for its asset (above the asset's tail, up to the head) and lies at or
  below the confirmed height has been added to the rollup exactly once, the others are
  buffered, and the tails are at the head; a node that answers every query causes no error.
  The chain's logs are \<open>L\<close>; the node answers with them or fails.\<close>

theorem followTick_counts_once:
  assumes "n_head node = Inr head" and "head < 2 ^ 63" and "op_tail_window (sv_opt s) < 2 ^ 62"
    and "db1 = handleReorg node (sv_chain s) db" and "cs = ListCursors (sv_chain s) db1"
    and "cs \<noteq> []" and "keys_unique (asset_cursors db1)" and "tails_ok cs"
    and "chain_logs L" and "honest_logs k L (map fst cs) (n_logs node (Some (map fst cs)))"
    and "pend (sv_chain s) db1 \<subseteq> set (PendingFrom k L)"
  shows "\<exists>db' r. followTick k node s db = Some (db', r) \<and> (r = None \<longrightarrow> tick_post k L s head db1 db')
    \<and> ((\<forall>i f t. \<exists>logs. n_logs node (Some (map fst cs)) i f t = Inr logs) \<longrightarrow> r = None)"
  by (rule followTick_spec [OF assms])

text \<open>A node over a list of logs, and a database with one asset anchored at block 10.\<close>

definition no_err :: chain_err where
  "no_err = \<lparr>err_msg = [], err_ctx = False, err_rpc = None, err_http = None, err_io = False, err_net = False\<rparr>"

definition served_logs :: "evm_log list \<Rightarrow> address list option \<Rightarrow> nat \<Rightarrow> nat \<Rightarrow> evm_log list" where
  "served_logs L addrs f t = filter (\<lambda>l. f \<le> log_block l \<and> log_block l \<le> t
     \<and> (case addrs of None \<Rightarrow> True | Some as \<Rightarrow> log_address l \<in> set as)) L"

definition chain_node :: "evm_log list \<Rightarrow> nat \<Rightarrow> node" where
  "chain_node L head = \<lparr>n_head = Inr head, n_header = (\<lambda>b. if b \<le> head then Inr 7 else Inl no_err),
     n_logs = (\<lambda>addrs i f t. Inr (served_logs L addrs f t)), n_done = (\<lambda>_. False), n_code = (\<lambda>_. Inr [1]),
     n_meta = (\<lambda>_. \<lparr>me_symbol = [], me_name = [], me_decimals = None\<rparr>),
     n_hist = \<lparr>h_logs = (\<lambda>_ _. Inr 1), h_ctx_before = (\<lambda>_. False), h_ctx_after = (\<lambda>_. False), h_ctx_sleep = (\<lambda>_ _. False)\<rparr>\<rparr>"

lemma chain_node_honest: "honest_logs k L as (n_logs (chain_node L head) (Some as))"
  by (auto simp: honest_logs_def chain_node_def served_logs_def)

definition demo_opts :: Options where
  "demo_opts = \<lparr>op_chain_name = [], op_confirmations = 1, op_backfill_window = 4, op_tail_window = 2, op_poll = 1,
     op_backfill_interval = 1, op_discovery = \<lparr>di_enabled = False, di_lookback = 0, di_max_blocks = 0, di_interval = 0,
       di_auto = False, di_min_events = 0, di_min_blocks = 0, di_max_promotions = 0, di_min_voters = 0\<rparr>\<rparr>"

definition demo_svc :: Service where
  "demo_svc = New 5 demo_opts"

lemma demo_svc_simps [simp]: "sv_chain demo_svc = 5" "op_tail_window (sv_opt demo_svc) = 2"
  "op_confirmations (sv_opt demo_svc) = 1" "op_backfill_window (sv_opt demo_svc) = 4"
  by (simp_all add: demo_svc_def New_def options_defaults_def demo_opts_def Let_def)

definition demo_asset :: Asset where
  "demo_asset = \<lparr>as_standard = 1, as_symbol = [], as_name = [], as_decimals = None, as_hint_from = 0, as_registrant = None,
     as_registry_key = None, as_source = SourceLocal, as_status = StatusPending, as_promoted = False, as_reports = 0,
     as_reported_at = None, as_report_reason = []\<rparr>"

definition demo_asset_db :: asset_db where
  "demo_asset_db = \<lparr>interactions = [], pending_events = [], chains = [], assets = [((5, 9), demo_asset)],
     asset_cursors = [((5, 9), fresh_cursor 10)]\<rparr>"

lemma demo_reorg: "handleReorg node 5 demo_asset_db = demo_asset_db"
  by (simp add: handleReorg_def pending_blocks_def demo_asset_db_def)

lemma demo_cursors: "ListCursors 5 demo_asset_db = [(9, fresh_cursor 10)]"
  by (simp add: ListCursors_def demo_asset_db_def demo_asset_def)

theorem followTick_counts_once_witness:
  "\<exists>db'. followTick sig_hash (chain_node [demo_log 11 0, demo_log 12 0] 12) demo_svc demo_asset_db = Some (db', None)
     \<and> tick_post sig_hash [demo_log 11 0, demo_log 12 0] demo_svc 12 demo_asset_db db'"
proof -
  let ?L = "[demo_log 11 0, demo_log 12 0]"
  have "\<exists>db' r. followTick sig_hash (chain_node ?L 12) demo_svc demo_asset_db = Some (db', r)
      \<and> (r = None \<longrightarrow> tick_post sig_hash ?L demo_svc 12 demo_asset_db db')
      \<and> ((\<forall>i f t. \<exists>logs. n_logs (chain_node ?L 12) (Some (map fst [(9, fresh_cursor 10)])) i f t = Inr logs) \<longrightarrow> r = None)"
    by (rule followTick_counts_once)
      (simp_all add: demo_reorg demo_cursors chain_node_honest tails_ok_def fresh_cursor_def chain_logs_def pend_def
        keys_unique_def, simp_all add: chain_node_def demo_asset_db_def)
  moreover have "\<forall>i f t. \<exists>logs. n_logs (chain_node ?L 12) (Some (map fst [(9, fresh_cursor 10)])) i f t = Inr logs"
    by (simp add: chain_node_def)
  ultimately show ?thesis by blast
qed

text \<open>C5: The reorg check, for every buffer and every node. An event stays exactly when no
  block up to its own is one that the node has under another hash than the check sees, or does
  not have. So an event that stays is on the canonical chain, or another event of its block
  stays that is, under another hash: of two hashes of a block the check compares one. The
  rollup is untouched and nothing changes when nothing is dropped. What is dropped lies above
  every tail of the chain, so the next sweep reads it again, but for block 0, which no sweep
  reads.\<close>

theorem handleReorg_leaves_canonical:
  "pend c (handleReorg node c db) =
     {e \<in> pend c db. \<forall>e' \<in> pend c db. pe_block e' \<le> pe_block e \<longrightarrow> seen_canonical node c db (pe_block e')}
   \<and> (\<forall>e \<in> pend c (handleReorg node c db). n_header node (pe_block e) = Inr (pe_bhash e)
        \<or> (\<exists>e' \<in> pend c (handleReorg node c db). pe_block e' = pe_block e \<and> pe_bhash e' \<noteq> pe_bhash e
             \<and> n_header node (pe_block e) = Inr (pe_bhash e')))
   \<and> rollup (handleReorg node c db) = rollup db
   \<and> (pend c (handleReorg node c db) = pend c db \<longrightarrow> handleReorg node c db = db)
   \<and> (\<forall>e \<in> pend c db - pend c (handleReorg node c db). \<forall>a cur. cursor_of (handleReorg node c db) c a = Some cur
        \<longrightarrow> pe_block e = 0 \<or> cu_tail cur < pe_block e)"
proof (intro conjI ballI)
  fix e assume e: "e \<in> pend c (handleReorg node c db)"
  then have p: "e \<in> pend c db" and n: "seen_canonical node c db (pe_block e)" by (simp_all add: pend_handleReorg)
  obtain e' where e': "e' \<in> pend c db" "pe_block e' = pe_block e" "PendingBlockHashes c 0 db (pe_block e) = Some (pe_bhash e')"
    using PendingBlockHashes_pend [OF p] by blast
  have h: "n_header node (pe_block e) = Inr (pe_bhash e')"
    using n e'(3) by (auto simp: seen_canonical_def split: sum.splits)
  have "e' \<in> pend c (handleReorg node c db)" using e e'(1,2) by (simp add: pend_handleReorg)
  then show "n_header node (pe_block e) = Inr (pe_bhash e)
      \<or> (\<exists>e' \<in> pend c (handleReorg node c db). pe_block e' = pe_block e \<and> pe_bhash e' \<noteq> pe_bhash e
           \<and> n_header node (pe_block e) = Inr (pe_bhash e'))"
    using h e'(2) by (cases "pe_bhash e' = pe_bhash e") auto
next
  show "rollup (handleReorg node c db) = rollup db"
    by (rule handleReorg_cases [of node c db]) (simp_all add: rewind_def Let_def)
  show "pend c (handleReorg node c db) = pend c db \<longrightarrow> handleReorg node c db = db"
    by (rule handleReorg_cases [of node c db])
      (auto simp: pend_rewind set_pending_blocks dest!: first_divergence_bad)
  fix e assume "e \<in> pend c db - pend c (handleReorg node c db)"
  then show "\<forall>a cur. cursor_of (handleReorg node c db) c a = Some cur \<longrightarrow> pe_block e = 0 \<or> cu_tail cur < pe_block e"
    by (cases rule: handleReorg_cases [of node c db]) (auto simp: pend_rewind rewind_cursor)
qed (rule pend_handleReorg)

text \<open>A stale event beside a canonical one of the same block survives the check, and the tick
  would promote it; an event above the head of the node is dropped.\<close>

definition twice_buffered :: "asset_db" where
  "twice_buffered = demo_asset_db\<lparr>pending_events :=
     [(5, (pending_of (demo_log 11 0) \<lparr>part_address = 1, part_role = RoleSender\<rparr>)\<lparr>pe_bhash := 8\<rparr>),
      (5, pending_of (demo_log 11 0) \<lparr>part_address = 1, part_role = RoleSender\<rparr>),
      (5, pending_of (demo_log 13 0) \<lparr>part_address = 1, part_role = RoleSender\<rparr>)]\<rparr>"

theorem handleReorg_leaves_canonical_witness:
  "map (\<lambda>e. e \<in> pend 5 (handleReorg (chain_node [] 12) 5 twice_buffered)) (map snd (pending_events twice_buffered))
     = [True, True, False]
   \<and> rollup (handleReorg (chain_node [] 12) 5 twice_buffered) = rollup twice_buffered"
proof -
  have seen: "seen_canonical (chain_node [] 12) 5 twice_buffered b \<longleftrightarrow> b = 11" for b
    by (auto simp: seen_canonical_def PendingBlockHashes_def twice_buffered_def chain_node_def pending_of_def demo_log_def)
  show ?thesis
    using handleReorg_leaves_canonical [of 5 "chain_node [] 12" twice_buffered]
    unfolding seen by (auto simp: twice_buffered_def pend_def pending_of_def demo_log_def)
qed

end
