(* ===== verification/Backfill.thy ===== *)
theory Backfill
  imports Follower
begin

text \<open>
  The backfiller of \<open>internal/indexer/service.go\<close> and \<open>history_anchor.go\<close>: the history
  floor a service works with, one window of an asset's history per tick, and what a node that
  lost history changes. A function that updates the service returns it with the database and
  an error, if any. The lemmas show that ticks on a node that answers fold every log between the
  floor and the start of the walk once and then mark the asset live, and which block neither
  worker counts.
\<close>

section \<open>The floor\<close>

definition historyAnchor :: "nat \<Rightarrow> 'a cand_db_scheme \<Rightarrow> Anchor option" where
  "historyAnchor chainID db =
     map_option (\<lambda>b. \<lparr>an_block = b, an_minlogs = 1\<rparr>) (OldestCandidateBlock chainID db)"

definition resolveHistoryFloor ::
  "node \<Rightarrow> nat \<Rightarrow> Service \<Rightarrow> 'a cand_db_scheme \<Rightarrow> Service \<times> 'a cand_db_scheme \<times> tick_err option" where
  "resolveHistoryFloor node now s db =
     (case n_head node of Inl e \<Rightarrow> (s, db, Some (HeadErr e))
      | Inr head \<Rightarrow>
          (case ProbeHistoryFloor (n_hist node) head
              \<lparr>hf_anchor = historyAnchor (sv_chain s) db, hf_retry = \<lparr>rp_attempts = 0, rp_backoff = 0, rp_max = 0\<rparr>\<rparr> of
             Inl e \<Rightarrow> (s, db, Some (HistErr e))
           | Inr p \<Rightarrow> (s\<lparr>sv_floor := hp_floor p, sv_probed := True\<rparr>,
                       SetHistoryFloor (sv_chain s) (hp_floor p) now db, None)))"

definition ensureHistoryFloor :: "node \<Rightarrow> nat \<Rightarrow> Service \<Rightarrow> 'a cand_db_scheme \<Rightarrow> Service \<times> 'a cand_db_scheme" where
  "ensureHistoryFloor node now s db =
     (if sv_probed s then (s, db) else (case resolveHistoryFloor node now s db of (s', db', _) \<Rightarrow> (s', db')))"

definition reprobeHistoryFloor :: "node \<Rightarrow> nat \<Rightarrow> Service \<Rightarrow> 'a cand_db_scheme \<Rightarrow> Service \<times> 'a cand_db_scheme \<times> nat" where
  "reprobeHistoryFloor node now s db =
     (case resolveHistoryFloor node now s db of (s', db', _) \<Rightarrow> (s', db', sv_floor s'))"

definition resolveBackfillFloor :: "nat \<Rightarrow> nat \<Rightarrow> nat" where
  "resolveBackfillFloor requested historyFloor = (if historyFloor > requested then historyFloor else requested)"

definition shouldProbeFloor :: "Service \<Rightarrow> 'a asset_db_scheme \<Rightarrow> bool" where
  "shouldProbeFloor s db =
     (di_enabled (op_discovery (sv_opt s)) \<or> list_ex (\<lambda>(a, c). \<not> cu_done c) (ListCursors (sv_chain s) db))"

section \<open>One window\<close>

definition finishBackfill :: "nat \<Rightarrow> address \<Rightarrow> nat \<Rightarrow> 'a asset_db_scheme \<Rightarrow> 'a asset_db_scheme" where
  "finishBackfill chainID addr floor db =
     SetAssetStatus chainID addr StatusLive (SetBackfillFloor chainID addr floor (AdvanceBackfill chainID addr 0 True 0 db))"

text \<open>The window below \<open>to\<close>, with the wrap-around of \<open>uint64\<close>.\<close>

definition window_from :: "nat \<Rightarrow> nat \<Rightarrow> nat \<Rightarrow> nat" where
  "window_from floor window to =
     (if to \<ge> (floor + window) mod 2 ^ 64 then (to + 2 ^ 64 - window mod 2 ^ 64 + 1) mod 2 ^ 64 else floor)"

definition label_asset ::
  "hashfn \<Rightarrow> node \<Rightarrow> nat \<Rightarrow> address \<Rightarrow> Asset \<Rightarrow> Cursor \<Rightarrow> evm_log list \<Rightarrow> 'a asset_db_scheme \<Rightarrow> 'a asset_db_scheme" where
  "label_asset k node chainID addr asset c logs db =
     (if cu_anchor c > 0 \<and> cu_next c + 1 = cu_anchor c then
        (let observed = InferStandard (ObservedStandards k logs);
             std = (if observed \<noteq> StandardUnknown then standard_code observed else as_standard asset);
             meta = n_meta node addr
         in SetAssetMetadata chainID addr std (me_symbol meta) (me_name meta) (me_decimals meta) db)
      else db)"

definition backfillAsset ::
  "hashfn \<Rightarrow> node \<Rightarrow> nat \<Rightarrow> address \<Rightarrow> Cursor \<Rightarrow> Service \<Rightarrow> 'a cand_db_scheme
   \<Rightarrow> Service \<times> 'a cand_db_scheme \<times> tick_err option" where
  "backfillAsset k node now addr c s db =
     (let ch = sv_chain s in
      case GetAsset ch addr db of Inl e \<Rightarrow> (s, db, Some (StoreErr e))
      | Inr asset \<Rightarrow>
          let floor = resolveBackfillFloor (as_hint_from asset) (sv_floor s) in
          if cu_anchor c = 0 then (s, db, Some (NoAnchor addr))
          else if cu_next c < floor then (s, finishBackfill ch addr floor db, None)
          else let
            db1 = (if cu_floor c \<noteq> floor then SetBackfillFloor ch addr floor db else db);
            to = cu_next c;
            from = window_from floor (op_backfill_window (sv_opt s)) to;
            db2 = (if as_status asset = StatusPending then SetAssetStatus ch addr StatusScanning db1 else db1)
          in case n_logs node (Some [addr]) 0 from to of
               Inl e \<Rightarrow>
                 (case reprobeHistoryFloor node now s db2 of (s', db3, reprobed) \<Rightarrow>
                    if reprobed > floor then (s', db3, None) else (s', db3, Some (LogsErr from to e)))
             | Inr logs \<Rightarrow>
                 let db3 = FoldInteractions ch (Aggregate k logs) db2;
                     db4 = label_asset k node ch addr asset c logs db3;
                     done = (from \<le> floor);
                     next = (if from > 0 then from - 1 else 0);
                     db5 = AdvanceBackfill ch addr next done (length logs) db4
                 in (s, if done then finishBackfill ch addr floor db5 else db5, None))"

text \<open>The loop of a tick over the cursors read at its start; the context is read before every
  asset.\<close>

fun backfill_loop ::
  "hashfn \<Rightarrow> node \<Rightarrow> nat \<Rightarrow> nat \<Rightarrow> (address \<times> Cursor) list \<Rightarrow> Service \<Rightarrow> 'a cand_db_scheme \<Rightarrow> Service \<times> 'a cand_db_scheme" where
  "backfill_loop k node now i [] s db = (s, db)"
| "backfill_loop k node now i ((addr, c) # cs) s db =
     (if cu_done c \<or> n_done node i then backfill_loop k node now (Suc i) cs s db
      else case ensureHistoryFloor node now s db of (s1, db1) \<Rightarrow>
        (case backfillAsset k node now addr c s1 db1 of (s2, db2, _) \<Rightarrow> backfill_loop k node now (Suc i) cs s2 db2))"

definition backfillTick :: "hashfn \<Rightarrow> node \<Rightarrow> nat \<Rightarrow> Service \<Rightarrow> 'a cand_db_scheme \<Rightarrow> Service \<times> 'a cand_db_scheme" where
  "backfillTick k node now s db = backfill_loop k node now 0 (ListCursors (sv_chain s) db) s db"

section \<open>The walk of one asset\<close>

text \<open>The ticks seen by one asset: while its cursor is not done, one window per tick.\<close>

fun walk :: "hashfn \<Rightarrow> node \<Rightarrow> nat \<Rightarrow> address \<Rightarrow> nat \<Rightarrow> Service \<Rightarrow> 'a cand_db_scheme \<Rightarrow> 'a cand_db_scheme" where
  "walk k node now addr 0 s db = db"
| "walk k node now addr (Suc n) s db =
     (case cursor_of db (sv_chain s) addr of
        None \<Rightarrow> db
      | Some c \<Rightarrow> if cu_done c then db
                 else case backfillAsset k node now addr c s db of (s', db', _) \<Rightarrow> walk k node now addr n s' db')"

lemma window_from_eq:
  assumes "0 < w" and "floor + w < 2 ^ 64" and "floor \<le> to" and "to < 2 ^ 64"
  shows "window_from floor w to = max floor (to + 1 - w)"
proof (cases "to \<ge> floor + w")
  case True
  have "(to + 2 ^ 64 - w + 1) mod 2 ^ 64 = to - w + 1"
  proof -
    have "to + 2 ^ 64 - w + 1 = (to - w + 1) + 2 ^ 64" using True by simp
    moreover have "to - w + 1 < 2 ^ 64" using assms by linarith
    ultimately show ?thesis by (simp only: mod_add_self2 mod_less)
  qed
  then show ?thesis using True assms by (simp add: window_from_def max_def Suc_diff_le)
next
  case False
  then have "to + 1 - w \<le> floor" by linarith
  then show ?thesis using False assms by (simp add: window_from_def)
qed

lemma rollup_asset_simps [simp]:
  "rollup (SetAssetStatus c a st db) = rollup db"
  "rollup (SetAssetMetadata c a x1 x2 x3 x4 db) = rollup db"
  "rollup (SetBackfillFloor c a f db) = rollup db"
  "rollup (AdvanceBackfill c a n d ls db) = rollup db"
  "rollup (finishBackfill c a f db) = rollup db"
  "rollup (label_asset k node c a asset cur logs db) = rollup db"
  by (simp_all add: rollup_def fun_eq_iff SetAssetStatus_def SetAssetMetadata_def SetBackfillFloor_def AdvanceBackfill_def
      finishBackfill_def label_asset_def Let_def)

definition asset_of :: "'a asset_db_scheme \<Rightarrow> nat \<Rightarrow> address \<Rightarrow> Asset option" where
  "asset_of db c a = map_of (assets db) (c, a)"

lemma asset_of_simps [simp]:
  "asset_of (SetAssetStatus c a st db) c' a' =
     (if (c', a') = (c, a) then map_option (\<lambda>x. x\<lparr>as_status := st\<rparr>) (asset_of db c' a') else asset_of db c' a')"
  "asset_of (SetBackfillFloor c a f db) = asset_of db"
  "asset_of (AdvanceBackfill c a n d ls db) = asset_of db"
  "asset_of (FoldInteractions c rows db) = asset_of db"
  by (auto simp: asset_of_def fun_eq_iff SetAssetStatus_def SetBackfillFloor_def AdvanceBackfill_def FoldInteractions_def)

lemma asset_of_label:
  "map_option as_hint_from (asset_of (label_asset k node c a asset cur logs db) c' a') = map_option as_hint_from (asset_of db c' a')"
  "map_option as_status (asset_of (label_asset k node c a asset cur logs db) c' a') = map_option as_status (asset_of db c' a')"
  by (auto simp: label_asset_def asset_of_def SetAssetMetadata_def Let_def option.map_comp comp_def)

lemma cursor_label [simp]: "cursor_of (label_asset k node c a asset cur logs db) = cursor_of db"
  by (simp add: label_asset_def Let_def)

lemma cursor_fold [simp]: "cursor_of (FoldInteractions c rows db) = cursor_of db"
  by (simp add: cursor_of_def FoldInteractions_def fun_eq_iff)

section \<open>What a window adds\<close>

definition log_parts :: "hashfn \<Rightarrow> evm_log \<Rightarrow> (evm_log \<times> Participant) set" where
  "log_parts k l = set (participations k [l])"

lemma set_participations: "set (participations k logs) = (\<Union>l \<in> set logs. log_parts k l)"
proof (induction logs)
  case (Cons l logs)
  then show ?case using participations_append [of k "[l]" logs] by (simp add: log_parts_def)
qed (simp add: participations_def)

lemma log_parts_empty: "log_parts k l = {} \<longleftrightarrow> log_events k l = {}"
  by (auto simp: log_parts_def log_events_def PendingFrom_participations)

lemma log_parts_fst: "(l', p) \<in> log_parts k l \<Longrightarrow> l' = l"
  by (auto simp: log_parts_def dest: participations_log)

text \<open>The events of an account in the logs of one asset over \<open>[a, b]\<close>.\<close>

definition range_events :: "hashfn \<Rightarrow> evm_log list \<Rightarrow> address \<Rightarrow> nat \<Rightarrow> nat \<Rightarrow> address \<times> address \<Rightarrow> event set" where
  "range_events k L addr a b key =
     (\<lambda>(l, p). ((log_block l, log_index l), role_code (part_role p))) `
       {x \<in> \<Union> (log_parts k ` {l \<in> set L. log_address l = addr \<and> a \<le> log_block l \<and> log_block l \<le> b}).
          case x of (l, p) \<Rightarrow> (part_address p, log_address l) = key}"

lemma finite_log_parts [simp]: "finite (log_parts k l)"
  by (simp add: log_parts_def)

lemma finite_range_events [simp]: "finite (range_events k L addr a b key)"
  unfolding range_events_def
  by (intro finite_imageI, rule finite_subset [of _ "\<Union> (log_parts k ` {l \<in> set L. log_address l = addr \<and> a \<le> log_block l \<and> log_block l \<le> b})"]) auto

lemma range_events_block: "x \<in> range_events k L addr a b key \<Longrightarrow> a \<le> fst (fst x) \<and> fst (fst x) \<le> b"
  by (auto simp: range_events_def dest!: log_parts_fst)

lemma range_events_split:
  assumes "a \<le> m" "m \<le> b" "0 < m"
  shows "range_events k L addr a b key = range_events k L addr a (m - 1) key \<union> range_events k L addr m b key"
proof -
  have "{l \<in> set L. log_address l = addr \<and> a \<le> log_block l \<and> log_block l \<le> b}
      = {l \<in> set L. log_address l = addr \<and> a \<le> log_block l \<and> log_block l \<le> m - 1}
        \<union> {l \<in> set L. log_address l = addr \<and> m \<le> log_block l \<and> log_block l \<le> b}"
    using assms by auto
  then show ?thesis by (auto simp: range_events_def)
qed

lemma summ_range_split:
  assumes "a \<le> m" "m \<le> b" "0 < m"
  shows "summ_set (range_events k L addr a b key) =
    add_summary (summ_set (range_events k L addr m b key)) (summ_set (range_events k L addr a (m - 1) key))"
proof -
  have "fst ` range_events k L addr m b key \<inter> fst ` range_events k L addr a (m - 1) key = {}"
  proof (intro Int_emptyI)
    fix x assume "x \<in> fst ` range_events k L addr m b key" "x \<in> fst ` range_events k L addr a (m - 1) key"
    then have "m \<le> fst x" "fst x \<le> m - 1" by (auto dest: range_events_block)
    then show False using assms(3) by linarith
  qed
  then show ?thesis
    unfolding range_events_split [OF assms] by (subst Un_commute, intro summ_set_Un) auto
qed

lemma answered_events:
  assumes "honest_logs k L [addr] src" and "src i a b = Inr logs"
  shows "set (part_events (participations k logs) key) = range_events k L addr a b key"
proof -
  have h: "set logs \<subseteq> {l \<in> set L. a \<le> log_block l \<and> log_block l \<le> b \<and> log_address l = addr}"
    "{l \<in> set L. a \<le> log_block l \<and> log_block l \<le> b \<and> log_address l = addr \<and> log_events k l \<noteq> {}} \<subseteq> set logs"
    using assms unfolding honest_logs_def by auto
  have "(\<Union>l \<in> set logs. log_parts k l)
      = \<Union> (log_parts k ` {l \<in> set L. log_address l = addr \<and> a \<le> log_block l \<and> log_block l \<le> b})"
  proof (intro equalityI subsetI)
    fix x assume "x \<in> \<Union> (log_parts k ` {l \<in> set L. log_address l = addr \<and> a \<le> log_block l \<and> log_block l \<le> b})"
    then obtain l where l: "l \<in> set L" "log_address l = addr" "a \<le> log_block l" "log_block l \<le> b" "x \<in> log_parts k l"
      by blast
    then have "l \<in> set logs" using h(2) log_parts_empty [of k l] by blast
    then show "x \<in> (\<Union>l \<in> set logs. log_parts k l)" using l by blast
  qed (use h(1) in blast)
  then show ?thesis
    unfolding range_events_def part_events_def set_map set_filter set_participations by (simp only:)
qed

definition node_answers :: "hashfn \<Rightarrow> evm_log list \<Rightarrow> address \<Rightarrow> node \<Rightarrow> bool" where
  "node_answers k L addr node \<longleftrightarrow>
     honest_logs k L [addr] (n_logs node (Some [addr])) \<and> (\<forall>i f t. \<exists>logs. n_logs node (Some [addr]) i f t = Inr logs)"

text \<open>The state of a walk before a window.\<close>

definition walk_ready :: "Service \<Rightarrow> address \<Rightarrow> nat \<Rightarrow> nat \<Rightarrow> 'a cand_db_scheme \<Rightarrow> bool" where
  "walk_ready s addr floor to db \<longleftrightarrow>
     (\<exists>c asset. cursor_of db (sv_chain s) addr = Some c \<and> \<not> cu_done c \<and> 0 < cu_anchor c \<and> cu_next c = to
        \<and> asset_of db (sv_chain s) addr = Some asset
        \<and> resolveBackfillFloor (as_hint_from asset) (sv_floor s) = floor)"

definition walk_finished :: "nat \<Rightarrow> address \<Rightarrow> nat \<Rightarrow> 'a cand_db_scheme \<Rightarrow> bool" where
  "walk_finished ch addr floor db \<longleftrightarrow>
     (\<exists>c asset. cursor_of db ch addr = Some c \<and> cu_done c \<and> cu_floor c = floor
        \<and> asset_of db ch addr = Some asset \<and> as_status asset = StatusLive)"

lemma backfill_step:
  assumes "walk_ready s addr floor to db" and "cursor_of db (sv_chain s) addr = Some c"
    and "node_answers k L addr node" and "floor \<le> to" and "to < 2 ^ 63"
    and "0 < op_backfill_window (sv_opt s)" and "floor + op_backfill_window (sv_opt s) < 2 ^ 64"
  defines "from \<equiv> max floor (to + 1 - op_backfill_window (sv_opt s))"
  shows "\<exists>db'. backfillAsset k node now addr c s db = (s, db', None)
    \<and> (\<forall>key. rollup db' (sv_chain s, key) = add_summary (rollup db (sv_chain s, key)) (summ_set (range_events k L addr from to key)))
    \<and> (if from \<le> floor then walk_finished (sv_chain s) addr floor db' else walk_ready s addr floor (from - 1) db')"
proof -
  let ?ch = "sv_chain s" and ?w = "op_backfill_window (sv_opt s)"
  from assms(1,2) obtain asset where c: "\<not> cu_done c" "0 < cu_anchor c" "cu_next c = to"
    and a: "asset_of db ?ch addr = Some asset" and fl: "resolveBackfillFloor (as_hint_from asset) (sv_floor s) = floor"
    by (auto simp: walk_ready_def)
  obtain logs where logs: "n_logs node (Some [addr]) 0 from to = Inr logs"
    using assms(3) unfolding node_answers_def by blast
  have wf: "window_from floor ?w to = from" using window_from_eq [of ?w floor to] assms by simp
  define db1 where "db1 = (if cu_floor c \<noteq> floor then SetBackfillFloor ?ch addr floor db else db)"
  define db2 where "db2 = (if as_status asset = StatusPending then SetAssetStatus ?ch addr StatusScanning db1 else db1)"
  define db3 where "db3 = FoldInteractions ?ch (Aggregate k logs) db2"
  define db4 where "db4 = label_asset k node ?ch addr asset c logs db3"
  define db5 where "db5 = AdvanceBackfill ?ch addr (if from > 0 then from - 1 else 0) (from \<le> floor) (length logs) db4"
  define db6 where "db6 = (if from \<le> floor then finishBackfill ?ch addr floor db5 else db5)"
  have run: "backfillAsset k node now addr c s db = (s, db6, None)"
    using a c fl assms(4) logs
    by (simp add: backfillAsset_def GetAsset_def asset_of_def Let_def wf db1_def db2_def db3_def db4_def db5_def db6_def)
  have "set (part_events (participations k logs) key) = range_events k L addr from to key" for key
    using answered_events [of k L addr "n_logs node (Some [addr])" 0 "from" to logs key] assms(3) logs
    by (simp add: node_answers_def)
  then have ev: "summarise (part_events (participations k logs) key) = summ_set (range_events k L addr from to key)" for key
    using summ_set_eq by metis
  have "rollup db6 (?ch, key) = add_summary (rollup db (?ch, key)) (summ_set (range_events k L addr from to key))" for key
    by (simp add: db6_def db5_def db4_def db3_def db2_def db1_def rollup_Fold_Aggregate ev)
  moreover have cur: "\<exists>c'. cursor_of db5 ?ch addr = Some c' \<and> cu_done c' = (from \<le> floor) \<and> cu_anchor c' = cu_anchor c \<and> cu_next c' = from - 1"
    using assms(2) by (simp add: db5_def db4_def db3_def db2_def db1_def)
  moreover have ast: "\<exists>asset'. asset_of db5 ?ch addr = Some asset' \<and> as_hint_from asset' = as_hint_from asset"
  proof -
    have "\<exists>x. asset_of db3 ?ch addr = Some x \<and> as_hint_from x = as_hint_from asset"
      using a by (simp add: db3_def db2_def db1_def)
    then show ?thesis
      using asset_of_label(1) [of k node ?ch addr asset c logs db3 ?ch addr] by (auto simp: db5_def db4_def)
  qed
  ultimately show ?thesis
    using run fl c(2)
    by (auto simp: db6_def walk_finished_def walk_ready_def finishBackfill_def)
qed

lemma walk_complete:
  assumes "node_answers k L addr node" and "0 < op_backfill_window (sv_opt s)" and "floor + op_backfill_window (sv_opt s) < 2 ^ 64"
  shows "walk_ready s addr floor to db \<Longrightarrow> floor \<le> to \<Longrightarrow> to < 2 ^ 63 \<Longrightarrow>
    (to - floor) div op_backfill_window (sv_opt s) < n \<Longrightarrow>
    walk_finished (sv_chain s) addr floor (walk k node now addr n s db)
    \<and> (\<forall>key. rollup (walk k node now addr n s db) (sv_chain s, key) =
         add_summary (rollup db (sv_chain s, key)) (summ_set (range_events k L addr floor to key)))"
proof (induction n arbitrary: to db)
  case (Suc n)
  let ?w = "op_backfill_window (sv_opt s)" and ?ch = "sv_chain s"
  let ?from = "max floor (to + 1 - ?w)"
  obtain c where c: "cursor_of db ?ch addr = Some c" "\<not> cu_done c" using Suc.prems(1) by (auto simp: walk_ready_def)
  obtain db' where db': "backfillAsset k node now addr c s db = (s, db', None)"
    "\<And>key. rollup db' (?ch, key) = add_summary (rollup db (?ch, key)) (summ_set (range_events k L addr ?from to key))"
    "if ?from \<le> floor then walk_finished ?ch addr floor db' else walk_ready s addr floor (?from - 1) db'"
    using backfill_step [OF Suc.prems(1) c(1) assms(1) Suc.prems(2,3) assms(2,3), of now] by blast
  have w: "walk k node now addr (Suc n) s db = walk k node now addr n s db'" using c db'(1) by simp
  show ?case
  proof (cases "?from \<le> floor")
    case True
    then have fin: "walk_finished ?ch addr floor db'" using db'(3) by simp
    then have "walk k node now addr n s db' = db'" by (cases n) (auto simp: walk_finished_def)
    then show ?thesis using w fin db'(2) True by (simp add: max_def split: if_splits)
  next
    case False
    then have fr: "?from = to + 1 - ?w" "?w \<le> to" "floor \<le> to - ?w" by linarith+
    have "(to - floor) div ?w = Suc ((to - ?w - floor) div ?w)"
      using le_div_geq [of ?w "to - floor"] assms(2) fr by (simp add: diff_commute add.commute)
    then have lt: "(?from - 1 - floor) div ?w < n" using Suc.prems(4) fr by simp
    have ready: "walk_ready s addr floor (?from - 1) db'" using db'(3) False by simp
    have bounds: "floor \<le> ?from - 1" "?from - 1 < 2 ^ 63" "0 < ?from" "?from \<le> to" "floor \<le> ?from"
      using fr Suc.prems(3) assms(2) by auto
    show ?thesis
      using Suc.IH [OF ready bounds(1,2) lt] db'(2) w
        summ_range_split [OF bounds(5,4,3), of k L addr] by (simp only: rows.add_assoc) simp
  qed
qed simp

section \<open>Properties\<close>

text \<open>C2: The history walk of an asset finishes. On a node that answers, once the asset has
  seen enough ticks, its cursor is done with the floor recorded, the asset is live, and every
  log of the asset between the floor and the start of the walk has been added to the rollup
  once: the floor is the later of the requested block and the node's horizon, and the walk
  starts at \<open>backfill_next\<close>.\<close>

theorem backfill_walk_completes:
  assumes "cursor_of db (sv_chain s) addr = Some c" and "\<not> cu_done c" and "0 < cu_anchor c"
    and "asset_of db (sv_chain s) addr = Some asset"
    and "floor = resolveBackfillFloor (as_hint_from asset) (sv_floor s)"
    and "floor \<le> cu_next c" and "cu_next c < 2 ^ 63"
    and "0 < op_backfill_window (sv_opt s)" and "floor + op_backfill_window (sv_opt s) < 2 ^ 64"
    and "node_answers k L addr node"
    and "(cu_next c - floor) div op_backfill_window (sv_opt s) < n"
  shows "walk_finished (sv_chain s) addr floor (walk k node now addr n s db)
    \<and> rollup (walk k node now addr n s db) (sv_chain s, key) =
        add_summary (rollup db (sv_chain s, key)) (summ_set (range_events k L addr floor (cu_next c) key))"
proof -
  have "walk_ready s addr floor (cu_next c) db" using assms(1-5) by (auto simp: walk_ready_def)
  from walk_complete [OF assms(10,8,9) this assms(6,7,11)] show ?thesis by blast
qed

definition demo_full_db :: cand_db where
  "demo_full_db = \<lparr>interactions = [], pending_events = [], chains = [], assets = [((5, 9), demo_asset)],
     asset_cursors = [((5, 9), fresh_cursor 10)], asset_demand = [], asset_demand_onchain = [], account_verdicts = [],
     user_state_heads = [], account_asset_commits = [], account_asset_commit_items = [], account_hints = [],
     candidates = [], discovery_cursor = [], promotion_cooldowns = []\<rparr>"

lemma demo_full_simps [simp]:
  "cursor_of demo_full_db 5 9 = Some (fresh_cursor 10)" "asset_of demo_full_db 5 9 = Some demo_asset"
  by (simp_all add: cursor_of_def asset_of_def demo_full_db_def)

lemma chain_node_answers: "node_answers k L addr (chain_node L head)"
  by (simp add: node_answers_def chain_node_honest) (simp add: chain_node_def)

theorem backfill_walk_completes_witness:
  "walk_finished 5 9 0 (walk sig_hash (chain_node [demo_log 3 0] 12) 0 9 3 demo_svc demo_full_db)"
  using backfill_walk_completes [of demo_full_db demo_svc 9 "fresh_cursor 10" demo_asset 0 sig_hash "[demo_log 3 0]"
      "chain_node [demo_log 3 0] 12" 3 0 "(1, 9)"]
  by (simp add: fresh_cursor_def chain_node_answers resolveBackfillFloor_def backfillStart_def demo_asset_def
      demo_svc_def New_def options_defaults_def demo_opts_def Let_def)

section \<open>The block of the anchor\<close>

text \<open>A successful tick of the follower changes the tail and the log count of a cursor, no more.\<close>

definition scan_state :: "'a asset_db_scheme \<Rightarrow> nat \<Rightarrow> address \<Rightarrow> Cursor option" where
  "scan_state db c a = map_option (\<lambda>x. x\<lparr>cu_tail := 0, cu_logs := 0\<rparr>) (cursor_of db c a)"

lemma advance_tails_keeps:
  "assets (advance_tails c cs st) = assets (ss_db st) \<and> scan_state (advance_tails c cs st) c' a = scan_state (ss_db st) c' a"
proof -
  have one: "assets (AdvanceTail c b t n db) = assets db \<and> scan_state (AdvanceTail c b t n db) c' a = scan_state db c' a" for b t n and db :: "'a asset_db_scheme"
    by (cases "cursor_of db c' a") (auto simp: scan_state_def AdvanceTail_def cursor_of_def)
  have "assets (fold (\<lambda>(b, x). AdvanceTail c b (f b) (g b)) cs db) = assets db
      \<and> scan_state (fold (\<lambda>(b, x). AdvanceTail c b (f b) (g b)) cs db) c' a = scan_state db c' a" for f g and db :: "'a asset_db_scheme"
    by (induction cs arbitrary: db) (auto simp: one)
  then show ?thesis by (simp add: advance_tails_def)
qed

lemma recordHead_keeps [simp]:
  "assets (recordHead node c h db) = assets db" "assets (fst (PromotePending c to db)) = assets db"
  "scan_state (recordHead node c h db) = scan_state db" "scan_state (fst (PromotePending c to db)) = scan_state db"
  by (simp_all add: scan_state_def fun_eq_iff)
    (auto simp: recordHead_def SetChainHead_def PromotePending_def FoldInteractions_def Let_def split: sum.splits)

lemma followTick_keeps:
  assumes "n_head node = Inr head" and "head < 2 ^ 63" and "op_tail_window (sv_opt s) < 2 ^ 62"
    and "handleReorg node (sv_chain s) db = db" and "followTick k node s db = Some (db', None)"
  shows "assets db' = assets db \<and> scan_state db' (sv_chain s) a = scan_state db (sv_chain s) a"
proof (cases "ListCursors (sv_chain s) db = [] \<or> follow_from (ListCursors (sv_chain s) db) > head")
  case True
  then show ?thesis using assms(5) by (auto simp: followTick_def Let_def assms(1,4) split: if_splits)
next
  case False
  let ?c = "sv_chain s" and ?conf = "confirmed_to s head" and ?cs = "ListCursors (sv_chain s) db"
  let ?src = "n_logs node (Some (map fst ?cs))" and ?opts = "\<lparr>co_max = op_tail_window (sv_opt s), co_min = 0\<rparr>"
  let ?fn = "follow_chunk k ?c ?cs ?conf" and ?st = "\<lparr>ss_db = db, ss_seen = (\<lambda>_. 0), ss_last = (\<lambda>_. 0)\<rparr>"
  have ne: "?cs \<noteq> []" "follow_from ?cs \<le> head" using False by auto
  have co: "co_max (chunk_defaults ?opts) < 2 ^ 62" using assms(3) by (simp add: chunk_defaults_def)
  obtain st e ws where sw: "SweepLogs ?src (n_done node) (follow_from ?cs) head ?opts ?fn ?st = Some (st, e)"
    and post: "sweep_post ?src (follow_from ?cs) head (co_max (chunk_defaults ?opts)) ?fn ?st (st, e) ws"
    using SweepLogs_spec [of head ?opts "follow_from ?cs" ?src "n_done node" ?fn ?st] co assms(2) ne(2) by fastforce
  from followTick_sweep [OF assms(1) refl assms(4) refl ne sw]
  have e: "e = SweepDone" "db' = recordHead node ?c head (fst (PromotePending ?c ?conf (advance_tails ?c ?cs st)))"
    using assms(5) by (auto split: if_splits)
  have "run_chunks ?fn ws ?st = (st, None)" using post by (simp add: sweep_post_def e(1))
  from run_chunks_assets [OF this] have "assets (ss_db st) = assets db" "scan_state (ss_db st) = scan_state db"
    by (simp_all add: scan_state_def fun_eq_iff cursor_of_def)
  then show ?thesis using advance_tails_keeps [of ?c ?cs st ?c a] by (simp add: e(2))
qed

lemma log_events_parts: "log_events k l = (\<lambda>(l', p). pending_of l p) ` log_parts k l"
proof -
  have "log_events k l = (\<lambda>(l', p). pending_of l' p) ` log_parts k l"
    by (simp add: log_events_def log_parts_def PendingFrom_participations)
  also have "\<dots> = (\<lambda>(l', p). pending_of l p) ` log_parts k l" by (rule image_cong) (auto dest: log_parts_fst)
  finally show ?thesis .
qed

text \<open>What a tick adds to the rows of one asset: the events above its tail.\<close>

lemma new_events_of_asset:
  assumes "chain_logs L" and "addr \<in> fst ` set cs" and "conf \<le> head"
  shows "ev_set {e \<in> new_events k L cs 0 (Suc head). pe_block e \<le> conf} (acct, addr)
    = range_events k L addr (Suc (tail_of cs addr)) conf (acct, addr)"
proof -
  have idx: "log_index l mod 2 ^ 32 = log_index l" if "l \<in> set L" for l by (rule mod_less) (use assms(1) that in \<open>simp add: chain_logs_def\<close>)
  have ref: "pe_ref (pending_of l p) = ((log_block l, log_index l), role_code (part_role p))" if "l \<in> set L" for l p
    using idx [OF that] by (simp add: pe_ref_def pending_of_def)
  show ?thesis
  proof (intro equalityI subsetI)
    fix x assume "x \<in> ev_set {e \<in> new_events k L cs 0 (Suc head). pe_block e \<le> conf} (acct, addr)"
    then obtain e where e: "e \<in> new_events k L cs 0 (Suc head)" "pe_block e \<le> conf" "pe_account e = acct" "pe_asset e = addr"
        "x = pe_ref e" by (auto simp: ev_set_def)
    then obtain l where "l \<in> set L" "keep_log cs l" "e \<in> log_events k l" by (auto simp: new_events_def)
    moreover then obtain l' p where "(l', p) \<in> log_parts k l" "e = pending_of l p" by (auto simp: log_events_parts)
    ultimately have l: "l \<in> set L" "keep_log cs l" "log_block l \<le> conf"
      "(l', p) \<in> log_parts k l" "part_address p = acct" "log_address l = addr" "x = pe_ref (pending_of l p)"
      using e by (simp_all add: pending_of_def)
    moreover have "l' = l" using l(4) by (rule log_parts_fst)
    ultimately show "x \<in> range_events k L addr (Suc (tail_of cs addr)) conf (acct, addr)"
      by (auto simp: range_events_def ref keep_log_def image_iff Suc_le_eq intro!: bexI [of _ l] bexI [of _ "(l, p)"])
  next
    fix x assume "x \<in> range_events k L addr (Suc (tail_of cs addr)) conf (acct, addr)"
    then obtain l p where l: "l \<in> set L" "log_address l = addr" "tail_of cs addr < log_block l" "log_block l \<le> conf"
      "(l, p) \<in> log_parts k l" "part_address p = acct" "x = ((log_block l, log_index l), role_code (part_role p))"
      by (auto simp: range_events_def Suc_le_eq dest: log_parts_fst)
    then have "pending_of l p \<in> log_events k l" by (force simp: log_events_parts)
    then have "pending_of l p \<in> {e \<in> new_events k L cs 0 (Suc head). pe_block e \<le> conf}"
      using l assms(2,3) by (auto simp: new_events_def keep_log_def pending_of_def)
    then show "x \<in> ev_set {e \<in> new_events k L cs 0 (Suc head). pe_block e \<le> conf} (acct, addr)"
      using l ref [OF l(1), of p] by (force simp: ev_set_def pending_of_def)
  qed
qed

lemma registered:
  assumes "cursor_of db c addr = None"
  shows "cursor_of (fst (RegisterAsset c addr a anchor db)) c addr = Some (fresh_cursor anchor)"
    "rollup (fst (RegisterAsset c addr a anchor db)) = rollup db" "pend c (fst (RegisterAsset c addr a anchor db)) = pend c db"
  using assms by (simp_all add: RegisterAsset_def cursor_of_def rollup_def pend_def fun_eq_iff Let_def)

text \<open>C38: The block an asset is anchored at is counted by neither worker. An asset that nothing is
  known of is registered at a block above genesis; no reorg is seen (one would lower the tail, so
  that the follower can read the block). After a successful tick of the follower and the whole
  history walk, the row of every account with the asset is that of its events from the floor to
  the block before the anchor, and from the block after the anchor to the confirmed height: a log
  in the anchor block itself is in no row, although the asset is live and its scan done.\<close>

theorem anchor_block_never_counted:
  fixes db :: "'a cand_db_scheme"
  assumes fresh: "cursor_of db (sv_chain s) addr = None" "0 < anchor"
      "\<forall>acct. rollup db (sv_chain s, acct, addr) = None" "\<forall>e \<in> pend (sv_chain s) db. pe_asset e \<noteq> addr"
    and reg: "db0 = fst (RegisterAsset (sv_chain s) addr a anchor db)"
    and tick: "n_head node = Inr head" "head < 2 ^ 63" "op_tail_window (sv_opt s) < 2 ^ 62"
      "handleReorg node (sv_chain s) db0 = db0" "cs = ListCursors (sv_chain s) db0" "addr \<in> fst ` set cs"
      "keys_unique (asset_cursors db0)" "tails_ok cs" "chain_logs L"
      "honest_logs k L (map fst cs) (n_logs node (Some (map fst cs)))" "pend (sv_chain s) db0 \<subseteq> set (PendingFrom k L)"
      "followTick k node s db0 = Some (db1, None)"
    and walk: "node_answers k L addr node2" "asset_of db0 (sv_chain s) addr = Some asset"
      "floor = resolveBackfillFloor (as_hint_from asset) (sv_floor s)" "floor < anchor"
      "0 < op_backfill_window (sv_opt s)" "floor + op_backfill_window (sv_opt s) < 2 ^ 64"
      "(anchor - 1 - floor) div op_backfill_window (sv_opt s) < n"
  shows "walk_finished (sv_chain s) addr floor (walk k node2 now addr n s db1)
    \<and> rollup (walk k node2 now addr n s db1) (sv_chain s, acct, addr) =
        summ_set (range_events k L addr floor (anchor - 1) (acct, addr)
          \<union> range_events k L addr (anchor + 1) (confirmed_to s head) (acct, addr))"
proof -
  let ?c = "sv_chain s" and ?conf = "confirmed_to s head"
  let ?new = "range_events k L addr (anchor + 1) ?conf (acct, addr)" and ?old = "range_events k L addr floor (anchor - 1) (acct, addr)"
  note r = registered [OF fresh(1), of a anchor, folded reg]
  obtain cur where cur: "(addr, cur) \<in> set cs" using tick(6) by auto
  then have curf: "cur = fresh_cursor anchor" using ListCursors_cursor [OF tick(7)] r(1) tick(5) by simp
  then have "anchor < 2 ^ 63" using cur tick(8) by (fastforce simp: tails_ok_def fresh_cursor_def)
  have "distinct (map fst cs)" using distinct_ListCursors [OF tick(7)] tick(5) by simp
  then have tail: "tail_of cs addr = anchor" using cur curf by (simp add: tail_of_def fresh_cursor_def)
  have ne: "cs \<noteq> []" using cur by auto
  have "tick_post k L s head db0 db1"
    using followTick_spec [OF tick(1-3) tick(4) [symmetric] tick(5) ne tick(7-11)] tick(12) by auto
  then have "rollup db1 (?c, acct, addr) = add_summary (rollup db0 (?c, acct, addr))
      (summ_set (ev_set {e \<in> pend ?c db0 \<union> new_events k L cs 0 (Suc head). pe_block e \<le> ?conf} (acct, addr)))"
    by (simp add: tick_post_def Let_def tick(5))
  moreover have "ev_set {e \<in> pend ?c db0 \<union> new_events k L cs 0 (Suc head). pe_block e \<le> ?conf} (acct, addr)
      = ev_set {e \<in> new_events k L cs 0 (Suc head). pe_block e \<le> ?conf} (acct, addr)"
    using fresh(4) r(3) by (auto simp: ev_set_def)
  moreover have "?conf \<le> head" by (simp add: confirmed_to_def)
  ultimately have row1: "rollup db1 (?c, acct, addr) = summ_set ?new"
    using new_events_of_asset [OF tick(9,6), of ?conf head k acct] r(2) fresh(3) tail by simp
  have keep: "assets db1 = assets db0" "scan_state db1 ?c addr = scan_state db0 ?c addr"
    using followTick_keeps [OF tick(1-4,12)] by auto
  then obtain x where x: "cursor_of db1 ?c addr = Some x"
      "x\<lparr>cu_tail := 0, cu_logs := 0\<rparr> = (fresh_cursor anchor)\<lparr>cu_tail := 0, cu_logs := 0\<rparr>"
    using r(1) by (auto simp: scan_state_def)
  have "\<not> cu_done x" "cu_anchor x = anchor" "cu_next x = anchor - 1"
    using arg_cong [OF x(2), of cu_done] arg_cong [OF x(2), of cu_anchor] arg_cong [OF x(2), of cu_next] fresh(2)
    by (simp_all add: fresh_cursor_def backfillStart_def)
  then have "walk_ready s addr floor (anchor - 1) db1"
    using x(1) fresh(2) walk(2,3) keep(1) by (simp add: walk_ready_def asset_of_def)
  from walk_complete [OF walk(1,5,6) this _ _ walk(7)]
  have w: "walk_finished ?c addr floor (walk k node2 now addr n s db1)"
    "rollup (walk k node2 now addr n s db1) (?c, acct, addr) = add_summary (summ_set ?new) (summ_set ?old)"
    using walk(4) \<open>anchor < 2 ^ 63\<close> row1 by auto
  have "fst ` ?new \<inter> fst ` ?old = {}" using fresh(2) by (fastforce dest: range_events_block)
  then have "summ_set (?new \<union> ?old) = add_summary (summ_set ?new) (summ_set ?old)" by (intro summ_set_Un) auto
  then show ?thesis using w by (simp add: Un_commute)
qed

text \<open>An asset registered at block 10, with a transfer in each of the blocks 10 and 11 and none in the
  history: one tick at head 12 and the walk leave one event in the row of the sender.\<close>

theorem anchor_block_never_counted_witness:
  "\<exists>db1. followTick sig_hash (chain_node [demo_log 10 0, demo_log 11 0] 12) demo_svc demo_full_db = Some (db1, None)
    \<and> rollup (walk sig_hash (chain_node [demo_log 10 0, demo_log 11 0] 12) 0 9 3 demo_svc db1) (5, 1, 9) =
        summ_set (range_events sig_hash [demo_log 10 0, demo_log 11 0] 9 0 9 (1, 9)
          \<union> range_events sig_hash [demo_log 10 0, demo_log 11 0] 9 11 11 (1, 9))"
proof -
  let ?L = "[demo_log 10 0, demo_log 11 0]"
  let ?db = "demo_full_db\<lparr>assets := [], asset_cursors := []\<rparr>" and ?node = "chain_node ?L 12"
  have reg: "demo_full_db = fst (RegisterAsset (sv_chain demo_svc) 9 demo_asset 10 ?db)"
    by (simp add: RegisterAsset_def Let_def demo_full_db_def upsert_def demo_asset_def)
  have cs: "ListCursors 5 demo_full_db = [(9, fresh_cursor 10)]"
    by (simp add: ListCursors_def demo_full_db_def demo_asset_def)
  have d: "handleReorg ?node 5 demo_full_db = demo_full_db" "pend 5 demo_full_db = {}" "keys_unique (asset_cursors demo_full_db)"
    "n_head ?node = Inr 12" "tails_ok [(9, fresh_cursor 10)]" "chain_logs ?L" "confirmed_to demo_svc 12 = 11"
    by (simp_all add: handleReorg_def pending_blocks_def demo_full_db_def pend_def keys_unique_def chain_node_def tails_ok_def
        fresh_cursor_def chain_logs_def demo_log_def log_ref_def confirmed_to_def)
  have "\<exists>db1 r. followTick sig_hash ?node demo_svc demo_full_db = Some (db1, r)
      \<and> (r = None \<longrightarrow> tick_post sig_hash ?L demo_svc 12 demo_full_db db1)
      \<and> ((\<forall>i f t. \<exists>logs. n_logs ?node (Some (map fst [(9, fresh_cursor 10)])) i f t = Inr logs) \<longrightarrow> r = None)"
    by (rule followTick_spec) (simp_all add: d cs chain_node_honest)
  then obtain db1 where tick: "followTick sig_hash ?node demo_svc demo_full_db = Some (db1, None)"
    by (auto simp: chain_node_def)
  have "walk_finished (sv_chain demo_svc) 9 0 (walk sig_hash ?node 0 9 3 demo_svc db1)
    \<and> rollup (walk sig_hash ?node 0 9 3 demo_svc db1) (sv_chain demo_svc, 1, 9) =
        summ_set (range_events sig_hash ?L 9 0 (10 - 1) (1, 9) \<union> range_events sig_hash ?L 9 (10 + 1) (confirmed_to demo_svc 12) (1, 9))"
    by (rule anchor_block_never_counted [OF _ _ _ _ reg d(4) _ _ _ _ _ _ _ d(6) _ _ tick chain_node_answers])
      (simp_all add: d cs chain_node_honest, simp_all add: cursor_of_def rollup_def pend_def demo_full_db_def demo_asset_def
        resolveBackfillFloor_def demo_svc_def New_def tails_ok_def fresh_cursor_def)
  then show ?thesis using tick by (simp add: d)
qed

end
