(* ===== verification/Recount.thy ===== *)
theory Recount
  imports Backfill
begin

text \<open>
  What the follower of \<open>internal/indexer/service.go\<close> does after a sweep that failed half
  way. The windows before the failure were already promoted, and a failed tick does not advance
  the tails, so the next tick reads and counts them again. The lemmas give the state a failed tick
  leaves and the number of events that two ticks count twice.
\<close>

section \<open>A node that fails on its second call\<close>

definition failing_node :: "evm_log list \<Rightarrow> nat \<Rightarrow> node" where
  "failing_node L head = (chain_node L head)\<lparr>n_logs :=
     (\<lambda>addrs i f t. if i = 0 then Inr (served_logs L addrs f t) else Inl no_err)\<rparr>"

lemma no_err_range: "\<not> isRangeLimit no_err"
  by (simp add: isRangeLimit_def no_err_def to_lower_def contains_any_def rangeLimitNeedles_def)

lemma demo_log_address [simp]: "log_address (demo_log b i) = 9"
  by (simp add: demo_log_def)

lemma demo_from: "follow_from [(9, fresh_cursor 10)] = 11"
  by (simp add: follow_from_def fresh_cursor_def)

lemma served_one: "served_logs [demo_log 11 0] (Some [9]) f t = (if f \<le> 11 \<and> 11 \<le> t then [demo_log 11 0] else [])"
  by (simp add: served_logs_def)

lemma keep_demo [simp]: "keep_log [(9, fresh_cursor 10)] (demo_log 11 0)"
  by (simp add: keep_log_def tail_of_def fresh_cursor_def)

definition counted :: "asset_db \<Rightarrow> asset_db" where
  "counted db = fst (PromotePending 5 12 (InsertPending 5 (PendingFrom sig_hash [demo_log 11 0]) db))"

lemma failing_sweep:
  "SweepLogs (n_logs (failing_node [demo_log 11 0] 14) (Some [9])) (\<lambda>_. False) 11 14
     \<lparr>co_max = 2, co_min = 0\<rparr> (follow_chunk sig_hash 5 [(9, fresh_cursor 10)] 13)
     \<lparr>ss_db = demo_asset_db, ss_seen = (\<lambda>_. 0), ss_last = (\<lambda>_. 0)\<rparr>
   = Some (\<lparr>ss_db = counted demo_asset_db, ss_seen = (\<lambda>_. 0)(9 := 1), ss_last = (\<lambda>_. 0)(9 := 12)\<rparr>, SweepNode 13 14 no_err)"
proof -
  let ?src = "\<lambda>i f t. if i = 0 then Inr (served_logs [demo_log 11 0] (Some [9]) f t) else Inl no_err"
  let ?loop = "sweep_loop ?src (\<lambda>_. False) \<lparr>co_max = 2, co_min = Suc 0\<rparr> 14 (follow_chunk sig_hash 5 [(9, fresh_cursor 10)] 13)"
  have "?loop 1 13 2 st = Some (st, SweepNode 13 14 no_err)" for st
    by (subst sweep_loop.simps) (simp add: no_err_range)
  then show ?thesis
    by (simp add: SweepLogs_def chunk_defaults_def, subst sweep_loop.simps)
      (simp add: failing_node_def served_one follow_chunk_def counted_def Let_def)
qed

lemma failing_tick:
  "followTick sig_hash (failing_node [demo_log 11 0] 14) demo_svc demo_asset_db =
     Some (counted demo_asset_db, Some (SweepErr (SweepNode 13 14 no_err)))"
proof -
  let ?node = "failing_node [demo_log 11 0] 14"
  have n: "n_head ?node = Inr 14" "n_done ?node = (\<lambda>_. False)" by (simp_all add: failing_node_def chain_node_def)
  have c: "confirmed_to demo_svc 14 = 13" by (simp add: confirmed_to_def)
  have sw: "SweepLogs (n_logs ?node (Some (map fst [(9, fresh_cursor 10)]))) (n_done ?node) (follow_from [(9, fresh_cursor 10)]) 14
      \<lparr>co_max = op_tail_window (sv_opt demo_svc), co_min = 0\<rparr>
      (follow_chunk sig_hash 5 [(9, fresh_cursor 10)] (confirmed_to demo_svc 14))
      \<lparr>ss_db = demo_asset_db, ss_seen = (\<lambda>_. 0), ss_last = (\<lambda>_. 0)\<rparr>
    = Some (\<lparr>ss_db = counted demo_asset_db, ss_seen = (\<lambda>_. 0)(9 := 1), ss_last = (\<lambda>_. 0)(9 := 12)\<rparr>, SweepNode 13 14 no_err)"
    by (simp only: list.map fst_conv n demo_from c demo_svc_simps failing_sweep)
  have "5 = sv_chain demo_svc" "[(9, fresh_cursor 10)] \<noteq> []" "follow_from [(9, fresh_cursor 10)] \<le> 14"
    by (simp_all add: demo_from)
  from followTick_sweep [OF n(1) demo_cursors demo_reorg this sw] show ?thesis
    by (simp only: sweep_end.distinct if_False sweep_state.select_convs)
qed

section \<open>The next tick\<close>

lemma demo_log_events: "ev_set (log_events sig_hash (demo_log 11 0)) (1, 9) = {((11, 0), 1)}"
proof -
  have e: "events_of (PendingFrom sig_hash [demo_log 11 0]) (1, 9) = [((11, 0), 1)]"
    by (simp add: PendingFrom_participations participations_def demo_decode events_of_def pending_of_def)
      (simp add: demo_log_def)
  show ?thesis using set_events_of [of "PendingFrom sig_hash [demo_log 11 0]" "(1, 9)"]
    by (simp only: log_events_def e) simp
qed

lemma counted_tables: "assets (counted db) = assets db" "asset_cursors (counted db) = asset_cursors db"
  by (simp_all add: counted_def PromotePending_def FoldInteractions_def InsertPending_def Let_def)

lemma counted_index:
  "pend 5 (counted demo_asset_db) = {}"
  "rollup (counted demo_asset_db) (5, 1, 9) = summ_set {((11, 0), 1)}"
proof -
  have p0: "pend 5 demo_asset_db = {}" by (simp add: pend_def demo_asset_db_def)
  have r0: "rollup demo_asset_db key = None" for key by (simp add: rollup_def demo_asset_db_def)
  have "inj_on pending_key ((\<lambda>e. (5, e)) ` set (PendingFrom sig_hash [demo_log 11 0]))"
    by (rule pending_key_inj) (simp add: chain_logs_def)
  then have p: "pend 5 (InsertPending 5 (PendingFrom sig_hash [demo_log 11 0]) demo_asset_db) = log_events sig_hash (demo_log 11 0)"
    using pend_Insert [of 5 demo_asset_db "PendingFrom sig_hash [demo_log 11 0]"] by (simp add: p0 log_events_def)
  have b: "{e \<in> log_events sig_hash (demo_log 11 0). pe_block e \<le> 12} = log_events sig_hash (demo_log 11 0)"
    by (auto dest: log_events_block)
  show "pend 5 (counted demo_asset_db) = {}" by (auto simp: counted_def p dest: log_events_block)
  show "rollup (counted demo_asset_db) (5, 1, 9) = summ_set {((11, 0), 1)}"
    by (simp add: counted_def rollup_Promote_set p b demo_log_events r0)
qed

section \<open>What a failed tick counts\<close>

definition count_of :: "summary option \<Rightarrow> nat" where
  "count_of x = (case x of None \<Rightarrow> 0 | Some s \<Rightarrow> s_count s)"

lemma count_add: "count_of (add_summary x y) = count_of x + count_of y"
  by (cases x; cases y) (simp_all add: count_of_def merge_summary_def)

lemma count_summ: "finite S \<Longrightarrow> count_of (summ_set S) = card (fst ` S)"
proof -
  assume "finite S"
  then obtain xs where "set xs = S" using finite_list by blast
  then show ?thesis using summ_set_eq [of xs S] by (auto simp: count_of_def summarise_def)
qed

lemma failed_sweep:
  assumes "n_head node = Inr head" and "head < 2 ^ 63" and "op_tail_window (sv_opt s) < 2 ^ 62"
    and "db0 = handleReorg node (sv_chain s) db" and "cs = ListCursors (sv_chain s) db0"
    and "tails_ok cs" and "chain_logs L" and "honest_logs k L (map fst cs) (n_logs node (Some (map fst cs)))"
    and "pend (sv_chain s) db0 \<subseteq> set (PendingFrom k L)"
    and "followTick k node s db = Some (db1, Some (SweepErr (SweepNode f t err)))"
  shows "follow_from cs \<le> f \<and> f \<le> head \<and> assets db1 = assets db0 \<and> asset_cursors db1 = asset_cursors db0
    \<and> tick_inv (sv_chain s) (rollup db0) (pend (sv_chain s) db0 \<union> new_events k L cs 0 f)
        (if follow_from cs < f \<and> follow_from cs \<le> confirmed_to s head then min f (Suc (confirmed_to s head)) else 0) db1"
proof -
  let ?c = "sv_chain s" and ?conf = "confirmed_to s head"
  let ?src = "n_logs node (Some (map fst cs))" and ?opts = "\<lparr>co_max = op_tail_window (sv_opt s), co_min = 0\<rparr>"
  let ?fn = "follow_chunk k ?c cs ?conf" and ?st = "\<lparr>ss_db = db0, ss_seen = (\<lambda>_. 0), ss_last = (\<lambda>_. 0)\<rparr>"
  have ne: "cs \<noteq> []" "follow_from cs \<le> head"
    using assms(1,4,5,10) by (auto simp: followTick_def Let_def split: if_splits)
  have co: "co_max (chunk_defaults ?opts) < 2 ^ 62" using assms(3) by (simp add: chunk_defaults_def)
  obtain st e ws where sw: "SweepLogs ?src (n_done node) (follow_from cs) head ?opts ?fn ?st = Some (st, e)"
    and post: "sweep_post ?src (follow_from cs) head (co_max (chunk_defaults ?opts)) ?fn ?st (st, e) ws"
    using SweepLogs_spec [of head ?opts "follow_from cs" ?src "n_done node" ?fn ?st] co assms(2) ne(2) by fastforce
  from followTick_sweep [OF assms(1) assms(5) [symmetric] assms(4) [symmetric] refl ne sw]
  have e: "e = SweepNode f t err" "ss_db st = db1" using assms(10) by (auto split: if_splits)
  have run: "run_chunks ?fn ws ?st = (st, None)" "tiles (follow_from cs) ws f" "f \<le> t" "t \<le> head"
    "\<forall>w \<in> set ws. answered ?src w"
    using post by (auto simp: sweep_post_def e(1))
  note keep = run_chunks_assets [OF run(1), unfolded e(2)]
  from run_follow_exact [OF assms(8,7) run(1,2,5), of "rollup db0" "pend ?c db0" 0] tick_inv_start [of ?c db0] assms(9)
  have "follow_from cs \<le> f \<and> tick_inv ?c (rollup db0) (pend ?c db0 \<union> new_events k L cs (follow_from cs) f)
      (if follow_from cs < f \<and> follow_from cs \<le> ?conf then min f (Suc ?conf) else 0) db1"
    by (simp add: e(2))
  then show ?thesis using run(3,4) keep new_events_from [OF assms(6), of k L f] by auto
qed

text \<open>The boundary of the failed tick, as a set of events: the new events it folded.\<close>

lemma folded_twice:
  assumes "tails_ok cs" and "u = (if follow_from cs < f \<and> follow_from cs \<le> conf then min f (Suc conf) else 0)"
  shows "new_events k L cs 0 (min f (Suc conf)) = new_events k L cs 0 u"
proof (cases "follow_from cs < f \<and> follow_from cs \<le> conf")
  case False
  then have "min f (Suc conf) \<le> follow_from cs" by auto
  then have "new_events k L cs (follow_from cs) (min f (Suc conf)) = {}" by (auto simp: new_events_def)
  then have "new_events k L cs 0 (min f (Suc conf)) = {}" by (simp only: new_events_from [OF assms(1)])
  moreover have "u = 0" using False assms(2) by (simp only: if_False)
  ultimately show ?thesis by simp
qed (use assms(2) in simp)

lemma recount:
  fixes P :: "PendingEvent set" and k :: hashfn and L :: "evm_log list" and cs :: "(address \<times> Cursor) list"
  assumes "finite P" "u \<le> f" "u \<le> Suc conf" "f \<le> Suc head" "conf \<le> later"
  defines "N \<equiv> new_events k L cs"
  shows "card (fst ` ev_set {e \<in> P \<union> N 0 f. pe_block e < u} key)
      + card (fst ` ev_set {e \<in> {e \<in> P \<union> N 0 f. u \<le> pe_block e} \<union> N 0 (Suc head). pe_block e \<le> later} key)
    = card (fst ` ev_set {e \<in> P \<union> N 0 (Suc head). pe_block e \<le> later} key) + card (fst ` ev_set (N 0 u) key)"
    (is "card (fst ` ev_set ?A key) + card (fst ` ev_set ?B key) = card (fst ` ev_set ?C key) + card (fst ` ev_set ?D key)")
proof -
  have fin: "finite (N a b)" for a b
    unfolding N_def by (rule finite_subset [OF new_events_sub]) simp
  have sub: "N 0 a \<subseteq> N 0 b" if "a \<le> b" for a b using new_events_split [of 0 a b k L cs] that by (auto simp: N_def)
  have below: "e \<in> N 0 u" if "e \<in> N 0 (Suc head)" "pe_block e < u" for e
    using new_events_split [of 0 u "Suc head" k L cs] that assms(2,4) by (auto simp: N_def dest: new_events_block)
  have "?A \<union> ?B = ?C"
    using sub [of f "Suc head"] assms(2-5) by auto
  then have un: "fst ` ev_set ?A key \<union> fst ` ev_set ?B key = fst ` ev_set ?C key"
    unfolding image_Un [symmetric] ev_set_Un [symmetric] by simp
  have "?D \<subseteq> ?A \<inter> ?B"
    using sub [of u f] sub [of u "Suc head"] assms(2-5) by (auto simp: N_def dest: new_events_block)
  then have "fst ` ev_set ?D key \<subseteq> fst ` ev_set ?A key \<inter> fst ` ev_set ?B key" by (auto simp: ev_set_def)
  moreover have "fst ` ev_set ?A key \<inter> fst ` ev_set ?B key \<subseteq> fst ` ev_set ?D key"
  proof
    fix x assume x: "x \<in> fst ` ev_set ?A key \<inter> fst ` ev_set ?B key"
    then have "fst x < u" by (auto simp: ev_set_def pe_ref_def)
    moreover from x have "x \<in> fst ` ev_set ?B key" by (rule IntD2)
    then obtain e where e: "e \<in> ?B" "(pe_account e, pe_asset e) = key" "x = fst (pe_ref e)"
      unfolding ev_set_def by (elim imageE) (simp, blast)
    ultimately have "e \<in> ?D" using below by (auto simp: pe_ref_def)
    then show "x \<in> fst ` ev_set ?D key" using e by (auto simp: ev_set_def)
  qed
  ultimately have int: "fst ` ev_set ?A key \<inter> fst ` ev_set ?B key = fst ` ev_set ?D key" by blast
  show ?thesis unfolding un [symmetric] int [symmetric]
    by (rule card_Un_Int) (simp_all add: assms(1) fin)
qed

section \<open>Properties\<close>

text \<open>C39: A sweep that fails half way makes the follower count twice, by exactly what it had
  promoted. A tick fails because the node refuses the window that starts at \<open>f\<close>, on any chain of
  logs \<open>L\<close> and with any options; it leaves every cursor where it was. If the next tick succeeds, at
  the same or a later head and without a reorg in between, the count of every pair of account and
  asset is the one a single successful tick would have given, and once more the new events below
  \<open>f\<close> and at or below the height the failed tick took for confirmed; the buffer is the one of a
  single tick.\<close>

theorem failed_tick_counts_again:
  assumes "n_head node = Inr head" and "head < 2 ^ 63" and "op_tail_window (sv_opt s) < 2 ^ 62"
    and "db0 = handleReorg node (sv_chain s) db" and "cs = ListCursors (sv_chain s) db0"
    and "keys_unique (asset_cursors db0)" and "tails_ok cs"
    and "chain_logs L" and "honest_logs k L (map fst cs) (n_logs node (Some (map fst cs)))"
    and "pend (sv_chain s) db0 \<subseteq> set (PendingFrom k L)"
    and "followTick k node s db = Some (db1, Some (SweepErr (SweepNode f t err)))"
    and "n_head node2 = Inr head2" and "head \<le> head2" and "head2 < 2 ^ 63"
    and "handleReorg node2 (sv_chain s) db1 = db1"
    and "honest_logs k L (map fst cs) (n_logs node2 (Some (map fst cs)))"
    and "followTick k node2 s db1 = Some (db2, None)"
  defines "E \<equiv> pend (sv_chain s) db0 \<union> new_events k L cs 0 (Suc head2)"
  shows "asset_cursors db1 = asset_cursors db0
    \<and> pend (sv_chain s) db2 = {e \<in> E. confirmed_to s head2 < pe_block e}
    \<and> count_of (rollup db2 (sv_chain s, key)) = count_of (rollup db0 (sv_chain s, key))
        + card (fst ` ev_set {e \<in> E. pe_block e \<le> confirmed_to s head2} key)
        + card (fst ` ev_set (new_events k L cs 0 (min f (Suc (confirmed_to s head)))) key)"
proof -
  let ?c = "sv_chain s" and ?conf = "confirmed_to s head" and ?conf2 = "confirmed_to s head2"
  define u where "u = (if follow_from cs < f \<and> follow_from cs \<le> ?conf then min f (Suc ?conf) else 0)"
  have f: "f \<le> head" and keep: "assets db1 = assets db0" "asset_cursors db1 = asset_cursors db0"
    and inv: "tick_inv ?c (rollup db0) (pend ?c db0 \<union> new_events k L cs 0 f) u db1"
    using failed_sweep [OF assms(1-5,7-11)] by (simp_all add: u_def)
  have cs1: "ListCursors ?c db1 = cs" using assms(5) keep by (simp add: ListCursors_def)
  have ne: "cs \<noteq> []" using assms(1,4,5,11) by (auto simp: followTick_def Let_def split: if_splits)
  have u: "u \<le> f" "u \<le> Suc ?conf" by (simp_all add: u_def)
  have conf: "?conf \<le> ?conf2" using assms(13) by (auto simp: confirmed_to_def)
  have p1: "pend ?c db1 = {e \<in> pend ?c db0 \<union> new_events k L cs 0 f. u \<le> pe_block e}"
    and r1: "rollup db1 (?c, key) = add_summary (rollup db0 (?c, key))
        (summ_set (ev_set {e \<in> pend ?c db0 \<union> new_events k L cs 0 f. pe_block e < u} key))"
    using inv by (cases key; auto simp: tick_inv_def)+
  have sub: "pend ?c db1 \<subseteq> set (PendingFrom k L)" using p1 assms(10) new_events_sub by blast
  have "tick_post k L s head2 db1 db2"
    using followTick_spec [OF assms(12,14,3) assms(15) [symmetric] cs1 [symmetric] ne _ assms(7,8,16) sub] assms(6,17) keep(2) by auto
  then have p2: "pend ?c db2 = {e \<in> pend ?c db1 \<union> new_events k L cs 0 (Suc head2). ?conf2 < pe_block e}"
    and r2: "rollup db2 (?c, key) = add_summary (rollup db1 (?c, key))
        (summ_set (ev_set {e \<in> pend ?c db1 \<union> new_events k L cs 0 (Suc head2). pe_block e \<le> ?conf2} key))"
    by (cases key; simp add: tick_post_def Let_def cs1)+
  have fin: "finite (new_events k L cs a b)" for a b by (rule finite_subset [OF new_events_sub]) simp
  have "new_events k L cs 0 f \<subseteq> new_events k L cs 0 (Suc head2)"
    using new_events_split [of 0 f "Suc head2" k L cs] f assms(13) by auto
  then have pend2: "pend ?c db2 = {e \<in> E. ?conf2 < pe_block e}"
    using p2 u(2) conf unfolding p1 E_def by auto
  have "count_of (rollup db2 (?c, key)) = count_of (rollup db0 (?c, key))
      + card (fst ` ev_set {e \<in> E. pe_block e \<le> ?conf2} key) + card (fst ` ev_set (new_events k L cs 0 u) key)"
    using recount [where P = "pend ?c db0" and u = u and f = f and conf = ?conf and head = head2 and later = ?conf2
        and k = k and L = L and cs = cs and key = key] u conf f assms(13)
    by (simp add: r2 r1 count_add count_summ fin p1 E_def)
  then show ?thesis using keep(2) pend2 folded_twice [OF assms(7) u_def, of k L] by simp
qed

text \<open>One transfer in block 11, a node that fails on its second window, then answers: the row of the
  sender says two events.\<close>

theorem failed_tick_counts_again_witness:
  "\<exists>db1 db2. followTick sig_hash (failing_node [demo_log 11 0] 14) demo_svc demo_asset_db
        = Some (db1, Some (SweepErr (SweepNode 13 14 no_err)))
     \<and> followTick sig_hash (chain_node [demo_log 11 0] 14) demo_svc db1 = Some (db2, None)
     \<and> count_of (rollup db2 (5, 1, 9)) = 2"
proof -
  let ?db = "counted demo_asset_db" and ?node = "chain_node [demo_log 11 0] 14" and ?bad = "failing_node [demo_log 11 0] 14"
  have "pending_blocks 5 ?db = []"
    using counted_index(1) set_pending_blocks [of 5 ?db] by simp
  then have r: "handleReorg ?node 5 ?db = ?db" by (simp add: handleReorg_def)
  have cs: "ListCursors 5 ?db = [(9, fresh_cursor 10)]"
    using demo_cursors by (simp add: ListCursors_def counted_tables)
  have "\<exists>db' x. followTick sig_hash ?node demo_svc ?db = Some (db', x) \<and> (x = None \<longrightarrow> tick_post sig_hash [demo_log 11 0] demo_svc 14 ?db db')
      \<and> ((\<forall>i f t. \<exists>logs. n_logs ?node (Some (map fst [(9, fresh_cursor 10)])) i f t = Inr logs) \<longrightarrow> x = None)"
    by (rule followTick_spec)
      (simp_all add: r cs chain_node_honest counted_index counted_tables chain_logs_def tails_ok_def keys_unique_def,
        simp_all add: chain_node_def fresh_cursor_def demo_asset_db_def)
  then obtain db2 where tick: "followTick sig_hash ?node demo_svc ?db = Some (db2, None)" by (auto simp: chain_node_def)
  have new: "new_events sig_hash [demo_log 11 0] [(9, fresh_cursor 10)] 0 b = log_events sig_hash (demo_log 11 0)" if "11 < b" for b
    using that by (auto simp: new_events_def)
  have b: "{e \<in> log_events sig_hash (demo_log 11 0). pe_block e \<le> 13} = log_events sig_hash (demo_log 11 0)"
    by (auto dest: log_events_block)
  have d: "n_head ?bad = Inr 14" "n_head ?node = Inr 14" "tails_ok [(9, fresh_cursor 10)]" "chain_logs [demo_log 11 0]"
    "keys_unique (asset_cursors demo_asset_db)" "pend 5 demo_asset_db = {}" "rollup demo_asset_db (5, 1, 9) = None"
    "confirmed_to demo_svc 14 = 13"
    by (simp_all add: failing_node_def chain_node_def tails_ok_def fresh_cursor_def chain_logs_def keys_unique_def
        demo_asset_db_def pend_def rollup_def confirmed_to_def)
  have h: "honest_logs sig_hash [demo_log 11 0] [9] (n_logs ?bad (Some [9]))"
    by (auto simp: honest_logs_def failing_node_def served_logs_def)
  have "asset_cursors ?db = asset_cursors demo_asset_db
    \<and> pend (sv_chain demo_svc) db2 = {e \<in> pend (sv_chain demo_svc) demo_asset_db \<union> new_events sig_hash [demo_log 11 0] [(9, fresh_cursor 10)] 0 (Suc 14).
        confirmed_to demo_svc 14 < pe_block e}
    \<and> count_of (rollup db2 (sv_chain demo_svc, 1, 9)) = count_of (rollup demo_asset_db (sv_chain demo_svc, 1, 9))
        + card (fst ` ev_set {e \<in> pend (sv_chain demo_svc) demo_asset_db \<union> new_events sig_hash [demo_log 11 0] [(9, fresh_cursor 10)] 0 (Suc 14).
            pe_block e \<le> confirmed_to demo_svc 14} (1, 9))
        + card (fst ` ev_set (new_events sig_hash [demo_log 11 0] [(9, fresh_cursor 10)] 0 (min 13 (Suc (confirmed_to demo_svc 14)))) (1, 9))"
    by (rule failed_tick_counts_again [OF d(1) _ _ demo_reorg [symmetric, of ?bad, folded demo_svc_simps(1)] _ _ d(3,4) _ _ failing_tick d(2) _ _ _ _ tick])
      (simp_all add: demo_cursors d h chain_node_honest r)
  then have "count_of (rollup db2 (5, 1, 9)) = 2" by (simp add: d new b demo_log_events count_of_def)
  then show ?thesis using failing_tick tick by blast
qed

end
