(* ===== verification/Discovery.thy ===== *)
theory Discovery
  imports Backfill
begin

text \<open>
  Finding contracts and promoting them: \<open>internal/indexer/discovery.go\<close>. The sweep reads the
  whole chain without an address filter and keeps counters per contract; promotion turns a
  candidate, or a contract readers asked for, into an asset anchored at the head. The clock is
  an argument, in seconds. The lemmas bound what a tick may promote, and show what the
  counters hold after a sweep that succeeded and after one that failed.
\<close>

section \<open>Counting\<close>

record cand_acc =
  cc_row :: Candidate
  cc_blocks :: "nat list"
  cc_seen :: "Standard \<Rightarrow> nat"

definition new_cand_acc :: "evm_log \<Rightarrow> cand_acc" where
  "new_cand_acc l = \<lparr>cc_row = \<lparr>ca_standard = 0, ca_first = log_block l, ca_last = log_block l, ca_events = 0,
      ca_blocks = 0, ca_promoted_at = None, ca_promotion_reason = [], ca_spam_at = None, ca_spam_reason = []\<rparr>,
     cc_blocks = [], cc_seen = (\<lambda>_. 0)\<rparr>"

definition note_log :: "evm_log \<Rightarrow> Decoded \<Rightarrow> cand_acc \<Rightarrow> cand_acc" where
  "note_log l d a =
     (let r = cc_row a;
          r = (if log_block l < ca_first r then r\<lparr>ca_first := log_block l\<rparr> else r);
          r = (if log_block l > ca_last r then r\<lparr>ca_last := log_block l\<rparr> else r);
          r = r\<lparr>ca_events := ca_events r + 1\<rparr>
      in \<lparr>cc_row = r, cc_blocks = List.insert (log_block l) (cc_blocks a),
          cc_seen = (if dec_standard d \<noteq> StandardUnknown
                     then (cc_seen a)(dec_standard d := cc_seen a (dec_standard d) + 1) else cc_seen a)\<rparr>)"

definition cand_log :: "hashfn \<Rightarrow> (address \<Rightarrow> bool) \<Rightarrow> evm_log \<Rightarrow> (address \<times> cand_acc) list \<Rightarrow> (address \<times> cand_acc) list" where
  "cand_log k skip l tab =
     (if log_removed l \<or> skip (log_address l) then tab
      else case Decode k l of None \<Rightarrow> tab
        | Some d \<Rightarrow>
            let a = (case map_of tab (log_address l) of None \<Rightarrow> new_cand_acc l | Some a \<Rightarrow> a)
            in AList.update (log_address l) (note_log l d a) tab)"

definition cand_result :: "cand_acc \<Rightarrow> Candidate" where
  "cand_result a = (cc_row a)\<lparr>ca_blocks := length (cc_blocks a),
     ca_standard := standard_code (InferStandard (cc_seen a))\<rparr>"

definition CandidatesFrom :: "hashfn \<Rightarrow> evm_log list \<Rightarrow> (address \<Rightarrow> bool) \<Rightarrow> (address \<times> Candidate) list" where
  "CandidatesFrom k logs skip = map (\<lambda>(a, x). (a, cand_result x)) (fold (cand_log k skip) logs [])"

section \<open>Promotion\<close>

definition noCodeRetryInterval :: nat where
  "noCodeRetryInterval = 86400"

definition promoteAs ::
  "node \<Rightarrow> nat \<Rightarrow> address \<Rightarrow> string \<Rightarrow> asset_source \<Rightarrow> Service \<Rightarrow> 'a cand_db_scheme
   \<Rightarrow> Service \<times> 'a cand_db_scheme \<times> tick_err option" where
  "promoteAs node now addr reason source s db =
     (case n_head node of Inl e \<Rightarrow> (s, db, Some (HeadErr e))
      | Inr head \<Rightarrow>
          (case n_code node addr of Inl e \<Rightarrow> (s, db, Some (CodeErr e))
           | Inr code \<Rightarrow>
               if code = [] then (s, db, Some (NoContractCode addr))
               else let ch = sv_chain s;
                        standard = (case GetCandidate ch addr db of Inr c \<Rightarrow> ca_standard c | Inl _ \<Rightarrow> 0);
                        meta = n_meta node addr;
                        a = \<lparr>as_standard = standard, as_symbol = me_symbol meta, as_name = me_name meta,
                             as_decimals = me_decimals meta, as_hint_from = sv_floor s, as_registrant = None,
                             as_registry_key = None, as_source = source, as_status = StatusPending, as_promoted = True,
                             as_reports = 0, as_reported_at = None, as_report_reason = []\<rparr>;
                        db1 = fst (RegisterAsset ch addr a head db);
                        db2 = MarkCandidatePromoted ch addr reason now db1
                 in (Nudge s, db2, None)))"

definition Promote ::
  "node \<Rightarrow> nat \<Rightarrow> address \<Rightarrow> string \<Rightarrow> Service \<Rightarrow> 'a cand_db_scheme \<Rightarrow> Service \<times> 'a cand_db_scheme \<times> tick_err option" where
  "Promote node now addr reason s db = promoteAs node now addr reason SourceDiscovered s db"

definition tryAutoPromote ::
  "node \<Rightarrow> nat \<Rightarrow> address \<Rightarrow> string \<Rightarrow> asset_source \<Rightarrow> Service \<Rightarrow> 'a cand_db_scheme \<Rightarrow> Service \<times> 'a cand_db_scheme" where
  "tryAutoPromote node now addr reason source s db =
     (case promoteAs node now addr reason source s db of
        (s', db', Some (NoContractCode a)) \<Rightarrow> (s', DeferPromotion (sv_chain s) addr (now + noCodeRetryInterval) db')
      | (s', db', _) \<Rightarrow> (s', db'))"

definition promotion_reason :: "nat \<Rightarrow> DemandTotals \<Rightarrow> Candidate \<Rightarrow> string" where
  "promotion_reason minVoters t c =
     (if minVoters > 0 \<and> Net t \<ge> int minVoters
      then ''demand: '' @ dec_string (dt_for t) @ '' for, '' @ dec_string (dt_against t) @ '' against (''
        @ dec_string (ca_events c) @ '' events across '' @ dec_string (ca_blocks c) @ '' blocks)''
      else ''auto: '' @ dec_string (ca_events c) @ '' events across '' @ dec_string (ca_blocks c) @ '' blocks'')"

definition unseen_reason :: "DemandTotals \<Rightarrow> string" where
  "unseen_reason t = ''demand: '' @ dec_string (dt_for t) @ '' for, '' @ dec_string (dt_against t)
     @ '' against, never seen by discovery''"

text \<open>The two loops of a tick, with what each promotes spelled out before; the totals of a
  candidate are those the query read.\<close>

definition promote_all ::
  "node \<Rightarrow> nat \<Rightarrow> asset_source \<Rightarrow> (address \<times> string) list \<Rightarrow> Service \<times> 'a cand_db_scheme \<Rightarrow> Service \<times> 'a cand_db_scheme" where
  "promote_all node now source todo st =
     fold (\<lambda>(addr, reason) (s, db). tryAutoPromote node now addr reason source s db) todo st"

definition autoPromote :: "node \<Rightarrow> nat \<Rightarrow> Service \<Rightarrow> 'a cand_db_scheme \<Rightarrow> Service \<times> 'a cand_db_scheme" where
  "autoPromote node now s db =
     (let d = op_discovery (sv_opt s); ch = sv_chain s in
      if \<not> di_auto d \<and> di_min_voters d = 0 then (s, db)
      else let
        rule = \<lparr>pr_activity = di_auto d, pr_min_events = di_min_events d, pr_min_blocks = di_min_blocks d,
                pr_min_voters = di_min_voters d\<rparr>;
        cands = PromotableCandidates now ch rule (nat (di_max_promotions d)) db;
        st = promote_all node now SourceDiscovered
               (map (\<lambda>(a, c). (a, promotion_reason (di_min_voters d) (voters_of db (ch, a)) c)) cands) (s, db);
        budget = di_max_promotions d - int (length cands)
      in if di_min_voters d = 0 \<or> budget \<le> 0 then st
         else promote_all node now SourceDemand
                (map (\<lambda>(a, t). (a, unseen_reason t)) (DemandedUnseen now ch (di_min_voters d) (nat budget) (snd st))) st)"

section \<open>A tick\<close>

definition indexedAddresses :: "nat \<Rightarrow> 'a asset_db_scheme \<Rightarrow> address \<Rightarrow> bool" where
  "indexedAddresses chainID db a \<longleftrightarrow> a \<in> fst ` set (ListCursors chainID db)"

definition discovery_chunk ::
  "hashfn \<Rightarrow> nat \<Rightarrow> (address \<Rightarrow> bool) \<Rightarrow> nat \<Rightarrow> nat \<Rightarrow> evm_log list \<Rightarrow> 'a cand_db_scheme \<Rightarrow> 'a cand_db_scheme \<times> tick_err option" where
  "discovery_chunk k chainID known cfrom cto logs db = (UpsertCandidates chainID (CandidatesFrom k logs known) db, None)"

definition discovery_from :: "Service \<Rightarrow> nat \<Rightarrow> nat \<Rightarrow> nat" where
  "discovery_from s head cursor =
     (let lookback = di_lookback (op_discovery (sv_opt s));
          from = (if cursor = 0 then (if head > lookback then head - lookback else 0) else (cursor + 1) mod 2 ^ 64)
      in if from < sv_floor s then sv_floor s else from)"

definition discovery_to :: "Service \<Rightarrow> nat \<Rightarrow> nat \<Rightarrow> nat" where
  "discovery_to s head from =
     (let span = di_max_blocks (op_discovery (sv_opt s))
      in if (head - from + 1) mod 2 ^ 64 > span then (from + span - 1) mod 2 ^ 64 else head)"

definition discoveryTick ::
  "hashfn \<Rightarrow> node \<Rightarrow> nat \<Rightarrow> Service \<Rightarrow> 'a cand_db_scheme \<Rightarrow> (Service \<times> 'a cand_db_scheme \<times> tick_err option) option" where
  "discoveryTick k node now s db =
     (let ch = sv_chain s in
      case n_head node of Inl e \<Rightarrow> Some (s, db, Some (HeadErr e))
      | Inr head \<Rightarrow>
          let from = discovery_from s head (DiscoveryCursor ch db) in
          if from > head then (case autoPromote node now s db of (s', db') \<Rightarrow> Some (s', db', None))
          else let to = discovery_to s head from; known = indexedAddresses ch db in
            case SweepLogs (n_logs node None) (n_done node) from to \<lparr>co_max = op_tail_window (sv_opt s), co_min = 0\<rparr>
                (discovery_chunk k ch known) db of
              None \<Rightarrow> None
            | Some (db1, SweepDone) \<Rightarrow>
                (case autoPromote node now s (SetDiscoveryCursor ch to db1) of (s', db') \<Rightarrow> Some (s', db', None))
            | Some (db1, e) \<Rightarrow> Some (s, db1, Some (SweepErr e)))"

definition DiscoveryThresholds :: "Service \<Rightarrow> nat \<times> nat \<times> nat" where
  "DiscoveryThresholds s = (di_min_events (op_discovery (sv_opt s)), di_min_blocks (op_discovery (sv_opt s)),
     di_min_voters (op_discovery (sv_opt s)))"

section \<open>The budget\<close>

lemma length_upsert: "length (upsert k new m tab) \<le> Suc (length tab)"
  by (simp add: upsert_def update_row_def)

lemma tryAutoPromote_assets:
  "length (assets (snd (tryAutoPromote node now addr reason source s db))) \<le> Suc (length (assets db))"
  by (auto simp: tryAutoPromote_def promoteAs_def DeferPromotion_def RegisterAsset_def MarkCandidatePromoted_def Let_def
      length_upsert split: sum.splits option.splits tick_err.splits)

lemma promote_all_assets:
  "length (assets (snd (promote_all node now source todo st))) \<le> length (assets (snd st)) + length todo"
proof (induction todo arbitrary: st)
  case (Cons x todo)
  obtain addr reason where x: "x = (addr, reason)" by (cases x)
  have "length (assets (snd (tryAutoPromote node now addr reason source (fst st) (snd st)))) \<le> Suc (length (assets (snd st)))"
    by (rule tryAutoPromote_assets)
  then show ?case
    using Cons.IH [of "tryAutoPromote node now addr reason source (fst st) (snd st)"] x
    by (simp add: promote_all_def case_prod_beta)
qed (simp add: promote_all_def)

lemma length_PromotableCandidates: "length (PromotableCandidates now ch rule n db) \<le> n"
  by (simp add: PromotableCandidates_def)

lemma length_DemandedUnseen: "length (DemandedUnseen now ch m n db) \<le> n"
  by (simp add: DemandedUnseen_def)

section \<open>The sweep\<close>

lemma run_discovery:
  "run_chunks (discovery_chunk k ch known) ws db =
     (fold (\<lambda>(f, t, logs). UpsertCandidates ch (CandidatesFrom k logs known)) ws db, None)"
proof (induction ws arbitrary: db)
  case (Cons w ws)
  then show ?case by (cases w) (simp add: discovery_chunk_def)
qed simp

lemma DiscoveryCursor_upsert [simp]: "DiscoveryCursor c (UpsertCandidates ch rows db) = DiscoveryCursor c db"
  by (simp add: DiscoveryCursor_def UpsertCandidates_def)

lemma DiscoveryCursor_fold:
  "DiscoveryCursor c (fold (\<lambda>(f, t, logs). UpsertCandidates ch (CandidatesFrom k logs known)) ws db) = DiscoveryCursor c db"
  by (induction ws arbitrary: db) auto

lemma discovery_to_bounds:
  assumes "0 < di_max_blocks (op_discovery (sv_opt s))" and "from \<le> head" and "head < 2 ^ 63"
  shows "from \<le> discovery_to s head from \<and> discovery_to s head from \<le> head"
proof -
  let ?span = "di_max_blocks (op_discovery (sv_opt s))"
  have m: "(head - from + 1) mod 2 ^ 64 = head - from + 1" using assms by simp
  show ?thesis
  proof (cases "head - from + 1 > ?span")
    case True
    then have "(from + ?span - 1) mod 2 ^ 64 = from + ?span - 1" using assms by simp
    then show ?thesis using True assms by (simp only: discovery_to_def Let_def m if_True) linarith
  next
    case False
    then show ?thesis using assms by (simp only: discovery_to_def Let_def m if_False) simp
  qed
qed

section \<open>The counters of a contract\<close>

definition counted_logs :: "hashfn \<Rightarrow> (address \<Rightarrow> bool) \<Rightarrow> evm_log list \<Rightarrow> address \<Rightarrow> evm_log list" where
  "counted_logs k skip logs a =
     filter (\<lambda>l. \<not> log_removed l \<and> \<not> skip (log_address l) \<and> Decode k l \<noteq> None \<and> log_address l = a) logs"

definition cand_ok :: "evm_log list \<Rightarrow> cand_acc \<Rightarrow> bool" where
  "cand_ok ls a \<longleftrightarrow> ls \<noteq> [] \<and> ca_events (cc_row a) = length ls
     \<and> ca_first (cc_row a) = Min (log_block ` set ls) \<and> ca_last (cc_row a) = Max (log_block ` set ls)
     \<and> distinct (cc_blocks a) \<and> set (cc_blocks a) = log_block ` set ls
     \<and> ca_promoted_at (cc_row a) = None \<and> ca_spam_at (cc_row a) = None"

lemma note_log_fields:
  "ca_events (cc_row (note_log l d a)) = Suc (ca_events (cc_row a))"
  "ca_first (cc_row (note_log l d a)) = min (log_block l) (ca_first (cc_row a))"
  "ca_last (cc_row (note_log l d a)) = max (log_block l) (ca_last (cc_row a))"
  "cc_blocks (note_log l d a) = List.insert (log_block l) (cc_blocks a)"
  "ca_promoted_at (cc_row (note_log l d a)) = ca_promoted_at (cc_row a)"
  "ca_spam_at (cc_row (note_log l d a)) = ca_spam_at (cc_row a)"
  by (auto simp: note_log_def Let_def)

lemma cand_ok_new: "cand_ok [l] (note_log l d (new_cand_acc l))"
  by (simp add: cand_ok_def note_log_fields) (simp add: new_cand_acc_def)

lemma cand_ok_note: "cand_ok ls a \<Longrightarrow> cand_ok (ls @ [l]) (note_log l d a)"
  by (auto simp: cand_ok_def note_log_fields Min_insert Max_insert)

lemma fold_cand_log:
  "distinct (map fst (fold (cand_log k skip) logs []))
   \<and> (\<forall>a. case map_of (fold (cand_log k skip) logs []) a of
        None \<Rightarrow> counted_logs k skip logs a = []
      | Some x \<Rightarrow> cand_ok (counted_logs k skip logs a) x)"
proof (induction logs rule: rev_induct)
  case Nil
  then show ?case by (simp add: counted_logs_def)
next
  case (snoc l logs)
  let ?tab = "fold (cand_log k skip) logs []"
  have tab: "fold (cand_log k skip) (logs @ [l]) [] = cand_log k skip l ?tab" by simp
  have cl: "counted_logs k skip (logs @ [l]) a = counted_logs k skip logs a @
      (if \<not> log_removed l \<and> \<not> skip (log_address l) \<and> Decode k l \<noteq> None \<and> log_address l = a then [l] else [])" for a
    by (auto simp: counted_logs_def)
  show ?case
  proof (cases "\<not> log_removed l \<and> \<not> skip (log_address l) \<and> Decode k l \<noteq> None")
    case False
    have same: "cand_log k skip l ?tab = ?tab" using False by (auto simp: cand_log_def)
    have same': "counted_logs k skip (logs @ [l]) = counted_logs k skip logs" using False by (intro ext) (auto simp: cl)
    show ?thesis unfolding tab same same' by (rule snoc.IH)
  next
    case True
    then obtain d where d: "Decode k l = Some d" by blast
    let ?x = "note_log l d (case map_of ?tab (log_address l) of None \<Rightarrow> new_cand_acc l | Some a \<Rightarrow> a)"
    have u: "cand_log k skip l ?tab = AList.update (log_address l) ?x ?tab" using True d by (simp add: cand_log_def Let_def)
    have IH: "map_of ?tab a = None \<Longrightarrow> counted_logs k skip logs a = []"
      "map_of ?tab a = Some y \<Longrightarrow> cand_ok (counted_logs k skip logs a) y" for a y
      using snoc.IH by (metis option.simps(4), metis option.simps(5))
    have "cand_ok (counted_logs k skip logs (log_address l) @ [l]) ?x"
      using IH [of "log_address l"] cand_ok_new cand_ok_note by (cases "map_of ?tab (log_address l)") auto
    then show ?thesis
      using snoc.IH IH True unfolding tab u
      by (auto simp: update_conv cl distinct_update split: option.splits)
  qed
qed

lemma map_of_map_snd: "map_of (map (\<lambda>(a, x). (a, f x)) tab) a = map_option f (map_of tab a)"
  by (induction tab) auto

section \<open>Properties\<close>

text \<open>A tick never promotes more contracts than its budget, from the candidates and from
  demand together.\<close>

theorem autoPromote_within_budget:
  "length (assets (snd (autoPromote node now s db)))
     \<le> length (assets db) + nat (di_max_promotions (op_discovery (sv_opt s)))"
proof -
  define d where "d = op_discovery (sv_opt s)"
  define cands where "cands = PromotableCandidates now (sv_chain s) \<lparr>pr_activity = di_auto d, pr_min_events = di_min_events d,
      pr_min_blocks = di_min_blocks d, pr_min_voters = di_min_voters d\<rparr> (nat (di_max_promotions d)) db"
  define st where "st = promote_all node now SourceDiscovered
      (map (\<lambda>(a, c). (a, promotion_reason (di_min_voters d) (voters_of db (sv_chain s, a)) c)) cands) (s, db)"
  define todo where "todo = map (\<lambda>(a, t). (a, unseen_reason t))
      (DemandedUnseen now (sv_chain s) (di_min_voters d) (nat (di_max_promotions d - int (length cands))) (snd st))"
  have c: "length cands \<le> nat (di_max_promotions d)" unfolding cands_def by (rule length_PromotableCandidates)
  have 1: "length (assets (snd st)) \<le> length (assets db) + length cands"
    using promote_all_assets [of node now SourceDiscovered
        "map (\<lambda>(a, c). (a, promotion_reason (di_min_voters d) (voters_of db (sv_chain s, a)) c)) cands" "(s, db)"]
    unfolding st_def by (simp only: length_map snd_conv)
  have 2: "length todo \<le> nat (di_max_promotions d - int (length cands))"
    unfolding todo_def by (simp add: length_DemandedUnseen)
  have 3: "length (assets (snd (promote_all node now SourceDemand todo st))) \<le> length (assets (snd st)) + length todo"
    by (rule promote_all_assets)
  have "autoPromote node now s db = (if \<not> di_auto d \<and> di_min_voters d = 0 then (s, db)
      else if di_min_voters d = 0 \<or> di_max_promotions d - int (length cands) \<le> 0 then st
      else promote_all node now SourceDemand todo st)"
    unfolding autoPromote_def Let_def d_def cands_def st_def todo_def by (rule refl)
  then have "snd (autoPromote node now s db) \<in> {db, snd st, snd (promote_all node now SourceDemand todo st)}"
    by (simp split: if_split)
  then show ?thesis using 1 2 3 c unfolding d_def [symmetric] by auto
qed

text \<open>The counters of a contract after one window: a contract that is not indexed has a row
  exactly if a log of it was decoded, and the row holds the number of these logs, their
  distinct blocks and the first and last of them, without a verdict.\<close>

theorem CandidatesFrom_counts:
  "case map_of (CandidatesFrom k logs skip) a of
     None \<Rightarrow> counted_logs k skip logs a = []
   | Some c \<Rightarrow> counted_logs k skip logs a \<noteq> [] \<and> ca_events c = length (counted_logs k skip logs a)
       \<and> ca_blocks c = card (log_block ` set (counted_logs k skip logs a))
       \<and> ca_first c = Min (log_block ` set (counted_logs k skip logs a))
       \<and> ca_last c = Max (log_block ` set (counted_logs k skip logs a))
       \<and> ca_promoted_at c = None \<and> ca_spam_at c = None"
proof -
  let ?tab = "fold (cand_log k skip) logs []"
  have m: "map_of (CandidatesFrom k logs skip) a = map_option cand_result (map_of ?tab a)"
    by (simp add: CandidatesFrom_def map_of_map_snd)
  have f: "case map_of ?tab a of None \<Rightarrow> counted_logs k skip logs a = [] | Some x \<Rightarrow> cand_ok (counted_logs k skip logs a) x"
    using fold_cand_log [of k skip logs] by blast
  show ?thesis
  proof (cases "map_of ?tab a")
    case None
    then show ?thesis using f m by simp
  next
    case (Some x)
    then have ok: "cand_ok (counted_logs k skip logs a) x" using f by simp
    then have "length (cc_blocks x) = card (log_block ` set (counted_logs k skip logs a))"
      unfolding cand_ok_def by (metis distinct_card)
    then show ?thesis using Some m ok by (simp add: cand_ok_def cand_result_def)
  qed
qed

text \<open>A discovery tick that has blocks to read returns. Without error, the windows it folded
  into the counters tile the range it read, the cursor is at the end of that range, and then it
  promotes. After a failed sweep the windows before the failure have been folded and the cursor
  has not moved, so the next tick folds them into the counters again.\<close>

theorem discoveryTick_folds_windows:
  assumes "n_head node = Inr head" and "head < 2 ^ 63" and "op_tail_window (sv_opt s) < 2 ^ 62"
    and "0 < di_max_blocks (op_discovery (sv_opt s))"
    and "from = discovery_from s head (DiscoveryCursor (sv_chain s) db)" and "from \<le> head"
  shows "\<exists>s' db' r ws db1. discoveryTick k node now s db = Some (s', db', r)
    \<and> db1 = fold (\<lambda>(f, t, logs). UpsertCandidates (sv_chain s) (CandidatesFrom k logs (indexedAddresses (sv_chain s) db))) ws db
    \<and> (\<forall>w \<in> set ws. answered (n_logs node None) w)
    \<and> (case r of
         None \<Rightarrow> tiles from ws (Suc (discovery_to s head from))
           \<and> (s', db') = autoPromote node now s (SetDiscoveryCursor (sv_chain s) (discovery_to s head from) db1)
       | Some e \<Rightarrow> (\<exists>c. tiles from ws c) \<and> db' = db1
           \<and> DiscoveryCursor (sv_chain s) db' = DiscoveryCursor (sv_chain s) db)"
proof -
  let ?ch = "sv_chain s" and ?to = "discovery_to s head from"
  let ?known = "indexedAddresses ?ch db"
  let ?opts = "\<lparr>co_max = op_tail_window (sv_opt s), co_min = 0\<rparr>"
  have to: "from \<le> ?to" "?to \<le> head" using discovery_to_bounds [OF assms(4,6,2)] by auto
  have co: "co_max (chunk_defaults ?opts) < 2 ^ 62" using assms(3) by (simp add: chunk_defaults_def)
  obtain db1 e ws where sw: "SweepLogs (n_logs node None) (n_done node) from ?to ?opts (discovery_chunk k ?ch ?known) db = Some (db1, e)"
    and post: "sweep_post (n_logs node None) from ?to (co_max (chunk_defaults ?opts)) (discovery_chunk k ?ch ?known) db (db1, e) ws"
    using SweepLogs_spec [of ?to ?opts "from" "n_logs node None" "n_done node" "discovery_chunk k ?ch ?known" db] co assms(2) to
    by fastforce
  have ans: "\<forall>w \<in> set ws. answered (n_logs node None) w" using post by (simp add: sweep_post_def)
  have db1: "db1 = fold (\<lambda>(f, t, logs). UpsertCandidates ?ch (CandidatesFrom k logs ?known)) ws db"
    using post by (cases e) (auto simp: sweep_post_def run_discovery)
  have tick: "discoveryTick k node now s db = (if e = SweepDone
      then (case autoPromote node now s (SetDiscoveryCursor ?ch ?to db1) of (s', db') \<Rightarrow> Some (s', db', None))
      else Some (s, db1, Some (SweepErr e)))"
    using assms(1,5,6) sw by (cases e) (simp_all add: discoveryTick_def Let_def)
  show ?thesis
  proof (cases "e = SweepDone")
    case True
    obtain s' db' where ap: "autoPromote node now s (SetDiscoveryCursor ?ch ?to db1) = (s', db')" by fastforce
    have "tiles from ws (Suc ?to)" using post True by (simp add: sweep_post_def)
    then show ?thesis using tick True ap ans db1 by (intro exI conjI) (simp_all, simp_all)
  next
    case False
    have "\<exists>c. tiles from ws c" using post False by (cases e) (auto simp: sweep_post_def)
    moreover have "DiscoveryCursor ?ch db1 = DiscoveryCursor ?ch db" unfolding db1 by (rule DiscoveryCursor_fold)
    ultimately show ?thesis using tick False ans db1 by (intro exI conjI) (simp_all, simp_all)
  qed
qed

lemma demo_discovery:
  "DiscoveryCursor 5 demo_full_db = 0" "sv_chain demo_svc = 5" "sv_floor demo_svc = 0" "op_tail_window (sv_opt demo_svc) < 2 ^ 62"
  "0 < di_max_blocks (op_discovery (sv_opt demo_svc))"
  by (simp_all add: DiscoveryCursor_def demo_full_db_def demo_svc_def New_def options_defaults_def demo_opts_def discovery_defaults_def Let_def)

lemma demo_discovery_from: "discovery_from demo_svc 12 (DiscoveryCursor 5 demo_full_db) \<le> 12"
  by (simp add: discovery_from_def demo_discovery Let_def)

lemma demo_head: "n_head (chain_node L h) = Inr h"
  by (simp add: chain_node_def)

theorem discoveryTick_folds_windows_witness:
  "\<exists>r. discoveryTick sig_hash (chain_node [demo_log 3 0] 12) 7 demo_svc demo_full_db = Some r"
  using discoveryTick_folds_windows [of "chain_node [demo_log 3 0] 12" 12 demo_svc
      "discovery_from demo_svc 12 (DiscoveryCursor 5 demo_full_db)" demo_full_db sig_hash 7]
      demo_discovery demo_discovery_from demo_head by (simp only: demo_discovery) fastforce

end
