(* ===== verification/Trie.thy ===== *)
theory Trie
  imports Commitment
begin

text \<open>
  The binary sparse Merkle trie of \<open>internal/userstate/trie.go\<close>: 256 levels, implicit empty
  subtrees, proofs of presence and of absence. Keccak-256 is the argument \<open>k\<close>. A panic of the
  code, a slice out of range when a node is missing, is \<open>None\<close>. The lemmas show that the trie
  implements the interface of a commitment to a finite map from keys to values.
\<close>

section \<open>The code\<close>

record Pair =
  p_key :: hash
  p_value :: "byte list"

type_synonym nodes = "hash \<rightharpoonup> byte list"

record Trie =
  tr_root :: hash
  tr_nodes :: nodes
  tr_items :: "Pair list"

datatype trie_error = EmptyValue | DuplicateKey

definition branch_raw :: "hash \<Rightarrow> hash \<Rightarrow> byte list" where
  "branch_raw l r = 1 # hash_bytes l @ hash_bytes r"

definition leaf_raw :: "hash \<Rightarrow> byte list \<Rightarrow> byte list" where
  "leaf_raw key v = 0 # hash_bytes key @ v"

definition branch :: "hashfn \<Rightarrow> hash \<Rightarrow> hash \<Rightarrow> hash" where
  "branch k l r = k (branch_raw l r)"

text \<open>The table is filled from the last entry down: \<open>empty_up k n\<close> is the entry \<open>256 - n\<close>.\<close>

primrec empty_up :: "hashfn \<Rightarrow> nat \<Rightarrow> hash" where
  "empty_up k 0 = k [2]"
| "empty_up k (Suc n) = branch k (empty_up k n) (empty_up k n)"

definition Empty :: "hashfn \<Rightarrow> nat \<Rightarrow> hash" where
  "Empty k d = empty_up k (256 - d)"

definition bit_at :: "hash \<Rightarrow> nat \<Rightarrow> byte" where
  "bit_at h d = drop_bit (7 - d mod 8) (hash_bytes h ! (d div 8)) AND 1"

definition split :: "Pair list \<Rightarrow> nat \<Rightarrow> nat" where
  "split p d = sort_search (length p) (\<lambda>i. bit_at (p_key (p ! i)) d = 1)"

text \<open>\<open>d\<close> never passes 256 in the code.\<close>

function build :: "hashfn \<Rightarrow> Pair list \<Rightarrow> nat \<Rightarrow> nodes \<Rightarrow> hash \<times> nodes" where
  "build k p d N =
     (if p = [] then (Empty k d, N)
      else if d \<ge> 256 then
        let raw = leaf_raw (p_key (hd p)) (p_value (hd p)) in (k raw, N(k raw \<mapsto> raw))
      else let i = split p d in
        (case build k (take i p) (d + 1) N of (l, N1) \<Rightarrow>
         (case build k (drop i p) (d + 1) N1 of (r, N2) \<Rightarrow>
            let raw = branch_raw l r in (k raw, N2(k raw \<mapsto> raw)))))"
  by pat_completeness auto
termination
  by (relation "measure (\<lambda>(k, p, d, N). 256 - d)") auto

declare build.simps [simp del]

text \<open>The order of equal keys, which \<open>sort.Slice\<close> leaves open, only decides which of the two
  errors is reported.\<close>

fun check_pairs :: "hash option \<Rightarrow> Pair list \<Rightarrow> trie_error option" where
  "check_pairs prev [] = None"
| "check_pairs prev (x # xs) =
     (if p_value x = [] then Some EmptyValue
      else if prev = Some (p_key x) then Some DuplicateKey
      else check_pairs (Some (p_key x)) xs)"

definition NewTrie :: "hashfn \<Rightarrow> Pair list \<Rightarrow> trie_error + Trie" where
  "NewTrie k items =
     (let p = sort_key p_key items in
      case check_pairs None p of Some e \<Rightarrow> Inl e
      | None \<Rightarrow> (case build k p 0 Map.empty of (h, N) \<Rightarrow> Inr \<lparr>tr_root = h, tr_nodes = N, tr_items = p\<rparr>))"

record TrieProof =
  tp_key :: hash
  tp_value :: "byte list"
  tp_siblings :: "hash list"

function proof_loop :: "hashfn \<Rightarrow> nodes \<Rightarrow> hash \<Rightarrow> nat \<Rightarrow> hash \<Rightarrow> (hash list \<times> byte list) option" where
  "proof_loop k N key d h =
     (if d \<ge> 256 then
        if h = Empty k 256 then Some ([], [])
        else case N h of None \<Rightarrow> None
          | Some raw \<Rightarrow> if length raw < 33 then None else Some ([], drop 33 raw)
      else if h = Empty k d then Some (map (\<lambda>j. Empty k (j + 1)) [d..<256], [])
      else case N h of None \<Rightarrow> None
        | Some raw \<Rightarrow>
            if length raw < 33 then None
            else let l = of_be (take 32 (drop 1 raw)); r = of_be (drop 33 raw) in
              if bit_at key d = 0
              then map_option (\<lambda>(ss, v). (r # ss, v)) (proof_loop k N key (d + 1) l)
              else map_option (\<lambda>(ss, v). (l # ss, v)) (proof_loop k N key (d + 1) r))"
  by pat_completeness auto
termination
  by (relation "measure (\<lambda>(k, N, key, d, h). 256 - d)") auto

declare proof_loop.simps [simp del]

definition TrieProof_of :: "hashfn \<Rightarrow> Trie \<Rightarrow> hash \<Rightarrow> TrieProof option" where
  "TrieProof_of k t key =
     map_option (\<lambda>(ss, v). \<lparr>tp_key = key, tp_value = v, tp_siblings = ss\<rparr>)
       (proof_loop k (tr_nodes t) key 0 (tr_root t))"

definition verify_step :: "hashfn \<Rightarrow> TrieProof \<Rightarrow> nat \<Rightarrow> hash \<Rightarrow> hash" where
  "verify_step k p d h = (if bit_at (tp_key p) d = 0 then branch k h (tp_siblings p ! d)
     else branch k (tp_siblings p ! d) h)"

definition VerifyProof :: "hashfn \<Rightarrow> hash \<Rightarrow> TrieProof \<Rightarrow> bool" where
  "VerifyProof k r p =
     (if length (tp_siblings p) \<noteq> 256 then False
      else let h = (if length (tp_value p) > 0 then k (leaf_raw (tp_key p) (tp_value p)) else Empty k 256)
        in foldr (verify_step k p) [0..<256] h = r)"

section \<open>Key bits\<close>

text \<open>The first \<open>d\<close> bits of a key, as a number.\<close>

definition prefix :: "nat \<Rightarrow> hash \<Rightarrow> nat" where
  "prefix d h = unat h div 2 ^ (256 - d)"

lemma nth_nat_be: "i < n \<Longrightarrow> nat_be n v ! i = word_of_nat (v div 256 ^ (n - 1 - i))"
proof (induction n arbitrary: v)
  case (Suc n)
  show ?case
  proof (cases "i = n")
    case True
    then show ?thesis by (simp add: nth_append)
  next
    case False
    then have "i < n" using Suc.prems by simp
    moreover have "v div 256 div 256 ^ (n - 1 - i) = v div 256 ^ (n - i)"
      using \<open>i < n\<close> by (simp add: div_mult2_eq [symmetric] Suc_diff_Suc flip: power_Suc)
    ultimately show ?thesis using Suc.IH [of "v div 256"] by (simp add: nth_append)
  qed
qed simp

lemma bit_at_prefix: "d < 256 \<Longrightarrow> bit_at h d = word_of_nat (prefix (Suc d) h mod 2)"
proof -
  assume d: "d < 256"
  define q where "q = 31 - d div 8"
  define r where "r = 7 - d mod 8"
  have dd: "d div 8 < 32" using d by simp
  have "8 * (d div 8) + d mod 8 = d" "d mod 8 < 8" by simp_all
  then have e: "255 - d = 8 * q + r" and r: "r < 8" using dd d unfolding q_def r_def by linarith+
  have "bit_at h d = drop_bit r (word_of_nat (unat h div 256 ^ q) :: byte) AND 1"
    using dd by (simp add: bit_at_def be_bytes_def nth_nat_be q_def r_def)
  also have "\<dots> = word_of_nat (unat h div 256 ^ q div 2 ^ r mod 2)"
  proof -
    have "odd (drop_bit r (word_of_nat (unat h div 256 ^ q) :: byte)) = odd (unat h div 256 ^ q div 2 ^ r)"
      using r by (simp add: bit_simps flip: bit_iff_odd_drop_bit) (simp add: bit_iff_odd)
    then show ?thesis by (simp add: and_one_eq mod2_eq_if)
  qed
  also have "unat h div 256 ^ q div 2 ^ r = unat h div 2 ^ (8 * q + r)"
    by (simp add: div_mult2_eq [symmetric] power_add [symmetric] pow256)
  also have "unat h div 2 ^ (8 * q + r) = prefix (Suc d) h" using e d by (simp add: prefix_def Suc_diff_Suc)
  finally show ?thesis .
qed

lemma power_half: "d < 256 \<Longrightarrow> (2::nat) ^ (255 - d) * 2 = 2 ^ (256 - d)"
proof -
  assume "d < 256"
  then have "256 - d = Suc (255 - d)" by simp
  then show ?thesis by (simp only: power_Suc2)
qed

lemma prefix_half: "d < 256 \<Longrightarrow> prefix (Suc d) h div 2 = prefix d h"
  by (simp add: prefix_def div_mult2_eq [symmetric] power_half)

lemma unat_lt2p_hash: "unat (h :: hash) < 2 ^ 256"
  using unsigned_less [of h] by simp

lemma prefix_0 [simp]: "prefix 0 h = 0"
  using unat_lt2p_hash [of h] by (simp add: prefix_def)

lemma prefix_256 [simp]: "prefix 256 h = unat h"
  by (simp add: prefix_def)

lemma prefix_mono: "x \<le> y \<Longrightarrow> prefix d x \<le> prefix d y"
  by (simp add: prefix_def div_le_mono word_le_nat_alt)

lemma bit_at_cases: "d < 256 \<Longrightarrow> bit_at h d = (if odd (prefix (Suc d) h) then 1 else 0)"
  by (simp add: bit_at_prefix mod2_eq_if)

lemma bit_at_01: "d < 256 \<Longrightarrow> bit_at h d = 0 \<or> bit_at h d = 1"
  by (simp add: bit_at_cases)

lemma prefix_Suc: "d < 256 \<Longrightarrow> prefix (Suc d) h = 2 * prefix d h + (if bit_at h d = 0 then 0 else 1)"
  using prefix_half [of d h] by (auto simp: bit_at_cases) presburger


section \<open>Splitting\<close>

text \<open>The pairs handled below one node: strictly ascending keys that share the bits above.\<close>

definition under :: "nat \<Rightarrow> nat \<Rightarrow> Pair list \<Rightarrow> bool" where
  "under d q p \<longleftrightarrow> sorted_wrt (<) (map p_key p) \<and> (\<forall>x \<in> set p. prefix d (p_key x) = q)"

definition side :: "nat \<Rightarrow> byte \<Rightarrow> Pair list \<Rightarrow> Pair list" where
  "side d b p = filter (\<lambda>x. bit_at (p_key x) d = b) p"

lemma side_Nil [simp]: "side d b [] = []"
  by (simp add: side_def)

lemma under_side:
  "under d q p \<Longrightarrow> d < 256 \<Longrightarrow> under (Suc d) (2 * q) (side d 0 p) \<and> under (Suc d) (2 * q + 1) (side d 1 p)"
  by (auto simp: under_def side_def prefix_Suc sorted_wrt_map intro: sorted_wrt_filter)

lemma under_bit_mono:
  assumes "under d q p" "d < 256" "a \<le> b" "b < length p" "bit_at (p_key (p ! a)) d = 1"
  shows "bit_at (p_key (p ! b)) d = 1"
proof -
  have "p_key (p ! a) \<le> p_key (p ! b)"
    using assms(1,3,4) by (cases "a = b") (auto simp: under_def sorted_wrt_iff_nth_less intro: less_imp_le)
  then have "prefix (Suc d) (p_key (p ! a)) \<le> prefix (Suc d) (p_key (p ! b))" by (rule prefix_mono)
  moreover have "prefix d (p_key (p ! a)) = q" "prefix d (p_key (p ! b)) = q" using assms by (auto simp: under_def)
  ultimately show ?thesis using assms(2,5) bit_at_01 [OF assms(2), of "p_key (p ! b)"] by (auto simp: prefix_Suc)
qed

lemma split_sides:
  assumes "under d q p" "d < 256"
  shows "take (split p d) p = side d 0 p \<and> drop (split p d) p = side d 1 p"
proof -
  let ?s = "split p d" and ?f = "\<lambda>i. bit_at (p_key (p ! i)) d = 1"
  have least: "(\<forall>a < ?s. \<not> ?f a) \<and> ?s \<le> length p \<and> (?s < length p \<longrightarrow> ?f ?s)"
    unfolding split_def by (rule sort_search_least) (use under_bit_mono [OF assms] in blast)
  have b0: "bit_at (p_key x) d = 0" if "x \<in> set (take ?s p)" for x
    using that least assms(2) by (auto simp: in_set_conv_nth bit_at_cases split: if_splits)
  have b1: "bit_at (p_key x) d = 1" if "x \<in> set (drop ?s p)" for x
    using that least under_bit_mono [OF assms, of ?s] by (auto simp: in_set_conv_nth)
  have "side d 0 p = side d 0 (take ?s p) @ side d 0 (drop ?s p)" "side d 1 p = side d 1 (take ?s p) @ side d 1 (drop ?s p)"
    by (metis append_take_drop_id filter_append side_def)+
  moreover have "side d 0 (take ?s p) = take ?s p" "side d 1 (take ?s p) = []"
    using b0 by (auto simp: side_def)
  moreover have "side d 1 (drop ?s p) = drop ?s p" "side d 0 (drop ?s p) = []"
    using b1 by (auto simp: side_def)
  ultimately show ?thesis by simp
qed

lemma under_bottom:
  assumes "under 256 q p" "x \<in> set p" shows "p = [x]"
proof -
  have u: "p_key y = p_key x" if "y \<in> set p" for y
    using assms that unfolding under_def prefix_256 by (metis word_unat_eq_iff)
  show ?thesis
  proof (cases p)
    case (Cons y ys)
    have "ys = []"
    proof (rule ccontr)
      assume "ys \<noteq> []"
      then have "p_key y < p_key (hd ys)" using assms(1) Cons by (auto simp: under_def)
      moreover have "p_key y = p_key x" "p_key (hd ys) = p_key x"
        using u [of y] u [of "hd ys"] Cons \<open>ys \<noteq> []\<close> by simp_all
      ultimately show False by simp
    qed
    then show ?thesis using assms(2) Cons by simp
  qed (use assms in simp)
qed

section \<open>The tree that is built\<close>

text \<open>The hash of a node with \<open>n\<close> levels below it, without the optimisations: every empty subtree
  is spelled out and no node is stored; and the strings hashed on the way.\<close>

primrec node_at :: "hashfn \<Rightarrow> nat \<Rightarrow> Pair list \<Rightarrow> hash" where
  "node_at k 0 p = (if p = [] then k [2] else k (leaf_raw (p_key (hd p)) (p_value (hd p))))"
| "node_at k (Suc n) p = branch k (node_at k n (side (255 - n) 0 p)) (node_at k n (side (255 - n) 1 p))"

primrec node_strings :: "hashfn \<Rightarrow> nat \<Rightarrow> Pair list \<Rightarrow> byte list set" where
  "node_strings k 0 p = {if p = [] then [2] else leaf_raw (p_key (hd p)) (p_value (hd p))}"
| "node_strings k (Suc n) p =
     insert (branch_raw (node_at k n (side (255 - n) 0 p)) (node_at k n (side (255 - n) 1 p)))
       (node_strings k n (side (255 - n) 0 p) \<union> node_strings k n (side (255 - n) 1 p))"

primrec stored :: "hashfn \<Rightarrow> nodes \<Rightarrow> nat \<Rightarrow> Pair list \<Rightarrow> bool" where
  "stored k N 0 p \<longleftrightarrow> p = [] \<or> N (node_at k 0 p) = Some (leaf_raw (p_key (hd p)) (p_value (hd p)))"
| "stored k N (Suc n) p \<longleftrightarrow> p = []
     \<or> N (node_at k (Suc n) p) = Some (branch_raw (node_at k n (side (255 - n) 0 p)) (node_at k n (side (255 - n) 1 p)))
       \<and> stored k N n (side (255 - n) 0 p) \<and> stored k N n (side (255 - n) 1 p)"

lemma node_at_Nil [simp]: "node_at k n [] = empty_up k n"
  by (induction n) simp_all

lemma stored_Nil [simp]: "stored k N n []"
  by (cases n) simp_all

lemma stored_mono: "N \<subseteq>\<^sub>m N' \<Longrightarrow> stored k N n p \<Longrightarrow> stored k N' n p"
  by (induction n arbitrary: p) (auto simp: map_le_def dom_def)

definition hashed :: "hashfn \<Rightarrow> byte list set \<Rightarrow> nodes \<Rightarrow> bool" where
  "hashed k S N \<longleftrightarrow> (\<forall>h raw. N h = Some raw \<longrightarrow> raw \<in> S \<and> k raw = h)"

lemma hashed_add:
  assumes "inj_on k S" "hashed k S N" "raw \<in> S"
  shows "hashed k S (N(k raw \<mapsto> raw)) \<and> N \<subseteq>\<^sub>m N(k raw \<mapsto> raw)"
  using assms by (auto simp: hashed_def map_le_def dom_def dest: inj_onD)

lemma build_stores:
  assumes inj: "inj_on k S"
  shows "under (256 - n) q p \<Longrightarrow> n \<le> 256 \<Longrightarrow> node_strings k n p \<subseteq> S \<Longrightarrow> hashed k S N
    \<Longrightarrow> \<exists>N'. build k p (256 - n) N = (node_at k n p, N') \<and> N \<subseteq>\<^sub>m N' \<and> hashed k S N' \<and> stored k N' n p"
proof (induction n arbitrary: p q N)
  case 0
  show ?case
  proof (cases "p = []")
    case False
    then show ?thesis using 0 hashed_add [OF inj, of N] by (simp add: build.simps [of k p] Let_def)
  qed (use 0 in \<open>simp add: build.simps Empty_def\<close>)
next
  case (Suc n)
  show ?case
  proof (cases "p = []")
    case False
    define d where "d = 256 - Suc n"
    have d: "255 - n = d" "d < 256" "256 - n = Suc d" using Suc.prems(2) by (auto simp: d_def)
    have ud: "under d q p" using Suc.prems(1) by (simp only: d_def)
    have u: "under (Suc d) (2 * q) (side d 0 p)" "under (Suc d) (2 * q + 1) (side d 1 p)"
      using under_side [OF ud d(2)] by simp_all
    have s: "node_strings k n (side d 0 p) \<subseteq> S" "node_strings k n (side d 1 p) \<subseteq> S"
      "branch_raw (node_at k n (side d 0 p)) (node_at k n (side d 1 p)) \<in> S"
      using Suc.prems(3) d by auto
    obtain N1 where N1: "build k (side d 0 p) (Suc d) N = (node_at k n (side d 0 p), N1)" "N \<subseteq>\<^sub>m N1" "hashed k S N1"
        "stored k N1 n (side d 0 p)"
      using Suc.IH [of "2 * q" "side d 0 p" N] u(1) s(1) Suc.prems(2,4) d by auto
    obtain N2 where N2: "build k (side d 1 p) (Suc d) N1 = (node_at k n (side d 1 p), N2)" "N1 \<subseteq>\<^sub>m N2" "hashed k S N2"
        "stored k N2 n (side d 1 p)"
      using Suc.IH [of "2 * q + 1" "side d 1 p" N1] u(2) s(2) Suc.prems(2) N1(3) d by auto
    let ?raw = "branch_raw (node_at k n (side d 0 p)) (node_at k n (side d 1 p))"
    let ?N' = "N2(k ?raw \<mapsto> ?raw)"
    have N': "hashed k S ?N'" "N2 \<subseteq>\<^sub>m ?N'" using hashed_add [OF inj N2(3) s(3)] by auto
    have "build k p d N = (node_at k (Suc n) p, ?N')"
      using False d split_sides [OF ud d(2)] N1(1) N2(1)
      by (simp add: build.simps [of k p d] Let_def branch_def)
    moreover have "stored k ?N' (Suc n) p"
      using d stored_mono [OF map_le_trans [OF N2(2) N'(2)] N1(4)] stored_mono [OF N'(2) N2(4)] by (simp add: branch_def)
    moreover have "N \<subseteq>\<^sub>m ?N'" using N1(2) N2(2) N'(2) by (blast intro: map_le_trans)
    ultimately show ?thesis using N'(1) unfolding d_def by blast
  qed (use Suc in \<open>simp add: build.simps Empty_def\<close>)
qed

section \<open>Lookup and paths\<close>

lemma raw_inject [simp]:
  "branch_raw l r = branch_raw l' r' \<longleftrightarrow> l = l' \<and> r = r'"
  "leaf_raw a v = leaf_raw a' v' \<longleftrightarrow> a = a' \<and> v = v'"
  "branch_raw l r \<noteq> leaf_raw a v" "leaf_raw a v \<noteq> branch_raw l r"
  "branch_raw l r \<noteq> [2]" "[2] \<noteq> branch_raw l r" "leaf_raw a v \<noteq> [2]" "[2] \<noteq> leaf_raw a v"
  by (auto simp: branch_raw_def leaf_raw_def)

lemma raw_parts [simp]:
  "of_be (take 32 (drop (Suc 0) (branch_raw l r))) = l" "of_be (drop 33 (branch_raw l r)) = r"
  "drop 33 (leaf_raw a v) = v" "length (branch_raw l r) = 65" "length (leaf_raw a v) = 33 + length v"
  by (simp_all add: branch_raw_def leaf_raw_def drop_Cons' of_be_be_bytes)

definition value_in :: "Pair list \<Rightarrow> hash \<Rightarrow> byte list" where
  "value_in p key = (case find (\<lambda>x. p_key x = key) p of None \<Rightarrow> [] | Some x \<Rightarrow> p_value x)"

lemma value_in_Nil [simp]: "value_in [] key = []"
  by (simp add: value_in_def)

lemma value_in_Cons: "value_in (x # p) key = (if p_key x = key then p_value x else value_in p key)"
  by (simp add: value_in_def)

lemma value_in_side: "value_in (side d (bit_at key d) p) key = value_in p key"
  by (induction p) (auto simp: side_def value_in_Cons)

definition end_raw :: "hash \<Rightarrow> byte list \<Rightarrow> byte list" where
  "end_raw key v = (if v = [] then [2] else leaf_raw key v)"

primrec climb :: "hashfn \<Rightarrow> hash \<Rightarrow> nat \<Rightarrow> hash list \<Rightarrow> hash \<Rightarrow> hash" where
  "climb k key d [] h = h"
| "climb k key d (s # ss) h =
     (if bit_at key d = 0 then branch k (climb k key (Suc d) ss h) s else branch k s (climb k key (Suc d) ss h))"

primrec climb_strings :: "hashfn \<Rightarrow> hash \<Rightarrow> nat \<Rightarrow> hash list \<Rightarrow> hash \<Rightarrow> byte list set" where
  "climb_strings k key d [] h = {}"
| "climb_strings k key d (s # ss) h =
     insert (if bit_at key d = 0 then branch_raw (climb k key (Suc d) ss h) s else branch_raw s (climb k key (Suc d) ss h))
       (climb_strings k key (Suc d) ss h)"

lemma foldr_climb:
  "d \<le> 256 \<Longrightarrow> length (tp_siblings p) = 256
   \<Longrightarrow> foldr (verify_step k p) [d..<256] h = climb k (tp_key p) d (drop d (tp_siblings p)) h"
proof (induction d rule: inc_induct)
  case (step n)
  then have "drop n (tp_siblings p) = tp_siblings p ! n # drop (Suc n) (tp_siblings p)" by (simp add: Cons_nth_drop_Suc)
  moreover have "[n..<256] = n # [Suc n..<256]" using step by (simp add: upt_conv_Cons)
  ultimately show ?case using step by (simp add: verify_step_def)
qed simp

lemma VerifyProof_climb:
  "VerifyProof k r p \<longleftrightarrow> length (tp_siblings p) = 256
     \<and> climb k (tp_key p) 0 (tp_siblings p) (k (end_raw (tp_key p) (tp_value p))) = r"
  using foldr_climb [of 0 p k] by (auto simp: VerifyProof_def Let_def end_raw_def Empty_def)

text \<open>A non-empty subtree never has the hash of an empty one.\<close>

lemma node_at_empty:
  "n \<le> 256 \<Longrightarrow> inj_on k (node_strings k n p \<union> node_strings k n []) \<Longrightarrow> node_at k n p = empty_up k n \<Longrightarrow> p = []"
proof (induction n arbitrary: p)
  case 0
  then show ?case by (auto split: if_splits dest: inj_onD)
next
  case (Suc n)
  let ?l = "side (255 - n) 0 p" and ?r = "side (255 - n) 1 p"
  have "branch_raw (node_at k n ?l) (node_at k n ?r) = branch_raw (empty_up k n) (empty_up k n)"
    by (rule inj_onD [OF Suc.prems(2)]) (use Suc.prems(3) in \<open>simp_all add: branch_def\<close>)
  then have "node_at k n ?l = empty_up k n" "node_at k n ?r = empty_up k n" by simp_all
  moreover have "inj_on k (node_strings k n ?l \<union> node_strings k n [])" "inj_on k (node_strings k n ?r \<union> node_strings k n [])"
    using Suc.prems(2) by (auto intro: inj_on_subset)
  ultimately have "?l = []" "?r = []" using Suc.IH Suc.prems(1) by simp_all
  moreover have "255 - n < (256::nat)" by linarith
  ultimately have "x \<notin> set p" for x using bit_at_01 [of "255 - n" "p_key x"] by (auto simp: side_def filter_empty_conv)
  then show ?case by (metis hd_in_set)
qed

lemma climb_empty:
  "climb k key d (map (\<lambda>j. Empty k (j + 1)) [d..<256]) (k [2]) = Empty k d
   \<and> climb_strings k key d (map (\<lambda>j. Empty k (j + 1)) [d..<256]) (k [2]) \<subseteq> node_strings k (256 - d) []"
proof (cases "d \<le> 256")
  case True
  then show ?thesis
  proof (induction d rule: inc_induct)
    case (step n)
    then have e: "[n..<256] = n # [Suc n..<256]" "256 - n = Suc (256 - Suc n)" by (simp_all add: upt_conv_Cons)
    then have "Empty k n = branch k (Empty k (Suc n)) (Empty k (Suc n))" by (simp add: Empty_def)
    then show ?case using step e by (auto simp: Empty_def)
  qed (simp add: Empty_def)
qed (simp add: Empty_def)

section \<open>Proofs are complete and sound\<close>

lemma proof_loop_complete:
  assumes "n \<le> 256"
  shows "under (256 - n) (prefix (256 - n) key) p \<Longrightarrow> \<forall>x \<in> set p. p_value x \<noteq> []
    \<Longrightarrow> inj_on k (node_strings k n p \<union> node_strings k n []) \<Longrightarrow> stored k N n p
    \<Longrightarrow> \<exists>ss. proof_loop k N key (256 - n) (node_at k n p) = Some (ss, value_in p key) \<and> length ss = n
      \<and> climb k key (256 - n) ss (k (end_raw key (value_in p key))) = node_at k n p
      \<and> insert (end_raw key (value_in p key)) (climb_strings k key (256 - n) ss (k (end_raw key (value_in p key))))
         \<subseteq> node_strings k n p \<union> node_strings k n []"
  using assms
proof (induction n arbitrary: p)
  case 0
  show ?case
  proof (cases p)
    case (Cons x xs)
    then have "xs = []" using under_bottom [of _ p x] 0 by simp
    moreover have "p_key x = key" using 0 Cons unfolding under_def by (simp add: word_unat_eq_iff)
    moreover have "k (leaf_raw (p_key x) (p_value x)) \<noteq> k [2]"
      using 0 Cons by (auto dest: inj_onD)
    ultimately show ?thesis using 0 Cons
      by (simp add: proof_loop.simps [of k N key 256] Empty_def value_in_Cons end_raw_def)
  qed (simp add: proof_loop.simps [of k N key 256] Empty_def end_raw_def)
next
  case (Suc n)
  define d where "d = 256 - Suc n"
  have d: "255 - n = d" "d < 256" "256 - n = Suc d" "256 - d = Suc n" using Suc.prems(5) by (auto simp: d_def)
  have last2: "[2] \<in> node_strings k m []" for m by (induction m) auto
  show ?case
  proof (cases "p = []")
    case True
    then show ?thesis
      using climb_empty [of k key d] d last2 [of "Suc n"] unfolding d_def [symmetric]
      by (simp add: proof_loop.simps [of k N key d] Empty_def end_raw_def del: node_strings.simps)
  next
    case False
    let ?b = "bit_at key d"
    have ud: "under d (prefix d key) p" using Suc.prems(1) by (simp only: d_def)
    have b: "?b = 0 \<or> ?b = 1" using bit_at_01 d by simp
    have u: "under (Suc d) (prefix (Suc d) key) (side d ?b p)"
      using under_side [OF ud d(2)] b prefix_Suc [OF d(2), of key] by auto
    have inj: "inj_on k (node_strings k n (side d ?b p) \<union> node_strings k n [])"
      using Suc.prems(3) b d by (auto intro: inj_on_subset)
    have st: "stored k N n (side d ?b p)" using Suc.prems(4) False b d by auto
    have "\<forall>x \<in> set (side d ?b p). p_value x \<noteq> []" using Suc.prems(2) by (simp add: side_def)
    then obtain ss where ss: "proof_loop k N key (Suc d) (node_at k n (side d ?b p)) = Some (ss, value_in p key)" "length ss = n"
        "climb k key (Suc d) ss (k (end_raw key (value_in p key))) = node_at k n (side d ?b p)"
        "insert (end_raw key (value_in p key)) (climb_strings k key (Suc d) ss (k (end_raw key (value_in p key))))
          \<subseteq> node_strings k n (side d ?b p) \<union> node_strings k n []"
      using Suc.IH [of "side d ?b p"] u inj st Suc.prems(5) d by (auto simp: value_in_side)
    have ne: "node_at k (Suc n) p \<noteq> Empty k d"
      using node_at_empty [OF Suc.prems(5,3)] False d by (auto simp: Empty_def)
    have N: "N (node_at k (Suc n) p) = Some (branch_raw (node_at k n (side d 0 p)) (node_at k n (side d 1 p)))"
      using Suc.prems(4) False d by simp
    let ?s = "node_at k n (side d (if ?b = 0 then 1 else 0) p)"
    have "proof_loop k N key d (node_at k (Suc n) p) = Some (?s # ss, value_in p key)"
      using ne N d ss(1) b by (subst proof_loop.simps) (auto simp: Let_def)
    moreover have "climb k key d (?s # ss) (k (end_raw key (value_in p key))) = node_at k (Suc n) p"
      using ss(3) b d by auto
    moreover have "climb_strings k key d (?s # ss) (k (end_raw key (value_in p key)))
        \<subseteq> node_strings k (Suc n) p \<union> node_strings k (Suc n) []"
      using ss(3,4) b d by auto
    ultimately show ?thesis using ss(2,4) b d unfolding d_def [symmetric] by (intro exI [of _ "?s # ss"]) auto
  qed
qed

lemma climb_sound:
  assumes "n \<le> 256"
  shows "under (256 - n) (prefix (256 - n) key) p \<Longrightarrow> \<forall>x \<in> set p. p_value x \<noteq> [] \<Longrightarrow> length ss = n
    \<Longrightarrow> inj_on k (node_strings k n p \<union> insert (end_raw key v) (climb_strings k key (256 - n) ss (k (end_raw key v))))
    \<Longrightarrow> climb k key (256 - n) ss (k (end_raw key v)) = node_at k n p \<Longrightarrow> value_in p key = v"
  using assms
proof (induction n arbitrary: p ss)
  case 0
  show ?case
  proof (cases p)
    case (Cons x xs)
    then have "p_key x = key" using 0 unfolding under_def by (simp add: word_unat_eq_iff)
    moreover have "end_raw key v = leaf_raw (p_key x) (p_value x)"
      by (rule inj_onD [OF "0.prems"(4)]) (use "0.prems"(3,5) Cons in simp_all)
    ultimately show ?thesis using Cons by (auto simp: end_raw_def value_in_Cons split: if_splits)
  next
    case Nil
    have "end_raw key v = [2]"
      by (rule inj_onD [OF "0.prems"(4)]) (use "0.prems"(3,5) Nil in simp_all)
    then show ?thesis using Nil by (auto simp: end_raw_def split: if_splits)
  qed
next
  case (Suc n)
  define d where "d = 256 - Suc n"
  have d: "255 - n = d" "d < 256" "256 - n = Suc d" using Suc.prems(6) by (auto simp: d_def)
  let ?b = "bit_at key d"
  have ud: "under d (prefix d key) p" using Suc.prems(1) by (simp only: d_def)
  have b: "?b = 0 \<or> ?b = 1" using bit_at_01 d by simp
  have u: "under (Suc d) (prefix (Suc d) key) (side d ?b p)"
    using under_side [OF ud d(2)] b prefix_Suc [OF d(2), of key] by auto
  obtain s ss' where ss: "ss = s # ss'" "length ss' = n" using Suc.prems(3) by (cases ss) auto
  let ?c = "climb k key (Suc d) ss' (k (end_raw key v))"
  have i: "inj_on k (node_strings k (Suc n) p \<union> insert (end_raw key v) (climb_strings k key d ss (k (end_raw key v))))"
    using Suc.prems(4) by (simp only: d_def)
  have "(if ?b = 0 then branch_raw ?c s else branch_raw s ?c)
      = branch_raw (node_at k n (side d 0 p)) (node_at k n (side d 1 p))"
    by (rule inj_onD [OF i]) (use Suc.prems(5) ss d in \<open>auto simp: d_def [symmetric] branch_def\<close>)
  then have c: "?c = node_at k n (side d ?b p)" using b by auto
  have "inj_on k (node_strings k n (side d ?b p) \<union> insert (end_raw key v) (climb_strings k key (Suc d) ss' (k (end_raw key v))))"
    by (rule inj_on_subset [OF i]) (use b d ss in auto)
  then have "value_in (side d ?b p) key = v"
    using Suc.IH [of "side d ?b p" ss'] u ss c Suc.prems(2,6) d by (simp add: side_def)
  then show ?case by (simp add: value_in_side)
qed

section \<open>The trie as a commitment\<close>

definition valid_items :: "Pair list \<Rightarrow> bool" where
  "valid_items items \<longleftrightarrow> distinct (map p_key items) \<and> (\<forall>x \<in> set items. p_value x \<noteq> [])"

definition trie_strings :: "hashfn \<Rightarrow> Pair list \<Rightarrow> byte list set" where
  "trie_strings k items = node_strings k 256 (sort_key p_key items) \<union> node_strings k 256 []"

definition proof_strings :: "hashfn \<Rightarrow> TrieProof \<Rightarrow> byte list set" where
  "proof_strings k p = insert (end_raw (tp_key p) (tp_value p))
     (climb_strings k (tp_key p) 0 (tp_siblings p) (k (end_raw (tp_key p) (tp_value p))))"

lemma check_pairs_None:
  "sorted (map p_key p) \<Longrightarrow> \<forall>q. prev = Some q \<longrightarrow> (\<forall>x \<in> set p. q \<le> p_key x)
   \<Longrightarrow> check_pairs prev p = None \<longleftrightarrow> (\<forall>x \<in> set p. p_value x \<noteq> []) \<and> sorted_wrt (<) (map p_key p)
     \<and> (\<forall>q. prev = Some q \<longrightarrow> (\<forall>x \<in> set p. q < p_key x))"
proof (induction prev p rule: check_pairs.induct)
  case (2 prev x xs)
  show ?case
  proof (cases "p_value x = [] \<or> prev = Some (p_key x)")
    case False
    then have "check_pairs (Some (p_key x)) xs = None \<longleftrightarrow> (\<forall>y \<in> set xs. p_value y \<noteq> []) \<and> sorted_wrt (<) (map p_key xs)
       \<and> (\<forall>y \<in> set xs. p_key x < p_key y)"
      using "2.IH" "2.prems"(1) by simp
    moreover have "\<forall>q. prev = Some q \<longrightarrow> q < p_key x" using False "2.prems"(2) by (auto simp: order.strict_iff_order)
    ultimately show ?thesis using False by (auto intro: order.strict_trans)
  qed auto
qed simp

lemma sort_valid:
  "sorted_wrt (<) (map p_key (sort_key p_key items)) \<longleftrightarrow> distinct (map p_key items)"
proof -
  have "sorted_wrt (<) (map p_key (sort_key p_key items))
      \<longleftrightarrow> distinct (map p_key (sort_key p_key items))"
    by (simp add: strict_sorted_iff)
  also have "\<dots> \<longleftrightarrow> distinct (map p_key items)"
    using mset_sort [of p_key items] by (metis mset_eq_imp_distinct_iff mset_map)
  finally show ?thesis .
qed

lemma check_valid: "check_pairs None (sort_key p_key items) = None \<longleftrightarrow> valid_items items"
  by (simp add: check_pairs_None valid_items_def sort_valid conj_commute)

lemma under_top: "valid_items items \<Longrightarrow> under 0 0 (sort_key p_key items)"
  by (simp add: under_def sort_valid valid_items_def)

lemma value_in_mem: "distinct (map p_key p) \<Longrightarrow> x \<in> set p \<Longrightarrow> value_in p (p_key x) = p_value x"
  by (induction p) (auto simp: value_in_Cons rev_image_eqI)

lemma value_in_absent: "key \<notin> p_key ` set p \<Longrightarrow> value_in p key = []"
  by (induction p) (auto simp: value_in_Cons)

lemma value_in_sort: "distinct (map p_key p) \<Longrightarrow> value_in (sort_key p_key p) key = value_in p key"
proof (cases "key \<in> p_key ` set p")
  case True
  assume d: "distinct (map p_key p)"
  then have "distinct (map p_key (sort_key p_key p))" using sort_valid by (metis strict_sorted_iff)
  then show ?thesis using True d by (auto simp: value_in_mem)
qed (simp add: value_in_absent)

lemma NewTrie_valid:
  "valid_items items \<Longrightarrow> NewTrie k items = (case build k (sort_key p_key items) 0 Map.empty of
     (h, N) \<Rightarrow> Inr \<lparr>tr_root = h, tr_nodes = N, tr_items = sort_key p_key items\<rparr>)"
  using check_valid [of items] by (simp add: NewTrie_def Let_def)

lemma build_root:
  "under (256 - n) q p \<Longrightarrow> n \<le> 256 \<Longrightarrow> fst (build k p (256 - n) N) = node_at k n p"
proof (induction n arbitrary: p q N)
  case 0
  then show ?case by (simp add: build.simps [of k p] Let_def Empty_def)
next
  case (Suc n)
  define d where "d = 256 - Suc n"
  have d: "255 - n = d" "d < 256" "256 - n = Suc d" using Suc.prems(2) by (auto simp: d_def)
  have ud: "under d q p" using Suc.prems(1) by (simp only: d_def)
  have IH: "fst (build k (side d 0 p) (Suc d) N) = node_at k n (side d 0 p)"
    "fst (build k (side d 1 p) (Suc d) N) = node_at k n (side d 1 p)" for N
    using Suc.IH [of "2 * q" "side d 0 p" N] Suc.IH [of "2 * q + 1" "side d 1 p" N] under_side [OF ud d(2)] d Suc.prems(2)
    by auto
  show ?case
  proof (cases "p = []")
    case False
    then have "fst (build k p d N) = node_at k (Suc n) p"
      using split_sides [OF ud d(2)] IH d
      by (simp add: build.simps [of k p d] Let_def branch_def case_prod_beta)
    then show ?thesis by (simp add: d_def)
  qed (use Suc in \<open>simp add: build.simps Empty_def\<close>)
qed

lemma NewTrie_ok:
  "valid_items items \<Longrightarrow> \<exists>t. NewTrie k items = Inr t \<and> tr_root t = node_at k 256 (sort_key p_key items)"
  using build_root [of 256 0 "sort_key p_key items" k] under_top [of items]
  by (auto simp: NewTrie_valid prod.case_eq_if)

lemma NewTrie_proofs:
  assumes v: "valid_items items" and inj: "inj_on k (trie_strings k items)" and t: "NewTrie k items = Inr t"
  shows "\<exists>p. TrieProof_of k t key = Some p \<and> tp_key p = key \<and> tp_value p = value_in items key
    \<and> VerifyProof k (tr_root t) p \<and> proof_strings k p \<subseteq> trie_strings k items"
proof -
  let ?p = "sort_key p_key items"
  have u: "under (256 - 256) (prefix (256 - 256) key) ?p" using under_top [OF v] by simp
  have "hashed k (trie_strings k items) Map.empty" by (simp add: hashed_def)
  then obtain N where N: "build k ?p (256 - 256) Map.empty = (node_at k 256 ?p, N)" "stored k N 256 ?p"
    using build_stores [OF inj u order_refl, of Map.empty] unfolding trie_strings_def by auto
  have tt: "t = \<lparr>tr_root = node_at k 256 ?p, tr_nodes = N, tr_items = ?p\<rparr>"
    using t N(1) NewTrie_valid [OF v, of k] by simp
  have vals: "\<forall>x \<in> set ?p. p_value x \<noteq> []" using v by (simp add: valid_items_def)
  have val: "value_in ?p key = value_in items key" using v by (simp add: valid_items_def value_in_sort)
  obtain ss where ss: "proof_loop k N key (256 - 256) (node_at k 256 ?p) = Some (ss, value_in items key)" "length ss = 256"
      "climb k key (256 - 256) ss (k (end_raw key (value_in items key))) = node_at k 256 ?p"
      "insert (end_raw key (value_in items key)) (climb_strings k key (256 - 256) ss (k (end_raw key (value_in items key))))
         \<subseteq> node_strings k 256 ?p \<union> node_strings k 256 []"
    using proof_loop_complete [OF order_refl u vals _ N(2)] inj unfolding trie_strings_def val by blast
  then show ?thesis
    by (intro exI [of _ "\<lparr>tp_key = key, tp_value = value_in items key, tp_siblings = ss\<rparr>"])
      (simp add: tt TrieProof_of_def VerifyProof_climb proof_strings_def trie_strings_def)
qed

lemma NewTrie_sound:
  assumes v: "valid_items items" and t: "NewTrie k items = Inr t"
    and inj: "inj_on k (trie_strings k items \<union> proof_strings k p)" and ok: "VerifyProof k (tr_root t) p"
  shows "value_in items (tp_key p) = tp_value p"
proof -
  let ?p = "sort_key p_key items"
  have u: "under (256 - 256) (prefix (256 - 256) (tp_key p)) ?p" using under_top [OF v] by simp
  have r: "tr_root t = node_at k 256 ?p" using NewTrie_ok [OF v, of k] t by simp
  have "inj_on k (node_strings k 256 ?p \<union> insert (end_raw (tp_key p) (tp_value p))
      (climb_strings k (tp_key p) (256 - 256) (tp_siblings p) (k (end_raw (tp_key p) (tp_value p)))))"
    by (rule inj_on_subset [OF inj]) (auto simp: trie_strings_def proof_strings_def)
  then have "value_in ?p (tp_key p) = tp_value p"
    using climb_sound [OF order_refl u, of "tp_siblings p" k "tp_value p"] v ok r
    by (simp add: valid_items_def VerifyProof_climb)
  then show ?thesis using v by (simp add: valid_items_def value_in_sort)
qed

definition trie_root :: "hashfn \<Rightarrow> Pair list \<Rightarrow> hash" where
  "trie_root k items = (case NewTrie k items of Inr t \<Rightarrow> tr_root t | Inl _ \<Rightarrow> 0)"

definition trie_prove :: "hashfn \<Rightarrow> Pair list \<Rightarrow> hash \<times> byte list \<Rightarrow> TrieProof option" where
  "trie_prove k items c = (case NewTrie k items of Inr t \<Rightarrow> TrieProof_of k t (fst c) | Inl _ \<Rightarrow> None)"

interpretation trie: commitment k valid_items "\<lambda>_. True" "trie_root k"
    "\<lambda>items c. value_in items (fst c) = snd c" "trie_prove k"
    "\<lambda>r c p. tp_key p = fst c \<and> tp_value p = snd c \<and> VerifyProof k r p" "trie_strings k" "\<lambda>c p. proof_strings k p"
  for k
proof (unfold_locales, goal_cases)
  case (1 items c)
  obtain t where t: "NewTrie k items = Inr t" using NewTrie_ok 1(1) by blast
  then show ?case using NewTrie_proofs [OF 1(1,2) t, of "fst c"] 1(3) by (auto simp: trie_root_def trie_prove_def)
next
  case (2 items c p)
  obtain t where t: "NewTrie k items = Inr t" using NewTrie_ok 2(1) by blast
  then show ?case using NewTrie_sound [OF 2(1) t 2(3)] 2(4) by (simp add: trie_root_def)
qed

section \<open>A stand-in hash for concrete inputs\<close>

text \<open>It counts levels: the empty trees are numbered from 0, and the path to the only leaf, with
  key 0, from 1000. A string of 29 bytes hashes to 0, to serve as the key of that leaf.\<close>

definition level_hash :: hashfn where
  "level_hash s = (if s = [2] \<or> length s = 29 then 0 else if hd s = 0 then 1000
     else let l = of_be (take 32 (drop 1 s)); r = of_be (drop 33 s) in if l = r then r + 1 else l + 1)"

definition one_pair :: "Pair list" where
  "one_pair = [\<lparr>p_key = 0, p_value = [1]\<rparr>]"

definition pair_string :: "nat \<Rightarrow> nat \<Rightarrow> byte list" where
  "pair_string l r = branch_raw (word_of_nat l) (word_of_nat r)"

lemma small_hash_eq: "m < 2000 \<Longrightarrow> n < 2000 \<Longrightarrow> (word_of_nat m :: hash) = word_of_nat n \<longleftrightarrow> m = n"
  by (simp add: word_of_nat_eq_iff take_bit_nat_eq_self)

lemma level_hash_simps [simp]:
  "level_hash [2] = 0" "level_hash (leaf_raw a v) = 1000"
  "level_hash (branch_raw l r) = (if l = r then r + 1 else l + 1)"
  by (simp_all add: level_hash_def Let_def) (simp_all add: leaf_raw_def branch_raw_def)

lemma level_hash_pair:
  "l < 2000 \<Longrightarrow> r < 2000 \<Longrightarrow> level_hash (pair_string l r) = word_of_nat (if l = r then r + 1 else l + 1)"
  by (simp add: pair_string_def small_hash_eq)

lemma bit_at_0: "d < 256 \<Longrightarrow> bit_at 0 d = 0"
  by (simp add: bit_at_prefix prefix_def)

lemma one_pair_side: "d < 256 \<Longrightarrow> side d 0 one_pair = one_pair \<and> side d 1 one_pair = []"
  by (simp add: side_def one_pair_def bit_at_0)

lemma level_empty: "empty_up level_hash n = word_of_nat n"
  by (induction n) (simp_all add: branch_def)

lemma level_node: "n \<le> 256 \<Longrightarrow> node_at level_hash n one_pair = word_of_nat (1000 + n)"
proof (induction n)
  case (Suc n)
  have "side (255 - n) 0 one_pair = one_pair" "side (255 - n) 1 one_pair = []" using one_pair_side [of "255 - n"] by simp_all
  moreover have "(word_of_nat (1000 + n) :: hash) \<noteq> word_of_nat n" using Suc.prems by (simp only: small_hash_eq)
  ultimately show ?case using Suc by (simp add: level_empty branch_def)
qed (simp add: one_pair_def)

text \<open>The strings by the number they hash to.\<close>

definition level_string :: "nat \<Rightarrow> byte list" where
  "level_string i = (if i = 0 then [2] else if i \<le> 256 then pair_string (i - 1) (i - 1)
     else if i = 1000 then leaf_raw 0 [1] else pair_string (i - 1) (i - 1001))"

definition level_range :: "nat set" where
  "level_range = {..256} \<union> {1000..1256}"

lemma level_hash_string:
  assumes "i \<in> level_range" shows "level_hash (level_string i) = word_of_nat i"
proof -
  consider "i = 0" | "0 < i" "i \<le> 256" | "i = 1000" | "1000 < i" "i \<le> 1256" using assms by (force simp: level_range_def)
  then show ?thesis
  proof cases
    case 2
    then show ?thesis using level_hash_pair [of "i - 1" "i - 1"] by (simp add: level_string_def)
  next
    case 4
    then have "i - 1 \<noteq> i - 1001" by simp
    then show ?thesis using 4 level_hash_pair [of "i - 1" "i - 1001"] by (simp add: level_string_def)
  qed (simp_all add: level_string_def)
qed

lemma level_hash_inj: "inj_on level_hash (level_string ` level_range)"
proof (rule inj_onI)
  fix x y assume "x \<in> level_string ` level_range" "y \<in> level_string ` level_range" "level_hash x = level_hash y"
  then obtain i j where ij: "x = level_string i" "i \<in> level_range" "y = level_string j" "j \<in> level_range"
      "(word_of_nat i :: hash) = word_of_nat j" by (auto simp: level_hash_string)
  then have "i < 2000" "j < 2000" by (auto simp: level_range_def)
  then show "x = y" using ij small_hash_eq by simp
qed

lemma level_empty_strings: "n \<le> 256 \<Longrightarrow> node_strings level_hash n [] \<subseteq> level_string ` level_range"
proof (induction n)
  case 0
  have "[2] = level_string 0" by (simp add: level_string_def)
  then show ?case by (simp add: level_range_def)
next
  case (Suc n)
  have "branch_raw (empty_up level_hash n) (empty_up level_hash n) = level_string (Suc n)"
    using Suc.prems by (simp add: level_string_def pair_string_def level_empty)
  then show ?case using Suc by (auto simp: level_range_def)
qed

lemma level_strings: "n \<le> 256 \<Longrightarrow> node_strings level_hash n one_pair \<subseteq> level_string ` level_range"
proof (induction n)
  case 0
  have "leaf_raw 0 [1] = level_string 1000" by (simp add: level_string_def)
  then show ?case by (simp add: one_pair_def level_range_def)
next
  case (Suc n)
  have s: "side (255 - n) 0 one_pair = one_pair" "side (255 - n) 1 one_pair = []" using one_pair_side [of "255 - n"] by simp_all
  have "branch_raw (node_at level_hash n one_pair) (empty_up level_hash n) = level_string (1001 + n)"
    using Suc.prems level_node [of n] by (simp add: level_string_def pair_string_def level_empty)
  moreover have "1001 + n \<in> level_range" using Suc.prems by (simp add: level_range_def)
  ultimately show ?case using Suc level_empty_strings [of n] by (simp add: s)
qed

lemma sort_one_pair [simp]: "sort_key p_key one_pair = one_pair"
  by (simp add: one_pair_def)

lemma one_pair_valid: "valid_items one_pair"
  by (simp add: valid_items_def one_pair_def)

lemma one_pair_inj: "inj_on level_hash (trie_strings level_hash one_pair)"
  by (rule inj_on_subset [OF level_hash_inj])
    (use level_strings [of 256] level_empty_strings [of 256] in \<open>auto simp: trie_strings_def\<close>)

section \<open>Properties\<close>

text \<open>\<open>NewTrie\<close> succeeds exactly for distinct keys with non-empty values; the root it builds
  by binary search, with implicit empty subtrees, is the root of the full tree of 256 levels, and
  the trie does not depend on the order of the pairs.\<close>

theorem NewTrie_builds_full_tree:
  "(if distinct (map p_key items) \<and> (\<forall>x \<in> set items. p_value x \<noteq> [])
    then (\<exists>t. NewTrie k items = Inr t \<and> tr_root t = node_at k 256 (sort_key p_key items)
       \<and> (\<forall>items'. mset items' = mset items \<longrightarrow> NewTrie k items' = Inr t))
    else \<exists>e. NewTrie k items = Inl e)"
proof (cases "valid_items items")
  case True
  then obtain t where t: "NewTrie k items = Inr t" "tr_root t = node_at k 256 (sort_key p_key items)"
    using NewTrie_ok by blast
  have "NewTrie k items' = Inr t" if "mset items' = mset items" for items'
  proof -
    have "inj_on p_key (set items)" using True by (simp add: valid_items_def distinct_map)
    then have "sort_key p_key items' = sort_key p_key items"
      using properties_for_sort_key [of "sort_key p_key items'" items p_key] that
      by (metis (no_types, lifting) distinct_map inj_on_filter_key_eq mset_eq_imp_distinct_iff mset_sort sort_key_inj_key_eq sorted_sort_key)
    then show ?thesis using t(1) by (simp add: NewTrie_def)
  qed
  then show ?thesis using t True by (auto simp: valid_items_def)
next
  case False
  then obtain e where "check_pairs None (sort_key p_key items) = Some e" using check_valid by blast
  then show ?thesis using False by (auto simp: NewTrie_def valid_items_def)
qed

lemma NewTrie_builds_full_tree_witness:
  "\<exists>t. NewTrie level_hash one_pair = Inr t \<and> tr_root t = 1256"
  using NewTrie_builds_full_tree [of one_pair level_hash] level_node [of 256]
  by (auto simp: one_pair_def [symmetric]) (auto simp: one_pair_def)

text \<open>The trie serves a proof for every key, present or absent: it carries the value stored
  under the key, empty if there is none, and verifies against the root, as long as Keccak does
  not collide on the strings hashed for the trie.\<close>

theorem trie_proofs_complete:
  assumes "NewTrie k items = Inr t" and "inj_on k (trie_strings k items)"
  shows "\<exists>p. TrieProof_of k t key = Some p \<and> tp_key p = key \<and> tp_value p = value_in items key
    \<and> VerifyProof k (tr_root t) p"
proof -
  have "valid_items items" using assms(1) check_valid [of items] by (auto simp: NewTrie_def split: option.splits)
  then show ?thesis using NewTrie_proofs [OF _ assms(2,1), of key] by blast
qed

lemma one_pair_trie: "\<exists>t. NewTrie level_hash one_pair = Inr t"
  using NewTrie_ok [OF one_pair_valid] by blast

theorem trie_proofs_complete_witness:
  "\<exists>t p. NewTrie level_hash one_pair = Inr t \<and> TrieProof_of level_hash t 5 = Some p \<and> tp_value p = []
    \<and> VerifyProof level_hash (tr_root t) p"
  using trie_proofs_complete [OF _ one_pair_inj, of _ 5] one_pair_trie by (auto simp: one_pair_def value_in_def)

text \<open>C32: A proof that verifies against the root of a trie carries the value stored under its key,
  and an empty value only if the key is absent, as long as Keccak does not collide on the strings
  hashed for the trie and for the check.\<close>

theorem trie_verify_sound:
  assumes "NewTrie k items = Inr t" and "VerifyProof k (tr_root t) p"
    and "inj_on k (trie_strings k items \<union> proof_strings k p)"
  shows "tp_value p = value_in items (tp_key p)"
proof -
  have "valid_items items" using assms(1) check_valid [of items] by (auto simp: NewTrie_def split: option.splits)
  then show ?thesis using NewTrie_sound [OF _ assms(1,3,2)] by simp
qed

theorem trie_verify_sound_witness:
  "\<exists>t p. NewTrie level_hash one_pair = Inr t \<and> VerifyProof level_hash (tr_root t) p \<and> tp_key p = 0 \<and> tp_value p = [1]"
proof -
  obtain t where t: "NewTrie level_hash one_pair = Inr t" using one_pair_trie by blast
  obtain p where p: "tp_key p = 0" "VerifyProof level_hash (tr_root t) p"
      "proof_strings level_hash p \<subseteq> trie_strings level_hash one_pair"
    using NewTrie_proofs [OF one_pair_valid one_pair_inj t, of 0] by blast
  have "inj_on level_hash (trie_strings level_hash one_pair \<union> proof_strings level_hash p)"
    using one_pair_inj p(3) by (simp add: Un_absorb2)
  from trie_verify_sound [OF t p(2) this] show ?thesis using t p by (auto simp: one_pair_def value_in_def)
qed

text \<open>Two tries with the same root hold the same value under every key, unless Keccak
  collides.\<close>

theorem trie_root_binds:
  assumes "NewTrie k items = Inr t" and "NewTrie k items' = Inr t'" and "tr_root t = tr_root t'"
    and "inj_on k (trie_strings k items \<union> trie_strings k items')"
  shows "value_in items key = value_in items' key"
proof -
  have "valid_items items" "valid_items items'"
    using assms(1,2) check_valid [of items] check_valid [of items'] by (auto simp: NewTrie_def split: option.splits)
  then show ?thesis
    using trie.binding [of items items' k "(key, value_in items key)"] assms by (simp add: trie_root_def)
qed

theorem trie_root_binds_witness:
  "\<exists>t. NewTrie level_hash one_pair = Inr t \<and> value_in one_pair 0 = [1]"
proof -
  obtain t where t: "NewTrie level_hash one_pair = Inr t" using one_pair_trie by blast
  have "value_in one_pair 0 = value_in one_pair 0"
    by (rule trie_root_binds [OF t t refl]) (simp add: one_pair_inj)
  then show ?thesis using t by (simp add: one_pair_def value_in_def)
qed

end
