(* ===== verification/UserState.thy ===== *)
theory UserState
  imports Trie
begin

text \<open>
  Account-authorised wallet state: \<open>internal/userstate/state.go\<close>. A snapshot commits to its
  entries with the trie and is signed by its account; a checkpoint commits to the newest snapshot
  of every account. What go-ethereum computes is bundled in the record \<open>crypto\<close>: Keccak-256, the
  EIP-712 digest of a message, the check of signature values and the recovery of the signer.
\<close>

section \<open>Data\<close>

definition MaxEntries :: nat where
  "MaxEntries = 2000"

text \<open>A weight is an \<open>int8\<close>, kept in two's complement.\<close>

record Entry =
  en_kind :: string
  en_chain :: string
  en_address :: address
  en_weight :: byte

record Snapshot =
  sn_version :: int
  sn_account :: address
  sn_root :: hash
  sn_revision :: string
  sn_previous :: hash
  sn_deadline :: string
  sn_entries :: "Entry list"
  sn_signature :: "byte list"

record TypedData =
  td_domain_name :: string
  td_domain_version :: string
  td_account :: address
  td_root :: hash
  td_revision :: string
  td_previous :: hash
  td_deadline :: string

record crypto =
  cr_keccak :: hashfn
  cr_typed :: "TypedData \<Rightarrow> hash option"
  cr_sigvals :: "byte \<Rightarrow> nat \<Rightarrow> nat \<Rightarrow> bool"
  cr_recover :: "hash \<Rightarrow> byte list \<Rightarrow> address option"

datatype state_error =
    BadDecimal | BadChainID | BadWeight | AssetWeight | UnknownKind
  | TooManyEntries | TooManyVerdicts | TooManyAssets | TrieErr trie_error
  | BadVersion | BadRevision | BadPrevious | RootMismatch | TypedErr
  | SigLength | SigForm | SigAccount
  | CheckpointVersion | AggregateMismatch | SnapshotCount | DuplicateAccount | SnapshotMismatch
  | BadRecord | BadRecordHash

section \<open>Entries\<close>

text \<open>\<open>big.Int.SetString\<close> in base 10 takes a sign and at least one digit.\<close>

definition set_string :: "string \<Rightarrow> int option" where
  "set_string s =
     (case s of CHR ''-'' # r \<Rightarrow> map_option (\<lambda>n. - int n) (dec_val r)
      | CHR ''+'' # r \<Rightarrow> map_option int (dec_val r)
      | _ \<Rightarrow> map_option int (dec_val s))"

definition Decimal :: "string \<Rightarrow> nat \<Rightarrow> state_error + nat" where
  "Decimal s bits =
     (case set_string s of None \<Rightarrow> Inl BadDecimal
      | Some v \<Rightarrow> if v < 0 \<or> v \<ge> 2 ^ bits \<or> dec_string (nat v) \<noteq> s then Inl BadDecimal else Inr (nat v))"

definition entry_raw :: "byte \<Rightarrow> nat \<Rightarrow> address \<Rightarrow> byte list" where
  "entry_raw ns c a = ns # be_bytes 8 (word_of_nat c :: u64) @ addr_bytes a"

definition EntryPair :: "hashfn \<Rightarrow> Entry \<Rightarrow> state_error + Pair" where
  "EntryPair k e =
     (case Decimal (en_chain e) 63 of Inl _ \<Rightarrow> Inl BadChainID
      | Inr c \<Rightarrow>
          if c = 0 then Inl BadChainID
          else if en_kind e = ''verdict'' then
            if en_weight e \<noteq> 1 \<and> en_weight e \<noteq> -1 then Inl BadWeight
            else Inr \<lparr>p_key = k (entry_raw 1 c (en_address e)), p_value = [en_weight e]\<rparr>
          else if en_kind e = ''asset'' then
            if en_weight e \<noteq> 0 then Inl AssetWeight
            else Inr \<lparr>p_key = k (entry_raw 2 c (en_address e)), p_value = [1]\<rparr>
          else Inl UnknownKind)"

text \<open>The loop of \<open>Build\<close>: verdicts per chain and assets so far, and the pairs.\<close>

fun build_loop :: "hashfn \<Rightarrow> (string \<Rightarrow> nat) \<Rightarrow> nat \<Rightarrow> Pair list \<Rightarrow> Entry list \<Rightarrow> state_error + nat \<times> Pair list" where
  "build_loop k counts assets p [] = Inr (assets, p)"
| "build_loop k counts assets p (e # es) =
     (case EntryPair k e of Inl err \<Rightarrow> Inl err
      | Inr v \<Rightarrow>
          if en_kind e = ''asset'' then build_loop k counts (assets + 1) (p @ [v]) es
          else let counts = counts(en_chain e := counts (en_chain e) + 1) in
            if counts (en_chain e) > 200 then Inl TooManyVerdicts
            else build_loop k counts assets (p @ [v]) es)"

definition BuildState :: "hashfn \<Rightarrow> Entry list \<Rightarrow> state_error + Trie" where
  "BuildState k entries =
     (if length entries > MaxEntries then Inl TooManyEntries
      else case build_loop k (\<lambda>_. 0) 0 [] entries of Inl e \<Rightarrow> Inl e
      | Inr (assets, p) \<Rightarrow>
          if assets > 200 then Inl TooManyAssets
          else case NewTrie k p of Inl e \<Rightarrow> Inl (TrieErr e) | Inr t \<Rightarrow> Inr t)"

section \<open>Snapshots\<close>

definition TypedData_of :: "Snapshot \<Rightarrow> TypedData" where
  "TypedData_of s = \<lparr>td_domain_name = ''evm-scan state'', td_domain_version = ''1'', td_account = sn_account s,
     td_root = sn_root s, td_revision = sn_revision s, td_previous = sn_previous s, td_deadline = sn_deadline s\<rparr>"

definition ID :: "crypto \<Rightarrow> Snapshot \<Rightarrow> hash option" where
  "ID cr s = cr_typed cr (TypedData_of s)"

definition norm_sig :: "byte list \<Rightarrow> byte list" where
  "norm_sig sig = (if sig ! 64 \<ge> 27 then sig[64 := sig ! 64 - 27] else sig)"

definition check_sig :: "crypto \<Rightarrow> hash \<Rightarrow> byte list \<Rightarrow> address \<Rightarrow> state_error option" where
  "check_sig cr idh sig0 account =
     (if length sig0 \<noteq> 65 then Some SigLength
      else let sig = norm_sig sig0 in
        if sig ! 64 > 1 \<or> \<not> cr_sigvals cr (sig ! 64) (be_nat (take 32 sig)) (be_nat (take 32 (drop 32 sig))) then Some SigForm
        else if cr_recover cr idh sig \<noteq> Some account then Some SigAccount
        else None)"

definition Validate :: "crypto \<Rightarrow> Snapshot \<Rightarrow> state_error + hash \<times> Trie" where
  "Validate cr s =
     (if sn_version s \<noteq> 1 then Inl BadVersion
      else case Decimal (sn_revision s) 64 of Inl _ \<Rightarrow> Inl BadRevision
      | Inr r \<Rightarrow>
          if r = 0 then Inl BadRevision
          else if (r = 1) \<noteq> (sn_previous s = 0) then Inl BadPrevious
          else case Decimal (sn_deadline s) 256 of Inl e \<Rightarrow> Inl e
          | Inr _ \<Rightarrow>
              (case BuildState (cr_keccak cr) (sn_entries s) of Inl e \<Rightarrow> Inl e
               | Inr t \<Rightarrow>
                   if tr_root t \<noteq> sn_root s then Inl RootMismatch
                   else case ID cr s of None \<Rightarrow> Inl TypedErr
                   | Some idh \<Rightarrow>
                       (case check_sig cr idh (sn_signature s) (sn_account s) of
                          Some e \<Rightarrow> Inl e | None \<Rightarrow> Inr (idh, t))))"

text \<open>\<open>strconv.ParseUint(s, 10, 64)\<close>.\<close>

definition ParseUint :: "string \<Rightarrow> nat option" where
  "ParseUint s = (case dec_val s of None \<Rightarrow> None | Some n \<Rightarrow> if n < 2 ^ 64 then Some n else None)"

definition Successor :: "crypto \<Rightarrow> Snapshot \<Rightarrow> Snapshot \<Rightarrow> bool" where
  "Successor cr previous nxt =
     (case ParseUint (sn_revision previous) of None \<Rightarrow> False
      | Some n \<Rightarrow>
          if n = 2 ^ 64 - 1 then False
          else case ID cr previous of None \<Rightarrow> False
          | Some idh \<Rightarrow> sn_account nxt = sn_account previous \<and> sn_previous nxt = idh
              \<and> sn_revision nxt = dec_string (n + 1))"

section \<open>Checkpoints\<close>

definition AccountKey :: "hashfn \<Rightarrow> address \<Rightarrow> hash" where
  "AccountKey k a = k (ascii ''evmscan/accounts/v1'' @ addr_bytes a)"

record AccountRevision =
  ar_account :: address
  ar_id :: hash

record Checkpoint =
  ck_version :: int
  ck_root :: hash
  ck_accounts :: "AccountRevision list"
  ck_snapshots :: "Snapshot list"

definition account_pair :: "hashfn \<Rightarrow> AccountRevision \<Rightarrow> Pair" where
  "account_pair k a = \<lparr>p_key = AccountKey k (ar_account a), p_value = hash_bytes (ar_id a)\<rparr>"

definition AggregateState :: "hashfn \<Rightarrow> AccountRevision list \<Rightarrow> trie_error + Trie" where
  "AggregateState k accounts = NewTrie k (map (account_pair k) accounts)"

fun snapshot_ids :: "crypto \<Rightarrow> (address \<rightharpoonup> hash) \<Rightarrow> Snapshot list \<Rightarrow> state_error + (address \<rightharpoonup> hash)" where
  "snapshot_ids cr m [] = Inr m"
| "snapshot_ids cr m (s # ss) =
     (case Validate cr s of Inl e \<Rightarrow> Inl e
      | Inr (idh, t) \<Rightarrow>
          if m (sn_account s) \<noteq> None then Inl DuplicateAccount
          else snapshot_ids cr (m(sn_account s \<mapsto> idh)) ss)"

text \<open>A missing entry of a Go map reads as the zero hash.\<close>

definition map_get :: "(address \<rightharpoonup> hash) \<Rightarrow> address \<Rightarrow> hash" where
  "map_get m a = (case m a of None \<Rightarrow> 0 | Some h \<Rightarrow> h)"

definition CheckpointValidate :: "crypto \<Rightarrow> Checkpoint \<Rightarrow> state_error option" where
  "CheckpointValidate cr c =
     (if ck_version c \<noteq> 1 then Some CheckpointVersion
      else case AggregateState (cr_keccak cr) (ck_accounts c) of Inl e \<Rightarrow> Some (TrieErr e)
      | Inr t \<Rightarrow>
          if tr_root t \<noteq> ck_root c then Some AggregateMismatch
          else if length (ck_snapshots c) \<noteq> length (ck_accounts c) then Some SnapshotCount
          else case snapshot_ids cr Map.empty (ck_snapshots c) of Inl e \<Rightarrow> Some e
          | Inr m \<Rightarrow>
              if \<exists>a \<in> set (ck_accounts c). map_get m (ar_account a) \<noteq> ar_id a then Some SnapshotMismatch else None)"

section \<open>Records\<close>

text \<open>\<open>common.Hash.Hex\<close> and \<open>hexutil.Decode\<close> are arguments.\<close>

definition record_prefix :: "string \<Rightarrow> string" where
  "record_prefix kind = ''evmscan:'' @ kind @ '':1:''"

definition Record :: "(hash \<Rightarrow> string) \<Rightarrow> string \<Rightarrow> hash \<Rightarrow> string" where
  "Record hex kind h = record_prefix kind @ hex h"

definition ParseRecord :: "(string \<Rightarrow> byte list option) \<Rightarrow> string \<Rightarrow> string \<Rightarrow> state_error + hash" where
  "ParseRecord decode kind s =
     (let prefix = record_prefix kind in
      if take (length prefix) s \<noteq> prefix then Inl BadRecord
      else case decode (drop (length prefix) s) of None \<Rightarrow> Inl BadRecordHash
      | Some b \<Rightarrow> if length b \<noteq> 32 then Inl BadRecordHash else Inr (of_be b))"

section \<open>Decimals\<close>

lemma dec_string_digits: "c \<in> set (dec_string n) \<Longrightarrow> 48 \<le> (of_char c :: nat)"
proof (induction n rule: dec_string.induct)
  case (1 n)
  then show ?case by (cases "n < 10") (auto simp: dec_string.simps [of n])
qed

lemma set_string_dec: "set_string (dec_string n) = Some (int n)"
proof -
  obtain c cs where c: "dec_string n = c # cs" by (cases "dec_string n") auto
  then have "48 \<le> (of_char c :: nat)" using dec_string_digits [of c n] by simp
  then have "c \<noteq> CHR ''-''" "c \<noteq> CHR ''+''" by auto
  then have "set_string (c # cs) = map_option int (dec_val (c # cs))"
    by (simp add: set_string_def split: char.splits bool.splits)
  then show ?thesis by (simp only: c [symmetric]) simp
qed

lemma Decimal_iff: "Decimal s bits = Inr n \<longleftrightarrow> s = dec_string n \<and> n < 2 ^ bits"
proof
  assume "Decimal s bits = Inr n"
  then obtain v where v: "set_string s = Some v" "0 \<le> v" "v < 2 ^ bits" "dec_string (nat v) = s" "nat v = n"
    by (auto simp: Decimal_def split: option.splits if_splits)
  have "nat v < 2 ^ bits" using v(2,3) by (simp add: nat_less_iff)
  then show "s = dec_string n \<and> n < 2 ^ bits" using v by simp
next
  assume a: "s = dec_string n \<and> n < 2 ^ bits"
  then have "int n < 2 ^ bits" by (metis of_nat_less_iff of_nat_numeral of_nat_power)
  then show "Decimal s bits = Inr n" using a by (simp add: Decimal_def set_string_dec)
qed

lemma Decimal_err: "Decimal s bits = Inl e \<Longrightarrow> e = BadDecimal"
  by (auto simp: Decimal_def split: option.splits if_splits)

lemma ParseUint_dec: "n < 2 ^ 64 \<Longrightarrow> ParseUint (dec_string n) = Some n"
  by (simp add: ParseUint_def)

section \<open>Entries and their keys\<close>

definition entry_slot :: "Entry \<Rightarrow> string \<times> string \<times> address" where
  "entry_slot e = (en_kind e, en_chain e, en_address e)"

definition entry_ok :: "Entry \<Rightarrow> bool" where
  "entry_ok e \<longleftrightarrow> (\<exists>c. en_chain e = dec_string c \<and> 0 < c \<and> c < 2 ^ 63)
     \<and> (en_kind e = ''verdict'' \<and> (en_weight e = 1 \<or> en_weight e = -1) \<or> en_kind e = ''asset'' \<and> en_weight e = 0)"

definition entry_string :: "Entry \<Rightarrow> byte list" where
  "entry_string e = entry_raw (if en_kind e = ''verdict'' then 1 else 2) (the (dec_val (en_chain e))) (en_address e)"

definition entry_value :: "Entry \<Rightarrow> byte list" where
  "entry_value e = [if en_kind e = ''verdict'' then en_weight e else 1]"

definition entry_pair :: "hashfn \<Rightarrow> Entry \<Rightarrow> Pair" where
  "entry_pair k e = \<lparr>p_key = k (entry_string e), p_value = entry_value e\<rparr>"

lemma EntryPair_iff: "EntryPair k e = Inr v \<longleftrightarrow> entry_ok e \<and> v = entry_pair k e"
proof (cases "Decimal (en_chain e) 63")
  case (Inl a)
  then have "\<nexists>c. en_chain e = dec_string c \<and> c < 2 ^ 63" using Decimal_iff by (metis Inl_Inr_False)
  then show ?thesis using Inl by (auto simp: EntryPair_def entry_ok_def)
next
  case (Inr c)
  then have c: "en_chain e = dec_string c" "c < 2 ^ 63" by (simp_all add: Decimal_iff)
  then show ?thesis using Inr
    by (auto simp: EntryPair_def entry_ok_def entry_pair_def entry_string_def entry_value_def)
qed

lemma entry_raw_inject:
  "c < 2 ^ 63 \<Longrightarrow> c' < 2 ^ 63 \<Longrightarrow> entry_raw ns c a = entry_raw ns' c' a' \<longleftrightarrow> ns = ns' \<and> c = c' \<and> a = a'"
  by (auto simp: entry_raw_def word_of_nat_eq_iff take_bit_nat_eq_self)

lemma entry_string_inject:
  assumes "entry_ok e" "entry_ok e'" shows "entry_string e = entry_string e' \<longleftrightarrow> entry_slot e = entry_slot e'"
proof -
  obtain c c' where c: "en_chain e = dec_string c" "c < 2 ^ 63" "en_chain e' = dec_string c'" "c' < 2 ^ 63"
    using assms by (auto simp: entry_ok_def)
  have "(1::byte) \<noteq> 2" by simp
  then show ?thesis using assms c
    by (auto simp: entry_ok_def entry_string_def entry_slot_def entry_raw_inject)
qed

definition verdicts_on :: "string \<Rightarrow> Entry list \<Rightarrow> nat" where
  "verdicts_on c es = length (filter (\<lambda>e. en_kind e \<noteq> ''asset'' \<and> en_chain e = c) es)"

definition asset_entries :: "Entry list \<Rightarrow> Entry list" where
  "asset_entries es = filter (\<lambda>e. en_kind e = ''asset'') es"

lemma build_loop_iff:
  "build_loop k counts assets p es = Inr r \<longleftrightarrow>
     (\<forall>e \<in> set es. entry_ok e) \<and> (\<forall>c. 0 < verdicts_on c es \<longrightarrow> counts c + verdicts_on c es \<le> 200)
     \<and> r = (assets + length (asset_entries es), p @ map (entry_pair k) es)"
proof (induction k counts assets p es rule: build_loop.induct)
  case (1 k counts assets p)
  then show ?case by (auto simp: verdicts_on_def asset_entries_def)
next
  case (2 k counts assets p e es)
  show ?case
  proof (cases "entry_ok e")
    case False
    then obtain err where "EntryPair k e = Inl err" using EntryPair_iff by (metis sum.exhaust)
    then show ?thesis using False by simp
  next
    case True
    then have v: "EntryPair k e = Inr (entry_pair k e)" by (simp add: EntryPair_iff)
    show ?thesis
    proof (cases "en_kind e = ''asset''")
      case asset: True
      then show ?thesis using "2.IH"(1) [OF v asset] True v by (simp add: verdicts_on_def asset_entries_def)
    next
      case False
      define cnt where "cnt = counts(en_chain e := counts (en_chain e) + 1)"
      have vo: "verdicts_on c (e # es) = (if c = en_chain e then 1 else 0) + verdicts_on c es" for c
        using False by (simp add: verdicts_on_def)
      have b: "(\<forall>c. 0 < verdicts_on c (e # es) \<longrightarrow> counts c + verdicts_on c (e # es) \<le> 200) \<longleftrightarrow>
          cnt (en_chain e) \<le> 200 \<and> (\<forall>c. 0 < verdicts_on c es \<longrightarrow> cnt c + verdicts_on c es \<le> 200)"
        unfolding vo cnt_def by (auto split: if_splits)
      have ae: "asset_entries (e # es) = asset_entries es" using False by (simp add: asset_entries_def)
      have "build_loop k counts assets p (e # es) = (if cnt (en_chain e) > 200 then Inl TooManyVerdicts
          else build_loop k cnt assets (p @ [entry_pair k e]) es)"
        using v False by (simp add: Let_def cnt_def)
      then show ?thesis
        using "2.IH"(2) [OF v False cnt_def] True unfolding b ae by (cases "cnt (en_chain e) > 200") simp_all
    qed
  qed
qed

lemma BuildState_Inr:
  assumes "BuildState k entries = Inr t"
  shows "length entries \<le> MaxEntries \<and> (\<forall>e \<in> set entries. entry_ok e) \<and> (\<forall>c. verdicts_on c entries \<le> 200)
    \<and> length (asset_entries entries) \<le> 200 \<and> NewTrie k (map (entry_pair k) entries) = Inr t"
proof -
  obtain a p where r: "build_loop k (\<lambda>_. 0) 0 [] entries = Inr (a, p)" "a \<le> 200" "NewTrie k p = Inr t"
    using assms by (auto simp: BuildState_def split: if_splits sum.splits)
  have n: "length entries \<le> MaxEntries" using assms by (auto simp: BuildState_def split: if_splits)
  have v: "\<forall>c. verdicts_on c entries \<le> 200" using r(1) unfolding build_loop_iff by (metis add_0 gr0I le0)
  then show ?thesis using r n unfolding build_loop_iff by auto
qed

lemma distinct_keys:
  assumes "inj_on k (entry_string ` set es)" "\<forall>e \<in> set es. entry_ok e"
  shows "distinct (map p_key (map (entry_pair k) es)) \<longleftrightarrow> distinct (map entry_slot es)"
proof -
  have "k (entry_string e) = k (entry_string e') \<longleftrightarrow> entry_slot e = entry_slot e'" if "e \<in> set es" "e' \<in> set es" for e e'
    using assms that entry_string_inject by (metis imageI inj_on_eq_iff)
  then have "distinct (map (\<lambda>e. k (entry_string e)) xs) \<longleftrightarrow> distinct (map entry_slot xs)" if "set xs \<subseteq> set es" for xs
    using that by (induction xs) (auto simp: image_iff)
  then show ?thesis by (simp add: entry_pair_def comp_def)
qed

lemma entry_pair_value [simp]: "p_value (entry_pair k e) \<noteq> []" "p_key (entry_pair k e) = k (entry_string e)"
  by (simp_all add: entry_pair_def entry_value_def)

text \<open>The trie of a snapshot, read by entry.\<close>

lemma value_in_entries:
  assumes "inj_on k (entry_string ` insert e (set es))" "\<forall>e' \<in> set es. entry_ok e'" "entry_ok e"
  shows "value_in (map (entry_pair k) es) (k (entry_string e))
    = (case find (\<lambda>e'. entry_slot e' = entry_slot e) es of None \<Rightarrow> [] | Some e' \<Rightarrow> entry_value e')"
proof -
  have "k (entry_string e') = k (entry_string e) \<longleftrightarrow> entry_slot e' = entry_slot e" if "e' \<in> set es" for e'
    using assms that entry_string_inject by (metis imageI inj_on_eq_iff insertCI)
  then have "value_in (map (entry_pair k) xs) (k (entry_string e))
    = (case find (\<lambda>e'. entry_slot e' = entry_slot e) xs of None \<Rightarrow> [] | Some e' \<Rightarrow> entry_value e')" if "set xs \<subseteq> set es" for xs
    using that by (induction xs) (auto simp: value_in_Cons, simp_all add: entry_pair_def)
  then show ?thesis by simp
qed

lemma Validate_Inr:
  assumes "Validate cr s = Inr (idh, t)"
  shows "BuildState (cr_keccak cr) (sn_entries s) = Inr t \<and> tr_root t = sn_root s \<and> ID cr s = Some idh
    \<and> (\<exists>r. sn_revision s = dec_string r \<and> 0 < r \<and> r < 2 ^ 64 \<and> (r = 1 \<longleftrightarrow> sn_previous s = 0))
    \<and> (\<exists>d. sn_deadline s = dec_string d \<and> d < 2 ^ 256)
    \<and> check_sig cr idh (sn_signature s) (sn_account s) = None"
proof -
  obtain r where r: "Decimal (sn_revision s) 64 = Inr r" "r \<noteq> 0" "(r = 1) = (sn_previous s = 0)"
    using assms by (auto simp: Validate_def split: if_splits sum.splits)
  obtain d where d: "Decimal (sn_deadline s) 256 = Inr d"
    using assms r by (auto simp: Validate_def split: if_splits sum.splits)
  show ?thesis
    using assms r d Decimal_iff [of "sn_revision s" 64 r] Decimal_iff [of "sn_deadline s" 256 d]
    by (auto simp: Validate_def split: if_splits sum.splits option.splits)
qed

section \<open>Properties of snapshots\<close>

text \<open>C33: \<open>Build\<close> accepts exactly the entry lists of at most 2000 well-formed entries, with at most
  200 verdicts per chain and 200 assets, in which no kind, chain and address occur twice, unless
  Keccak collides on the entries.\<close>

theorem BuildState_accepts:
  assumes "inj_on k (entry_string ` set entries)"
  shows "(\<exists>t. BuildState k entries = Inr t) \<longleftrightarrow>
    length entries \<le> 2000 \<and> (\<forall>e \<in> set entries. entry_ok e) \<and> (\<forall>c. verdicts_on c entries \<le> 200)
    \<and> length (asset_entries entries) \<le> 200 \<and> distinct (map entry_slot entries)" (is "?L \<longleftrightarrow> ?R")
proof
  assume ?L
  then obtain t where b: "BuildState k entries = Inr t" by blast
  note i = BuildState_Inr [OF b]
  then have "valid_items (map (entry_pair k) entries)"
    using check_valid [of "map (entry_pair k) entries"] by (auto simp: NewTrie_def split: option.splits)
  then show ?R using i distinct_keys [OF assms] by (simp add: valid_items_def MaxEntries_def)
next
  assume R: ?R
  then have "build_loop k (\<lambda>_. 0) 0 [] entries = Inr (length (asset_entries entries), map (entry_pair k) entries)"
    by (simp add: build_loop_iff)
  moreover have "valid_items (map (entry_pair k) entries)"
    using R distinct_keys [OF assms] unfolding valid_items_def by auto
  ultimately show ?L using R NewTrie_ok [of "map (entry_pair k) entries" k] by (auto simp: BuildState_def MaxEntries_def)
qed


text \<open>A proof about one entry, checked against the signed root of a valid snapshot, tells
  whether the snapshot holds an entry of that kind for that chain and address, and with which
  value.\<close>

theorem snapshot_proof_decides_entry:
  assumes "Validate cr s = Inr (idh, t)" and "k = cr_keccak cr"
    and "VerifyProof k (sn_root s) p" and "tp_key p = k (entry_string e)" and "entry_ok e"
    and "inj_on k (entry_string ` insert e (set (sn_entries s)))"
    and "inj_on k (trie_strings k (map (entry_pair k) (sn_entries s)) \<union> proof_strings k p)"
  shows "tp_value p = (case find (\<lambda>e'. entry_slot e' = entry_slot e) (sn_entries s) of
      None \<Rightarrow> [] | Some e' \<Rightarrow> entry_value e')"
proof -
  let ?items = "map (entry_pair k) (sn_entries s)"
  have v: "NewTrie k ?items = Inr t" "tr_root t = sn_root s" "\<forall>e \<in> set (sn_entries s). entry_ok e"
    using Validate_Inr [OF assms(1)] BuildState_Inr [of k "sn_entries s" t] assms(2) by auto
  have "valid_items ?items" using v(1) check_valid [of ?items] by (auto simp: NewTrie_def split: option.splits)
  then have "value_in ?items (tp_key p) = tp_value p"
    using NewTrie_sound [OF _ v(1) assms(7)] v(2) assms(3) by simp
  then show ?thesis using value_in_entries [OF assms(6) v(3) assms(5)] assms(4) by simp
qed

text \<open>A stand-in for concrete inputs: every signature is of account 7.\<close>

definition demo_crypto :: crypto where
  "demo_crypto = \<lparr>cr_keccak = level_hash, cr_typed = (\<lambda>d. Some (td_root d + 5)), cr_sigvals = (\<lambda>_ _ _. True),
     cr_recover = (\<lambda>_ _. Some 7)\<rparr>"

definition demo_entry :: Entry where
  "demo_entry = \<lparr>en_kind = ''verdict'', en_chain = dec_string 5, en_address = 9, en_weight = 1\<rparr>"

definition demo_snapshot :: Snapshot where
  "demo_snapshot = \<lparr>sn_version = 1, sn_account = 7, sn_root = 1256, sn_revision = dec_string 1, sn_previous = 0,
     sn_deadline = dec_string 90, sn_entries = [demo_entry], sn_signature = replicate 65 0\<rparr>"

lemma demo_entry_ok: "entry_ok demo_entry"
  by (auto simp: entry_ok_def demo_entry_def)

lemma demo_entry_pair: "map (entry_pair level_hash) [demo_entry] = one_pair"
  by (simp add: entry_pair_def demo_entry_def entry_string_def entry_value_def one_pair_def level_hash_def entry_raw_def)

lemma demo_build: "\<exists>t. BuildState level_hash [demo_entry] = Inr t \<and> NewTrie level_hash one_pair = Inr t \<and> tr_root t = 1256"
proof -
  have "build_loop level_hash (\<lambda>_. 0) 0 [] [demo_entry] = Inr (0, one_pair)"
    unfolding build_loop_iff demo_entry_pair [symmetric]
    by (simp add: demo_entry_ok) (simp add: demo_entry_def verdicts_on_def asset_entries_def)
  then show ?thesis using NewTrie_ok [OF one_pair_valid, of level_hash] level_node [of 256]
    by (auto simp: BuildState_def MaxEntries_def)
qed

lemma demo_validate: "\<exists>t. Validate demo_crypto demo_snapshot = Inr (1261, t) \<and> NewTrie level_hash one_pair = Inr t \<and> tr_root t = 1256"
proof -
  obtain t where t: "BuildState level_hash [demo_entry] = Inr t" "NewTrie level_hash one_pair = Inr t" "tr_root t = 1256"
    using demo_build by blast
  have d: "Decimal (dec_string 1) 64 = Inr 1" "Decimal (dec_string 90) 256 = Inr 90" by (simp_all add: Decimal_iff)
  have "check_sig demo_crypto h (replicate 65 0) 7 = None" for h
    by (simp add: check_sig_def norm_sig_def demo_crypto_def Let_def)
  moreover have "ID demo_crypto demo_snapshot = Some 1261" "cr_keccak demo_crypto = level_hash"
    by (simp_all add: ID_def TypedData_of_def demo_crypto_def demo_snapshot_def)
  ultimately have "Validate demo_crypto demo_snapshot = Inr (1261, t)"
    using t d by (simp add: Validate_def) (simp add: demo_snapshot_def)
  then show ?thesis using t by blast
qed

theorem BuildState_accepts_witness: "\<exists>t. BuildState level_hash [demo_entry] = Inr t"
  using BuildState_accepts [of level_hash "[demo_entry]"]
  by (simp add: demo_entry_ok) (simp add: demo_entry_def verdicts_on_def asset_entries_def)

theorem snapshot_proof_decides_entry_witness:
  "\<exists>p. VerifyProof level_hash (sn_root demo_snapshot) p \<and> tp_key p = level_hash (entry_string demo_entry) \<and> tp_value p = [1]"
proof -
  obtain t where t: "Validate demo_crypto demo_snapshot = Inr (1261, t)" "NewTrie level_hash one_pair = Inr t" "tr_root t = 1256"
    using demo_validate by blast
  obtain p where p: "tp_key p = level_hash (entry_string demo_entry)" "VerifyProof level_hash 1256 p"
      "proof_strings level_hash p \<subseteq> trie_strings level_hash one_pair"
    using NewTrie_proofs [OF one_pair_valid one_pair_inj t(2), of "level_hash (entry_string demo_entry)"] t(3) by auto
  have e: "sn_entries demo_snapshot = [demo_entry]" "sn_root demo_snapshot = 1256" by (simp_all add: demo_snapshot_def)
  have "inj_on level_hash (trie_strings level_hash (map (entry_pair level_hash) (sn_entries demo_snapshot))
      \<union> proof_strings level_hash p)"
    unfolding e demo_entry_pair using one_pair_inj p(3) by (simp add: Un_absorb2)
  then have "tp_value p = entry_value demo_entry"
    using snapshot_proof_decides_entry [OF t(1), of level_hash p demo_entry] demo_entry_ok p(1,2) e by (simp add: demo_crypto_def)
  then show ?thesis using p e by (auto simp: entry_value_def demo_entry_def)
qed

section \<open>Checkpoints and their snapshots\<close>

definition snapshot_id :: "crypto \<Rightarrow> Snapshot \<Rightarrow> hash option" where
  "snapshot_id cr s = (case Validate cr s of Inl _ \<Rightarrow> None | Inr (idh, t) \<Rightarrow> Some idh)"

lemma snapshot_id_ID: "snapshot_id cr s = Some idh \<Longrightarrow> ID cr s = Some idh"
  using Validate_Inr by (auto simp: snapshot_id_def split: sum.splits)

lemma snapshot_ids_iff:
  "snapshot_ids cr m ss = Inr m' \<longleftrightarrow> (\<forall>s \<in> set ss. snapshot_id cr s \<noteq> None) \<and> distinct (map sn_account ss)
     \<and> (\<forall>s \<in> set ss. m (sn_account s) = None)
     \<and> m' = m ++ map_of (map (\<lambda>s. (sn_account s, the (snapshot_id cr s))) ss)"
proof (induction cr m ss rule: snapshot_ids.induct)
  case (2 cr m s ss)
  show ?case
  proof (cases "Validate cr s")
    case (Inr r)
    obtain idh t where r: "r = (idh, t)" by (cases r)
    have i: "snapshot_id cr s = Some idh" using Inr r by (simp add: snapshot_id_def)
    show ?thesis
    proof (cases "m (sn_account s) = None")
      case True
      define mu where "mu = m(sn_account s \<mapsto> idh)"
      define rest where "rest = map_of (map (\<lambda>s. (sn_account s, the (snapshot_id cr s))) ss)"
      define whole where "whole = m ++ map_of (map (\<lambda>s. (sn_account s, the (snapshot_id cr s))) (s # ss))"
      have e: "mu ++ rest = whole" if "sn_account s \<notin> sn_account ` set ss"
      proof -
        have "rest (sn_account s) = None" using that by (auto simp: rest_def map_of_eq_None_iff)
        then show ?thesis by (auto simp: map_add_def mu_def whole_def rest_def i fun_eq_iff split: option.splits)
      qed
      have q: "(\<forall>x \<in> set ss. mu (sn_account x) = None)
          \<longleftrightarrow> sn_account s \<notin> sn_account ` set ss \<and> (\<forall>x \<in> set ss. m (sn_account x) = None)"
        by (auto simp: image_iff mu_def)
      have s1: "snapshot_ids cr m (s # ss) = snapshot_ids cr mu ss" using Inr r True by (simp add: mu_def)
      show ?thesis
        unfolding s1 "2.IH" [OF Inr r [symmetric], unfolded not_not, OF True, folded mu_def rest_def] q whole_def [symmetric]
        using e True i by (cases "sn_account s \<in> sn_account ` set ss") simp_all
    qed (use Inr r in simp)
  qed (simp add: snapshot_id_def)
qed auto

lemma AggregateState_distinct:
  assumes "AggregateState k accounts = Inr t" shows "distinct (map ar_account accounts)"
proof -
  have "valid_items (map (account_pair k) accounts)"
    using assms check_valid [of "map (account_pair k) accounts"] by (auto simp: AggregateState_def NewTrie_def split: option.splits)
  then have "distinct (map (\<lambda>a. AccountKey k (ar_account a)) accounts)" by (simp add: valid_items_def comp_def account_pair_def)
  then have "distinct (map (AccountKey k) (map ar_account accounts))" by (simp add: comp_def)
  then show ?thesis using distinct_map by blast
qed

lemma CheckpointValidate_None:
  assumes "CheckpointValidate cr c = None"
  obtains t m where "ck_version c = 1" "AggregateState (cr_keccak cr) (ck_accounts c) = Inr t" "tr_root t = ck_root c"
    "length (ck_snapshots c) = length (ck_accounts c)" "snapshot_ids cr Map.empty (ck_snapshots c) = Inr m"
    "\<forall>a \<in> set (ck_accounts c). map_get m (ar_account a) = ar_id a"
  using assms by (auto simp: CheckpointValidate_def split: if_splits sum.splits)

text \<open>A checkpoint that validates, and in which no account has the zero identifier, lists
  exactly the accounts and identifiers of the snapshots it exports, each account once, and every
  exported snapshot is valid.\<close>

theorem checkpoint_lists_snapshots:
  assumes "CheckpointValidate cr c = None" and "\<forall>a \<in> set (ck_accounts c). ar_id a \<noteq> 0"
  shows "(\<lambda>a. (ar_account a, ar_id a)) ` set (ck_accounts c) = (\<lambda>s. (sn_account s, the (ID cr s))) ` set (ck_snapshots c)
    \<and> distinct (map ar_account (ck_accounts c)) \<and> (\<forall>s \<in> set (ck_snapshots c). \<exists>t. Validate cr s = Inr (the (ID cr s), t))"
proof -
  obtain t m where t: "AggregateState (cr_keccak cr) (ck_accounts c) = Inr t"
    and n: "length (ck_snapshots c) = length (ck_accounts c)"
    and m: "snapshot_ids cr Map.empty (ck_snapshots c) = Inr m"
    and ids: "\<forall>a \<in> set (ck_accounts c). map_get m (ar_account a) = ar_id a"
    using assms(1) by (rule CheckpointValidate_None)
  let ?g = "\<lambda>s. (sn_account s, the (ID cr s))" and ?f = "\<lambda>a. (ar_account a, ar_id a)"
  note spec = m [unfolded snapshot_ids_iff]
  have d: "distinct (map ar_account (ck_accounts c))" using AggregateState_distinct t by blast
  have ds: "distinct (map sn_account (ck_snapshots c))" using spec by simp
  have valid: "\<exists>t. Validate cr s = Inr (the (ID cr s), t)" if "s \<in> set (ck_snapshots c)" for s
  proof -
    have "snapshot_id cr s \<noteq> None" using spec that by blast
    then obtain r where "Validate cr s = Inr r" by (auto simp: snapshot_id_def split: sum.splits)
    then show ?thesis using Validate_Inr [of cr s "fst r" "snd r"] by (cases r) auto
  qed
  have mm: "m = map_of (map ?g (ck_snapshots c))"
  proof -
    have "the (snapshot_id cr s) = the (ID cr s)" if "s \<in> set (ck_snapshots c)" for s
      using spec that snapshot_id_ID by (metis option.exhaust_sel option.sel)
    then have "map (\<lambda>s. (sn_account s, the (snapshot_id cr s))) (ck_snapshots c) = map ?g (ck_snapshots c)" by simp
    moreover have "m = map_of (map (\<lambda>s. (sn_account s, the (snapshot_id cr s))) (ck_snapshots c))" using spec by simp
    ultimately show ?thesis by (simp only:)
  qed
  have "?f a \<in> ?g ` set (ck_snapshots c)" if "a \<in> set (ck_accounts c)" for a
  proof -
    have "m (ar_account a) = Some (ar_id a)" using ids assms(2) that by (auto simp: map_get_def split: option.splits)
    then show ?thesis unfolding mm by (auto dest!: map_of_SomeD)
  qed
  then have sub: "?f ` set (ck_accounts c) \<subseteq> ?g ` set (ck_snapshots c)" by auto
  have "distinct (map ?f (ck_accounts c))" "distinct (map ?g (ck_snapshots c))"
    using d ds by (auto simp: distinct_map inj_on_def)
  then have "card (?f ` set (ck_accounts c)) = card (?g ` set (ck_snapshots c))"
    using n distinct_card [of "map ?f (ck_accounts c)"] distinct_card [of "map ?g (ck_snapshots c)"] by simp
  then have "?f ` set (ck_accounts c) = ?g ` set (ck_snapshots c)" using sub by (simp add: card_subset_eq)
  then show ?thesis using d valid by blast
qed

definition demo_checkpoint :: "address \<Rightarrow> hash \<Rightarrow> Checkpoint" where
  "demo_checkpoint a h = \<lparr>ck_version = 1, ck_root = trie_root level_hash [account_pair level_hash \<lparr>ar_account = a, ar_id = h\<rparr>],
     ck_accounts = [\<lparr>ar_account = a, ar_id = h\<rparr>], ck_snapshots = [demo_snapshot]\<rparr>"

lemma hash_bytes_ne [simp]: "hash_bytes h \<noteq> []"
  by (metis length_be_bytes list.size(3) zero_neq_numeral)

lemma demo_checkpoint_validate:
  "a = 7 \<and> h = 1261 \<or> a \<noteq> 7 \<and> h = 0 \<Longrightarrow> CheckpointValidate demo_crypto (demo_checkpoint a h) = None"
proof -
  assume ah: "a = 7 \<and> h = 1261 \<or> a \<noteq> 7 \<and> h = 0"
  let ?p = "account_pair level_hash \<lparr>ar_account = a, ar_id = h\<rparr>"
  have "valid_items [?p]" by (simp add: valid_items_def account_pair_def)
  then obtain t where t: "NewTrie level_hash [?p] = Inr t" using NewTrie_ok by blast
  obtain t' where v: "Validate demo_crypto demo_snapshot = Inr (1261, t')" using demo_validate by blast
  have a: "sn_account demo_snapshot = 7" "cr_keccak demo_crypto = level_hash" by (simp_all add: demo_snapshot_def demo_crypto_def)
  show ?thesis
    using t v a ah by (auto simp: CheckpointValidate_def demo_checkpoint_def AggregateState_def trie_root_def map_get_def)
qed

theorem checkpoint_lists_snapshots_witness:
  "(\<lambda>a. (ar_account a, ar_id a)) ` set (ck_accounts (demo_checkpoint 7 1261))
     = (\<lambda>s. (sn_account s, the (ID demo_crypto s))) ` set (ck_snapshots (demo_checkpoint 7 1261))"
  using checkpoint_lists_snapshots [of demo_crypto "demo_checkpoint 7 1261"] demo_checkpoint_validate [of 7 1261]
  by (simp add: demo_checkpoint_def)

text \<open>The zero identifier is the loophole: a missing entry of the map reads as it.\<close>

lemma checkpoint_zero_identifier:
  "CheckpointValidate demo_crypto (demo_checkpoint 8 0) = None
   \<and> (\<forall>s \<in> set (ck_snapshots (demo_checkpoint 8 0)). sn_account s \<noteq> 8)"
  using demo_checkpoint_validate [of 8 0] by (simp add: demo_checkpoint_def demo_snapshot_def)

section \<open>Records\<close>

text \<open>A published record parses back to its hash under its own kind, if the decoder of
  go-ethereum reads what its printer writes, and a record of another kind is refused.\<close>

lemma record_roundtrip:
  assumes "\<forall>h. decode (hex h) = Some (hash_bytes h)"
  shows "ParseRecord decode kind (Record hex kind h) = Inr h
    \<and> (length kind' = length kind \<and> kind' \<noteq> kind \<longrightarrow> ParseRecord decode kind' (Record hex kind h) = Inl BadRecord)"
  using assms by (auto simp: ParseRecord_def Record_def record_prefix_def of_be_be_bytes)

end
