(* ===== verification/StateStore.thy ===== *)
theory StateStore
  imports UserState CandidateStore
begin

text \<open>
  Where signed state is kept: \<open>internal/store/userstate.go\<close>. Revisions are immutable rows by
  identifier, a head per account points at its newest revision, and an admitted snapshot replaces
  the account's verdicts and remembered assets. The clock and the salt are arguments. A snapshot
  or checkpoint stored as JSON is the value that was stored. Go's random order over the chains of
  an account does not matter, because each chain has its own rows; the model takes them in order.
  A transaction that fails leaves the database as it was. The locale \<open>deadline_steps\<close> is
  interpreted on every write of the signed records, account states included.
\<close>

section \<open>Tables\<close>

record state_db = cand_db +
  user_state_revisions :: "(hash \<times> address \<times> Snapshot) list"
  user_state_nodes :: nodes
  user_state_checkpoints :: "(hash \<times> Checkpoint) list"

record StateView =
  vw_id :: hash
  vw_snapshot :: Snapshot
  vw_generation :: string
  vw_legacy :: bool

datatype put_error =
    PutState state_error | PutDeadlineRange | ErrStateConflict | PutExpired | PutPrimaryKey | PutNotFound

section \<open>Reading\<close>

text \<open>The join of a head with its revision.\<close>

definition head_row :: "address \<Rightarrow> 'a state_db_scheme \<Rightarrow> (StateHead \<times> Snapshot) option" where
  "head_row a db =
     (case map_of (user_state_heads db) a of None \<Rightarrow> None
      | Some h \<Rightarrow> map_option (\<lambda>(_, s). (h, s)) (map_of (user_state_revisions db) (sh_id h)))"

definition UserStateOf :: "address \<Rightarrow> 'a state_db_scheme \<Rightarrow> put_error + StateView" where
  "UserStateOf a db =
     (case head_row a db of None \<Rightarrow> Inl PutNotFound
      | Some (h, s) \<Rightarrow> Inr \<lparr>vw_id = sh_id h, vw_snapshot = s, vw_generation = dec_string (sh_generation h), vw_legacy = sh_legacy h\<rparr>)"

definition StateRevision :: "hash \<Rightarrow> 'a state_db_scheme \<Rightarrow> put_error + Snapshot" where
  "StateRevision idh db =
     (case map_of (user_state_revisions db) idh of None \<Rightarrow> Inl PutNotFound | Some (_, s) \<Rightarrow> Inr s)"

section \<open>Writing\<close>

definition saveState :: "Snapshot \<Rightarrow> hash \<Rightarrow> Trie \<Rightarrow> 'a state_db_scheme \<Rightarrow> 'a state_db_scheme" where
  "saveState v idh t db = db\<lparr>
     user_state_revisions := upsert idh (sn_account v, v) (\<lambda>r. r) (user_state_revisions db),
     user_state_nodes := tr_nodes t ++ user_state_nodes db\<rparr>"

definition ImportState :: "crypto \<Rightarrow> Snapshot \<Rightarrow> 'a state_db_scheme \<Rightarrow> put_error + 'a state_db_scheme" where
  "ImportState cr v db =
     (case Validate cr v of Inl e \<Rightarrow> Inl (PutState e) | Inr (idh, t) \<Rightarrow> Inr (saveState v idh t db))"

text \<open>\<open>strconv.ParseInt(s, 10, 64)\<close>.\<close>

definition ParseInt :: "string \<Rightarrow> int option" where
  "ParseInt s = (case set_string s of None \<Rightarrow> None
     | Some n \<Rightarrow> if n \<ge> - (2 ^ 63) \<and> n < 2 ^ 63 then Some n else None)"

definition entry_chain :: "Entry \<Rightarrow> nat" where
  "entry_chain e = (case ParseUint (en_chain e) of None \<Rightarrow> 0 | Some c \<Rightarrow> c)"

definition state_voter :: "hashfn \<Rightarrow> byte list \<Rightarrow> nat \<Rightarrow> address \<Rightarrow> hash" where
  "state_voter k salt c account = voterKey k salt (word_of_nat c) account"

text \<open>The chains to visit, with the mark of those the snapshot has verdicts on.\<close>

definition state_chains :: "Snapshot \<Rightarrow> 'a state_db_scheme \<Rightarrow> (nat \<times> bool) list" where
  "state_chains v db =
     (let new = map entry_chain (filter (\<lambda>e. en_kind e = ''verdict'') (sn_entries v))
      in map (\<lambda>c. (c, c \<in> set new)) (remdups (map (fst \<circ> fst) (account_verdicts db) @ new)))"

definition clear_chain :: "hashfn \<Rightarrow> byte list \<Rightarrow> address \<Rightarrow> int \<Rightarrow> nat \<times> bool \<Rightarrow> 'a state_db_scheme \<Rightarrow> 'a state_db_scheme" where
  "clear_chain k salt account deadline ch db =
     (case ch of (c, isNew) \<Rightarrow>
        let voter = state_voter k salt c account in
        if \<not> isNew \<and> map_of (account_verdicts db) (c, voter) = None then db
        else db\<lparr>asset_demand := filter (\<lambda>((c', a, v), r). \<not> (c' = c \<and> v = voter)) (asset_demand db),
                account_verdicts := upsert (c, voter) deadline (max deadline) (account_verdicts db)\<rparr>)"

text \<open>A plain \<open>INSERT\<close> fails on a key that is already there.\<close>

fun put_entries ::
  "hashfn \<Rightarrow> byte list \<Rightarrow> address \<Rightarrow> nat \<Rightarrow> commit_item list \<Rightarrow> (demand_key \<times> DemandVote) list \<Rightarrow> Entry list
   \<Rightarrow> (commit_item list \<times> (demand_key \<times> DemandVote) list) option" where
  "put_entries k salt account now items tab [] = Some (items, tab)"
| "put_entries k salt account now items tab (e # es) =
     (let c = entry_chain e in
      if en_kind e = ''asset'' then put_entries k salt account now (items @ [(c, en_address e)]) tab es
      else let key = (c, en_address e, state_voter k salt c account) in
        if map_of tab key \<noteq> None then None
        else put_entries k salt account now items
               (tab @ [(key, \<lparr>dv_weight = sint (en_weight e), dv_votes = 1, dv_last = now\<rparr>)]) es)"

definition assetCommitBytes :: "commit_item list \<Rightarrow> byte list" where
  "assetCommitBytes items = concat (map (\<lambda>(c, a). be_bytes 8 (word_of_nat c :: u64) @ addr_bytes a) (sortAssets items))"

definition put_items :: "address \<Rightarrow> commit_item list \<Rightarrow> (address \<times> commit_item) list \<Rightarrow> (address \<times> commit_item) list option" where
  "put_items account items tab =
     (let rest = filter (\<lambda>(a, _). a \<noteq> account) tab
      in if distinct items then Some (rest @ map (Pair account) items) else None)"

definition project ::
  "hashfn \<Rightarrow> byte list \<Rightarrow> nat \<Rightarrow> int \<Rightarrow> hash \<Rightarrow> Snapshot \<Rightarrow> 'a state_db_scheme \<Rightarrow> put_error + 'a state_db_scheme" where
  "project k salt now deadline idh v db =
     (let account = sn_account v;
          db1 = fold (clear_chain k salt account deadline) (state_chains v db) db
      in case put_entries k salt account now [] (asset_demand db1) (sn_entries v) of
           None \<Rightarrow> Inl PutPrimaryKey
         | Some (items, demand) \<Rightarrow>
             let digest = k (assetCommitBytes items);
                 row = \<lparr>ac_digest = digest, ac_deadline = deadline\<rparr>;
                 commits = upsert account row (\<lambda>old. \<lparr>ac_digest = digest, ac_deadline = max (ac_deadline old) deadline\<rparr>)
                   (account_asset_commits db1)
             in case put_items account (sortAssets items) (account_asset_commit_items db1) of
                  None \<Rightarrow> Inl PutPrimaryKey
                | Some commit_items \<Rightarrow> Inr (db1\<lparr>asset_demand := demand, account_asset_commits := commits,
                    account_asset_commit_items := commit_items,
                    user_state_heads := upsert account \<lparr>sh_id = idh, sh_generation = 1, sh_legacy = False\<rparr>
                      (\<lambda>h. h\<lparr>sh_id := idh, sh_generation := sh_generation h + 1, sh_legacy := False\<rparr>) (user_state_heads db1)\<rparr>))"

definition PutUserState ::
  "crypto \<Rightarrow> byte list \<Rightarrow> nat \<Rightarrow> Snapshot \<Rightarrow> string \<Rightarrow> 'a state_db_scheme \<Rightarrow> put_error + 'a state_db_scheme" where
  "PutUserState cr salt now v generation db =
     (case Validate cr v of Inl e \<Rightarrow> Inl (PutState e)
      | Inr (idh, t) \<Rightarrow>
          let deadline = (case Decimal (sn_deadline v) 256 of Inr d \<Rightarrow> int d | Inl _ \<Rightarrow> 0) in
          if deadline \<ge> 2 ^ 63 then Inl PutDeadlineRange
          else case ParseInt generation of None \<Rightarrow> Inl ErrStateConflict
          | Some gen \<Rightarrow>
              if gen < 0 then Inl ErrStateConflict
              else let old = head_row (sn_account v) db;
                       oldGen = (case old of None \<Rightarrow> 0 | Some (h, _) \<Rightarrow> int (sh_generation h));
                       prior = (case old of Some (_, s) \<Rightarrow> Successor cr s v
                         | None \<Rightarrow> sn_revision v = ''1''
                             \<or> (case map_of (user_state_revisions db) (sn_previous v) of None \<Rightarrow> False
                                | Some (_, s) \<Rightarrow> Successor cr s v))
                   in if map_option (sh_id \<circ> fst) old = Some idh then Inr db
                      else if oldGen \<noteq> gen then Inl ErrStateConflict
                      else if deadline \<le> int now then Inl PutExpired
                      else if \<not> prior then Inl ErrStateConflict
                      else project (cr_keccak cr) salt now deadline idh v (saveState v idh t db))"

section \<open>Projection and checkpoints\<close>

definition verdict_entry :: "nat \<Rightarrow> address \<Rightarrow> int \<Rightarrow> Entry" where
  "verdict_entry c a w = \<lparr>en_kind = ''verdict'', en_chain = dec_string c, en_address = a, en_weight = word_of_int w\<rparr>"

definition asset_entry :: "commit_item \<Rightarrow> Entry" where
  "asset_entry it = \<lparr>en_kind = ''asset'', en_chain = dec_string (fst it), en_address = snd it, en_weight = 0\<rparr>"

definition StateProjection :: "hashfn \<Rightarrow> byte list \<Rightarrow> address \<Rightarrow> 'a state_db_scheme \<Rightarrow> put_error + Entry list" where
  "StateProjection k salt a db =
     (case UserStateOf a db of Inl e \<Rightarrow> Inl e
      | Inr _ \<Rightarrow>
          let chs = remdups (map (fst \<circ> fst) (account_verdicts db));
              verdicts = concat (map (\<lambda>c. map (\<lambda>((c', addr, v), r). verdict_entry c addr (dv_weight r))
                (filter (\<lambda>((c', addr, v), r). c' = c \<and> v = state_voter k salt c a) (asset_demand db))) chs);
              items = (case AssetCommit a db of Inl _ \<Rightarrow> [] | Inr (its, _) \<Rightarrow> its)
          in Inr (verdicts @ map asset_entry items))"

definition head_rows :: "'a state_db_scheme \<Rightarrow> (address \<times> hash \<times> Snapshot) list" where
  "head_rows db = map (\<lambda>(a, h). (a, sh_id h, snd (the (map_of (user_state_revisions db) (sh_id h)))))
     (filter (\<lambda>(a, h). map_of (user_state_revisions db) (sh_id h) \<noteq> None) (sort_key fst (user_state_heads db)))"

definition BuildStateCheckpoint :: "crypto \<Rightarrow> 'a state_db_scheme \<Rightarrow> put_error + Checkpoint \<times> 'a state_db_scheme" where
  "BuildStateCheckpoint cr db =
     (let rows = head_rows db;
          accounts = map (\<lambda>(a, idh, s). \<lparr>ar_account = a, ar_id = idh\<rparr>) rows;
          snaps = map (\<lambda>(a, idh, s). s) rows
      in case AggregateState (cr_keccak cr) accounts of Inl e \<Rightarrow> Inl (PutState (TrieErr e))
         | Inr t \<Rightarrow>
             let c = \<lparr>ck_version = 1, ck_root = tr_root t, ck_accounts = accounts, ck_snapshots = snaps\<rparr>
             in Inr (c, db\<lparr>user_state_checkpoints := upsert (ck_root c) c (\<lambda>old. old) (user_state_checkpoints db)\<rparr>))"

definition StateCheckpoint :: "hash \<Rightarrow> 'a state_db_scheme \<Rightarrow> put_error + Checkpoint" where
  "StateCheckpoint h db = (case map_of (user_state_checkpoints db) h of None \<Rightarrow> Inl PutNotFound | Some c \<Rightarrow> Inr c)"

fun import_snapshots :: "crypto \<Rightarrow> Snapshot list \<Rightarrow> 'a state_db_scheme \<Rightarrow> put_error + 'a state_db_scheme" where
  "import_snapshots cr [] db = Inr db"
| "import_snapshots cr (v # vs) db =
     (case Validate cr v of Inl e \<Rightarrow> Inl (PutState e)
      | Inr (idh, t) \<Rightarrow> import_snapshots cr vs (saveState v idh t db))"

definition ImportCheckpoint :: "crypto \<Rightarrow> Checkpoint \<Rightarrow> 'a state_db_scheme \<Rightarrow> put_error + 'a state_db_scheme" where
  "ImportCheckpoint cr c db =
     (case CheckpointValidate cr c of Some e \<Rightarrow> Inl (PutState e)
      | None \<Rightarrow>
          (case import_snapshots cr (ck_snapshots c) db of Inl e \<Rightarrow> Inl e
           | Inr db' \<Rightarrow> Inr (db'\<lparr>user_state_checkpoints := upsert (ck_root c) c (\<lambda>old. old) (user_state_checkpoints db')\<rparr>)))"

section \<open>Histories\<close>

text \<open>Every write that touches the heads or the revisions. The set \<open>S\<close> holds the snapshots that are
  offered.\<close>

inductive state_step :: "crypto \<Rightarrow> byte list \<Rightarrow> Snapshot set \<Rightarrow> state_db \<Rightarrow> state_db \<Rightarrow> bool" for cr salt S where
  put: "v \<in> S \<Longrightarrow> PutUserState cr salt now v gen db = Inr db' \<Longrightarrow> state_step cr salt S db db'"
| imported: "v \<in> S \<Longrightarrow> ImportState cr v db = Inr db' \<Longrightarrow> state_step cr salt S db db'"
| checkpoint: "set (ck_snapshots c) \<subseteq> S \<Longrightarrow> ImportCheckpoint cr c db = Inr db' \<Longrightarrow> state_step cr salt S db db'"
| built: "BuildStateCheckpoint cr db = Inr (c, db') \<Longrightarrow> state_step cr salt S db db'"
| legacy: "state_step cr salt S db (markLegacyState a db)"

definition state_inv :: "crypto \<Rightarrow> Snapshot set \<Rightarrow> 'a state_db_scheme \<Rightarrow> bool" where
  "state_inv cr S db \<longleftrightarrow> keys_unique (user_state_heads db)
     \<and> (\<forall>idh a s. map_of (user_state_revisions db) idh = Some (a, s)
          \<longrightarrow> s \<in> S \<and> a = sn_account s \<and> (\<exists>t. Validate cr s = Inr (idh, t)))
     \<and> (\<forall>a h. map_of (user_state_heads db) a = Some h \<longrightarrow> (\<exists>s. map_of (user_state_revisions db) (sh_id h) = Some (a, s)))"

definition no_collision :: "crypto \<Rightarrow> Snapshot set \<Rightarrow> bool" where
  "no_collision cr S \<longleftrightarrow> (\<forall>s \<in> S. \<forall>s' \<in> S. ID cr s \<noteq> None \<and> ID cr s = ID cr s' \<longrightarrow> TypedData_of s = TypedData_of s')"

definition revision :: "Snapshot \<Rightarrow> nat" where
  "revision s = (case ParseUint (sn_revision s) of None \<Rightarrow> 0 | Some n \<Rightarrow> n)"

definition heads_le :: "'a state_db_scheme \<Rightarrow> 'a state_db_scheme \<Rightarrow> bool" where
  "heads_le db db' \<longleftrightarrow> (\<forall>a h s. head_row a db = Some (h, s) \<longrightarrow>
     (\<exists>h' s'. head_row a db' = Some (h', s') \<and> revision s \<le> revision s' \<and> sh_generation h \<le> sh_generation h'
        \<and> (revision s' = revision s \<longrightarrow> sh_id h' = sh_id h)))"

lemma checkpoints_aside [simp]:
  "head_row a (db\<lparr>user_state_checkpoints := x\<rparr>) = head_row a db"
  "state_inv cr S (db\<lparr>user_state_checkpoints := x\<rparr>) \<longleftrightarrow> state_inv cr S db"
  by (cases "map_of (user_state_heads db) a") (simp_all add: head_row_def state_inv_def)

lemma heads_le_refl [simp]: "heads_le db db"
  by (simp add: heads_le_def)

lemma heads_le_trans:
  assumes "heads_le db db'" "heads_le db' db''" shows "heads_le db db''"
  unfolding heads_le_def
proof (intro allI impI)
  fix a h s assume "head_row a db = Some (h, s)"
  then obtain h' s' where 1: "head_row a db' = Some (h', s')" "revision s \<le> revision s'" "sh_generation h \<le> sh_generation h'"
      "revision s' = revision s \<longrightarrow> sh_id h' = sh_id h" using assms(1) unfolding heads_le_def by blast
  then obtain h'' s'' where 2: "head_row a db'' = Some (h'', s'')" "revision s' \<le> revision s''"
      "sh_generation h' \<le> sh_generation h''" "revision s'' = revision s' \<longrightarrow> sh_id h'' = sh_id h'"
    using assms(2) unfolding heads_le_def by blast
  have "revision s'' = revision s \<longrightarrow> sh_id h'' = sh_id h" using 1(2,4) 2(2,4) by (metis le_antisym)
  then show "\<exists>h' s'. head_row a db'' = Some (h', s') \<and> revision s \<le> revision s' \<and> sh_generation h \<le> sh_generation h'
      \<and> (revision s' = revision s \<longrightarrow> sh_id h' = sh_id h)" using 1 2 by fastforce
qed

text \<open>What a write leaves alone.\<close>

lemma clear_chain_keeps [simp]:
  "user_state_heads (clear_chain k salt a d ch db) = user_state_heads db"
  "user_state_revisions (clear_chain k salt a d ch db) = user_state_revisions db"
  "user_state_checkpoints (clear_chain k salt a d ch db) = user_state_checkpoints db"
  "account_asset_commits (clear_chain k salt a d ch db) = account_asset_commits db"
  "account_asset_commit_items (clear_chain k salt a d ch db) = account_asset_commit_items db"
  by (simp_all add: clear_chain_def Let_def split: prod.splits)

lemma clear_chains_keep [simp]:
  "user_state_heads (fold (clear_chain k salt a d) chs db) = user_state_heads db"
  "user_state_revisions (fold (clear_chain k salt a d) chs db) = user_state_revisions db"
  "user_state_checkpoints (fold (clear_chain k salt a d) chs db) = user_state_checkpoints db"
  "account_asset_commits (fold (clear_chain k salt a d) chs db) = account_asset_commits db"
  "account_asset_commit_items (fold (clear_chain k salt a d) chs db) = account_asset_commit_items db"
  by (induction chs arbitrary: db) simp_all

lemma project_Inr:
  assumes "project k salt now d idh v db = Inr db'"
  shows "user_state_revisions db' = user_state_revisions db
    \<and> user_state_heads db' = upsert (sn_account v) \<lparr>sh_id = idh, sh_generation = 1, sh_legacy = False\<rparr>
        (\<lambda>h. h\<lparr>sh_id := idh, sh_generation := sh_generation h + 1, sh_legacy := False\<rparr>) (user_state_heads db)"
  using assms by (auto simp: project_def Let_def split: option.splits)

lemma saveState_keeps [simp]:
  "user_state_heads (saveState v idh t db) = user_state_heads db"
  "map_of (user_state_revisions (saveState v idh t db)) i =
     (if i = idh then Some (case map_of (user_state_revisions db) idh of None \<Rightarrow> (sn_account v, v) | Some r \<Rightarrow> r)
      else map_of (user_state_revisions db) i)"
  by (simp_all add: saveState_def)

lemma saveState_inv:
  assumes "state_inv cr S db" "v \<in> S" "Validate cr v = Inr (idh, t)"
  shows "state_inv cr S (saveState v idh t db) \<and> heads_le db (saveState v idh t db)"
proof
  show "state_inv cr S (saveState v idh t db)"
    unfolding state_inv_def
  proof (intro conjI allI impI)
    show "keys_unique (user_state_heads (saveState v idh t db))" using assms(1) by (simp add: state_inv_def)
    fix i a s assume r: "map_of (user_state_revisions (saveState v idh t db)) i = Some (a, s)"
    have "map_of (user_state_revisions db) i = Some (a, s) \<or> i = idh \<and> a = sn_account v \<and> s = v"
      using r by (auto split: if_splits option.splits)
    then show "s \<in> S" "a = sn_account s" "\<exists>t. Validate cr s = Inr (i, t)"
      using assms unfolding state_inv_def by blast+
  next
    fix a h assume "map_of (user_state_heads (saveState v idh t db)) a = Some h"
    then have "map_of (user_state_heads db) a = Some h" by simp
    then obtain s where "map_of (user_state_revisions db) (sh_id h) = Some (a, s)"
      using assms(1) unfolding state_inv_def by blast
    then show "\<exists>s. map_of (user_state_revisions (saveState v idh t db)) (sh_id h) = Some (a, s)" by auto
  qed
  have "head_row a (saveState v idh t db) = Some r" if "head_row a db = Some r" for a r
    using that by (auto simp: head_row_def split: option.splits)
  then show "heads_le db (saveState v idh t db)" unfolding heads_le_def by blast
qed

lemma PutUserState_Inr:
  assumes "PutUserState cr salt now v gen db = Inr db'"
  obtains (same) idh t where "Validate cr v = Inr (idh, t)" "db' = db" "map_option (sh_id \<circ> fst) (head_row (sn_account v) db) = Some idh"
  | (new) idh t d where "Validate cr v = Inr (idh, t)"
      "project (cr_keccak cr) salt now d idh v (saveState v idh t db) = Inr db'" "d > int now"
      "ParseInt gen = Some (case head_row (sn_account v) db of None \<Rightarrow> 0 | Some (h, _) \<Rightarrow> int (sh_generation h))"
      "\<And>h s. head_row (sn_account v) db = Some (h, s) \<Longrightarrow> Successor cr s v \<and> sh_id h \<noteq> idh"
proof -
  obtain r where r: "Validate cr v = Inr r" using assms by (auto simp: PutUserState_def split: sum.splits)
  obtain idh t where rr: "r = (idh, t)" by (cases r)
  obtain g where g: "ParseInt gen = Some g"
    using assms r rr by (auto simp: PutUserState_def Let_def split: if_splits option.splits)
  show thesis
  proof (cases "map_option (sh_id \<circ> fst) (head_row (sn_account v) db) = Some idh")
    case True
    then show thesis using same [of idh t] assms r rr g by (auto simp: PutUserState_def Let_def split: if_splits)
  next
    case False
    then show thesis
      using new [of idh t "case Decimal (sn_deadline v) 256 of Inr d \<Rightarrow> int d | Inl _ \<Rightarrow> 0"] assms r rr g
      by (cases "head_row (sn_account v) db") (auto simp: PutUserState_def Let_def split: if_splits)
  qed
qed

lemma Successor_revision:
  "Successor cr s v \<Longrightarrow> revision v = Suc (revision s) \<and> sn_account v = sn_account s \<and> ID cr s = Some (sn_previous v)"
  using ParseUint_dec by (auto simp: Successor_def revision_def ParseUint_def split: option.splits if_splits)

lemma put_keeps_inv:
  assumes inv: "state_inv cr S db" and nc: "no_collision cr S" and v: "v \<in> S"
    and put: "PutUserState cr salt now v gen db = Inr db'"
  shows "state_inv cr S db' \<and> heads_le db db'"
  using put
proof (cases rule: PutUserState_Inr)
  case (new idh t d)
  let ?db1 = "saveState v idh t db" and ?a = "sn_account v"
  have i1: "state_inv cr S ?db1" using saveState_inv [OF inv v new(1)] by blast
  note p = project_Inr [OF new(2)]
  obtain a s where s: "map_of (user_state_revisions ?db1) idh = Some (a, s)"
    by (cases "map_of (user_state_revisions db) idh") auto
  have sS: "s \<in> S" "a = sn_account s" "ID cr s = Some idh"
    using i1 s Validate_Inr unfolding state_inv_def by blast+
  have "ID cr v = Some idh" using Validate_Inr new(1) by blast
  then have td: "TypedData_of s = TypedData_of v" using nc sS(1,3) v unfolding no_collision_def by (metis option.distinct(1))
  then have same: "sn_account s = ?a" "sn_revision s = sn_revision v" by (simp_all add: TypedData_of_def)
  have ku: "keys_unique (user_state_heads db')" using inv p by (simp add: state_inv_def)
  have heads: "map_of (user_state_heads db') b = (if b = ?a then
      Some (case map_of (user_state_heads db) ?a of None \<Rightarrow> \<lparr>sh_id = idh, sh_generation = 1, sh_legacy = False\<rparr>
        | Some h \<Rightarrow> h\<lparr>sh_id := idh, sh_generation := sh_generation h + 1, sh_legacy := False\<rparr>)
      else map_of (user_state_heads db) b)" for b
    using p by (auto split: option.splits)
  have inv': "state_inv cr S db'"
    using i1 ku heads s sS(2) same(1) p unfolding state_inv_def by (auto split: option.splits if_splits)
  moreover have "heads_le db db'"
    unfolding heads_le_def
  proof (intro allI impI)
    fix b h s0 assume h: "head_row b db = Some (h, s0)"
    show "\<exists>h' s'. head_row b db' = Some (h', s') \<and> revision s0 \<le> revision s' \<and> sh_generation h \<le> sh_generation h'
        \<and> (revision s' = revision s0 \<longrightarrow> sh_id h' = sh_id h)"
    proof (cases "b = ?a")
      case True
      then have "revision v = Suc (revision s0)" using new(5) h Successor_revision by blast
      then have "revision s = Suc (revision s0)" by (simp add: revision_def same(2))
      moreover obtain h' where "head_row b db' = Some (h', s)" "sh_generation h' = sh_generation h + 1"
        using h True heads [of ?a] s p by (auto simp: head_row_def split: option.splits)
      ultimately show ?thesis by auto
    next
      case False
      then have "head_row b db' = Some (h, s0)"
        using h heads [of b] p by (auto simp: head_row_def split: option.splits)
      then show ?thesis by simp
    qed
  qed
  ultimately show ?thesis ..
qed (use inv in simp)

lemma imports_keep_inv:
  "import_snapshots cr vs db = Inr db' \<Longrightarrow> state_inv cr S db \<Longrightarrow> set vs \<subseteq> S \<Longrightarrow> state_inv cr S db' \<and> heads_le db db'"
proof (induction cr vs db rule: import_snapshots.induct)
  case (2 cr v vs db)
  obtain idh t where v: "Validate cr v = Inr (idh, t)" using "2.prems"(1) by (auto split: sum.splits)
  have "state_inv cr S (saveState v idh t db) \<and> heads_le db (saveState v idh t db)"
    using saveState_inv [OF "2.prems"(2) _ v] "2.prems"(3) by simp
  then show ?case using "2.IH" [OF v refl] "2.prems" v heads_le_trans by (metis (no_types, lifting) import_snapshots.simps(2)
      insert_subset list.simps(15) old.prod.case sum.case(2))
qed simp

lemma step_keeps_inv:
  assumes "state_step cr salt S db db'" "state_inv cr S db" "no_collision cr S"
  shows "state_inv cr S db' \<and> heads_le db db'"
  using assms(1)
proof cases
  case (put v now gen)
  then show ?thesis using put_keeps_inv assms(2,3) by blast
next
  case (imported v)
  then show ?thesis using saveState_inv [OF assms(2)] by (auto simp: ImportState_def split: sum.splits)
next
  case (checkpoint c)
  then obtain db1 where db1: "import_snapshots cr (ck_snapshots c) db = Inr db1"
      "db' = db1\<lparr>user_state_checkpoints := upsert (ck_root c) c (\<lambda>old. old) (user_state_checkpoints db1)\<rparr>"
    by (auto simp: ImportCheckpoint_def split: option.splits sum.splits)
  then show ?thesis using imports_keep_inv [OF db1(1) assms(2) checkpoint(1)] by (simp add: heads_le_def)
next
  case (built c)
  then show ?thesis using assms(2)
    by (auto simp: BuildStateCheckpoint_def Let_def heads_le_def split: sum.splits)
next
  case (legacy a)
  have "head_row b db' = (if b = a then map_option (\<lambda>(h, s). (h\<lparr>sh_legacy := True, sh_generation := sh_generation h + 1\<rparr>, s)) (head_row b db)
      else head_row b db)" for b
    unfolding legacy
    by (auto simp: head_row_def markLegacyState_def map_option_case split: option.splits)
  then have "heads_le db db'" by (auto simp: heads_le_def)
  moreover have "state_inv cr S db'"
    using assms(2) unfolding legacy state_inv_def by (auto simp: markLegacyState_def split: if_splits)
  ultimately show ?thesis by blast
qed

lemma head_rows_inv:
  assumes inv: "state_inv cr S db"
  shows "distinct (map fst (head_rows db))"
    and "(a, idh, s) \<in> set (head_rows db) \<Longrightarrow> sn_account s = a \<and> snapshot_id cr s = Some idh"
    and "map_of (user_state_heads db) a = Some h \<Longrightarrow> \<exists>s. (a, sh_id h, s) \<in> set (head_rows db)"
    and "fst ` set (head_rows db) \<subseteq> fst ` set (user_state_heads db)"
proof -
  let ?hs = "sort_key fst (user_state_heads db)" and ?R = "map_of (user_state_revisions db)"
  have "distinct (map fst ?hs)"
    using inv by (metis keys_unique_def mset_eq_imp_distinct_iff mset_map mset_sort state_inv_def)
  then have "distinct (map fst (filter (\<lambda>(a, h). ?R (sh_id h) \<noteq> None) ?hs))" by (rule distinct_map_filter)
  then show "distinct (map fst (head_rows db))" by (simp add: head_rows_def comp_def case_prod_beta)
  have R: "map_of (user_state_heads db) a = Some h" if "(a, h) \<in> set ?hs" for a h
    using that inv by (simp add: state_inv_def keys_unique_def)
  have S: "\<exists>s. ?R (sh_id h) = Some (a, s) \<and> sn_account s = a \<and> snapshot_id cr s = Some (sh_id h)"
    if "map_of (user_state_heads db) a = Some h" for a h
    using inv that unfolding state_inv_def snapshot_id_def by (metis (no_types, lifting) case_prod_conv old.sum.simps(6))
  show "sn_account s = a \<and> snapshot_id cr s = Some idh" if row: "(a, idh, s) \<in> set (head_rows db)" for a idh s
  proof -
    obtain h where "(a, h) \<in> set ?hs" "idh = sh_id h" "s = snd (the (?R (sh_id h)))" using row by (auto simp: head_rows_def)
    then show ?thesis using S [OF R] by force
  qed
  show "\<exists>s. (a, sh_id h, s) \<in> set (head_rows db)" if "map_of (user_state_heads db) a = Some h" for a h
    using S [OF that] map_of_SomeD [OF that] by (force simp: head_rows_def)
  show "fst ` set (head_rows db) \<subseteq> fst ` set (user_state_heads db)" by (force simp: head_rows_def)
qed

lemma import_snapshots_ok:
  assumes "\<forall>s \<in> set vs. snapshot_id cr s \<noteq> None"
  shows "\<exists>db'. import_snapshots cr vs db = Inr db' \<and> user_state_heads db' = user_state_heads db
    \<and> (\<forall>i. map_of (user_state_revisions db) i \<noteq> None \<longrightarrow> map_of (user_state_revisions db') i \<noteq> None)
    \<and> (\<forall>s \<in> set vs. map_of (user_state_revisions db') (the (snapshot_id cr s)) \<noteq> None)"
  using assms
proof (induction vs arbitrary: db)
  case (Cons v vs)
  obtain idh t where v: "Validate cr v = Inr (idh, t)" "snapshot_id cr v = Some idh"
    using Cons.prems by (fastforce simp: snapshot_id_def split: sum.splits)
  obtain db' where db': "import_snapshots cr vs (saveState v idh t db) = Inr db'"
      "user_state_heads db' = user_state_heads db"
      "\<forall>i. map_of (user_state_revisions (saveState v idh t db)) i \<noteq> None \<longrightarrow> map_of (user_state_revisions db') i \<noteq> None"
      "\<forall>s \<in> set vs. map_of (user_state_revisions db') (the (snapshot_id cr s)) \<noteq> None"
    using Cons.IH [of "saveState v idh t db"] Cons.prems by auto
  have "map_of (user_state_revisions db') idh \<noteq> None" using db'(3) by simp
  then show ?case using db' v by (intro exI [of _ db']) (auto split: if_splits)
qed simp

section \<open>What a snapshot replaces\<close>

definition cleared :: "hashfn \<Rightarrow> byte list \<Rightarrow> address \<Rightarrow> (nat \<times> bool) list \<Rightarrow> ((nat \<times> hash) \<times> int) list \<Rightarrow> nat \<Rightarrow> hash \<Rightarrow> bool" where
  "cleared k salt account chs V c voter \<longleftrightarrow> voter = state_voter k salt c account
     \<and> (\<exists>isNew. (c, isNew) \<in> set chs \<and> (isNew \<or> map_of V (c, voter) \<noteq> None))"

lemma clear_chain_demand:
  "asset_demand (clear_chain k salt account d (c, isNew) db) =
     filter (\<lambda>((c', a, v), r). \<not> cleared k salt account [(c, isNew)] (account_verdicts db) c' v) (asset_demand db)"
  by (auto simp: clear_chain_def cleared_def Let_def intro!: filter_cong [OF refl] filter_True [symmetric])

lemma clear_chain_verdicts:
  "map_of (account_verdicts (clear_chain k salt account d (c, isNew) db)) (c', v) \<noteq> None \<longleftrightarrow>
     cleared k salt account [(c, isNew)] (account_verdicts db) c' v \<or> map_of (account_verdicts db) (c', v) \<noteq> None"
  by (auto simp: clear_chain_def cleared_def Let_def)

lemma clear_chains_demand:
  "distinct (map fst chs) \<Longrightarrow>
   asset_demand (fold (clear_chain k salt account d) chs db) =
     filter (\<lambda>((c, a, v), r). \<not> cleared k salt account chs (account_verdicts db) c v) (asset_demand db)
   \<and> (\<forall>c v. map_of (account_verdicts (fold (clear_chain k salt account d) chs db)) (c, v) \<noteq> None \<longleftrightarrow>
        cleared k salt account chs (account_verdicts db) c v \<or> map_of (account_verdicts db) (c, v) \<noteq> None)"
proof (induction chs arbitrary: db)
  case (Cons ch chs)
  obtain c isNew where ch: "ch = (c, isNew)" by (cases ch)
  let ?db1 = "clear_chain k salt account d ch db"
  have d: "distinct (map fst chs)" and notin: "\<forall>b. (c, b) \<notin> set chs" using Cons.prems ch by force+
  have later: "cleared k salt account chs (account_verdicts ?db1) c' v \<longleftrightarrow> cleared k salt account chs (account_verdicts db) c' v" for c' v
    using clear_chain_verdicts [of k salt account d c isNew db c' v] notin
    by (auto simp: cleared_def ch)
  have both: "cleared k salt account (ch # chs) (account_verdicts db) c' v \<longleftrightarrow>
      cleared k salt account [ch] (account_verdicts db) c' v \<or> cleared k salt account chs (account_verdicts db) c' v" for c' v
    by (auto simp: cleared_def)
  have 1: "asset_demand ?db1 = filter (\<lambda>((c', a, v), r). \<not> cleared k salt account [ch] (account_verdicts db) c' v) (asset_demand db)"
    unfolding ch by (rule clear_chain_demand)
  have 2: "map_of (account_verdicts ?db1) (c', v) \<noteq> None \<longleftrightarrow>
      cleared k salt account [ch] (account_verdicts db) c' v \<or> map_of (account_verdicts db) (c', v) \<noteq> None" for c' v
    unfolding ch by (rule clear_chain_verdicts)
  note IH = Cons.IH [OF d, of ?db1]
  show ?case
  proof
    show "asset_demand (fold (clear_chain k salt account d) (ch # chs) db) =
        filter (\<lambda>((c, a, v), r). \<not> cleared k salt account (ch # chs) (account_verdicts db) c v) (asset_demand db)"
      using IH 1 by (auto simp: later both intro!: filter_cong [OF refl])
    show "\<forall>c v. map_of (account_verdicts (fold (clear_chain k salt account d) (ch # chs) db)) (c, v) \<noteq> None \<longleftrightarrow>
        cleared k salt account (ch # chs) (account_verdicts db) c v \<or> map_of (account_verdicts db) (c, v) \<noteq> None"
      using IH 2 unfolding later both by auto
  qed
qed (simp add: cleared_def case_prod_beta)

definition verdict_rows :: "hashfn \<Rightarrow> byte list \<Rightarrow> address \<Rightarrow> nat \<Rightarrow> Entry list \<Rightarrow> (demand_key \<times> DemandVote) list" where
  "verdict_rows k salt account now es =
     map (\<lambda>e. ((entry_chain e, en_address e, state_voter k salt (entry_chain e) account),
               \<lparr>dv_weight = sint (en_weight e), dv_votes = 1, dv_last = now\<rparr>))
       (filter (\<lambda>e. en_kind e \<noteq> ''asset'') es)"

lemma put_entries_ok:
  "distinct (map fst (tab @ verdict_rows k salt account now es)) \<Longrightarrow>
   put_entries k salt account now items tab es =
     Some (items @ map (\<lambda>e. (entry_chain e, en_address e)) (asset_entries es), tab @ verdict_rows k salt account now es)"
proof (induction es arbitrary: items tab)
  case (Cons e es)
  show ?case
  proof (cases "en_kind e = ''asset''")
    case True
    then show ?thesis using Cons by (simp add: verdict_rows_def asset_entries_def)
  next
    case False
    let ?row = "((entry_chain e, en_address e, state_voter k salt (entry_chain e) account),
               \<lparr>dv_weight = sint (en_weight e), dv_votes = 1, dv_last = now\<rparr>)"
    have v: "verdict_rows k salt account now (e # es) = ?row # verdict_rows k salt account now es"
      using False by (simp add: verdict_rows_def)
    have "map_of tab (fst ?row) = None" using Cons.prems unfolding v by (simp add: map_of_eq_None_iff)
    moreover have "put_entries k salt account now items (tab @ [?row]) es =
        Some (items @ map (\<lambda>e. (entry_chain e, en_address e)) (asset_entries es), (tab @ [?row]) @ verdict_rows k salt account now es)"
      using Cons.IH [of "tab @ [?row]" items] Cons.prems unfolding v by simp
    ultimately show ?thesis using False v by (simp add: Let_def asset_entries_def)
  qed
qed (simp add: verdict_rows_def asset_entries_def)

lemma chains_of_verdicts: "c \<in> set (remdups (map (fst \<circ> fst) V)) \<longleftrightarrow> (\<exists>v. map_of V (c, v) \<noteq> None)"
proof -
  have "c \<in> (fst \<circ> fst) ` set V \<longleftrightarrow> (\<exists>v. (c, v) \<in> fst ` set V)" by force
  then show ?thesis by (simp add: map_of_eq_None_iff)
qed

lemma entry_chain_dec: "entry_ok e \<Longrightarrow> en_chain e = dec_string (entry_chain e)"
  using ParseUint_dec by (force simp: entry_ok_def entry_chain_def)

lemma distinct_by_slot:
  assumes "distinct (map entry_slot es)" "set xs \<subseteq> set es" "distinct xs"
    and "\<And>e e'. e \<in> set xs \<Longrightarrow> e' \<in> set xs \<Longrightarrow> f e = f e' \<Longrightarrow> entry_slot e = entry_slot e'"
  shows "distinct (map f xs)"
proof -
  have "inj_on entry_slot (set xs)" using assms(1,2) by (meson distinct_map inj_on_subset)
  then have "inj_on f (set xs)" using assms(4) unfolding inj_on_def by blast
  then show ?thesis using assms(3) by (simp add: distinct_map)
qed

text \<open>The rows of an account that a snapshot does not touch: votes cast without a signature on a
  chain where others have signed and the account never did.\<close>

definition untouched :: "hashfn \<Rightarrow> byte list \<Rightarrow> Snapshot \<Rightarrow> 'a state_db_scheme \<Rightarrow> Entry set" where
  "untouched k salt v db = {verdict_entry c a (dv_weight r) | c a r.
     ((c, a, state_voter k salt c (sn_account v)), r) \<in> set (asset_demand db)
     \<and> (\<exists>w. map_of (account_verdicts db) (c, w) \<noteq> None)
     \<and> map_of (account_verdicts db) (c, state_voter k salt c (sn_account v)) = None
     \<and> c \<notin> entry_chain ` {e \<in> set (sn_entries v). en_kind e = ''verdict''}}"

lemma state_chains_props:
  "distinct (map fst (state_chains v db))"
  "(c, b) \<in> set (state_chains v db) \<longleftrightarrow> b = (c \<in> entry_chain ` {e \<in> set (sn_entries v). en_kind e = ''verdict''})
     \<and> (b \<or> (\<exists>w. map_of (account_verdicts db) (c, w) \<noteq> None))"
  using chains_of_verdicts [of c "account_verdicts db"]
  by (auto simp: state_chains_def Let_def comp_def image_iff)

lemma cleared_state_chains:
  "cleared k salt (sn_account v) (state_chains v db) (account_verdicts db) c w \<longleftrightarrow>
     w = state_voter k salt c (sn_account v)
     \<and> (c \<in> entry_chain ` {e \<in> set (sn_entries v). en_kind e = ''verdict''} \<or> map_of (account_verdicts db) (c, w) \<noteq> None)"
  by (auto simp: cleared_def state_chains_props)

section \<open>Deadlines only rise\<close>

text \<open>The writes of the three tables of signed records. An account state rewrites the first two of
  them; the fifth case is every other write of the program, since no other statement names them.\<close>

inductive write_step :: "crypto \<Rightarrow> byte list \<Rightarrow> state_db \<Rightarrow> state_db \<Rightarrow> bool" for cr salt where
  verdict: "ReplaceVerdicts (cr_keccak cr) salt c account dl pairs now db = Inr (db', m, n) \<Longrightarrow> write_step cr salt db db'"
| commit: "PutAssetCommit account items digest d db = Inr db' \<Longrightarrow> write_step cr salt db db'"
| hint: "PutAccountHint account h db = Inr db' \<Longrightarrow> write_step cr salt db db'"
| state: "PutUserState cr salt now v gen db = Inr db' \<Longrightarrow> write_step cr salt db db'"
| other: "account_verdicts db' = account_verdicts db \<Longrightarrow> account_asset_commits db' = account_asset_commits db
    \<Longrightarrow> account_hints db' = account_hints db \<Longrightarrow> write_step cr salt db db'"

lemma clear_chains_hints [simp]: "account_hints (fold (clear_chain k salt a d) chs db) = account_hints db"
proof (induction chs arbitrary: db)
  case (Cons ch chs)
  have "account_hints (clear_chain k salt a d ch db) = account_hints db" by (simp add: clear_chain_def Let_def split: prod.splits)
  then show ?case using Cons by simp
qed simp

lemma clear_chain_deadline:
  "map_of (account_verdicts db) key = Some old
     \<Longrightarrow> \<exists>new. map_of (account_verdicts (clear_chain k salt a d ch db)) key = Some new \<and> old \<le> new"
  by (cases ch) (auto simp: clear_chain_def Let_def)

lemma clear_chains_deadline:
  "map_of (account_verdicts db) key = Some old
     \<Longrightarrow> \<exists>new. map_of (account_verdicts (fold (clear_chain k salt a d) chs db)) key = Some new \<and> old \<le> new"
proof (induction chs arbitrary: db old)
  case (Cons ch chs)
  obtain new where "map_of (account_verdicts (clear_chain k salt a d ch db)) key = Some new" "old \<le> new"
    using clear_chain_deadline [OF Cons.prems] by blast
  then show ?case using Cons.IH by fastforce
qed simp

lemma cleared_deadline:
  "cleared k salt a chs (account_verdicts db) c w
     \<Longrightarrow> \<exists>new. map_of (account_verdicts (fold (clear_chain k salt a d) chs db)) (c, w) = Some new \<and> d \<le> new"
proof (induction chs arbitrary: db)
  case (Cons ch chs)
  let ?db1 = "clear_chain k salt a d ch db"
  show ?case
  proof (cases "cleared k salt a [ch] (account_verdicts db) c w")
    case True
    then obtain new where "map_of (account_verdicts ?db1) (c, w) = Some new" "d \<le> new"
      by (cases "map_of (account_verdicts db) (c, w)") (auto simp: cleared_def clear_chain_def Let_def)
    then show ?thesis using clear_chains_deadline [of ?db1 "(c, w)" new k salt a d chs] by fastforce
  next
    case False
    have "map_of (account_verdicts ?db1) (c, w) \<noteq> None" if "map_of (account_verdicts db) (c, w) \<noteq> None"
      using that clear_chain_deadline [of db "(c, w)" _ k salt a d ch] by fastforce
    then have "cleared k salt a chs (account_verdicts ?db1) c w" using Cons.prems False by (auto simp: cleared_def)
    then show ?thesis using Cons.IH by simp
  qed
qed (simp add: cleared_def)

text \<open>An admitted account state raises the floor of its account's asset list, and of its verdicts on
  every chain it names or where the account signed before.\<close>

lemma project_deadlines:
  assumes "project k salt now d idh v db = Inr db'"
  shows "account_hints db' = account_hints db"
    and "\<And>key old. map_of (account_verdicts db) key = Some old \<Longrightarrow> \<exists>new. map_of (account_verdicts db') key = Some new \<and> old \<le> new"
    and "\<And>a old. commit_deadline db a = Some old \<Longrightarrow> \<exists>new. commit_deadline db' a = Some new \<and> old \<le> new"
    and "\<exists>new. commit_deadline db' (sn_account v) = Some new \<and> d \<le> new"
    and "\<And>c w. cleared k salt (sn_account v) (state_chains v db) (account_verdicts db) c w
          \<Longrightarrow> \<exists>new. map_of (account_verdicts db') (c, w) = Some new \<and> d \<le> new"
proof -
  let ?db1 = "fold (clear_chain k salt (sn_account v) d) (state_chains v db) db"
  obtain digest where r: "account_verdicts db' = account_verdicts ?db1" "account_hints db' = account_hints ?db1"
    "account_asset_commits db' = upsert (sn_account v) \<lparr>ac_digest = digest, ac_deadline = d\<rparr>
       (\<lambda>old. \<lparr>ac_digest = digest, ac_deadline = max (ac_deadline old) d\<rparr>) (account_asset_commits db)"
    using assms by (auto simp: project_def Let_def split: option.splits)
  show "account_hints db' = account_hints db" by (simp add: r)
  show "\<And>key old. map_of (account_verdicts db) key = Some old \<Longrightarrow> \<exists>new. map_of (account_verdicts db') key = Some new \<and> old \<le> new"
    unfolding r by (rule clear_chains_deadline)
  show "\<And>a old. commit_deadline db a = Some old \<Longrightarrow> \<exists>new. commit_deadline db' a = Some new \<and> old \<le> new"
    "\<exists>new. commit_deadline db' (sn_account v) = Some new \<and> d \<le> new"
    by (auto simp: commit_deadline_def r split: option.splits)
  show "\<And>c w. cleared k salt (sn_account v) (state_chains v db) (account_verdicts db) c w
      \<Longrightarrow> \<exists>new. map_of (account_verdicts db') (c, w) = Some new \<and> d \<le> new"
    unfolding r by (rule cleared_deadline)
qed

lemma saveState_deadlines [simp]:
  "account_verdicts (saveState v idh t db) = account_verdicts db"
  "account_asset_commits (saveState v idh t db) = account_asset_commits db"
  "account_hints (saveState v idh t db) = account_hints db"
  "state_chains w (saveState v idh t db) = state_chains w db"
  by (simp_all add: saveState_def state_chains_def)

lemma PutUserState_deadlines:
  assumes "PutUserState cr salt now v gen db = Inr db'"
  shows "account_hints db' = account_hints db"
    and "map_of (account_verdicts db) key = Some old \<Longrightarrow> \<exists>new. map_of (account_verdicts db') key = Some new \<and> old \<le> new"
    and "commit_deadline db a = Some old \<Longrightarrow> \<exists>new. commit_deadline db' a = Some new \<and> old \<le> new"
  using assms
  by (cases rule: PutUserState_Inr; fastforce dest: project_deadlines(1-3) simp: commit_deadline_def)+

lemma write_step_deadlines:
  assumes "write_step cr salt db db'"
  shows "verdict_deadline (cr_keccak cr) salt db who = Some old
      \<Longrightarrow> \<exists>new. verdict_deadline (cr_keccak cr) salt db' who = Some new \<and> old \<le> new"
    and "commit_deadline db a = Some old \<Longrightarrow> \<exists>new. commit_deadline db' a = Some new \<and> old \<le> new"
    and "hint_deadline db a = Some old \<Longrightarrow> \<exists>new. hint_deadline db' a = Some new \<and> old \<le> new"
proof -
  have "(\<forall>key old. map_of (account_verdicts db) key = Some old \<longrightarrow> (\<exists>new. map_of (account_verdicts db') key = Some new \<and> old \<le> new))
    \<and> (\<forall>a old. commit_deadline db a = Some old \<longrightarrow> (\<exists>new. commit_deadline db' a = Some new \<and> old \<le> new))
    \<and> (\<forall>a old. hint_deadline db a = Some old \<longrightarrow> (\<exists>new. hint_deadline db' a = Some new \<and> old \<le> new))"
    using assms
  proof cases
    case (verdict c account dl pairs now m n)
    then obtain d tab where tab: "raise_deadline (unat c, voterKey (cr_keccak cr) salt c account) d (account_verdicts db) = Some tab"
        "account_verdicts db' = tab" by (elim ReplaceVerdicts_Inr) blast
    have "account_asset_commits db' = account_asset_commits db" "account_hints db' = account_hints db"
      using verdict by (auto simp: ReplaceVerdicts_def markLegacyState_def Let_def split: if_splits option.splits)
    then show ?thesis using raise_deadline_Some [OF tab(1)] tab(2)
      by (auto simp: commit_deadline_def hint_deadline_def less_imp_le)
  next
    case (commit account items digest d)
    then show ?thesis
      by (auto simp: PutAssetCommit_def markLegacyState_def commit_deadline_def hint_deadline_def Let_def split: if_splits option.splits)
  next
    case (hint account h)
    then show ?thesis
      by (auto simp: PutAccountHint_def commit_deadline_def hint_deadline_def Let_def split: if_splits option.splits)
  next
    case (state now v gen)
    then show ?thesis using PutUserState_deadlines [OF state] by (auto simp: hint_deadline_def)
  qed (auto simp: commit_deadline_def hint_deadline_def)
  then show "verdict_deadline (cr_keccak cr) salt db who = Some old
      \<Longrightarrow> \<exists>new. verdict_deadline (cr_keccak cr) salt db' who = Some new \<and> old \<le> new"
    "commit_deadline db a = Some old \<Longrightarrow> \<exists>new. commit_deadline db' a = Some new \<and> old \<le> new"
    "hint_deadline db a = Some old \<Longrightarrow> \<exists>new. hint_deadline db' a = Some new \<and> old \<le> new"
    by (simp_all add: verdict_deadline_def)
qed

interpretation verdict_writes: deadline_steps "verdict_deadline (cr_keccak cr) salt" "put_verdict (cr_keccak cr) salt" "write_step cr salt" for cr salt
  by unfold_locales (rule write_step_deadlines(1))

interpretation commit_writes: deadline_steps commit_deadline put_commit "write_step cr salt" for cr salt
  by unfold_locales (rule write_step_deadlines(2))

interpretation hint_writes: deadline_steps hint_deadline put_hint "write_step cr salt" for cr salt
  by unfold_locales (rule write_step_deadlines(3))

lemma verdict_refused: "(\<exists>e. put_verdict k salt (c, a) d (pairs, now) db = Inl e) \<longleftrightarrow> (\<exists>e. ReplaceVerdicts k salt c a (Some d) pairs now db = Inl e)"
  by (auto simp: put_verdict_def map_sum_def split: sum.splits)

lemma admitted_deadlines:
  assumes "PutUserState cr salt now v gen db = Inr db1" "db1 \<noteq> db" "Decimal (sn_deadline v) 256 = Inr D"
  shows "\<exists>floor. commit_deadline db1 (sn_account v) = Some floor \<and> int D \<le> floor"
    and "verdict_deadline (cr_keccak cr) salt db (c, sn_account v) \<noteq> None
        \<or> (\<exists>e \<in> set (sn_entries v). en_kind e = ''verdict'' \<and> entry_chain e = unat c)
      \<Longrightarrow> \<exists>floor. verdict_deadline (cr_keccak cr) salt db1 (c, sn_account v) = Some floor \<and> int D \<le> floor"
proof -
  obtain idh t where p: "project (cr_keccak cr) salt now (int D) idh v (saveState v idh t db) = Inr db1"
    using assms by (auto simp: PutUserState_def Let_def split: sum.splits if_splits option.splits)
  show "\<exists>floor. commit_deadline db1 (sn_account v) = Some floor \<and> int D \<le> floor" by (rule project_deadlines(4) [OF p])
  have voter: "state_voter (cr_keccak cr) salt (unat c) (sn_account v) = voterKey (cr_keccak cr) salt c (sn_account v)"
    by (simp add: state_voter_def)
  show "verdict_deadline (cr_keccak cr) salt db (c, sn_account v) \<noteq> None
        \<or> (\<exists>e \<in> set (sn_entries v). en_kind e = ''verdict'' \<and> entry_chain e = unat c)
      \<Longrightarrow> \<exists>floor. verdict_deadline (cr_keccak cr) salt db1 (c, sn_account v) = Some floor \<and> int D \<le> floor"
    using project_deadlines(5) [OF p, of "unat c" "voterKey (cr_keccak cr) salt c (sn_account v)"]
    by (force simp: verdict_deadline_def cleared_state_chains voter)
qed

section \<open>Concrete databases\<close>

definition demo_state_db :: state_db where
  "demo_state_db = \<lparr>interactions = [], pending_events = [], chains = [], assets = [], asset_cursors = [],
     asset_demand = [], asset_demand_onchain = [], account_verdicts = [], user_state_heads = [],
     account_asset_commits = [], account_asset_commit_items = [], account_hints = [],
     candidates = [], discovery_cursor = [], promotion_cooldowns = [],
     user_state_revisions = [], user_state_nodes = Map.empty, user_state_checkpoints = []\<rparr>"

definition demo_head_db :: state_db where
  "demo_head_db = demo_state_db\<lparr>user_state_heads := [(7, \<lparr>sh_id = 1261, sh_generation = 1, sh_legacy = False\<rparr>)],
     user_state_revisions := [(1261, 7, demo_snapshot)]\<rparr>"

lemma demo_state_inv: "state_inv demo_crypto {demo_snapshot} demo_state_db"
  by (simp add: state_inv_def demo_state_db_def keys_unique_def)

lemma demo_head_inv: "state_inv demo_crypto {demo_snapshot} demo_head_db"
  using demo_validate by (auto simp: state_inv_def demo_head_db_def keys_unique_def demo_snapshot_def split: if_splits)

lemma demo_head_row: "head_row 7 demo_head_db = Some (\<lparr>sh_id = 1261, sh_generation = 1, sh_legacy = False\<rparr>, demo_snapshot)"
  by (simp add: head_row_def demo_head_db_def)

section \<open>Properties\<close>

text \<open>C11: No sequence of writes takes an account back. Once its head is at some revision, it stays
  at that revision or at a later one; the identifier of a revision is never replaced by another;
  and the generation that a writer must name never falls. This holds as long as the EIP-712 digest
  does not collide on the snapshots offered.\<close>

theorem state_head_never_rolls_back:
  assumes "(state_step cr salt S)\<^sup>*\<^sup>* db db'" and "state_inv cr S db" and "no_collision cr S"
    and "head_row a db = Some (h, s)"
  shows "\<exists>h' s'. head_row a db' = Some (h', s') \<and> revision s \<le> revision s' \<and> sh_generation h \<le> sh_generation h'
    \<and> (revision s' = revision s \<longrightarrow> sh_id h' = sh_id h)"
proof -
  have "state_inv cr S db' \<and> heads_le db db'"
    using assms(1)
  proof (induction rule: rtranclp_induct)
    case (step db1 db2)
    then show ?case using step_keeps_inv [OF step.hyps(2) _ assms(3)] heads_le_trans by blast
  qed (use assms(2) in simp)
  then show ?thesis using assms(4) unfolding heads_le_def by blast
qed

theorem state_head_never_rolls_back_witness:
  "\<exists>h s. head_row 7 (markLegacyState 7 demo_head_db) = Some (h, s) \<and> revision demo_snapshot \<le> revision s"
proof -
  have "(state_step demo_crypto [] {demo_snapshot})\<^sup>*\<^sup>* demo_head_db (markLegacyState 7 demo_head_db)"
    by (rule r_into_rtranclp) (rule state_step.legacy)
  from state_head_never_rolls_back [OF this demo_head_inv _ demo_head_row] show ?thesis by (auto simp: no_collision_def)
qed

text \<open>C31: A signature is accepted once. After a verdict, an asset list or a hint with deadline \<open>d\<close>
  was stored, no signature of the same account (and chain, for a verdict) whose deadline is not
  later than \<open>d\<close> is accepted, whatever the program writes in between: records of any kind and of
  any account, account states, which write the same deadlines, and anything else. An account state
  that was admitted with deadline \<open>d\<close> retires the same asset lists of its account, and the same
  verdicts on the chains it has verdicts on or where the account signed before.\<close>

theorem signed_records_no_replay:
  assumes "(write_step cr salt)\<^sup>*\<^sup>* db1 db2"
  shows "(ReplaceVerdicts (cr_keccak cr) salt c account (Some d) pairs now db = Inr (db1, m, n) \<and> d' \<le> d
        \<longrightarrow> (\<exists>e. ReplaceVerdicts (cr_keccak cr) salt c account (Some d') pairs' now' db2 = Inl e))
    \<and> (PutAssetCommit account items digest d db = Inr db1 \<and> d' \<le> d
        \<longrightarrow> (\<exists>e. PutAssetCommit account items' digest' d' db2 = Inl e))
    \<and> (PutAccountHint account h db = Inr db1 \<and> ah_deadline h' \<le> ah_deadline h
        \<longrightarrow> (\<exists>e. PutAccountHint account h' db2 = Inl e))
    \<and> (PutUserState cr salt now v gen db = Inr db1 \<and> db1 \<noteq> db \<and> Decimal (sn_deadline v) 256 = Inr D \<and> d' \<le> int D
        \<longrightarrow> (\<exists>e. PutAssetCommit (sn_account v) items' digest' d' db2 = Inl e)
          \<and> (verdict_deadline (cr_keccak cr) salt db (c, sn_account v) \<noteq> None
              \<or> (\<exists>e \<in> set (sn_entries v). en_kind e = ''verdict'' \<and> entry_chain e = unat c)
             \<longrightarrow> (\<exists>e. ReplaceVerdicts (cr_keccak cr) salt c (sn_account v) (Some d') pairs' now' db2 = Inl e)))"
proof (intro conjI impI; elim conjE)
  assume "ReplaceVerdicts (cr_keccak cr) salt c account (Some d) pairs now db = Inr (db1, m, n)" "d' \<le> d"
  then show "\<exists>e. ReplaceVerdicts (cr_keccak cr) salt c account (Some d') pairs' now' db2 = Inl e"
    using verdict_writes.no_replay [OF _ assms, of "(c, account)" d "(pairs, now)" db d' "(pairs', now')"] verdict_refused
    by (force simp: put_verdict_def)
next
  assume "PutAssetCommit account items digest d db = Inr db1" "d' \<le> d"
  then show "\<exists>e. PutAssetCommit account items' digest' d' db2 = Inl e"
    using commit_writes.no_replay [OF _ assms, of account d "(items, digest)" db d' "(items', digest')"] by (simp add: put_commit_def)
next
  assume "PutAccountHint account h db = Inr db1" "ah_deadline h' \<le> ah_deadline h"
  moreover have "put_hint account (ah_deadline x) (ah_bytes x, ah_digest x) db = PutAccountHint account x db" for x and db :: state_db
    by (cases x) (simp add: put_hint_def)
  ultimately show "\<exists>e. PutAccountHint account h' db2 = Inl e"
    using hint_writes.no_replay [OF _ assms, of account "ah_deadline h" "(ah_bytes h, ah_digest h)" db "ah_deadline h'" "(ah_bytes h', ah_digest h')"]
    by simp
next
  assume p: "PutUserState cr salt now v gen db = Inr db1" "db1 \<noteq> db" "Decimal (sn_deadline v) 256 = Inr D" and d: "d' \<le> int D"
  show "\<exists>e. PutAssetCommit (sn_account v) items' digest' d' db2 = Inl e"
    using admitted_deadlines(1) [OF p] commit_writes.below_floor [OF _ assms, of "sn_account v" _ d' "(items', digest')"] d
    by (force simp: put_commit_def)
  assume "verdict_deadline (cr_keccak cr) salt db (c, sn_account v) \<noteq> None
      \<or> (\<exists>e \<in> set (sn_entries v). en_kind e = ''verdict'' \<and> entry_chain e = unat c)"
  then obtain floor where "verdict_deadline (cr_keccak cr) salt db1 (c, sn_account v) = Some floor" "int D \<le> floor"
    using admitted_deadlines(2) [OF p] by blast
  then show "\<exists>e. ReplaceVerdicts (cr_keccak cr) salt c (sn_account v) (Some d') pairs' now' db2 = Inl e"
    using verdict_writes.below_floor [OF _ assms, of "(c, sn_account v)" floor d' "(pairs', now')"] d verdict_refused by fastforce
qed

theorem signed_records_no_replay_witness:
  "\<exists>e. PutAccountHint 5 \<lparr>ah_bytes = [], ah_digest = 1, ah_deadline = 9\<rparr>
     (markLegacyState 5 (demo_state_db\<lparr>account_hints := [(5, \<lparr>ah_bytes = [7], ah_digest = 2, ah_deadline = 9\<rparr>)]\<rparr>)) = Inl e"
proof -
  have h: "PutAccountHint 5 \<lparr>ah_bytes = [7], ah_digest = 2, ah_deadline = 9\<rparr> demo_state_db
      = Inr (demo_state_db\<lparr>account_hints := [(5, \<lparr>ah_bytes = [7], ah_digest = 2, ah_deadline = 9\<rparr>)]\<rparr>)"
    by (simp add: PutAccountHint_def demo_state_db_def upsert_def)
  have "(write_step demo_crypto [])\<^sup>*\<^sup>* db (markLegacyState 5 db)" for db
    by (rule r_into_rtranclp, rule write_step.other) (simp_all add: markLegacyState_def)
  note this [of "demo_state_db\<lparr>account_hints := [(5, \<lparr>ah_bytes = [7], ah_digest = 2, ah_deadline = 9\<rparr>)]\<rparr>"]
  from signed_records_no_replay [OF this, THEN conjunct2, THEN conjunct2, THEN conjunct1, rule_format, OF conjI, OF h] show ?thesis by simp
qed

text \<open>C18: What one deployment exports, another can import. From a consistent database, building a
  checkpoint succeeds and the checkpoint validates; importing it into any consistent database
  succeeds, moves no head there, and leaves every exported head readable by its identifier, as long
  as Keccak does not collide on the account keys.\<close>

theorem checkpoint_export_imports:
  assumes "state_inv cr S db" and "state_inv cr S db2" and "inj_on (AccountKey (cr_keccak cr)) (fst ` set (user_state_heads db))"
  shows "\<exists>c db' db2'. BuildStateCheckpoint cr db = Inr (c, db') \<and> CheckpointValidate cr c = None
    \<and> ImportCheckpoint cr c db2 = Inr db2' \<and> user_state_heads db2' = user_state_heads db2
    \<and> (\<forall>a h. map_of (user_state_heads db) a = Some h \<longrightarrow>
         (\<exists>s. StateRevision (sh_id h) db2' = Inr s \<and> ID cr s = Some (sh_id h)))"
proof -
  let ?k = "cr_keccak cr" and ?rows = "head_rows db"
  define accounts where "accounts = map (\<lambda>(a, idh, s). \<lparr>ar_account = a, ar_id = idh\<rparr>) ?rows"
  define snaps where "snaps = map (\<lambda>(a, idh, s). s) ?rows"
  note hr = head_rows_inv [OF assms(1)]
  have acc: "map ar_account accounts = map fst ?rows" by (auto simp: accounts_def)
  have sacc: "map sn_account snaps = map fst ?rows" using hr(2) by (auto simp: snaps_def)
  have "inj_on (AccountKey ?k) (set (map fst ?rows))" using assms(3) hr(4) by (auto intro: inj_on_subset)
  then have "distinct (map (AccountKey ?k) (map fst ?rows))" using hr(1) by (simp only: distinct_map)
  then have "distinct (map p_key (map (account_pair ?k) accounts))"
    unfolding acc [symmetric] by (simp add: comp_def account_pair_def)
  then have "valid_items (map (account_pair ?k) accounts)" by (auto simp: valid_items_def account_pair_def)
  then obtain t where t: "AggregateState ?k accounts = Inr t" using NewTrie_ok unfolding AggregateState_def by blast
  define c where "c = \<lparr>ck_version = 1, ck_root = tr_root t, ck_accounts = accounts, ck_snapshots = snaps\<rparr>"
  have build: "BuildStateCheckpoint cr db =
      Inr (c, db\<lparr>user_state_checkpoints := upsert (ck_root c) c (\<lambda>old. old) (user_state_checkpoints db)\<rparr>)"
    using t by (simp add: BuildStateCheckpoint_def Let_def accounts_def snaps_def c_def)
  have ids: "\<forall>s \<in> set snaps. snapshot_id cr s \<noteq> None" using hr(2) by (force simp: snaps_def)
  define m where "m = map_of (map (\<lambda>s. (sn_account s, the (snapshot_id cr s))) snaps)"
  have m: "snapshot_ids cr Map.empty snaps = Inr m"
    unfolding snapshot_ids_iff using ids hr(1) sacc by (simp add: m_def)
  have "map_get m (ar_account a) = ar_id a" if "a \<in> set accounts" for a
  proof -
    obtain s where s: "(ar_account a, ar_id a, s) \<in> set ?rows" using \<open>a \<in> set accounts\<close> by (auto simp: accounts_def)
    then have "(ar_account a, ar_id a) \<in> set (map (\<lambda>s. (sn_account s, the (snapshot_id cr s))) snaps)"
      using hr(2) [OF s] by (force simp: snaps_def)
    moreover have "distinct (map fst (map (\<lambda>s. (sn_account s, the (snapshot_id cr s))) snaps))"
      using hr(1) sacc by (simp add: comp_def)
    ultimately have "m (ar_account a) = Some (ar_id a)" unfolding m_def by (rule map_of_is_SomeI [rotated])
    then show ?thesis by (simp add: map_get_def)
  qed
  then have valid: "CheckpointValidate cr c = None"
    using t m by (auto simp: CheckpointValidate_def c_def accounts_def snaps_def)
  obtain db3 where db3: "import_snapshots cr snaps db2 = Inr db3" "user_state_heads db3 = user_state_heads db2"
      "\<forall>s \<in> set snaps. map_of (user_state_revisions db3) (the (snapshot_id cr s)) \<noteq> None"
    using import_snapshots_ok [OF ids, of db2] by blast
  define db4 where "db4 = db3\<lparr>user_state_checkpoints := upsert (ck_root c) c (\<lambda>old. old) (user_state_checkpoints db3)\<rparr>"
  have imp: "ImportCheckpoint cr c db2 = Inr db4" using valid db3(1) by (simp add: ImportCheckpoint_def c_def db4_def)
  have "set snaps \<subseteq> UNIV" "state_inv cr UNIV db2" using assms(2) by (auto simp: state_inv_def)
  then have inv3: "state_inv cr UNIV db3" using imports_keep_inv [OF db3(1)] by blast
  have "\<exists>s. StateRevision (sh_id h) db4 = Inr s \<and> ID cr s = Some (sh_id h)" if h: "map_of (user_state_heads db) a = Some h" for a h
  proof -
    obtain s where s: "(a, sh_id h, s) \<in> set ?rows" using hr(3) [OF h] by blast
    then have "s \<in> set snaps" "snapshot_id cr s = Some (sh_id h)" using hr(2) [OF s] by (force simp: snaps_def)+
    then obtain a' s' where s': "map_of (user_state_revisions db3) (sh_id h) = Some (a', s')" using db3(3) by force
    then have "ID cr s' = Some (sh_id h)" using inv3 Validate_Inr unfolding state_inv_def by blast
    then show ?thesis using s' by (simp add: StateRevision_def db4_def)
  qed
  moreover have "user_state_heads db4 = user_state_heads db2" using db3(2) by (simp add: db4_def)
  ultimately show ?thesis using build valid imp by blast
qed

theorem checkpoint_export_imports_witness:
  "\<exists>c db' db2'. BuildStateCheckpoint demo_crypto demo_head_db = Inr (c, db') \<and> ImportCheckpoint demo_crypto c demo_state_db = Inr db2'
    \<and> (\<exists>s. StateRevision 1261 db2' = Inr s)"
proof -
  have heads: "user_state_heads demo_head_db = [(7, \<lparr>sh_id = 1261, sh_generation = 1, sh_legacy = False\<rparr>)]"
    by (simp add: demo_head_db_def)
  then have "inj_on (AccountKey (cr_keccak demo_crypto)) (fst ` set (user_state_heads demo_head_db))" by simp
  from checkpoint_export_imports [OF demo_head_inv demo_state_inv this] obtain c db' db2' where
    c: "BuildStateCheckpoint demo_crypto demo_head_db = Inr (c, db')" "ImportCheckpoint demo_crypto c demo_state_db = Inr db2'"
      "\<forall>a h. map_of (user_state_heads demo_head_db) a = Some h \<longrightarrow> (\<exists>s. StateRevision (sh_id h) db2' = Inr s \<and> ID demo_crypto s = Some (sh_id h))"
    by blast
  have "\<exists>s. StateRevision 1261 db2' = Inr s"
    using c(3) [rule_format, of 7 "\<lparr>sh_id = 1261, sh_generation = 1, sh_legacy = False\<rparr>"] heads by auto
  then show ?thesis using c by blast
qed

lemma entry_shape:
  assumes "entry_ok e"
  shows "en_kind e \<noteq> ''asset'' \<Longrightarrow> verdict_entry (entry_chain e) (en_address e) (sint (en_weight e)) = e"
    and "en_kind e = ''asset'' \<Longrightarrow> asset_entry (entry_chain e, en_address e) = e"
  using assms entry_chain_dec [OF assms]
  by (auto simp: entry_ok_def verdict_entry_def asset_entry_def)

lemma project_ok:
  fixes db :: "'a state_db_scheme"
  assumes ok: "\<forall>e \<in> set (sn_entries v). entry_ok e" and ds: "distinct (map entry_slot (sn_entries v))"
    and ku: "keys_unique (asset_demand db)"
  defines "account \<equiv> sn_account v" and "es \<equiv> sn_entries v"
  shows "\<exists>db'. project k salt now d idh v db = Inr db'
    \<and> asset_demand db' = filter (\<lambda>((c, a, w), r). \<not> cleared k salt account (state_chains v db) (account_verdicts db) c w)
        (asset_demand db) @ verdict_rows k salt account now es
    \<and> (\<forall>c w. map_of (account_verdicts db') (c, w) \<noteq> None \<longleftrightarrow>
         cleared k salt account (state_chains v db) (account_verdicts db) c w \<or> map_of (account_verdicts db) (c, w) \<noteq> None)
    \<and> (\<exists>row its. AssetCommit account db' = Inr (its, row)
         \<and> set its = (\<lambda>e. (entry_chain e, en_address e)) ` set (asset_entries es))"
proof -
  let ?db1 = "fold (clear_chain k salt account d) (state_chains v db) db"
  let ?D = "filter (\<lambda>((c, a, w), r). \<not> cleared k salt account (state_chains v db) (account_verdicts db) c w) (asset_demand db)"
  let ?items = "map (\<lambda>e. (entry_chain e, en_address e)) (asset_entries es)"
  note cl = clear_chains_demand [OF state_chains_props(1) [of v db], of k salt account d db]
  have de: "distinct es" using ds unfolding es_def distinct_map by blast
  have kind: "en_kind e = ''verdict''" if "e \<in> set es" "en_kind e \<noteq> ''asset''" for e
    using ok that by (auto simp: entry_ok_def es_def)
  have chain: "en_chain e = dec_string (entry_chain e)" if "e \<in> set es" for e
    using ok that entry_chain_dec by (simp add: es_def)
  have "distinct (map fst (verdict_rows k salt account now es))"
    unfolding verdict_rows_def map_map comp_def fst_conv
  proof (rule distinct_by_slot [OF ds])
    fix e e' assume "e \<in> set (filter (\<lambda>e. en_kind e \<noteq> ''asset'') es)" "e' \<in> set (filter (\<lambda>e. en_kind e \<noteq> ''asset'') es)"
      "(entry_chain e, en_address e, state_voter k salt (entry_chain e) account) =
       (entry_chain e', en_address e', state_voter k salt (entry_chain e') account)"
    then show "entry_slot e = entry_slot e'" using kind [of e] kind [of e'] chain [of e] chain [of e'] by (simp add: entry_slot_def)
  qed (use de in \<open>auto simp: es_def\<close>)
  moreover have "distinct (map fst ?D)" using ku unfolding keys_unique_def by (rule distinct_map_filter)
  moreover have "fst ` set ?D \<inter> fst ` set (verdict_rows k salt account now es) = {}"
    using kind by (auto simp: verdict_rows_def cleared_state_chains account_def es_def)
  ultimately have "distinct (map fst (?D @ verdict_rows k salt account now es))" by simp
  then have pe: "put_entries k salt account now [] (asset_demand ?db1) es = Some (?items, ?D @ verdict_rows k salt account now es)"
    using put_entries_ok [of ?D k salt account now es "[]"] cl [THEN conjunct1] by simp
  have "distinct ?items"
    by (rule distinct_by_slot [OF ds]) (use de chain in \<open>force simp: entry_slot_def asset_entries_def es_def\<close>)+
  then have "distinct (sortAssets ?items)" by (simp add: sortAssets_def)
  then have pi: "put_items account (sortAssets ?items) (account_asset_commit_items ?db1) =
      Some (filter (\<lambda>(a, _). a \<noteq> account) (account_asset_commit_items db) @ map (Product_Type.Pair account) (sortAssets ?items))"
    by (simp add: put_items_def Let_def)
  let ?pr = "project k salt now d idh v db"
  obtain db' where db': "?pr = Inr db'" "asset_demand db' = ?D @ verdict_rows k salt account now es"
      "account_verdicts db' = account_verdicts ?db1"
      "map_of (account_asset_commits db') account \<noteq> None"
      "account_asset_commit_items db' = filter (\<lambda>(a, _). a \<noteq> account) (account_asset_commit_items db)
         @ map (Product_Type.Pair account) (sortAssets ?items)"
    using pe pi by (simp add: project_def Let_def account_def es_def)
  have "map snd (filter (\<lambda>(a, _). a = account) (account_asset_commit_items db')) = sortAssets ?items"
    unfolding db'(5) by (simp add: filter_map comp_def case_prod_beta)
  then obtain row where "AssetCommit account db' = Inr (sortAssets (sortAssets ?items), row)"
    using db'(4) by (auto simp: AssetCommit_def)
  moreover have "set (sortAssets (sortAssets ?items)) = (\<lambda>e. (entry_chain e, en_address e)) ` set (asset_entries es)"
    by (simp add: sortAssets_def)
  ultimately show ?thesis using db'(1-3) cl by auto
qed

lemma set_projection:
  "set (concat (map (\<lambda>c. map (\<lambda>((c', addr, v), r). f c addr (w r)) (filter (\<lambda>((c', addr, v), r). c' = c \<and> v = g c) D)) chs))
     = {f c addr (w r) | c addr r. ((c, addr, g c), r) \<in> set D \<and> c \<in> set chs}"
proof -
  have "set (map (\<lambda>((c', addr, v), r). f c addr (w r)) (filter (\<lambda>((c', addr, v), r). c' = c \<and> v = g c) D))
      = {f c addr (w r) | addr r. ((c, addr, g c), r) \<in> set D}" for c
    by (induction D) auto
  then show ?thesis by (simp only: set_concat set_map image_image) blast
qed

lemma projection_set:
  assumes "UserStateOf a db = Inr w" "AssetCommit a db = Inr (its, row)"
  shows "\<exists>es. StateProjection k salt a db = Inr es \<and> set es = asset_entry ` set its
    \<union> {verdict_entry c addr (dv_weight r) | c addr r. ((c, addr, state_voter k salt c a), r) \<in> set (asset_demand db)
         \<and> (\<exists>w. map_of (account_verdicts db) (c, w) \<noteq> None)}"
proof -
  let ?chs = "remdups (map (fst \<circ> fst) (account_verdicts db))"
  let ?v = "concat (map (\<lambda>c. map (\<lambda>((c', addr, v), r). verdict_entry c addr (dv_weight r))
      (filter (\<lambda>((c', addr, v), r). c' = c \<and> v = state_voter k salt c a) (asset_demand db))) ?chs)"
  have "set ?v = {verdict_entry c addr (dv_weight r) | c addr r. ((c, addr, state_voter k salt c a), r) \<in> set (asset_demand db) \<and> c \<in> set ?chs}"
    by (rule set_projection)
  also have "\<dots> = {verdict_entry c addr (dv_weight r) | c addr r. ((c, addr, state_voter k salt c a), r) \<in> set (asset_demand db)
         \<and> (\<exists>w. map_of (account_verdicts db) (c, w) \<noteq> None)}"
    unfolding chains_of_verdicts ..
  finally show ?thesis using assms by (simp add: StateProjection_def Let_def Un_commute)
qed

lemma union_rows:
  "{f c a r | c a r. (X c a r \<or> Y c a r \<and> N c) \<and> Z c}
     = {f c a r | c a r. X c a r \<and> Z c} \<union> {f c a r | c a r. Y c a r \<and> N c \<and> Z c}"
  by blast

lemma BuildState_slots: "BuildState k es = Inr t \<Longrightarrow> distinct (map entry_slot es)"
proof -
  assume b: "BuildState k es = Inr t"
  have ok: "\<forall>e \<in> set es. entry_ok e" "NewTrie k (map (entry_pair k) es) = Inr t" using BuildState_Inr [OF b] by auto
  then have "valid_items (map (entry_pair k) es)"
    using check_valid [of "map (entry_pair k) es"] by (auto simp: NewTrie_def split: option.splits)
  then have d: "distinct (map (\<lambda>e. k (entry_string e)) es)" by (simp add: valid_items_def comp_def)
  have "k (entry_string e) = k (entry_string e')" if "e \<in> set es" "e' \<in> set es" "entry_slot e = entry_slot e'" for e e'
    using ok(1) that entry_string_inject by (metis (mono_tags, lifting))
  then have "inj_on entry_slot (set es)" using d unfolding distinct_map inj_on_def by blast
  then show ?thesis using d by (simp add: distinct_map)
qed

text \<open>C12: A valid snapshot that succeeds the head of its account, names the current generation
  and is offered before its deadline is admitted, never failing on a row that is already there; it
  becomes the head, and the projection then shows exactly its entries, with the votes the account
  cast without a signature on chains where it never signed.\<close>

theorem PutUserState_projects:
  assumes v: "Validate cr v = Inr (idh, t)" and d: "sn_deadline v = dec_string d" "d < 2 ^ 63" "now < d"
    and g: "ParseInt gen = Some (case head_row (sn_account v) db of None \<Rightarrow> 0 | Some (h, _) \<Rightarrow> int (sh_generation h))"
    and h: "case head_row (sn_account v) db of None \<Rightarrow> sn_revision v = ''1'' | Some (h, s) \<Rightarrow> Successor cr s v \<and> sh_id h \<noteq> idh"
    and ku: "keys_unique (asset_demand db)"
  shows "\<exists>db' es w. PutUserState cr salt now v gen db = Inr db' \<and> UserStateOf (sn_account v) db' = Inr w \<and> vw_id w = idh
    \<and> StateProjection (cr_keccak cr) salt (sn_account v) db' = Inr es
    \<and> set es = set (sn_entries v) \<union> untouched (cr_keccak cr) salt v db"
proof -
  let ?k = "cr_keccak cr" and ?a = "sn_account v" and ?es = "sn_entries v"
  let ?db1 = "saveState v idh t db"
  have b: "BuildState ?k ?es = Inr t" using Validate_Inr [OF v] by blast
  have ok: "\<forall>e \<in> set ?es. entry_ok e" and ds: "distinct (map entry_slot ?es)"
    using BuildState_Inr [OF b] BuildState_slots [OF b] by auto
  have dec: "Decimal (sn_deadline v) 256 = Inr d" using d(1,2) by (simp add: Decimal_iff)
  have dem: "asset_demand ?db1 = asset_demand db" "account_verdicts ?db1 = account_verdicts db" by (simp_all add: saveState_def)
  have ch: "state_chains v ?db1 = state_chains v db" by (simp add: state_chains_def dem)
  obtain db' its row where pr: "project ?k salt now (int d) idh v ?db1 = Inr db'"
    and D: "asset_demand db' = filter (\<lambda>((c, a, w), r). \<not> cleared ?k salt ?a (state_chains v db) (account_verdicts db) c w)
        (asset_demand db) @ verdict_rows ?k salt ?a now ?es"
    and V: "\<And>c w. map_of (account_verdicts db') (c, w) \<noteq> None \<longleftrightarrow>
         cleared ?k salt ?a (state_chains v db) (account_verdicts db) c w \<or> map_of (account_verdicts db) (c, w) \<noteq> None"
    and A: "AssetCommit ?a db' = Inr (its, row)" "set its = (\<lambda>e. (entry_chain e, en_address e)) ` set (asset_entries ?es)"
    using project_ok [OF ok ds, of ?db1 ?k salt now "int d" idh] ku unfolding dem ch by auto
  have put: "PutUserState cr salt now v gen db = Inr db'"
    using v d dec g h pr by (cases "head_row ?a db") (auto simp: PutUserState_def Let_def)
  obtain s0 where s0: "map_of (user_state_revisions db') idh = Some s0" using project_Inr [OF pr] by simp
  have "\<exists>h. map_of (user_state_heads db') ?a = Some h \<and> sh_id h = idh"
    using project_Inr [OF pr] by (cases "map_of (user_state_heads db) ?a") simp_all
  then obtain w where w: "UserStateOf ?a db' = Inr w" "vw_id w = idh"
    using s0 by (cases s0) (auto simp: UserStateOf_def head_row_def)
  obtain es where es: "StateProjection ?k salt ?a db' = Inr es" "set es = asset_entry ` set its
      \<union> {verdict_entry c addr (dv_weight r) | c addr r. ((c, addr, state_voter ?k salt c ?a), r) \<in> set (asset_demand db')
         \<and> (\<exists>w. map_of (account_verdicts db') (c, w) \<noteq> None)}"
    using projection_set [OF w(1) A(1)] by blast
  let ?new = "entry_chain ` {e \<in> set ?es. en_kind e = ''verdict''}"
  have kind: "en_kind e = ''verdict'' \<or> en_kind e = ''asset''" if "e \<in> set ?es" for e using ok that by (auto simp: entry_ok_def)
  have a1: "asset_entry ` set its = {e \<in> set ?es. en_kind e = ''asset''}"
    unfolding A(2) asset_entries_def using ok entry_shape(2) by (force simp: image_iff)
  have mem: "((c, addr, w), r) \<in> set (asset_demand db') \<longleftrightarrow> ((c, addr, w), r) \<in> set (verdict_rows ?k salt ?a now ?es)
      \<or> ((c, addr, w), r) \<in> set (asset_demand db) \<and> \<not> cleared ?k salt ?a (state_chains v db) (account_verdicts db) c w" for c addr w r
    unfolding D by auto
  have rows: "((c, addr, state_voter ?k salt c ?a), r) \<in> set (verdict_rows ?k salt ?a now ?es) \<longleftrightarrow>
      (\<exists>e \<in> set ?es. en_kind e = ''verdict'' \<and> c = entry_chain e \<and> addr = en_address e
         \<and> r = \<lparr>dv_weight = sint (en_weight e), dv_votes = 1, dv_last = now\<rparr>)" for c addr r
    using kind by (fastforce simp: verdict_rows_def)
  have cl: "cleared ?k salt ?a (state_chains v db) (account_verdicts db) c (state_voter ?k salt c ?a) \<longleftrightarrow>
      c \<in> ?new \<or> map_of (account_verdicts db) (c, state_voter ?k salt c ?a) \<noteq> None" for c
    by (simp add: cleared_state_chains)
  have V': "(\<exists>w. map_of (account_verdicts db') (c, w) \<noteq> None) \<longleftrightarrow> c \<in> ?new \<or> (\<exists>w. map_of (account_verdicts db) (c, w) \<noteq> None)" for c
    unfolding V by (auto simp: cleared_state_chains)
  have signed: "{verdict_entry c addr (dv_weight r) | c addr r. ((c, addr, state_voter ?k salt c ?a), r) \<in> set (verdict_rows ?k salt ?a now ?es)
         \<and> (\<exists>w. map_of (account_verdicts db') (c, w) \<noteq> None)} = {e \<in> set ?es. en_kind e = ''verdict''}"
  proof (intro equalityI subsetI)
    fix x assume "x \<in> {e \<in> set ?es. en_kind e = ''verdict''}"
    then have x: "x \<in> set ?es" "en_kind x = ''verdict''" by auto
    then have "verdict_entry (entry_chain x) (en_address x) (sint (en_weight x)) = x" using ok entry_shape(1) by simp
    then show "x \<in> {verdict_entry c addr (dv_weight r) | c addr r. ((c, addr, state_voter ?k salt c ?a), r) \<in> set (verdict_rows ?k salt ?a now ?es)
         \<and> (\<exists>w. map_of (account_verdicts db') (c, w) \<noteq> None)}"
      unfolding rows V' using x by (intro CollectI exI [of _ "entry_chain x"] exI [of _ "en_address x"]
          exI [of _ "\<lparr>dv_weight = sint (en_weight x), dv_votes = 1, dv_last = now\<rparr>"]) auto
  next
    fix x assume "x \<in> {verdict_entry c addr (dv_weight r) | c addr r. ((c, addr, state_voter ?k salt c ?a), r) \<in> set (verdict_rows ?k salt ?a now ?es)
         \<and> (\<exists>w. map_of (account_verdicts db') (c, w) \<noteq> None)}"
    then obtain e where e: "e \<in> set ?es" "en_kind e = ''verdict''" "x = verdict_entry (entry_chain e) (en_address e) (sint (en_weight e))"
      unfolding rows by auto
    then have "x = e" using ok entry_shape(1) [of e] by simp
    then show "x \<in> {e \<in> set ?es. en_kind e = ''verdict''}" using e by simp
  qed
  have left: "{verdict_entry c addr (dv_weight r) | c addr r. ((c, addr, state_voter ?k salt c ?a), r) \<in> set (asset_demand db)
         \<and> \<not> cleared ?k salt ?a (state_chains v db) (account_verdicts db) c (state_voter ?k salt c ?a)
         \<and> (\<exists>w. map_of (account_verdicts db') (c, w) \<noteq> None)} = untouched ?k salt v db"
  proof -
    have u: "(\<not> (P \<or> Q) \<and> (P \<or> R)) = (R \<and> \<not> Q \<and> \<not> P)" for P Q R by blast
    show ?thesis unfolding untouched_def cl V' u not_not ..
  qed
  have "set es = {e \<in> set ?es. en_kind e = ''asset''} \<union> {e \<in> set ?es. en_kind e = ''verdict''} \<union> untouched ?k salt v db"
    unfolding es(2) a1 mem union_rows signed left by (simp only: Un_assoc)
  then have "set es = set ?es \<union> untouched ?k salt v db" using kind by blast
  then show ?thesis using put w es(1) by blast
qed

theorem PutUserState_projects_witness:
  "\<exists>db' es. PutUserState demo_crypto [] 5 demo_snapshot (dec_string 0) demo_state_db = Inr db'
    \<and> StateProjection level_hash [] 7 db' = Inr es \<and> set es = {demo_entry}"
proof -
  obtain t where v: "Validate demo_crypto demo_snapshot = Inr (1261, t)" using demo_validate by blast
  have f: "sn_account demo_snapshot = 7" "sn_entries demo_snapshot = [demo_entry]" "cr_keccak demo_crypto = level_hash"
    "sn_deadline demo_snapshot = dec_string 90" "sn_revision demo_snapshot = ''1''"
    by (simp_all add: demo_snapshot_def demo_crypto_def dec_string.simps [of "Suc 0"] char_of_def bit_iff_odd)
  have e: "head_row 7 demo_state_db = None" "keys_unique (asset_demand demo_state_db)"
    "untouched level_hash [] demo_snapshot demo_state_db = {}" "ParseInt (dec_string 0) = Some 0"
    by (simp_all add: head_row_def demo_state_db_def keys_unique_def untouched_def ParseInt_def set_string_dec)
  show ?thesis using PutUserState_projects [OF v f(4), of 5 "dec_string 0" demo_state_db "[]"] f e by auto
qed

end
