(* ===== verification/StatePub.thy ===== *)
theory StatePub
  imports StateStore
begin

text \<open>
  Publishing checkpoints of the signed user state: \<open>internal/statepub/publisher.go\<close> and the table of
  \<open>internal/store/state_publications.go\<close>. A transaction is stored before it is sent and sent again
  until it has a receipt. The node, the resolver contract, the signer and the transaction codec are
  arguments. The lemmas keep the invariant of the table along every sequence of ticks and say when
  a publication is confirmed.
\<close>

section \<open>The table\<close>

datatype sp_status = SpPending | SpConfirmed | SpFailed

datatype sp_error = SpNode string | SpConfig | SpWrongChain nat | SpIdentity | SpGasCap | SpFeeCap | SpStore put_error | SpConflict | SpNoRows

record StatePublication =
  sp_root :: hash
  sp_resolver :: address
  sp_node :: hash
  sp_hash :: hash
  sp_raw :: "byte list"
  sp_status :: sp_status
  sp_error :: string

record publication_db = state_db +
  publication_seq :: nat
  publications :: "(nat \<times> StatePublication) list"

definition StatePublications :: "'a publication_db_scheme \<Rightarrow> (nat \<times> StatePublication) list" where
  "StatePublications db = take 20 (rev (sort_key fst (publications db)))"

text \<open>The partial unique index \<open>user_state_one_pending\<close>, and the reference to the checkpoint.\<close>

definition one_pending :: "(nat \<times> StatePublication) list \<Rightarrow> bool" where
  "one_pending rows \<longleftrightarrow> length (filter (\<lambda>(i, p). sp_status p = SpPending) rows) \<le> 1"

definition SaveStatePublication :: "StatePublication \<Rightarrow> 'a publication_db_scheme \<Rightarrow> (sp_error + nat) \<times> 'a publication_db_scheme" where
  "SaveStatePublication p db =
     (let i = publication_seq db; rows = publications db @ [(i, p\<lparr>sp_status := SpPending, sp_error := []\<rparr>)]; db = db\<lparr>publication_seq := i + 1\<rparr>
      in if one_pending rows \<and> map_of (user_state_checkpoints db) (sp_root p) \<noteq> None
         then (Inr i, db\<lparr>publications := rows\<rparr>) else (Inl SpConflict, db))"

definition UpdateStatePublication :: "nat \<Rightarrow> sp_status \<Rightarrow> string \<Rightarrow> 'a publication_db_scheme \<Rightarrow> sp_error option \<times> 'a publication_db_scheme" where
  "UpdateStatePublication i status msg db =
     (let rows = update_row i (\<lambda>p. p\<lparr>sp_status := status, sp_error := msg\<rparr>) (publications db)
      in if \<not> one_pending rows then (Some SpConflict, db)
         else if map_of (publications db) i = None then (Some SpNoRows, db)
         else (None, db\<lparr>publications := rows\<rparr>))"

section \<open>The publisher\<close>

definition sepolia :: nat where
  "sepolia = 11155111"

record tx_receipt =
  tr_height :: nat
  tr_block :: hash
  tr_success :: bool

text \<open>What the node answers during one phase of a tick. A receipt that is not found and a nil receipt are
  both \<open>None\<close>.\<close>

record node_env =
  nd_chain :: "sp_error + nat"
  nd_receipt :: "hash \<Rightarrow> sp_error + tx_receipt option"
  nd_header :: "nat \<Rightarrow> sp_error + hash"
  nd_head :: "sp_error + nat"
  nd_record :: "address \<Rightarrow> hash \<Rightarrow> sp_error + string"
  nd_estimate :: "byte list \<Rightarrow> sp_error + nat"
  nd_price :: "sp_error + int"
  nd_nonce :: "sp_error + nat"
  nd_send :: "byte list \<Rightarrow> string option"
  nd_locked :: bool

text \<open>The configuration, with the signer (nonce, resolver, gas, price, call data), the decoder of stored
  transactions, the encoder of \<open>setText\<close> and the hexadecimal digits of a hash.\<close>

record state_publisher =
  pb_key :: bool
  pb_resolver :: address
  pb_namehash :: hash
  pb_max_gas :: nat
  pb_max_fee :: "int option"
  pb_hex :: "hash \<Rightarrow> string"
  pb_pack :: "hash \<Rightarrow> string \<Rightarrow> byte list"
  pb_sign :: "nat \<Rightarrow> address \<Rightarrow> nat \<Rightarrow> int \<Rightarrow> byte list \<Rightarrow> sp_error + byte list \<times> hash"
  pb_decode :: "byte list \<Rightarrow> sp_error + nat \<times> hash"

type_synonym 'a sp_state = "'a publication_db_scheme \<times> byte list list"

definition update_status :: "nat \<Rightarrow> sp_status \<Rightarrow> string \<Rightarrow> 'a sp_state \<Rightarrow> sp_error option \<times> 'a sp_state" where
  "update_status i status msg st = (case UpdateStatePublication i status msg (fst st) of (e, db) \<Rightarrow> (e, db, snd st))"

definition resend :: "state_publisher \<Rightarrow> node_env \<Rightarrow> nat \<Rightarrow> StatePublication \<Rightarrow> 'a sp_state \<Rightarrow> sp_error option \<times> 'a sp_state" where
  "resend pb nd i j st =
     (case pb_decode pb (sp_raw j) of Inl e \<Rightarrow> (Some e, st)
      | Inr (ch, h) \<Rightarrow>
          if ch \<noteq> sepolia \<or> h \<noteq> sp_hash j then (Some SpIdentity, st)
          else let st = (fst st, snd st @ [sp_raw j]); sent = nd_send nd (sp_raw j)
               in case update_status i SpPending (case sent of None \<Rightarrow> ''awaiting receipt'' | Some msg \<Rightarrow> msg) st of
                    (Some e, st) \<Rightarrow> (Some e, st)
                  | (None, st) \<Rightarrow> (map_option SpNode sent, st))"

definition settle_state :: "state_publisher \<Rightarrow> node_env \<Rightarrow> nat \<Rightarrow> StatePublication \<Rightarrow> 'a sp_state \<Rightarrow> sp_error option \<times> 'a sp_state" where
  "settle_state pb nd i j st =
     (case nd_receipt nd (sp_hash j) of Inl e \<Rightarrow> (Some e, st)
      | Inr None \<Rightarrow> resend pb nd i j st
      | Inr (Some r) \<Rightarrow>
     (case nd_head nd of Inl e \<Rightarrow> (Some e, st) | Inr head \<Rightarrow>
     (case nd_header nd (tr_height r) of Inl e \<Rightarrow> (Some e, st) | Inr canonical \<Rightarrow>
      if canonical \<noteq> tr_block r then update_status i SpPending ''waiting for canonical receipt'' st
      else if head < tr_height r \<or> head - tr_height r < 12 then (None, st)
      else if \<not> tr_success r then update_status i SpFailed ''ENS write reverted'' st
      else case nd_record nd (sp_resolver j) (sp_node j) of Inl e \<Rightarrow> (Some e, st)
      | Inr rec \<Rightarrow>
          if rec \<noteq> Record (pb_hex pb) ''states'' (sp_root j) then update_status i SpFailed ''ENS record differs at readback'' st
          else update_status i SpConfirmed [] st)))"

definition recheck :: "node_env \<Rightarrow> (nat \<times> StatePublication) list \<Rightarrow> 'a sp_state \<Rightarrow> (sp_error option \<times> 'a sp_state) option" where
  "recheck nd jobs st =
     (case jobs of [] \<Rightarrow> None
      | (i, j) # _ \<Rightarrow>
          if sp_status j \<noteq> SpConfirmed then None
          else case nd_receipt nd (sp_hash j) of Inl e \<Rightarrow> Some (Some e, st)
          | Inr None \<Rightarrow> Some (update_status i SpPending ''receipt disappeared; checking reorganization'' st)
          | Inr (Some r) \<Rightarrow>
              (case nd_header nd (tr_height r) of Inl e \<Rightarrow> Some (Some e, st)
               | Inr canonical \<Rightarrow>
                   if canonical \<noteq> tr_block r then Some (update_status i SpPending ''receipt is no longer canonical'' st) else None))"

text \<open>The gas limit: the estimate and a fifth, at most the cap, in 64 bits.\<close>

definition gas_limit :: "nat \<Rightarrow> nat \<Rightarrow> nat option" where
  "gas_limit maxGas gas =
     (if gas > maxGas \<or> gas > (2 ^ 64 - 1) div 12 then None
      else let g = (gas * 12) mod 2 ^ 64 div 10 in Some (if g > maxGas then maxGas else g))"

definition setText :: "state_publisher \<Rightarrow> hash \<Rightarrow> byte list" where
  "setText pb root = pb_pack pb (pb_namehash pb) (Record (pb_hex pb) ''states'' root)"

definition prepare :: "state_publisher \<Rightarrow> node_env \<Rightarrow> hash \<Rightarrow> sp_error + StatePublication" where
  "prepare pb nd root =
     (let data = setText pb root in
      case nd_estimate nd data of Inl e \<Rightarrow> Inl e | Inr est \<Rightarrow>
      (case gas_limit (pb_max_gas pb) est of None \<Rightarrow> Inl SpGasCap | Some gas \<Rightarrow>
      (case nd_price nd of Inl e \<Rightarrow> Inl e | Inr price \<Rightarrow>
       if price \<le> 0 \<or> price > the (pb_max_fee pb) then Inl SpFeeCap
       else case nd_nonce nd of Inl e \<Rightarrow> Inl e | Inr nonce \<Rightarrow>
       (case pb_sign pb nonce (pb_resolver pb) gas price data of Inl e \<Rightarrow> Inl e
        | Inr (raw, h) \<Rightarrow> Inr \<lparr>sp_root = root, sp_resolver = pb_resolver pb, sp_node = pb_namehash pb, sp_hash = h, sp_raw = raw,
                              sp_status = SpPending, sp_error = []\<rparr>))))"

definition publish_state :: "crypto \<Rightarrow> state_publisher \<Rightarrow> node_env \<Rightarrow> node_env \<Rightarrow> 'a sp_state \<Rightarrow> sp_error option \<times> 'a sp_state" where
  "publish_state cr pb nd nd' st =
     (case BuildStateCheckpoint cr (fst st) of Inl e \<Rightarrow> (Some (SpStore e), st)
      | Inr (c, db) \<Rightarrow>
          if ck_accounts c = [] then (None, db, snd st)
          else case nd_record nd (pb_resolver pb) (pb_namehash pb) of Inl e \<Rightarrow> (Some e, db, snd st)
          | Inr current \<Rightarrow>
              if current = Record (pb_hex pb) ''states'' (ck_root c) then (None, db, snd st)
              else case prepare pb nd (ck_root c) of Inl e \<Rightarrow> (Some e, db, snd st)
              | Inr j \<Rightarrow>
                  (case SaveStatePublication j db of
                     (Inl e, db) \<Rightarrow> (Some e, db, snd st)
                   | (Inr i, db) \<Rightarrow> settle_state pb nd' i j (db, snd st)))"

definition StateTick :: "crypto \<Rightarrow> state_publisher \<Rightarrow> node_env \<Rightarrow> node_env \<Rightarrow> bool \<Rightarrow> 'a sp_state \<Rightarrow> sp_error option \<times> 'a sp_state" where
  "StateTick cr pb nd nd' due st =
     (if \<not> pb_key pb \<or> pb_max_gas pb = 0 \<or> (case pb_max_fee pb of None \<Rightarrow> True | Some f \<Rightarrow> f \<le> 0) then (Some SpConfig, st)
      else case nd_chain nd of Inl e \<Rightarrow> (Some e, st)
      | Inr ch \<Rightarrow>
          if ch \<noteq> sepolia then (Some (SpWrongChain ch), st)
          else if \<not> nd_locked nd then (None, st)
          else let jobs = StatePublications (fst st)
               in case find (\<lambda>(i, j). sp_status j = SpPending) jobs of
                    Some (i, j) \<Rightarrow> settle_state pb nd' i j st
                  | None \<Rightarrow>
                      (case recheck nd jobs st of Some out \<Rightarrow> out
                       | None \<Rightarrow> if due then publish_state cr pb nd nd' st else (None, st)))"

section \<open>The invariant\<close>

definition row_signed :: "state_publisher \<Rightarrow> StatePublication \<Rightarrow> bool" where
  "row_signed pb p \<longleftrightarrow> sp_resolver p = pb_resolver pb \<and> sp_node p = pb_namehash pb
     \<and> (\<exists>nonce gas price. pb_sign pb nonce (pb_resolver pb) gas price (setText pb (sp_root p)) = Inr (sp_raw p, sp_hash p)
          \<and> gas \<le> pb_max_gas pb \<and> 0 < price \<and> price \<le> the (pb_max_fee pb))"

definition pubs_inv :: "state_publisher \<Rightarrow> 'a sp_state \<Rightarrow> bool" where
  "pubs_inv pb st \<longleftrightarrow> sorted_wrt (<) (map fst (publications (fst st))) \<and> (\<forall>i \<in> fst ` set (publications (fst st)). i < publication_seq (fst st))
     \<and> (\<forall>(i, p) \<in> set (butlast (publications (fst st))). sp_status p \<noteq> SpPending)
     \<and> (\<forall>(i, p) \<in> set (publications (fst st)). row_signed pb p)
     \<and> set (snd st) \<subseteq> (sp_raw \<circ> snd) ` set (publications (fst st))"

lemma gas_limit_bounds: "gas_limit maxGas gas = Some g \<Longrightarrow> g \<le> maxGas \<and> (g = gas * 12 div 10 \<or> g = maxGas)"
  by (auto simp: gas_limit_def Let_def split: if_splits)

lemma prepare_signed:
  assumes "prepare pb nd root = Inr j"
  shows "row_signed pb j" "sp_root j = root" "sp_status j = SpPending" "sp_error j = []"
  using assms by (auto simp: prepare_def row_signed_def Let_def not_le not_less split: sum.splits option.splits if_splits dest!: gas_limit_bounds) blast+

lemma update_status_last:
  assumes "publications db = xs @ [(i, p)]" "i \<notin> fst ` set xs" "\<forall>(i, p) \<in> set xs. sp_status p \<noteq> SpPending"
  shows "update_status i s msg (db, sent) = (None, db\<lparr>publications := xs @ [(i, p\<lparr>sp_status := s, sp_error := msg\<rparr>)]\<rparr>, sent)"
proof -
  have "filter (\<lambda>(i, p). sp_status p = SpPending) xs = []" using assms(3) by (auto simp: filter_empty_conv)
  moreover have "map_of xs i = None" using assms(2) by (simp add: map_of_eq_None_iff)
  ultimately show ?thesis
    using assms(1,2) by (simp add: update_status_def UpdateStatePublication_def update_row_last one_pending_def Let_def)
qed

text \<open>What a pending publication becomes.\<close>

definition settled :: "state_publisher \<Rightarrow> node_env \<Rightarrow> StatePublication \<Rightarrow> sp_status" where
  "settled pb nd p =
     (case nd_receipt nd (sp_hash p) of
        Inr (Some r) \<Rightarrow>
          if nd_header nd (tr_height r) = Inr (tr_block r) \<and> (case nd_head nd of Inl _ \<Rightarrow> False | Inr head \<Rightarrow> tr_height r + 12 \<le> head)
          then if \<not> tr_success r then SpFailed
               else (case nd_record nd (sp_resolver p) (sp_node p) of Inl _ \<Rightarrow> SpPending
                     | Inr rec \<Rightarrow> if rec = Record (pb_hex pb) ''states'' (sp_root p) then SpConfirmed else SpFailed)
          else SpPending
      | _ \<Rightarrow> SpPending)"

lemma settle_state_last:
  assumes "publications db = xs @ [(i, p)]" "i \<notin> fst ` set xs" "\<forall>(i, p) \<in> set xs. sp_status p \<noteq> SpPending" "sp_status p = SpPending"
  shows "\<exists>e msg sent'. settle_state pb nd i p (db, sent) =
      (e, db\<lparr>publications := xs @ [(i, p\<lparr>sp_status := settled pb nd p, sp_error := msg\<rparr>)]\<rparr>, sent')
    \<and> (sent' = sent \<or> sent' = sent @ [sp_raw p])"
proof -
  define after where "after s msg = db\<lparr>publications := xs @ [(i, p\<lparr>sp_status := s, sp_error := msg\<rparr>)]\<rparr>" for s msg
  note u = update_status_last [OF assms(1-3), folded after_def]
  have "p\<lparr>sp_status := SpPending\<rparr> = p" using assms(4) by (cases p) simp
  then have "after SpPending (sp_error p) = db" by (simp add: after_def assms(1) [symmetric])
  then have same: "\<exists>msg. db = after SpPending msg" by blast
  have "\<exists>e msg sent'. settle_state pb nd i p (db, sent) = (e, after (settled pb nd p) msg, sent') \<and> (sent' = sent \<or> sent' = sent @ [sp_raw p])"
  proof (cases "nd_receipt nd (sp_hash p)")
    case (Inl e)
    then show ?thesis using same by (simp add: settle_state_def settled_def)
  next
    case (Inr rr)
    show ?thesis
    proof (cases rr)
      case None
      with Inr have "settled pb nd p = SpPending" by (simp add: settled_def)
      then show ?thesis
        using Inr None same u by (auto simp: settle_state_def resend_def Let_def split: sum.split)
    next
      case (Some r)
      then show ?thesis
        using Inr same u by (cases "nd_head nd"; cases "nd_header nd (tr_height r)") (auto simp: settle_state_def settled_def split: sum.split)
    qed
  qed
  then show ?thesis by (simp only: after_def)
qed

section \<open>One tick\<close>

inductive moves :: "state_publisher \<Rightarrow> 'a sp_state \<Rightarrow> 'a sp_state \<Rightarrow> bool" for pb where
  quiet: "publications db' = publications db \<Longrightarrow> publication_seq db \<le> publication_seq db' \<Longrightarrow> moves pb (db, sent) (db', sent)"
| newest: "publications db = xs @ [(i, p)] \<Longrightarrow> publications db' = xs @ [(i, p\<lparr>sp_status := s, sp_error := msg\<rparr>)]
    \<Longrightarrow> publication_seq db' = publication_seq db \<Longrightarrow> sent' = sent \<or> sent' = sent @ [sp_raw p] \<Longrightarrow> moves pb (db, sent) (db', sent')"
| fresh: "publications db' = publications db @ [(publication_seq db, p\<lparr>sp_status := s, sp_error := msg\<rparr>)] \<Longrightarrow> row_signed pb p
    \<Longrightarrow> \<forall>(i, p) \<in> set (publications db). sp_status p \<noteq> SpPending \<Longrightarrow> publication_seq db' = publication_seq db + 1
    \<Longrightarrow> sent' = sent \<or> sent' = sent @ [sp_raw p] \<Longrightarrow> moves pb (db, sent) (db', sent')"

lemma row_signed_status [simp]: "row_signed pb (p\<lparr>sp_status := s, sp_error := msg\<rparr>) = row_signed pb p"
  by (simp add: row_signed_def)

lemma moves_inv:
  assumes "moves pb st st'" "pubs_inv pb st" shows "pubs_inv pb st'"
  using assms
proof cases
  case (quiet db' db sent)
  then show ?thesis using assms(2) by (force simp: pubs_inv_def)
next
  case (newest db xs i p db' s msg sent' sent)
  then show ?thesis using assms(2) by (auto simp: pubs_inv_def image_iff butlast_append)
next
  case (fresh db' db p s msg sent' sent)
  then show ?thesis using assms(2) by (auto simp: pubs_inv_def image_iff sorted_wrt_append butlast_append less_Suc_eq)
qed

lemma pubs_inv_last:
  assumes "pubs_inv pb (db, sent)" "publications db = xs @ [(i, p)]"
  shows "i \<notin> fst ` set xs" "\<forall>(i, p) \<in> set xs. sp_status p \<noteq> SpPending"
    and "StatePublications db = (i, p) # take 19 (rev xs)"
    and "find (\<lambda>(i, j). sp_status j = SpPending) (StatePublications db) = (if sp_status p = SpPending then Some (i, p) else None)"
proof -
  have srt: "sorted_wrt (<) (map fst xs @ [i])" using assms by (simp add: pubs_inv_def)
  then show "i \<notin> fst ` set xs" by (auto simp: sorted_wrt_append)
  show np: "\<forall>(i, p) \<in> set xs. sp_status p \<noteq> SpPending" using assms by (simp add: pubs_inv_def)
  have "sorted (map fst (publications db))" using assms(1) by (simp add: pubs_inv_def strict_sorted_imp_sorted)
  then have "sort_key fst (publications db) = publications db" by (rule sort_key_id_if_sorted)
  then show l: "StatePublications db = (i, p) # take 19 (rev xs)" by (simp add: StatePublications_def assms(2) take_Cons')
  have "find (\<lambda>(i, j). sp_status j = SpPending) (take 19 (rev xs)) = None"
    using np by (fastforce simp: find_None_iff dest: in_set_takeD)
  then show "find (\<lambda>(i, j). sp_status j = SpPending) (StatePublications db) = (if sp_status p = SpPending then Some (i, p) else None)"
    by (simp add: l)
qed

lemma BuildStateCheckpoint_keeps:
  "BuildStateCheckpoint cr db = Inr (c, db') \<Longrightarrow> publications db' = publications db \<and> publication_seq db' = publication_seq db"
  by (auto simp: BuildStateCheckpoint_def Let_def split: sum.splits)

lemma publish_state_moves:
  assumes inv: "pubs_inv pb (db, sent)" and np: "\<forall>(i, p) \<in> set (publications db). sp_status p \<noteq> SpPending"
  shows "moves pb (db, sent) (snd (publish_state cr pb nd nd' (db, sent)))"
proof (cases "BuildStateCheckpoint cr db")
  case (Inl e)
  then show ?thesis by (auto simp: publish_state_def intro: moves.quiet)
next
  case (Inr cd)
  obtain c db1 where cd: "cd = (c, db1)" by force
  have keep: "publications db1 = publications db" "publication_seq db1 = publication_seq db" using BuildStateCheckpoint_keeps Inr cd by auto
  have q: "moves pb (db, sent) (db1, sent)" by (rule moves.quiet) (simp_all add: keep)
  show ?thesis
  proof (cases "prepare pb nd (ck_root c)")
    case (Inl e)
    then show ?thesis using Inr cd q by (auto simp: publish_state_def split: sum.split)
  next
    case (Inr j)
    obtain r db2 where sv: "SaveStatePublication j db1 = (r, db2)" by force
    have j: "j\<lparr>sp_status := SpPending, sp_error := []\<rparr> = j" using prepare_signed(3,4) [OF Inr] by simp
    have "moves pb (db, sent) (snd (case r of Inl e \<Rightarrow> (Some e, db2, sent) | Inr i \<Rightarrow> settle_state pb nd' i j (db2, sent)))"
    proof (cases r)
      case (Inl e)
      with sv show ?thesis by (auto simp: SaveStatePublication_def Let_def keep split: if_splits intro!: moves.quiet)
    next
      case i: (Inr i)
      with sv have d: "i = publication_seq db" "publications db2 = publications db @ [(i, j)]" "publication_seq db2 = publication_seq db + 1"
        by (auto simp: SaveStatePublication_def Let_def keep j split: if_splits)
      have "i \<notin> fst ` set (publications db)" using inv d(1) by (auto simp: pubs_inv_def)
      from settle_state_last [OF d(2) this np prepare_signed(3) [OF Inr], of pb nd' sent]
      show ?thesis using d prepare_signed(1) [OF Inr] np i by (fastforce intro!: moves.fresh)
    qed
    then show ?thesis
      using \<open>BuildStateCheckpoint cr db = Inr cd\<close> cd q Inr sv
      by (cases r) (auto simp: publish_state_def split: sum.split)
  qed
qed

lemma moves_newest_upd:
  "publications db = xs @ [(i, p)] \<Longrightarrow> sent' = sent \<or> sent' = sent @ [sp_raw p]
   \<Longrightarrow> moves pb (db, sent) (db\<lparr>publications := xs @ [(i, p\<lparr>sp_status := s, sp_error := msg\<rparr>)]\<rparr>, sent')"
  by (rule moves.newest [where xs = xs and i = i and p = p and s = s and msg = msg]) simp_all

lemma recheck_moves:
  assumes inv: "pubs_inv pb (db, sent)" and "recheck nd (StatePublications db) (db, sent) = Some (e, st')"
  shows "moves pb (db, sent) st'"
proof (cases "publications db" rule: rev_cases)
  case Nil
  then show ?thesis using assms(2) by (simp add: recheck_def StatePublications_def)
next
  case (snoc xs ip)
  obtain i p where ip: "ip = (i, p)" by force
  note l = pubs_inv_last [OF inv snoc [unfolded ip]]
  note u = update_status_last [OF snoc [unfolded ip] l(1,2)]
  have "st' = (db, sent) \<or> (\<exists>s msg. st' = (db\<lparr>publications := xs @ [(i, p\<lparr>sp_status := s, sp_error := msg\<rparr>)]\<rparr>, sent))"
    using assms(2) by (auto simp: recheck_def l(3) u split: sum.splits option.splits if_splits)
  then show ?thesis using snoc ip by (auto intro: moves.quiet moves_newest_upd)
qed

lemma StateTick_moves:
  assumes inv: "pubs_inv pb st" shows "moves pb st (snd (StateTick cr pb nd nd' due st))"
proof -
  obtain db sent where st: "st = (db, sent)" by force
  have q: "moves pb (db, sent) (db, sent)" by (rule moves.quiet) simp_all
  show ?thesis
  proof (cases "find (\<lambda>(i, j). sp_status j = SpPending) (StatePublications db)")
    case None
    have np: "\<forall>(i, p) \<in> set (publications db). sp_status p \<noteq> SpPending"
    proof (cases "publications db" rule: rev_cases)
      case (snoc xs ip)
      with None pubs_inv_last [OF inv [unfolded st], of xs "fst ip" "snd ip"] show ?thesis by (auto split: if_splits)
    qed simp
    show ?thesis
      using q publish_state_moves [OF inv [unfolded st] np, of cr nd nd'] recheck_moves [OF inv [unfolded st], of nd] None
      by (auto simp: StateTick_def st Let_def split: option.split sum.split)
  next
    case (Some ij)
    then obtain xs i p where l: "publications db = xs @ [(i, p)]" by (cases "publications db" rule: rev_cases) (auto simp: StatePublications_def)
    note f = pubs_inv_last [OF inv [unfolded st] l]
    have p: "sp_status p = SpPending" "ij = (i, p)" using f(4) Some by (auto split: if_splits)
    from settle_state_last [OF l f(1,2) p(1), of pb nd' sent] have "moves pb (db, sent) (snd (settle_state pb nd' i p (db, sent)))"
      using l by (auto intro!: moves_newest_upd)
    then show ?thesis using q Some p by (auto simp: StateTick_def st Let_def split: option.split sum.split)
  qed
qed

section \<open>Properties\<close>

text \<open>Between two ticks other writers may change anything but the table of publications; a tick may run
  with any answers of the node, by any process that shares the database.\<close>

inductive sp_step :: "crypto \<Rightarrow> state_publisher \<Rightarrow> 'a sp_state \<Rightarrow> 'a sp_state \<Rightarrow> bool" for cr pb where
  tick: "sp_step cr pb st (snd (StateTick cr pb nd nd' due st))"
| other: "publications db' = publications db \<Longrightarrow> publication_seq db' = publication_seq db \<Longrightarrow> sp_step cr pb (db, sent) (db', sent)"

definition nothing_published :: "'a sp_state \<Rightarrow> bool" where
  "nothing_published st \<longleftrightarrow> publications (fst st) = [] \<and> snd st = []"

lemma sp_run_inv:
  assumes "(sp_step cr pb)\<^sup>*\<^sup>* st st'" "nothing_published st"
  shows "pubs_inv pb st'"
  using assms
proof (induction rule: rtranclp_induct)
  case base
  then show ?case by (simp add: nothing_published_def pubs_inv_def)
next
  case (step st' st'')
  note inv = step.IH [OF step.prems]
  from step.hyps(2) show ?case
  proof cases
    case (tick nd nd' due)
    show ?thesis unfolding tick using inv by (rule moves_inv [OF StateTick_moves [OF inv]])
  next
    case (other db' db sent)
    then show ?thesis using inv by (simp add: pubs_inv_def)
  qed
qed

text \<open>C19: However the state publisher is run, whatever the node answers, only the newest publication can
  be awaiting its outcome, and every transaction that was ever sent is one stored in the table,
  signed for the record of its checkpoint root with a gas limit and a price within the caps: after a
  crash no transaction is out there that the publisher does not know of.\<close>

theorem state_publications_accounted:
  assumes "nothing_published st0" "(sp_step cr pb)\<^sup>*\<^sup>* st0 (db, sent)"
  shows "(\<forall>(i, p) \<in> set (publications db). sp_status p = SpPending \<longrightarrow> (\<forall>(j, q) \<in> set (publications db). j \<le> i \<and> (sp_status q = SpPending \<longrightarrow> j = i)))
    \<and> (\<forall>raw \<in> set sent. \<exists>(i, p) \<in> set (publications db). sp_raw p = raw)
    \<and> (\<forall>(i, p) \<in> set (publications db). \<exists>nonce gas price.
          pb_sign pb nonce (pb_resolver pb) gas price (pb_pack pb (pb_namehash pb) (Record (pb_hex pb) ''states'' (sp_root p))) = Inr (sp_raw p, sp_hash p)
          \<and> gas \<le> pb_max_gas pb \<and> 0 < price \<and> price \<le> the (pb_max_fee pb))"
proof -
  have inv: "pubs_inv pb (db, sent)" using sp_run_inv assms by blast
  have "j \<le> i \<and> (sp_status q = SpPending \<longrightarrow> j = i)"
    if "(i, p) \<in> set (publications db)" "sp_status p = SpPending" "(j, q) \<in> set (publications db)" for i p j q
  proof -
    note m = that
    obtain xs i' p' where l: "publications db = xs @ [(i', p')]" using m(1) by (cases "publications db" rule: rev_cases) auto
    have "\<forall>x \<in> set xs. fst x < i'" using inv l by (auto simp: pubs_inv_def sorted_wrt_append)
    then show ?thesis using m pubs_inv_last(2) [OF inv l] by (auto simp: l)
  qed
  moreover have "\<exists>(i, p) \<in> set (publications db). sp_raw p = raw" if "raw \<in> set sent" for raw
    using inv that by (fastforce simp: pubs_inv_def)
  ultimately show ?thesis using inv by (fastforce simp: pubs_inv_def row_signed_def setText_def)
qed

text \<open>A tick that finds a publication pending settles that one and touches no other: it is confirmed
  exactly when its receipt is at least twelve blocks deep in the canonical chain, reports success,
  and the record read back from the resolver is the one it wrote; it fails exactly when a receipt
  that deep reports a revert or another record is read back; else it stays pending.\<close>

theorem publication_settles:
  assumes "nothing_published st0" "(sp_step cr pb)\<^sup>*\<^sup>* st0 (db, sent)"
    and "pb_key pb" "0 < pb_max_gas pb" "pb_max_fee pb = Some fee" "0 < fee" "nd_chain nd = Inr sepolia" "nd_locked nd"
    and "publications db = xs @ [(i, p)]" "sp_status p = SpPending"
    and "StateTick cr pb nd nd' due (db, sent) = (e, db', sent')"
  defines "deep r \<equiv> nd_receipt nd' (sp_hash p) = Inr (Some r) \<and> nd_header nd' (tr_height r) = Inr (tr_block r)
    \<and> (\<exists>head. nd_head nd' = Inr head \<and> tr_height r + 12 \<le> head)"
  shows "\<exists>q. publications db' = xs @ [(i, q)] \<and> sp_root q = sp_root p \<and> sp_raw q = sp_raw p \<and> sp_hash q = sp_hash p
    \<and> (sp_status q = SpConfirmed \<longleftrightarrow> (\<exists>r. deep r \<and> tr_success r \<and> nd_record nd' (sp_resolver p) (sp_node p) = Inr (Record (pb_hex pb) ''states'' (sp_root p))))
    \<and> (sp_status q = SpFailed \<longleftrightarrow> (\<exists>r. deep r \<and> (\<not> tr_success r \<or> (\<exists>rec. nd_record nd' (sp_resolver p) (sp_node p) = Inr rec
          \<and> rec \<noteq> Record (pb_hex pb) ''states'' (sp_root p)))))"
proof -
  have inv: "pubs_inv pb (db, sent)" using sp_run_inv assms(1,2) by blast
  note l = pubs_inv_last [OF inv assms(9)]
  have "StateTick cr pb nd nd' due (db, sent) = settle_state pb nd' i p (db, sent)"
    using assms(3-8,10) l(4) by (simp add: StateTick_def)
  with settle_state_last [OF assms(9) l(1,2) assms(10), of pb nd' sent] assms(11)
  obtain msg where "publications db' = xs @ [(i, p\<lparr>sp_status := settled pb nd' p, sp_error := msg\<rparr>)]" by auto
  then show ?thesis
    by (intro exI [of _ "p\<lparr>sp_status := settled pb nd' p, sp_error := msg\<rparr>"])
      (auto simp: settled_def deep_def split: sum.split option.split)
qed

definition demo_publisher :: state_publisher where
  "demo_publisher = \<lparr>pb_key = True, pb_resolver = 8, pb_namehash = 3, pb_max_gas = 100, pb_max_fee = Some 7, pb_hex = (\<lambda>h. ''0x''),
     pb_pack = (\<lambda>n v. [1]), pb_sign = (\<lambda>nonce to gas price data. Inr ([2, 2], 21)), pb_decode = (\<lambda>raw. Inr (sepolia, 21))\<rparr>"

text \<open>A node whose resolver holds the given record and that has the given receipt at head 40.\<close>

definition demo_node :: "string \<Rightarrow> tx_receipt option \<Rightarrow> node_env" where
  "demo_node rec r = \<lparr>nd_chain = Inr sepolia, nd_receipt = (\<lambda>h. Inr r), nd_header = (\<lambda>n. Inr 6), nd_head = Inr 40,
     nd_record = (\<lambda>a n. Inr rec), nd_estimate = (\<lambda>d. Inr 90), nd_price = Inr 5, nd_nonce = Inr 0, nd_send = (\<lambda>raw. None), nd_locked = True\<rparr>"

definition demo_pub_start :: publication_db where
  "demo_pub_start = \<lparr>interactions = [], pending_events = [], chains = [], assets = [], asset_cursors = [],
     asset_demand = [], asset_demand_onchain = [], account_verdicts = [],
     user_state_heads = [(7, \<lparr>sh_id = 1261, sh_generation = 1, sh_legacy = False\<rparr>)],
     account_asset_commits = [], account_asset_commit_items = [], account_hints = [],
     candidates = [], discovery_cursor = [], promotion_cooldowns = [],
     user_state_revisions = [(1261, 7, demo_snapshot)], user_state_nodes = Map.empty, user_state_checkpoints = [],
     publication_seq = 1, publications = []\<rparr>"

lemma demo_build_checkpoint:
  "\<exists>c. BuildStateCheckpoint demo_crypto demo_pub_start = Inr (c, demo_pub_start\<lparr>user_state_checkpoints := [(ck_root c, c)]\<rparr>) \<and> ck_accounts c \<noteq> []"
proof -
  have "\<exists>t. AggregateState (cr_keccak demo_crypto) [\<lparr>ar_account = 7, ar_id = 1261\<rparr>] = Inr t"
    unfolding AggregateState_def using NewTrie_ok [of "map (account_pair (cr_keccak demo_crypto)) [\<lparr>ar_account = 7, ar_id = 1261\<rparr>]" "cr_keccak demo_crypto"]
    by (auto simp: valid_items_def account_pair_def)
  then show ?thesis by (auto simp: BuildStateCheckpoint_def head_rows_def demo_pub_start_def upsert_def Let_def)
qed

definition demo_pub_row :: "hash \<Rightarrow> StatePublication" where
  "demo_pub_row r = \<lparr>sp_root = r, sp_resolver = 8, sp_node = 3, sp_hash = 21, sp_raw = [2, 2], sp_status = SpPending, sp_error = ''awaiting receipt''\<rparr>"

definition demo_first_tick :: "unit sp_state" where
  "demo_first_tick = snd (StateTick demo_crypto demo_publisher (demo_node [] None) (demo_node [] None) True (demo_pub_start, []))"

lemma demo_first_tick_rows: "\<exists>r. publications (fst demo_first_tick) = [(1, demo_pub_row r)] \<and> snd demo_first_tick = [[2, 2]]"
proof -
  obtain c where c: "BuildStateCheckpoint demo_crypto demo_pub_start = Inr (c, demo_pub_start\<lparr>user_state_checkpoints := [(ck_root c, c)]\<rparr>)" "ck_accounts c \<noteq> []"
    using demo_build_checkpoint by blast
  have rec: "Record f ''states'' r \<noteq> []" for f r by (simp add: Record_def record_prefix_def)
  have t: "StateTick demo_crypto demo_publisher (demo_node [] None) (demo_node [] None) True (demo_pub_start, [])
      = publish_state demo_crypto demo_publisher (demo_node [] None) (demo_node [] None) (demo_pub_start, [])"
    by (simp add: StateTick_def demo_publisher_def demo_node_def demo_pub_start_def StatePublications_def recheck_def)
  have "publish_state demo_crypto demo_publisher (demo_node [] None) (demo_node [] None) (demo_pub_start, [])
      = (None, demo_pub_start\<lparr>user_state_checkpoints := [(ck_root c, c)], publication_seq := 2, publications := [(1, demo_pub_row (ck_root c))]\<rparr>, [[2, 2]])"
    using c rec [symmetric]
    by (simp add: publish_state_def demo_node_def demo_publisher_def prepare_def gas_limit_def SaveStatePublication_def demo_pub_start_def one_pending_def
      settle_state_def resend_def update_status_def UpdateStatePublication_def update_row_def demo_pub_row_def Let_def)
  with t show ?thesis by (auto simp: demo_first_tick_def)
qed

lemma demo_sp_start: "nothing_published (demo_pub_start, [])"
  by (simp add: nothing_published_def demo_pub_start_def)

lemma demo_sp_run: "(sp_step demo_crypto demo_publisher)\<^sup>*\<^sup>* (demo_pub_start, []) demo_first_tick"
  unfolding demo_first_tick_def by (intro r_into_rtranclp sp_step.tick)

theorem state_publications_accounted_witness:
  "\<exists>r. publications (fst demo_first_tick) = [(1, demo_pub_row r)] \<and> (\<forall>raw \<in> set (snd demo_first_tick). raw = [2, 2])
     \<and> (\<exists>nonce gas price. pb_sign demo_publisher nonce 8 gas price [1] = Inr ([2, 2], 21) \<and> gas \<le> 100 \<and> 0 < price \<and> price \<le> 7)"
proof -
  obtain r where r: "publications (fst demo_first_tick) = [(1, demo_pub_row r)]" using demo_first_tick_rows by blast
  have run: "(sp_step demo_crypto demo_publisher)\<^sup>*\<^sup>* (demo_pub_start, []) (fst demo_first_tick, snd demo_first_tick)" using demo_sp_run by simp
  show ?thesis using state_publications_accounted [OF demo_sp_start run] r by (auto simp: demo_pub_row_def demo_publisher_def)
qed

theorem publication_settles_witness:
  "\<exists>r e db' sent' q. StateTick demo_crypto demo_publisher (demo_node [] None)
       (demo_node (Record (\<lambda>h. ''0x'') ''states'' r) (Some \<lparr>tr_height = 20, tr_block = 6, tr_success = True\<rparr>)) False demo_first_tick = (e, db', sent')
     \<and> publications db' = [(1, q)] \<and> sp_status q = SpConfirmed"
proof -
  obtain r where r: "publications (fst demo_first_tick) = [] @ [(1, demo_pub_row r)]" using demo_first_tick_rows by auto
  have run: "(sp_step demo_crypto demo_publisher)\<^sup>*\<^sup>* (demo_pub_start, []) (fst demo_first_tick, snd demo_first_tick)" using demo_sp_run by simp
  obtain e db' sent' where t: "StateTick demo_crypto demo_publisher (demo_node [] None)
      (demo_node (Record (\<lambda>h. ''0x'') ''states'' r) (Some \<lparr>tr_height = 20, tr_block = 6, tr_success = True\<rparr>)) False (fst demo_first_tick, snd demo_first_tick) = (e, db', sent')"
    by (metis prod.collapse)
  have c: "pb_key demo_publisher" "0 < pb_max_gas demo_publisher" "pb_max_fee demo_publisher = Some 7" "(0 :: int) < 7"
    "nd_chain (demo_node [] None) = Inr sepolia" "nd_locked (demo_node [] None)" "sp_status (demo_pub_row r) = SpPending"
    by (simp_all add: demo_publisher_def demo_node_def demo_pub_row_def)
  from publication_settles [OF demo_sp_start run c(1-6) r c(7) t] t show ?thesis
    by (auto simp: demo_node_def demo_pub_row_def demo_publisher_def)
qed

end
