(* ===== verification/EpochStore.thy ===== *)
theory EpochStore
  imports DemandStore Merkle
begin

text \<open>
  Commitments over the index: \<open>internal/store/epochs.go\<close>. An epoch is a row with the two roots and
  the state of its publication, next to its leaves and its coverage. Identifiers come from a
  sequence (\<open>BIGSERIAL\<close>), which a transaction that is rolled back has advanced all the same.
  Timestamps are integers, \<open>now()\<close> is an argument. The lemmas say which rows an operation may touch.
\<close>

section \<open>Tables\<close>

datatype epoch_status = EpochBuilt | EpochSubmitted | EpochPublished | EpochFinalized | EpochRejected | EpochFailed

record Epoch =
  ep_chain :: nat
  ep_from :: nat
  ep_to :: nat
  ep_root :: hash
  ep_coverage_root :: hash
  ep_leaf_count :: nat
  ep_uri :: string
  ep_onchain :: "int option"
  ep_tx :: "hash option"
  ep_status :: epoch_status
  ep_ref :: "hash option"
  ep_submitted_at :: "int option"
  ep_expected :: string
  ep_claim_tx :: "hash option"
  ep_claimed_at :: "int option"
  ep_reward :: string
  ep_filter :: hash

record EpochCoverage =
  cv_index :: nat
  cv_asset :: address
  cv_key :: hash
  cv_from :: nat
  cv_to :: nat
  cv_leaf :: hash

record EpochLeaf =
  el_index :: nat
  el_account :: address
  el_assets_hash :: hash
  el_leaf :: hash
  el_assets :: "address list"

record epoch_db = demand_db +
  epoch_seq :: nat
  epochs :: "(nat \<times> Epoch) list"
  epoch_leaves :: "((nat \<times> nat) \<times> EpochLeaf) list"
  epoch_coverage :: "((nat \<times> nat) \<times> EpochCoverage) list"
  registry_sync :: "((nat \<times> address) \<times> nat) list"

section \<open>Writes\<close>

text \<open>The columns \<open>CreateEpoch\<close> does not name are \<open>NULL\<close>, and the status is \<open>built\<close> whatever the
  argument says. The two batches fail on a repeated index, and then nothing is stored.\<close>

definition built_row :: "Epoch \<Rightarrow> EpochLeaf list \<Rightarrow> Epoch" where
  "built_row e leaves = e\<lparr>ep_leaf_count := length leaves, ep_onchain := None, ep_tx := None, ep_status := EpochBuilt,
     ep_ref := None, ep_submitted_at := None, ep_claim_tx := None, ep_claimed_at := None, ep_reward := []\<rparr>"

definition CreateEpoch ::
  "Epoch \<Rightarrow> EpochLeaf list \<Rightarrow> EpochCoverage list \<Rightarrow> 'a epoch_db_scheme \<Rightarrow> nat option \<times> 'a epoch_db_scheme" where
  "CreateEpoch e leaves coverage db =
     (let eid = epoch_seq db;
          ls = epoch_leaves db @ map (\<lambda>l. ((eid, el_index l), l)) leaves;
          cs = epoch_coverage db @ map (\<lambda>c. ((eid, cv_index c), c)) coverage
      in if keys_unique ls \<and> keys_unique cs
         then (Some eid, db\<lparr>epoch_seq := eid + 1, epochs := epochs db @ [(eid, built_row e leaves)],
                 epoch_leaves := ls, epoch_coverage := cs\<rparr>)
         else (None, db\<lparr>epoch_seq := eid + 1\<rparr>))"

definition update_epoch :: "nat \<Rightarrow> (Epoch \<Rightarrow> Epoch) \<Rightarrow> 'a epoch_db_scheme \<Rightarrow> 'a epoch_db_scheme" where
  "update_epoch eid f db = db\<lparr>epochs := update_row eid f (epochs db)\<rparr>"

definition MarkClaimed :: "nat \<Rightarrow> hash \<Rightarrow> string \<Rightarrow> int \<Rightarrow> 'a epoch_db_scheme \<Rightarrow> 'a epoch_db_scheme" where
  "MarkClaimed eid tx rewardWei now =
     update_epoch eid (\<lambda>e. e\<lparr>ep_claim_tx := (if tx \<noteq> 0 then Some tx else None), ep_claimed_at := Some now, ep_reward := rewardWei\<rparr>)"

definition MarkSubmitted :: "nat \<Rightarrow> hash \<Rightarrow> int \<Rightarrow> 'a epoch_db_scheme \<Rightarrow> 'a epoch_db_scheme" where
  "MarkSubmitted eid ref now =
     update_epoch eid (\<lambda>e. e\<lparr>ep_status := EpochSubmitted, ep_ref := Some ref, ep_submitted_at := Some now\<rparr>)"

definition MarkPublished :: "nat \<Rightarrow> int \<Rightarrow> hash \<Rightarrow> 'a epoch_db_scheme \<Rightarrow> 'a epoch_db_scheme" where
  "MarkPublished eid onchainID txHash =
     update_epoch eid (\<lambda>e. e\<lparr>ep_status := EpochPublished, ep_onchain := Some onchainID, ep_tx := Some txHash\<rparr>)"

definition SetEpochURI :: "nat \<Rightarrow> string \<Rightarrow> 'a epoch_db_scheme \<Rightarrow> 'a epoch_db_scheme" where
  "SetEpochURI eid uri = update_epoch eid (\<lambda>e. e\<lparr>ep_uri := uri\<rparr>)"

definition SetEpochStatus :: "nat \<Rightarrow> epoch_status \<Rightarrow> 'a epoch_db_scheme \<Rightarrow> 'a epoch_db_scheme" where
  "SetEpochStatus eid status = update_epoch eid (\<lambda>e. e\<lparr>ep_status := status\<rparr>)"

section \<open>Reads\<close>

definition GetEpoch :: "nat \<Rightarrow> 'a epoch_db_scheme \<Rightarrow> store_error + Epoch" where
  "GetEpoch eid db = (case map_of (epochs db) eid of None \<Rightarrow> Inl ErrNotFound | Some e \<Rightarrow> Inr e)"

definition queryEpochs :: "(Epoch \<Rightarrow> bool) \<Rightarrow> 'a epoch_db_scheme \<Rightarrow> (nat \<times> Epoch) list" where
  "queryEpochs p db = sort_key fst (filter (\<lambda>(eid, e). p e) (epochs db))"

definition UnclaimedFinalized :: "nat \<Rightarrow> 'a epoch_db_scheme \<Rightarrow> (nat \<times> Epoch) list" where
  "UnclaimedFinalized chainID =
     queryEpochs (\<lambda>e. ep_chain e = chainID \<and> ep_status e = EpochFinalized \<and> ep_onchain e \<noteq> None \<and> ep_claimed_at e = None)"

definition PendingSubmissions :: "nat \<Rightarrow> 'a epoch_db_scheme \<Rightarrow> (nat \<times> Epoch) list" where
  "PendingSubmissions chainID = queryEpochs (\<lambda>e. ep_chain e = chainID \<and> ep_status e = EpochSubmitted)"

definition PublishedUnfinalized :: "nat \<Rightarrow> 'a epoch_db_scheme \<Rightarrow> (nat \<times> Epoch) list" where
  "PublishedUnfinalized chainID =
     queryEpochs (\<lambda>e. ep_chain e = chainID \<and> ep_status e = EpochPublished \<and> ep_onchain e \<noteq> None)"

definition ListEpochs :: "nat \<Rightarrow> nat \<Rightarrow> 'a epoch_db_scheme \<Rightarrow> (nat \<times> Epoch) list" where
  "ListEpochs chainID limit db = take limit (rev (queryEpochs (\<lambda>e. chainID = 0 \<or> ep_chain e = chainID) db))"

definition EpochByOnchainID :: "nat \<Rightarrow> int \<Rightarrow> 'a epoch_db_scheme \<Rightarrow> store_error + (nat \<times> Epoch)" where
  "EpochByOnchainID chainID onchainID db =
     (case rev (queryEpochs (\<lambda>e. ep_chain e = chainID \<and> ep_onchain e = Some onchainID) db) of
        [] \<Rightarrow> Inl ErrNotFound | e # _ \<Rightarrow> Inr e)"

definition LatestFinalizedEpoch :: "nat \<Rightarrow> 'a epoch_db_scheme \<Rightarrow> store_error + (nat \<times> Epoch)" where
  "LatestFinalizedEpoch chainID db =
     (case rev (sort_key (\<lambda>(eid, e). the (ep_onchain e))
         (queryEpochs (\<lambda>e. ep_chain e = chainID \<and> ep_status e = EpochFinalized \<and> ep_onchain e \<noteq> None) db)) of
        [] \<Rightarrow> Inl ErrNotFound | e # _ \<Rightarrow> Inr e)"

definition LatestCommittedRoots :: "nat \<Rightarrow> 'a epoch_db_scheme \<Rightarrow> (hash \<times> hash) option" where
  "LatestCommittedRoots chainID db =
     (case rev (queryEpochs (\<lambda>e. ep_chain e = chainID
           \<and> (ep_status e = EpochSubmitted \<or> ep_status e = EpochPublished \<or> ep_status e = EpochFinalized)) db) of
        [] \<Rightarrow> None | (eid, e) # _ \<Rightarrow> Some (ep_root e, ep_coverage_root e))"

definition EpochCoverageOf :: "nat \<Rightarrow> 'a epoch_db_scheme \<Rightarrow> EpochCoverage list" where
  "EpochCoverageOf epochID db =
     map snd (sort_key (snd \<circ> fst) (filter (\<lambda>((eid, i), c). eid = epochID) (epoch_coverage db)))"

definition EachEpochLeaf :: "nat \<Rightarrow> 'a epoch_db_scheme \<Rightarrow> EpochLeaf list" where
  "EachEpochLeaf epochID db =
     map snd (sort_key (snd \<circ> fst) (filter (\<lambda>((eid, i), l). eid = epochID) (epoch_leaves db)))"

text \<open>\<open>EpochLeaves\<close> leaves the assets column behind.\<close>

definition EpochLeaves :: "nat \<Rightarrow> 'a epoch_db_scheme \<Rightarrow> EpochLeaf list" where
  "EpochLeaves epochID db = map (\<lambda>l. l\<lparr>el_assets := []\<rparr>) (EachEpochLeaf epochID db)"

definition EpochLeafFor :: "nat \<Rightarrow> address \<Rightarrow> 'a epoch_db_scheme \<Rightarrow> store_error + EpochLeaf" where
  "EpochLeafFor epochID account db =
     (case find (\<lambda>((eid, i), l). eid = epochID \<and> el_account l = account) (epoch_leaves db) of
        None \<Rightarrow> Inl ErrNotFound | Some (_, l) \<Rightarrow> Inr l)"

definition RegistrySyncCursor :: "nat \<Rightarrow> address \<Rightarrow> 'a epoch_db_scheme \<Rightarrow> nat" where
  "RegistrySyncCursor chainID addr db = (case map_of (registry_sync db) (chainID, addr) of None \<Rightarrow> 0 | Some n \<Rightarrow> n)"

definition SetRegistrySyncCursor :: "nat \<Rightarrow> address \<Rightarrow> nat \<Rightarrow> 'a epoch_db_scheme \<Rightarrow> 'a epoch_db_scheme" where
  "SetRegistrySyncCursor chainID addr block db =
     db\<lparr>registry_sync := upsert (chainID, addr) block (\<lambda>_. block) (registry_sync db)\<rparr>"

end
