(* ===== verification/HintFilter.thy ===== *)
theory HintFilter
  imports Prelude "HOL-Library.Monad_Syntax"
begin

text \<open>
  Publishable membership filters: \<open>internal/hintfilter\<close> (\<open>key.go\<close>, \<open>bloom.go\<close>, \<open>filter.go\<close>,
  \<open>codec.go\<close>). Keccak-256 is the argument \<open>k\<close>. The binary-fuse filter of the package
  \<open>xorfilter\<close> is a pair of arguments, its constructor and its membership test, and a record with
  the fields the codec writes. The two floating-point sizings, \<open>BloomBits\<close> and the probe count, are
  arguments before they are clamped, so everything holds for whatever they round to. Where the
  code would panic the result is \<open>None\<close>: the decoder reads through partial operations that fail out of
  range, and its lemmas show which of its checks are enough.
\<close>

section \<open>Keys\<close>

type_synonym Kind = byte

definition KindToken :: Kind where "KindToken = 1"
definition KindAccountToken :: Kind where "KindAccountToken = 2"
definition KindInterop :: Kind where "KindInterop = 3"

definition Kind_String :: "Kind \<Rightarrow> string" where
  "Kind_String kd = (if kd = KindToken then ''token'' else if kd = KindAccountToken then ''account-token''
     else if kd = KindInterop then ''interop'' else ''unknown'')"

definition filter_domain :: "byte list" where
  "filter_domain = ascii ''evmscan/xorf/v1''"

definition PublicSecret :: "byte list" where
  "PublicSecret = []"

definition Subkey :: "hashfn \<Rightarrow> byte list \<Rightarrow> u64 \<Rightarrow> Kind \<Rightarrow> hash" where
  "Subkey k secret chainID kind = k (secret @ filter_domain @ be_bytes 8 chainID @ [kind])"

definition Key :: "hashfn \<Rightarrow> hash \<Rightarrow> byte list list \<Rightarrow> u64" where
  "Key k subkey parts = of_be (take 8 (hash_bytes (k (hash_bytes subkey @ concat parts))))"

definition TokenKey :: "hashfn \<Rightarrow> hash \<Rightarrow> address \<Rightarrow> u64" where
  "TokenKey k subkey token = Key k subkey [addr_bytes token]"

definition PairKey :: "hashfn \<Rightarrow> hash \<Rightarrow> address \<Rightarrow> address \<Rightarrow> u64" where
  "PairKey k subkey account token = Key k subkey [addr_bytes account, addr_bytes token]"

text \<open>The loop that skips the leading zero bytes of the chain id.\<close>

definition chain_ref :: "u64 \<Rightarrow> byte list" where
  "chain_ref chainID =
     (let ref = foldl (\<lambda>ref b. if ref \<noteq> [] \<or> b \<noteq> 0 then ref @ [b] else ref) [] (be_bytes 8 chainID)
      in if ref = [] then [0] else ref)"

definition Interop7930 :: "u64 \<Rightarrow> address \<Rightarrow> byte list" where
  "Interop7930 chainID addr =
     [0, 1, 0, 0, word_of_nat (length (chain_ref chainID))] @ chain_ref chainID @ [20] @ addr_bytes addr"

definition InteropKey :: "hashfn \<Rightarrow> hash \<Rightarrow> u64 \<Rightarrow> address \<Rightarrow> u64" where
  "InteropKey k subkey chainID token = Key k subkey [Interop7930 chainID token]"

definition InteropSubkey :: "hashfn \<Rightarrow> byte list \<Rightarrow> hash" where
  "InteropSubkey k secret = Subkey k secret 0 KindInterop"

section \<open>Bloom filters\<close>

record bloom =
  bl_bits :: "byte list"
  bl_m :: u32
  bl_k :: byte

definition HintBits :: u32 where "HintBits = 1024"

definition maxBloomBits :: u32 where "maxBloomBits = 8388608"

datatype filter_error =
    ErrEmpty | BloomSize | BloomLimit | FuseBuild | UnknownStructure | DescTooLong
  | ShortHeader | BadMagic | BadFileVersion | TruncatedDesc | KeyBytes | TruncatedBloom | BloomZeroProbes
  | BloomBytes | TruncatedFuse | FingerprintBytes | ErrNotBloom

text \<open>\<open>raw\<close> is \<open>int(m)\<close>, the truncated float.\<close>

definition BloomBits :: "(nat \<Rightarrow> int) \<Rightarrow> nat \<Rightarrow> u32" where
  "BloomBits raw n =
     (if n = 0 then 64
      else let bitsN = (word_of_int ((raw n + 63) div 64 * 64) :: u32);
               bitsN = (if bitsN < 64 then 64 else bitsN)
           in if bitsN > maxBloomBits then maxBloomBits else bitsN)"

text \<open>\<open>raw\<close> is \<open>int(m/n * ln 2 + 0.5)\<close>.\<close>

definition bloomK :: "(u32 \<Rightarrow> nat \<Rightarrow> int) \<Rightarrow> u32 \<Rightarrow> nat \<Rightarrow> byte" where
  "bloomK raw m n =
     (if n = 0 then 1
      else let kk = raw m n; kk = (if kk < 1 then 1 else kk); kk = (if kk > 24 then 24 else kk) in word_of_int kk)"

definition bloom_probe :: "bloom \<Rightarrow> u64 \<Rightarrow> nat \<Rightarrow> u32" where
  "bloom_probe b key i =
     (let h1 = (ucast key :: u32); h2 = (ucast (drop_bit 32 key) :: u32)
      in (h1 + word_of_nat i * (h2 OR 1)) mod bl_m b)"

definition bit_mask :: "u32 \<Rightarrow> byte" where
  "bit_mask p = drop_bit (unat (p mod 8)) 0x80"

definition set_bit_at :: "u32 \<Rightarrow> bloom \<Rightarrow> bloom" where
  "set_bit_at p b = b\<lparr>bl_bits := (bl_bits b)[unat (p div 8) := bl_bits b ! unat (p div 8) OR bit_mask p]\<rparr>"

definition bloom_add :: "u64 \<Rightarrow> bloom \<Rightarrow> bloom" where
  "bloom_add key b = fold (\<lambda>i b. set_bit_at (bloom_probe b key i) b) [0..<unat (bl_k b)] b"

definition bloom_contains :: "bloom \<Rightarrow> u64 \<Rightarrow> bool" where
  "bloom_contains b key = list_all (\<lambda>i. let p = bloom_probe b key i in bl_bits b ! unat (p div 8) AND bit_mask p \<noteq> 0) [0..<unat (bl_k b)]"

definition newBloom :: "(u32 \<Rightarrow> nat \<Rightarrow> int) \<Rightarrow> u64 list \<Rightarrow> u32 \<Rightarrow> filter_error + bloom" where
  "newBloom raw keys m =
     (if m = 0 \<or> m mod 64 \<noteq> 0 then Inl BloomSize
      else if m > maxBloomBits then Inl BloomLimit
      else Inr (fold bloom_add keys
        \<lparr>bl_bits = replicate (unat (m div 8)) 0, bl_m = m, bl_k = bloomK raw m (length keys)\<rparr>))"

definition bloomFromBytes :: "byte list \<Rightarrow> u32 \<Rightarrow> byte \<Rightarrow> filter_error + bloom" where
  "bloomFromBytes raw m kk =
     (if m = 0 \<or> m mod 64 \<noteq> 0 then Inl BloomSize
      else if m > maxBloomBits then Inl BloomLimit
      else if kk = 0 then Inl BloomZeroProbes
      else if length raw \<noteq> unat m div 8 then Inl BloomBytes
      else Inr \<lparr>bl_bits = raw, bl_m = m, bl_k = kk\<rparr>)"

section \<open>Filters\<close>

type_synonym Structure = byte

definition StructureFuse8 :: Structure where "StructureFuse8 = 1"
definition StructureSortedU64 :: Structure where "StructureSortedU64 = 2"
definition StructureBloom :: Structure where "StructureBloom = 3"

definition Structure_String :: "Structure \<Rightarrow> string" where
  "Structure_String s = (if s = StructureFuse8 then ''binary-fuse8'' else if s = StructureSortedU64 then ''sorted-u64''
     else if s = StructureBloom then ''bloom'' else ''unknown'')"

definition autoStructureMax :: nat where "autoStructureMax = 4096"

record BinaryFuse =
  bf_seed :: u64
  bf_len :: u32
  bf_mask :: u32
  bf_count :: u32
  bf_count_len :: u32
  bf_fingerprints :: "byte list"

record fuse_ops =
  fu_new :: "u64 list \<Rightarrow> BinaryFuse option"
  fu_contains :: "BinaryFuse \<Rightarrow> u64 \<Rightarrow> bool"

record sizing =
  sz_bits :: "nat \<Rightarrow> int"
  sz_probes :: "u32 \<Rightarrow> nat \<Rightarrow> int"

text \<open>The signed epoch id is kept in two's complement.\<close>

record Meta =
  mt_structure :: Structure
  mt_blinded :: bool
  mt_chain :: u64
  mt_kind :: Kind
  mt_epoch :: u64
  mt_to :: u64
  mt_bits :: u32
  mt_desc :: "byte list"

record Filter =
  fi_meta :: Meta
  fi_count :: u64
  fi_fuse :: "BinaryFuse option"
  fi_sorted :: "u64 list"
  fi_bloom :: "bloom option"

definition BuildFilter :: "fuse_ops \<Rightarrow> sizing \<Rightarrow> u64 list \<Rightarrow> Meta \<Rightarrow> filter_error + Filter" where
  "BuildFilter ops sz keys0 meta0 =
     (if keys0 = [] then Inl ErrEmpty
      else let keys = skip_repeats (sort keys0);
               meta = (if mt_structure meta0 = 0
                       then meta0\<lparr>mt_structure := (if length keys \<le> autoStructureMax then StructureSortedU64 else StructureFuse8)\<rparr>
                       else meta0);
               f = \<lparr>fi_meta = meta, fi_count = word_of_nat (length keys), fi_fuse = None, fi_sorted = [], fi_bloom = None\<rparr>
        in if mt_structure meta = StructureSortedU64 then Inr (f\<lparr>fi_sorted := keys\<rparr>)
           else if mt_structure meta = StructureBloom then
             let m = (if mt_bits meta = 0 then BloomBits (sz_bits sz) (length keys) else mt_bits meta) in
             (case newBloom (sz_probes sz) keys m of Inl e \<Rightarrow> Inl e | Inr b \<Rightarrow> Inr (f\<lparr>fi_bloom := Some b\<rparr>))
           else if mt_structure meta = StructureFuse8 then
             (case fu_new ops keys of None \<Rightarrow> Inl FuseBuild | Some fuse \<Rightarrow> Inr (f\<lparr>fi_fuse := Some fuse\<rparr>))
           else Inl UnknownStructure)"

definition Count :: "Filter \<Rightarrow> u64" where
  "Count f = fi_count f"

definition sorted_contains :: "u64 list \<Rightarrow> u64 \<Rightarrow> bool" where
  "sorted_contains keys key =
     (let i = sort_search (length keys) (\<lambda>i. keys ! i \<ge> key) in i < length keys \<and> keys ! i = key)"

definition Contains :: "fuse_ops \<Rightarrow> Filter \<Rightarrow> u64 \<Rightarrow> bool option" where
  "Contains ops f key =
     (if mt_structure (fi_meta f) = StructureSortedU64 then Some (sorted_contains (fi_sorted f) key)
      else if mt_structure (fi_meta f) = StructureFuse8 then map_option (\<lambda>b. fu_contains ops b key) (fi_fuse f)
      else if mt_structure (fi_meta f) = StructureBloom then map_option (\<lambda>b. bloom_contains b key) (fi_bloom f)
      else Some False)"

definition BloomParams :: "Filter \<Rightarrow> u32 \<times> byte" where
  "BloomParams f = (case fi_bloom f of Some b \<Rightarrow> if mt_structure (fi_meta f) \<noteq> StructureBloom then (0, 0) else (bl_m b, bl_k b)
     | None \<Rightarrow> (0, 0))"

definition Bitmap :: "Filter \<Rightarrow> filter_error + byte list" where
  "Bitmap f = (case fi_bloom f of Some b \<Rightarrow> if mt_structure (fi_meta f) \<noteq> StructureBloom then Inl ErrNotBloom else Inr (bl_bits b)
     | None \<Rightarrow> Inl ErrNotBloom)"

definition Slot :: "Filter \<Rightarrow> filter_error + hash" where
  "Slot f = (case fi_bloom f of
       Some b \<Rightarrow> if mt_structure (fi_meta f) \<noteq> StructureBloom \<or> bl_m b \<noteq> 256 then Inl ErrNotBloom else Inr (of_be (bl_bits b))
     | None \<Rightarrow> Inl ErrNotBloom)"

section \<open>The file format\<close>

definition magic :: "byte list" where "magic = ascii ''XORF''"

definition headerFixed :: nat where "headerFixed = 34"

definition maxDesc :: nat where "maxDesc = 8192"

definition header_bytes :: "Meta \<Rightarrow> byte list" where
  "header_bytes mt = magic @ [1, if mt_blinded mt then 1 else 0, mt_structure mt] @ be_bytes 8 (mt_chain mt) @ [mt_kind mt]
     @ be_bytes 8 (mt_epoch mt) @ be_bytes 8 (mt_to mt) @ nat_be 2 (length (mt_desc mt)) @ mt_desc mt"

definition sorted_bytes :: "u64 list \<Rightarrow> byte list" where
  "sorted_bytes keys = concat (map (be_bytes 8) keys)"

definition bloom_bytes :: "bloom \<Rightarrow> byte list" where
  "bloom_bytes b = be_bytes 4 (bl_m b) @ [bl_k b] @ bl_bits b"

definition fuse_bytes :: "BinaryFuse \<Rightarrow> byte list" where
  "fuse_bytes b = be_bytes 8 (bf_seed b) @ be_bytes 4 (bf_len b) @ be_bytes 4 (bf_mask b) @ be_bytes 4 (bf_count b)
     @ be_bytes 4 (bf_count_len b) @ nat_be 4 (length (bf_fingerprints b)) @ bf_fingerprints b"

definition Encode :: "Filter \<Rightarrow> (filter_error + byte list) option" where
  "Encode f =
     (let mt = fi_meta f in
      if length (mt_desc mt) > maxDesc then Some (Inl DescTooLong)
      else let out = header_bytes mt @ be_bytes 8 (fi_count f) in
        if mt_structure mt = StructureSortedU64 then Some (Inr (out @ sorted_bytes (fi_sorted f)))
        else if mt_structure mt = StructureBloom then map_option (\<lambda>b. Inr (out @ bloom_bytes b)) (fi_bloom f)
        else if mt_structure mt = StructureFuse8 then map_option (\<lambda>b. Inr (out @ fuse_bytes b)) (fi_fuse f)
        else Some (Inl UnknownStructure))"

text \<open>Reads of a byte slice as Go makes them: an index or a bound out of range panics, and so does
  an integer read from too few bytes.\<close>

definition byte_at :: "byte list \<Rightarrow> nat \<Rightarrow> byte option" where
  "byte_at b i = (if i < length b then Some (b ! i) else None)"

definition part :: "byte list \<Rightarrow> nat \<Rightarrow> nat \<Rightarrow> byte list option" where
  "part b i j = (if i \<le> j \<and> j \<le> length b then Some (take (j - i) (drop i b)) else None)"

definition read_uint :: "nat \<Rightarrow> byte list \<Rightarrow> 'a :: len word option" where
  "read_uint n b = (if length b < n then None else Some (of_be (take n b)))"

definition read_meta :: "byte list \<Rightarrow> Meta option" where
  "read_meta b = do {
     flags \<leftarrow> byte_at b 5;
     structure \<leftarrow> byte_at b 6;
     chain \<leftarrow> part b 7 15 \<bind> read_uint 8;
     kind \<leftarrow> byte_at b 15;
     epoch \<leftarrow> part b 16 24 \<bind> read_uint 8;
     to \<leftarrow> part b 24 32 \<bind> read_uint 8;
     Some \<lparr>mt_structure = structure, mt_blinded = (flags AND 1 \<noteq> 0), mt_chain = chain, mt_kind = kind,
       mt_epoch = epoch, mt_to = to, mt_bits = 0, mt_desc = []\<rparr>}"

text \<open>\<open>make([]uint64, count)\<close> panics when the size in bytes does not fit the address space. The keys
  are then read one after another, each from the rest of the file.\<close>

definition make_words :: "u64 \<Rightarrow> nat option" where
  "make_words cnt = (if 8 * unat cnt \<ge> 2 ^ 64 then None else Some (unat cnt))"

fun read_keys :: "byte list \<Rightarrow> nat list \<Rightarrow> u64 list option" where
  "read_keys rest [] = Some []"
| "read_keys rest (i # is) = do {
     key \<leftarrow> part rest (i * 8) (length rest) \<bind> read_uint 8;
     keys \<leftarrow> read_keys rest is;
     Some (key # keys)}"

text \<open>The product \<open>count * 8\<close> of the length check wraps.\<close>

definition read_sorted :: "u64 \<Rightarrow> byte list \<Rightarrow> (filter_error + u64 list) option" where
  "read_sorted cnt rest =
     (if word_of_nat (length rest) \<noteq> cnt * 8 then Some (Inl KeyBytes)
      else do {n \<leftarrow> make_words cnt; keys \<leftarrow> read_keys rest [0..<n]; Some (Inr keys)})"

definition read_bloom :: "byte list \<Rightarrow> (filter_error + bloom) option" where
  "read_bloom rest =
     (if length rest < 5 then Some (Inl TruncatedBloom)
      else do {
        bits \<leftarrow> part rest 5 (length rest);
        m \<leftarrow> part rest 0 4 \<bind> read_uint 4;
        probes \<leftarrow> byte_at rest 4;
        Some (bloomFromBytes bits m probes)})"

definition read_fuse :: "byte list \<Rightarrow> (filter_error + BinaryFuse) option" where
  "read_fuse rest =
     (if length rest < 28 then Some (Inl TruncatedFuse)
      else do {
        seed \<leftarrow> part rest 0 8 \<bind> read_uint 8;
        len \<leftarrow> part rest 8 12 \<bind> read_uint 4;
        mask \<leftarrow> part rest 12 16 \<bind> read_uint 4;
        cnt \<leftarrow> part rest 16 20 \<bind> read_uint 4;
        cntlen \<leftarrow> part rest 20 24 \<bind> read_uint 4;
        fpLen \<leftarrow> part rest 24 28 \<bind> (read_uint 4 :: byte list \<Rightarrow> u32 option);
        fps \<leftarrow> part rest 28 (length rest);
        if length fps \<noteq> unat fpLen then Some (Inl FingerprintBytes)
        else Some (Inr \<lparr>bf_seed = seed, bf_len = len, bf_mask = mask, bf_count = cnt, bf_count_len = cntlen,
          bf_fingerprints = fps\<rparr>)})"

definition DecodeFile :: "byte list \<Rightarrow> (filter_error + Filter) option" where
  "DecodeFile b =
     (if length b < headerFixed then Some (Inl ShortHeader)
      else do {
        head4 \<leftarrow> part b 0 4;
        if head4 \<noteq> magic then Some (Inl BadMagic)
        else do {
          v \<leftarrow> byte_at b 4;
          if v \<noteq> 1 then Some (Inl BadFileVersion)
          else do {
            mt \<leftarrow> read_meta b;
            descLen \<leftarrow> part b 32 34 \<bind> (read_uint 2 :: byte list \<Rightarrow> 16 word option);
            rest \<leftarrow> part b headerFixed (length b);
            if length rest < unat descLen + 8 then Some (Inl TruncatedDesc)
            else do {
              desc \<leftarrow> part rest 0 (unat descLen);
              rest \<leftarrow> part rest (unat descLen) (length rest);
              cnt \<leftarrow> part rest 0 8 \<bind> read_uint 8;
              rest \<leftarrow> part rest 8 (length rest);
              let f = \<lparr>fi_meta = mt\<lparr>mt_desc := desc\<rparr>, fi_count = cnt, fi_fuse = None, fi_sorted = [], fi_bloom = None\<rparr>
              in if mt_structure mt = StructureSortedU64 then
                   map_option (map_sum id (\<lambda>ks. f\<lparr>fi_sorted := ks\<rparr>)) (read_sorted cnt rest)
                 else if mt_structure mt = StructureBloom then map_option (map_sum id (\<lambda>x. f\<lparr>fi_bloom := Some x\<rparr>)) (read_bloom rest)
                 else if mt_structure mt = StructureFuse8 then map_option (map_sum id (\<lambda>x. f\<lparr>fi_fuse := Some x\<rparr>)) (read_fuse rest)
                 else Some (Inl UnknownStructure)}}}})"

section \<open>Interoperable addresses\<close>

lemma chain_ref_loop: "foldl (\<lambda>ref b. if ref \<noteq> [] \<or> b \<noteq> 0 then ref @ [b] else ref) acc bs
    = (if acc = [] then dropWhile (\<lambda>b. b = 0) bs else acc @ bs)" for bs :: "byte list"
  by (induction bs arbitrary: acc) auto

lemma be_nat_Cons: "be_nat (b # bs) = unat b * 256 ^ length bs + be_nat bs"
  using be_nat_append [of "[b]" bs] be_nat_snoc [of "[]" b] by simp

lemma be_nat_dropWhile: "be_nat (dropWhile (\<lambda>b. b = 0) bs) = be_nat bs"
  by (induction bs) (auto simp: be_nat_Cons)

lemma chain_ref_eq: "chain_ref c = (let r = dropWhile (\<lambda>b. b = 0) (be_bytes 8 c) in if r = [] then [0] else r)"
  unfolding chain_ref_def chain_ref_loop by simp

lemma chain_ref_props: "be_nat (chain_ref c) = unat c" "length (chain_ref c) \<le> 8"
proof -
  have "be_nat (dropWhile (\<lambda>b. b = 0) (be_bytes 8 c)) = unat c"
    by (simp add: be_nat_dropWhile be_nat_be_bytes)
  then show "be_nat (chain_ref c) = unat c"
    by (cases "dropWhile (\<lambda>b. b = 0) (be_bytes 8 c)") (simp_all add: chain_ref_eq Let_def be_nat_Cons)
  show "length (chain_ref c) \<le> 8"
    using length_dropWhile_le [of "\<lambda>b. b = 0" "be_bytes 8 c"] by (simp add: chain_ref_eq Let_def)
qed

lemma chain_ref_inject: "chain_ref c = chain_ref c' \<longleftrightarrow> c = c'"
  using chain_ref_props(1) by (metis word_unat_eq_iff)

section \<open>Bits of a bloom filter\<close>

definition bloom_ok :: "bloom \<Rightarrow> bool" where
  "bloom_ok b \<longleftrightarrow> bl_m b \<noteq> 0 \<and> bl_m b mod 64 = 0 \<and> bl_m b \<le> maxBloomBits \<and> bl_k b \<noteq> 0 \<and> length (bl_bits b) = unat (bl_m b) div 8"

definition bit_set :: "bloom \<Rightarrow> u32 \<Rightarrow> bool" where
  "bit_set b p \<longleftrightarrow> bl_bits b ! unat (p div 8) AND bit_mask p \<noteq> 0"

lemma bit_mask_ne: "bit_mask p \<noteq> 0"
proof -
  have "unat (p mod 8) < 8" by (simp add: unat_mod)
  then have "bit (bit_mask p) (7 - unat (p mod 8))" by (simp add: bit_mask_def bit_drop_bit_eq bit_numeral_iff bit_iff_odd)
  then show ?thesis by auto
qed

lemma bloom_probe_lt: "bl_m b \<noteq> 0 \<Longrightarrow> unat (bloom_probe b key i) < unat (bl_m b)"
  by (simp add: bloom_probe_def Let_def unat_mod word_unat_eq_iff)

lemma bloom_probe_in_range: "bloom_ok b \<Longrightarrow> unat (bloom_probe b key i div 8) < length (bl_bits b)"
proof -
  assume ok: "bloom_ok b"
  have "64 dvd unat (bl_m b)" using ok by (simp add: bloom_ok_def word_unat_eq_iff unat_mod dvd_eq_mod_eq_0)
  then have "8 dvd unat (bl_m b)" by (rule dvd_trans [rotated]) simp
  moreover have "unat (bloom_probe b key i) < unat (bl_m b)" using bloom_probe_lt ok by (simp add: bloom_ok_def)
  ultimately have "unat (bloom_probe b key i) div 8 < unat (bl_m b) div 8" by (elim dvdE) (simp add: less_mult_imp_div_less mult.commute)
  then show ?thesis using ok by (simp add: bloom_ok_def unat_div)
qed

lemma set_bit_at_fields [simp]:
  "bl_m (set_bit_at p b) = bl_m b" "bl_k (set_bit_at p b) = bl_k b" "length (bl_bits (set_bit_at p b)) = length (bl_bits b)"
  "bloom_ok (set_bit_at p b) = bloom_ok b" "bloom_probe (set_bit_at p b) = bloom_probe b"
  by (simp_all add: set_bit_at_def bloom_ok_def bloom_probe_def fun_eq_iff)

lemma and_ne_0: "x AND y \<noteq> 0 \<longleftrightarrow> (\<exists>n. bit x n \<and> bit y n)" for x y :: byte
proof
  assume "\<exists>n. bit x n \<and> bit y n"
  then obtain n where "bit (x AND y) n" by (auto simp: bit_and_iff)
  then show "x AND y \<noteq> 0" by auto
qed (auto simp: bit_eq_iff bit_and_iff)

lemma set_bit_at_sets: "unat (p div 8) < length (bl_bits b) \<Longrightarrow> bit_set (set_bit_at p b) p"
proof -
  assume "unat (p div 8) < length (bl_bits b)"
  moreover obtain n where "bit (bit_mask p) n" using bit_mask_ne [of p] by (auto simp: bit_eq_iff)
  ultimately show ?thesis unfolding bit_set_def and_ne_0 by (auto simp: set_bit_at_def bit_or_iff)
qed

lemma set_bit_at_mono: "bit_set b q \<Longrightarrow> bit_set (set_bit_at p b) q"
proof (cases "unat (q div 8) = unat (p div 8) \<and> unat (p div 8) < length (bl_bits b)")
  case True
  assume "bit_set b q"
  then show ?thesis using True unfolding bit_set_def and_ne_0 by (auto simp: set_bit_at_def bit_or_iff)
next
  case False
  assume "bit_set b q"
  then show ?thesis using False by (auto simp: bit_set_def set_bit_at_def nth_list_update list_update_beyond)
qed

definition set_probes :: "u64 \<Rightarrow> nat list \<Rightarrow> bloom \<Rightarrow> bloom" where
  "set_probes key js b = fold (\<lambda>i b. set_bit_at (bloom_probe b key i) b) js b"

lemma set_probes_fields [simp]:
  "bl_m (set_probes key js b) = bl_m b" "bl_k (set_probes key js b) = bl_k b" "bloom_ok (set_probes key js b) = bloom_ok b"
  "bloom_probe (set_probes key js b) = bloom_probe b"
  by (induction js arbitrary: b) (simp_all add: set_probes_def)

lemma set_probes_sets:
  "bloom_ok b \<Longrightarrow> bit_set b q \<or> (\<exists>i \<in> set js. q = bloom_probe b key i) \<Longrightarrow> bit_set (set_probes key js b) q"
proof (induction js arbitrary: b)
  case (Cons i js)
  let ?b = "set_bit_at (bloom_probe b key i) b"
  have "bit_set ?b q \<or> (\<exists>i \<in> set js. q = bloom_probe ?b key i)"
    using Cons.prems set_bit_at_mono set_bit_at_sets bloom_probe_in_range by auto
  then show ?case using Cons by (simp add: set_probes_def)
qed (simp add: set_probes_def)

lemma bloom_add_probes: "bloom_add key b = set_probes key [0..<unat (bl_k b)] b"
  by (simp add: bloom_add_def set_probes_def)

lemma bloom_contains_bits: "bloom_contains b key \<longleftrightarrow> (\<forall>i < unat (bl_k b). bit_set b (bloom_probe b key i))"
  by (auto simp: bloom_contains_def list_all_iff Let_def bit_set_def)

lemma bloom_add_contains: "bloom_ok b \<Longrightarrow> bloom_contains (bloom_add key b) key"
  by (auto simp: bloom_add_probes bloom_contains_bits intro!: set_probes_sets)

lemma bloom_add_keeps: "bloom_ok b \<Longrightarrow> bloom_contains b key' \<Longrightarrow> bloom_contains (bloom_add key b) key'"
  by (auto simp: bloom_add_probes bloom_contains_bits intro!: set_probes_sets)

lemma bloom_add_all:
  "bloom_ok b \<Longrightarrow> bloom_ok (fold bloom_add keys b)
   \<and> (\<forall>key. key \<in> set keys \<or> bloom_contains b key \<longrightarrow> bloom_contains (fold bloom_add keys b) key)"
proof (induction keys arbitrary: b)
  case (Cons key keys)
  have "bloom_ok (bloom_add key b)" using Cons.prems by (simp add: bloom_add_probes)
  from Cons.IH [OF this] show ?case using Cons.prems bloom_add_contains bloom_add_keeps by auto
qed simp

lemma bloomK_ne: "bloomK raw m n \<noteq> 0"
proof -
  have "(word_of_int x :: byte) \<noteq> 0" if "1 \<le> x" "x \<le> 24" for x
    using that by (simp add: word_of_int_eq_0_iff zdvd_not_zless)
  then show ?thesis by (auto simp: bloomK_def Let_def)
qed

lemma newBloom_ok:
  assumes "newBloom raw keys m = Inr b"
  shows "bloom_ok b \<and> (\<forall>key \<in> set keys. bloom_contains b key)"
proof -
  let ?b = "\<lparr>bl_bits = replicate (unat (m div 8)) 0, bl_m = m, bl_k = bloomK raw m (length keys)\<rparr>"
  have m: "m \<noteq> 0" "m mod 64 = 0" "m \<le> maxBloomBits" "b = fold bloom_add keys ?b"
    using assms by (auto simp: newBloom_def split: if_splits)
  then have "bloom_ok ?b" by (simp add: bloom_ok_def bloomK_ne unat_div)
  then show ?thesis using bloom_add_all m(4) by blast
qed

section \<open>Payloads\<close>

text \<open>A membership structure that can be built, asked, written and read back. Whatever was put in is
  found by a reader of the file.\<close>

locale membership_file =
  fixes ok :: "'f \<Rightarrow> bool" and built :: "u64 list \<Rightarrow> 'f \<Rightarrow> bool" and member :: "'f \<Rightarrow> u64 \<Rightarrow> bool"
    and put_file :: "'f \<Rightarrow> byte list" and get_file :: "byte list \<Rightarrow> 'f option"
  assumes built_ok: "built keys f \<Longrightarrow> ok f"
    and no_false_negative: "built keys f \<Longrightarrow> key \<in> set keys \<Longrightarrow> member f key"
    and read_write: "ok f \<Longrightarrow> get_file (put_file f) = Some f"
begin

lemma reader_finds:
  assumes "built keys f" "key \<in> set keys" shows "\<exists>f'. get_file (put_file f) = Some f' \<and> member f' key"
  using read_write [OF built_ok] no_false_negative assms by blast

end

definition result_opt :: "'e + 'a \<Rightarrow> 'a option" where
  "result_opt r = (case r of Inl _ \<Rightarrow> None | Inr x \<Rightarrow> Some x)"

text \<open>Reads that are in range.\<close>

lemma byte_at_ok: "i < length b \<Longrightarrow> byte_at b i = Some (b ! i)"
  by (simp add: byte_at_def)

lemma part_ok: "i \<le> j \<Longrightarrow> j \<le> length b \<Longrightarrow> part b i j = Some (take (j - i) (drop i b))"
  by (simp add: part_def)

lemma read_uint_ok: "n \<le> length b \<Longrightarrow> read_uint n b = Some (of_be (take n b))"
  by (simp add: read_uint_def)

lemmas in_range = byte_at_ok part_ok read_uint_ok

lemma read_meta_ok:
  "34 \<le> length b \<Longrightarrow> read_meta b = Some \<lparr>mt_structure = b ! 6, mt_blinded = (b ! 5 AND 1 \<noteq> 0), mt_chain = of_be (take 8 (drop 7 b)),
     mt_kind = b ! 15, mt_epoch = of_be (take 8 (drop 16 b)), mt_to = of_be (take 8 (drop 24 b)), mt_bits = 0, mt_desc = []\<rparr>"
  by (simp add: read_meta_def in_range)

lemma read_keys_ok:
  "\<forall>i \<in> set is. 8 * i + 8 \<le> length rest \<Longrightarrow> read_keys rest is = Some (map (\<lambda>i. of_be (take 8 (drop (i * 8) rest))) is)"
  by (induction "is") (auto simp: in_range)

text \<open>The sorted keys: the reads are in range because the check passed without wrapping.\<close>

lemma read_sorted_eq:
  "read_sorted cnt rest =
     (if word_of_nat (length rest) \<noteq> cnt * 8 then Some (Inl KeyBytes)
      else if unat cnt \<ge> 2 ^ 61 then None
      else Some (Inr (map (\<lambda>i. of_be (take 8 (drop (i * 8) rest))) [0..<unat cnt])))"
proof (cases "word_of_nat (length rest) = cnt * 8 \<and> unat cnt < 2 ^ 61")
  case True
  have "unat (cnt * 8) = unat cnt * 8" using True by (subst unat_mult_lem [THEN iffD1]) simp_all
  moreover have "unat (word_of_nat (length rest) :: u64) \<le> length rest" by (simp add: unat_of_nat take_bit_eq_mod)
  ultimately have "8 * unat cnt \<le> length rest" using True by simp
  then have "read_keys rest [0..<unat cnt] = Some (map (\<lambda>i. of_be (take 8 (drop (i * 8) rest))) [0..<unat cnt])"
    by (intro read_keys_ok) auto
  then show ?thesis using True by (simp add: read_sorted_def make_words_def)
qed (auto simp: read_sorted_def make_words_def)

lemma read_sorted_panics: "read_sorted cnt rest = None \<longleftrightarrow> word_of_nat (length rest) = cnt * 8 \<and> 2 ^ 61 \<le> unat cnt"
  by (simp add: read_sorted_eq)

lemma read_bloom_ok:
  "5 \<le> length rest \<Longrightarrow> read_bloom rest = Some (bloomFromBytes (drop 5 rest) (of_be (take 4 rest)) (rest ! 4))"
  by (simp add: read_bloom_def in_range)

lemma read_fuse_ok:
  "28 \<le> length rest \<Longrightarrow> read_fuse rest = Some (if length rest - 28 \<noteq> unat (of_be (take 4 (drop 24 rest)) :: u32) then Inl FingerprintBytes
     else Inr \<lparr>bf_seed = of_be (take 8 rest), bf_len = of_be (take 4 (drop 8 rest)), bf_mask = of_be (take 4 (drop 12 rest)),
       bf_count = of_be (take 4 (drop 16 rest)), bf_count_len = of_be (take 4 (drop 20 rest)), bf_fingerprints = drop 28 rest\<rparr>)"
  by (simp add: read_fuse_def in_range)

lemma bodies_return: "read_bloom rest \<noteq> None" "read_fuse rest \<noteq> None"
proof -
  show "read_bloom rest \<noteq> None" using read_bloom_ok [of rest] by (cases "length rest < 5") (simp_all add: read_bloom_def)
  show "read_fuse rest \<noteq> None" using read_fuse_ok [of rest] by (cases "length rest < 28") (simp_all add: read_fuse_def)
qed

lemma DecodeFile_eq:
  "DecodeFile b =
     (if length b < 34 then Some (Inl ShortHeader)
      else if take 4 b \<noteq> magic then Some (Inl BadMagic)
      else if b ! 4 \<noteq> 1 then Some (Inl BadFileVersion)
      else let mt = the (read_meta b); n = unat (of_be (take 2 (drop 32 b)) :: 16 word); rest = drop 34 b in
        if length rest < n + 8 then Some (Inl TruncatedDesc)
        else let cnt = of_be (take 8 (drop n rest));
                 f = \<lparr>fi_meta = mt\<lparr>mt_desc := take n rest\<rparr>, fi_count = cnt, fi_fuse = None, fi_sorted = [], fi_bloom = None\<rparr>;
                 rest = drop (n + 8) rest
          in if mt_structure mt = StructureSortedU64 then
               map_option (map_sum id (\<lambda>ks. f\<lparr>fi_sorted := ks\<rparr>)) (read_sorted cnt rest)
             else if mt_structure mt = StructureBloom then map_option (map_sum id (\<lambda>x. f\<lparr>fi_bloom := Some x\<rparr>)) (read_bloom rest)
             else if mt_structure mt = StructureFuse8 then map_option (map_sum id (\<lambda>x. f\<lparr>fi_fuse := Some x\<rparr>)) (read_fuse rest)
             else Some (Inl UnknownStructure))"
proof (cases "length b < 34")
  case False
  then show ?thesis
    by (simp add: DecodeFile_def headerFixed_def in_range read_meta_ok Let_def add.commute not_less)
qed (simp add: DecodeFile_def headerFixed_def)

lemma read_bloom_bytes: "bloom_ok b \<Longrightarrow> read_bloom (bloom_bytes b) = Some (Inr b)"
proof -
  assume ok: "bloom_ok b"
  have "take 4 (bloom_bytes b) = be_bytes 4 (bl_m b)" "drop 5 (bloom_bytes b) = bl_bits b" "bloom_bytes b ! 4 = bl_k b"
    "5 \<le> length (bloom_bytes b)"
    by (simp_all add: bloom_bytes_def nth_append)
  then show ?thesis using ok by (simp add: read_bloom_ok bloomFromBytes_def bloom_ok_def of_be_be_bytes leD)
qed

lemma nth_block: "i < length keys \<Longrightarrow> take 8 (drop (i * 8) (concat (map (be_bytes 8) keys))) = be_bytes 8 (keys ! i)"
proof (induction keys arbitrary: i)
  case (Cons key keys)
  then show ?case by (cases i) simp_all
qed simp

lemma length_sorted_bytes: "length (sorted_bytes keys) = 8 * length keys"
  by (induction keys) (simp_all add: sorted_bytes_def)

lemma read_sorted_bytes:
  assumes "length keys < 2 ^ 61"
  shows "read_sorted (word_of_nat (length keys)) (sorted_bytes keys) = Some (Inr keys)"
proof -
  have n: "unat (word_of_nat (length keys) :: u64) = length keys"
    using assms by (simp add: unsigned_of_nat take_bit_nat_eq_self)
  have "map (\<lambda>i. of_be (take 8 (drop (i * 8) (sorted_bytes keys)))) [0..<length keys] = map ((!) keys) [0..<length keys]"
    by (intro map_cong refl) (simp add: sorted_bytes_def nth_block of_be_be_bytes)
  then show ?thesis using assms n by (simp add: read_sorted_eq length_sorted_bytes map_nth mult.commute)
qed

lemma unat_of_be: "length bs \<le> n \<Longrightarrow> 8 * n \<le> LENGTH('a) \<Longrightarrow> unat (of_be bs :: 'a :: len word) = be_nat bs"
proof -
  assume "length bs \<le> n" "8 * n \<le> LENGTH('a)"
  then have "(256 :: nat) ^ length bs \<le> 2 ^ LENGTH('a)"
    using power_increasing [of "8 * length bs" "LENGTH('a)" "2 :: nat"] by (simp add: power_mult)
  then have "be_nat bs < 2 ^ LENGTH('a)" using be_nat_less [of bs] by linarith
  then show ?thesis by (simp add: of_be_def unat_of_nat take_bit_nat_eq_self)
qed

lemma DecodeFile_None:
  assumes "34 \<le> length b"
  defines "n \<equiv> be_nat (take 2 (drop 32 b))"
  shows "DecodeFile b = None \<longleftrightarrow> take 4 b = magic \<and> b ! 4 = 1 \<and> n + 42 \<le> length b \<and> b ! 6 = StructureSortedU64
    \<and> read_sorted (of_be (take 8 (drop (n + 34) b))) (drop (n + 42) b) = None"
proof -
  have n: "unat (of_be (take 2 (drop 32 b)) :: 16 word) = n" unfolding n_def by (rule unat_of_be [where n = 2]) simp_all
  have d: "drop n (drop 34 b) = drop (n + 34) b" "drop (n + 8) (drop 34 b) = drop (n + 42) b" by (simp_all add: add.commute)
  have l: "length (drop 34 b) < n + 8 \<longleftrightarrow> \<not> n + 42 \<le> length b" using assms(1) by auto
  have st: "mt_structure (the (read_meta b)) = b ! 6" by (simp add: read_meta_ok [OF assms(1)])
  show ?thesis
    unfolding DecodeFile_eq Let_def n d l st using assms(1) bodies_return
    by (simp add: option.map_disc_iff StructureSortedU64_def)
qed

lemma of_be_nat_be: "n < 2 ^ 32 \<Longrightarrow> unat (of_be (nat_be 4 n) :: u32) = n"
  by (simp add: of_be_def be_nat_nat_be unat_of_nat take_bit_nat_eq_self)

lemma read_fuse_bytes: "length (bf_fingerprints b) < 2 ^ 32 \<Longrightarrow> read_fuse (fuse_bytes b) = Some (Inr b)"
  by (simp add: read_fuse_ok fuse_bytes_def of_be_be_bytes of_be_nat_be)

definition built_sorted :: "u64 list \<Rightarrow> u64 list \<Rightarrow> bool" where
  "built_sorted keys0 keys \<longleftrightarrow> keys = skip_repeats (sort keys0) \<and> length keys < 2 ^ 61"

lemma sorted_contains_iff: "sorted keys \<Longrightarrow> sorted_contains keys key \<longleftrightarrow> key \<in> set keys"
proof
  assume s: "sorted keys" and "key \<in> set keys"
  then obtain j where j: "j < length keys" "keys ! j = key" by (auto simp: in_set_conv_nth)
  let ?i = "sort_search (length keys) (\<lambda>i. keys ! i \<ge> key)"
  have least: "(\<forall>a < ?i. \<not> keys ! a \<ge> key) \<and> ?i \<le> length keys \<and> (?i < length keys \<longrightarrow> keys ! ?i \<ge> key)"
    by (rule sort_search_least) (use s in \<open>auto dest: sorted_nth_mono intro: order_trans\<close>)
  then have "?i \<le> j" using j by (metis leI order_refl)
  then have "keys ! ?i \<le> key" using s j by (metis sorted_nth_mono)
  then show "sorted_contains keys key" using least j \<open>?i \<le> j\<close> by (auto simp: sorted_contains_def Let_def)
next
  assume "sorted_contains keys key"
  then show "key \<in> set keys" unfolding sorted_contains_def Let_def by (metis nth_mem)
qed

lemma sorted_keys: "sorted (skip_repeats (sort keys))" "set (skip_repeats (sort keys)) = set keys"
  by (simp_all add: skip_repeats_sort)

interpretation sorted_file: membership_file "\<lambda>keys. length keys < 2 ^ 61" built_sorted sorted_contains sorted_bytes
    "\<lambda>bs. Option.bind (read_sorted (word_of_nat (length bs div 8)) bs) result_opt"
  by unfold_locales
    (auto simp: built_sorted_def sorted_contains_iff sorted_keys length_sorted_bytes read_sorted_bytes result_opt_def)

interpretation bloom_file: membership_file bloom_ok "\<lambda>keys b. \<exists>raw m. newBloom raw keys m = Inr b" bloom_contains bloom_bytes
    "\<lambda>bs. Option.bind (read_bloom bs) result_opt"
  by unfold_locales (auto simp: read_bloom_bytes result_opt_def dest: newBloom_ok)

section \<open>Whole files\<close>

definition filter_ok :: "Filter \<Rightarrow> bool" where
  "filter_ok f \<longleftrightarrow> (let s = mt_structure (fi_meta f) in
     length (mt_desc (fi_meta f)) \<le> maxDesc
     \<and> (s = StructureSortedU64 \<and> fi_count f = word_of_nat (length (fi_sorted f)) \<and> length (fi_sorted f) < 2 ^ 61 \<and> fi_fuse f = None \<and> fi_bloom f = None
      \<or> s = StructureBloom \<and> (\<exists>b. fi_bloom f = Some b \<and> bloom_ok b) \<and> fi_sorted f = [] \<and> fi_fuse f = None
      \<or> s = StructureFuse8 \<and> (\<exists>b. fi_fuse f = Some b \<and> length (bf_fingerprints b) < 2 ^ 32) \<and> fi_sorted f = [] \<and> fi_bloom f = None))"

lemma length_header: "length (header_bytes mt) = 34 + length (mt_desc mt)"
  by (simp add: header_bytes_def magic_def ascii_def)

lemma header_fields:
  assumes "length (mt_desc mt) \<le> maxDesc"
  shows "take 4 (header_bytes mt @ rest) = magic" "(header_bytes mt @ rest) ! 4 = 1"
    "unat (of_be (take 2 (drop 32 (header_bytes mt @ rest))) :: 16 word) = length (mt_desc mt)"
    "drop 34 (header_bytes mt @ rest) = mt_desc mt @ rest"
    "read_meta (header_bytes mt @ rest) = Some (mt\<lparr>mt_bits := 0, mt_desc := []\<rparr>)"
proof -
  have m: "length magic = 4" by (simp add: magic_def ascii_def)
  show "take 4 (header_bytes mt @ rest) = magic" "(header_bytes mt @ rest) ! 4 = 1"
    "drop 34 (header_bytes mt @ rest) = mt_desc mt @ rest"
    by (simp_all add: header_bytes_def m nth_append)
  show "unat (of_be (take 2 (drop 32 (header_bytes mt @ rest))) :: 16 word) = length (mt_desc mt)"
    using assms by (simp add: header_bytes_def m of_be_def be_nat_nat_be unat_of_nat take_bit_nat_eq_self maxDesc_def)
  show "read_meta (header_bytes mt @ rest) = Some (mt\<lparr>mt_bits := 0, mt_desc := []\<rparr>)"
    by (simp add: read_meta_ok length_header) (simp add: header_bytes_def m nth_append of_be_be_bytes)
qed

lemma Decode_Encode:
  assumes "filter_ok f"
  shows "\<exists>b. Encode f = Some (Inr b) \<and> DecodeFile b = Some (Inr (f\<lparr>fi_meta := (fi_meta f)\<lparr>mt_bits := 0\<rparr>\<rparr>))"
proof -
  let ?mt = "fi_meta f" and ?c = "be_bytes 8 (fi_count f)"
  have d: "length (mt_desc ?mt) \<le> maxDesc" using assms by (simp add: filter_ok_def Let_def)
  define body where "body = (if mt_structure ?mt = StructureSortedU64 then sorted_bytes (fi_sorted f)
      else if mt_structure ?mt = StructureBloom then bloom_bytes (the (fi_bloom f)) else fuse_bytes (the (fi_fuse f)))"
  have enc: "Encode f = Some (Inr (header_bytes ?mt @ ?c @ body))"
    using assms d by (auto simp: Encode_def filter_ok_def Let_def body_def StructureSortedU64_def StructureBloom_def StructureFuse8_def)
  note h = header_fields [OF d, of "?c @ body"]
  have len: "\<not> length (header_bytes ?mt @ ?c @ body) < headerFixed" by (simp add: length_header headerFixed_def)
  have "DecodeFile (header_bytes ?mt @ ?c @ body) =
      (let g = \<lparr>fi_meta = ?mt\<lparr>mt_bits := 0\<rparr>, fi_count = fi_count f, fi_fuse = None, fi_sorted = [], fi_bloom = None\<rparr> in
       if mt_structure ?mt = StructureSortedU64 then map_option (map_sum id (\<lambda>ks. g\<lparr>fi_sorted := ks\<rparr>)) (read_sorted (fi_count f) body)
       else if mt_structure ?mt = StructureBloom then map_option (map_sum id (\<lambda>x. g\<lparr>fi_bloom := Some x\<rparr>)) (read_bloom body)
       else if mt_structure ?mt = StructureFuse8 then map_option (map_sum id (\<lambda>x. g\<lparr>fi_fuse := Some x\<rparr>)) (read_fuse body)
       else Some (Inl UnknownStructure))"
    unfolding DecodeFile_eq using len h by (simp add: Let_def headerFixed_def of_be_be_bytes)
  then have "DecodeFile (header_bytes ?mt @ ?c @ body) = Some (Inr (f\<lparr>fi_meta := ?mt\<lparr>mt_bits := 0\<rparr>\<rparr>))"
    using assms read_sorted_bytes [of "fi_sorted f"]
    by (auto simp: filter_ok_def Let_def body_def read_bloom_bytes read_fuse_bytes StructureSortedU64_def StructureBloom_def
        StructureFuse8_def)
  then show ?thesis using enc by blast
qed

text \<open>What the documentation of the fuse filter promises: a constructed filter finds its keys. Its
  fingerprints are an array with a 32-bit length.\<close>

definition fuse_law :: "fuse_ops \<Rightarrow> bool" where
  "fuse_law ops \<longleftrightarrow> (\<forall>keys b. fu_new ops keys = Some b \<longrightarrow>
     length (bf_fingerprints b) < 2 ^ 32 \<and> (\<forall>key \<in> set keys. fu_contains ops b key))"

lemma BuildFilter_ok:
  assumes "BuildFilter ops sz keys meta = Inr f" and "length (mt_desc meta) \<le> maxDesc" and "length keys < 2 ^ 61" and "fuse_law ops"
  shows "filter_ok f \<and> (\<forall>key \<in> set keys. Contains ops f key = Some True)
    \<and> (mt_structure (fi_meta f) = StructureSortedU64 \<longrightarrow> (\<forall>key. Contains ops f key = Some (key \<in> set keys)))"
proof -
  let ?keys = "skip_repeats (sort keys)"
  have n: "length ?keys < 2 ^ 61"
  proof -
    have "length ?keys = card (set keys)" by (simp add: skip_repeats_sort)
    then show ?thesis using card_length [of keys] assms(3) by simp
  qed
  define mt where "mt = (if mt_structure meta = 0
      then meta\<lparr>mt_structure := (if length ?keys \<le> autoStructureMax then StructureSortedU64 else StructureFuse8)\<rparr> else meta)"
  define g where "g = \<lparr>fi_meta = mt, fi_count = word_of_nat (length ?keys), fi_fuse = None, fi_sorted = [], fi_bloom = None\<rparr>"
  have ne: "\<not> keys = []" using assms(1) by (auto simp: BuildFilter_def)
  have desc: "length (mt_desc mt) \<le> maxDesc" using assms(2) by (simp add: mt_def)
  have b: "BuildFilter ops sz keys meta = (if mt_structure mt = StructureSortedU64 then Inr (g\<lparr>fi_sorted := ?keys\<rparr>)
      else if mt_structure mt = StructureBloom then
        (case newBloom (sz_probes sz) ?keys (if mt_bits mt = 0 then BloomBits (sz_bits sz) (length ?keys) else mt_bits mt) of
           Inl e \<Rightarrow> Inl e | Inr b \<Rightarrow> Inr (g\<lparr>fi_bloom := Some b\<rparr>))
      else if mt_structure mt = StructureFuse8 then
        (case fu_new ops ?keys of None \<Rightarrow> Inl FuseBuild | Some fuse \<Rightarrow> Inr (g\<lparr>fi_fuse := Some fuse\<rparr>))
      else Inl UnknownStructure)"
    by (simp only: BuildFilter_def Let_def if_not_P [OF ne] mt_def [symmetric] g_def [symmetric])
  consider "mt_structure mt = StructureSortedU64" "f = g\<lparr>fi_sorted := ?keys\<rparr>"
    | raw m x where "mt_structure mt = StructureBloom" "newBloom raw ?keys m = Inr x" "f = g\<lparr>fi_bloom := Some x\<rparr>"
    | x where "mt_structure mt = StructureFuse8" "fu_new ops ?keys = Some x" "f = g\<lparr>fi_fuse := Some x\<rparr>"
    using assms(1) b by (auto split: if_splits sum.splits option.splits)
  then show ?thesis
  proof cases
    case 1
    then show ?thesis using desc n
      by (simp add: filter_ok_def Contains_def g_def sorted_contains_iff sorted_keys)
  next
    case 2
    then show ?thesis using desc newBloom_ok [OF 2(2)]
      by (simp add: filter_ok_def Contains_def g_def sorted_keys StructureSortedU64_def StructureBloom_def StructureFuse8_def)
  next
    case 3
    then show ?thesis using desc assms(4)
      by (simp add: filter_ok_def Contains_def g_def fuse_law_def sorted_keys StructureSortedU64_def StructureBloom_def StructureFuse8_def)
  qed
qed

section \<open>Properties\<close>

text \<open>C10: Whatever structure a filter is built with, it can be written and read back unchanged (the
  requested bloom size is not part of the file), and a reader of the file finds every key that was
  put in; with sorted keys it finds no other.\<close>

theorem published_filter_finds_keys:
  assumes "BuildFilter ops sz keys meta = Inr f" and "length (mt_desc meta) \<le> 8192" and "length keys < 2 ^ 61" and "fuse_law ops"
  shows "\<exists>b f'. Encode f = Some (Inr b) \<and> DecodeFile b = Some (Inr f') \<and> f' = f\<lparr>fi_meta := (fi_meta f)\<lparr>mt_bits := 0\<rparr>\<rparr>
    \<and> (\<forall>key \<in> set keys. Contains ops f' key = Some True)
    \<and> (mt_structure (fi_meta f') = StructureSortedU64 \<longrightarrow> (\<forall>key. Contains ops f' key = Some (key \<in> set keys)))"
proof -
  have ok: "filter_ok f" "\<forall>key \<in> set keys. Contains ops f key = Some True"
    "mt_structure (fi_meta f) = StructureSortedU64 \<longrightarrow> (\<forall>key. Contains ops f key = Some (key \<in> set keys))"
    using BuildFilter_ok assms by (auto simp: maxDesc_def)
  have "Contains ops (f\<lparr>fi_meta := (fi_meta f)\<lparr>mt_bits := 0\<rparr>\<rparr>) key = Contains ops f key" for key by (simp add: Contains_def)
  then show ?thesis using Decode_Encode [OF ok(1)] ok(2,3) by auto
qed

definition demo_meta :: "Structure \<Rightarrow> Meta" where
  "demo_meta s = \<lparr>mt_structure = s, mt_blinded = False, mt_chain = 5, mt_kind = 2, mt_epoch = -1, mt_to = 9, mt_bits = 64, mt_desc = []\<rparr>"

definition no_fuse :: fuse_ops where
  "no_fuse = \<lparr>fu_new = (\<lambda>_. None), fu_contains = (\<lambda>_ _. False)\<rparr>"

definition demo_sizing :: sizing where
  "demo_sizing = \<lparr>sz_bits = (\<lambda>_. 64), sz_probes = (\<lambda>_ _. 3)\<rparr>"

theorem published_filter_finds_keys_witness:
  "\<exists>f b f'. BuildFilter no_fuse demo_sizing [7, 3, 7] (demo_meta StructureBloom) = Inr f \<and> Encode f = Some (Inr b)
    \<and> DecodeFile b = Some (Inr f') \<and> Contains no_fuse f' 3 = Some True"
proof -
  have "\<exists>f. BuildFilter no_fuse demo_sizing (x # xs) (demo_meta StructureBloom) = Inr f" for x xs
    by (simp add: BuildFilter_def Let_def demo_meta_def StructureBloom_def StructureSortedU64_def newBloom_def maxBloomBits_def)
  then obtain f where f: "BuildFilter no_fuse demo_sizing [7, 3, 7] (demo_meta StructureBloom) = Inr f" by blast
  have "fuse_law no_fuse" by (simp add: fuse_law_def no_fuse_def)
  moreover have "length (mt_desc (demo_meta StructureBloom)) \<le> 8192" by (simp add: demo_meta_def)
  ultimately obtain b f' where "Encode f = Some (Inr b)" "DecodeFile b = Some (Inr f')"
      "\<forall>key \<in> set [7, 3, 7]. Contains no_fuse f' key = Some True"
    using published_filter_finds_keys [OF f] by auto
  then show ?thesis using f by (metis list.set_intros(1,2))
qed

text \<open>C40: Reading a file panics in exactly one case, however the file was made: it is a file of sorted
  keys, complete up to the count, that claims at least \<open>2 ^ 61\<close> keys, and the product of the claim
  with 8 passes the length check because it wraps. No other index, bound or integer read is out of
  range. The smallest such file has 42 bytes.\<close>

theorem DecodeFile_panics_on_wrap:
  "(DecodeFile b = None \<longleftrightarrow>
      34 \<le> length b \<and> take 4 b = magic \<and> b ! 4 = 1 \<and> b ! 6 = StructureSortedU64
      \<and> (let descLen = be_nat (take 2 (drop 32 b)); claim = be_nat (take 8 (drop (34 + descLen) b))
         in 42 + descLen \<le> length b \<and> 2 ^ 61 \<le> claim \<and> (length b - (42 + descLen)) mod 2 ^ 64 = (claim * 8) mod 2 ^ 64))
   \<and> DecodeFile (header_bytes (demo_meta StructureSortedU64) @ be_bytes 8 (2 ^ 61 :: u64)) = None
   \<and> length (header_bytes (demo_meta StructureSortedU64) @ be_bytes 8 (2 ^ 61 :: u64)) = 42"
proof (intro conjI)
  let ?mt = "demo_meta StructureSortedU64" and ?c = "be_bytes 8 (2 ^ 61 :: u64)"
  have d: "length (mt_desc ?mt) \<le> maxDesc" "mt_desc ?mt = []" "mt_structure ?mt = StructureSortedU64" by (simp_all add: demo_meta_def)
  show l: "length (header_bytes ?mt @ ?c) = 42" by (simp add: length_header d)
  have "read_sorted (2 ^ 61) [] = None" by (simp add: read_sorted_eq)
  then show "DecodeFile (header_bytes ?mt @ ?c) = None"
    using header_fields [OF d(1), of ?c] l d(2,3) by (simp add: DecodeFile_eq Let_def of_be_be_bytes)
  have cnt: "unat (of_be (take 8 bs) :: u64) = be_nat (take 8 bs)" for bs
    by (rule unat_of_be [where n = 8]) simp_all
  have wrap: "word_of_nat x = (of_be (take 8 bs) :: u64) * 8 \<longleftrightarrow> x mod 2 ^ 64 = (be_nat (take 8 bs) * 8) mod 2 ^ 64" for x bs
    by (simp add: of_be_def word_unat_eq_iff unat_word_ariths unat_of_nat take_bit_eq_mod mod_mult_left_eq)
  show "DecodeFile b = None \<longleftrightarrow>
      34 \<le> length b \<and> take 4 b = magic \<and> b ! 4 = 1 \<and> b ! 6 = StructureSortedU64
      \<and> (let descLen = be_nat (take 2 (drop 32 b)); claim = be_nat (take 8 (drop (34 + descLen) b))
         in 42 + descLen \<le> length b \<and> 2 ^ 61 \<le> claim \<and> (length b - (42 + descLen)) mod 2 ^ 64 = (claim * 8) mod 2 ^ 64)"
  proof (cases "34 \<le> length b")
    case True
    show ?thesis
      unfolding DecodeFile_None [OF True] read_sorted_panics cnt wrap length_drop Let_def
      by (simp only: True simp_thms add.commute [of _ 34] add.commute [of _ 42]) blast
  qed (simp add: DecodeFile_eq)
qed

theorem DecodeFile_panics_on_wrap_witness:
  "DecodeFile (header_bytes (demo_meta StructureBloom) @ be_bytes 8 (2 ^ 61 :: u64)) \<noteq> None"
  using DecodeFile_panics_on_wrap [of "header_bytes (demo_meta StructureBloom) @ be_bytes 8 (2 ^ 61 :: u64)"]
  by (simp add: header_bytes_def magic_def ascii_def demo_meta_def nth_append StructureSortedU64_def StructureBloom_def)

text \<open>The interoperable address of a contract is canonical: two chains and addresses have the
  same encoding only if they are the same, and the chain reference starts with a zero byte only for
  chain 0.\<close>

theorem Interop7930_canonical:
  "(Interop7930 c a = Interop7930 c' a' \<longleftrightarrow> c = c' \<and> a = a') \<and> (hd (chain_ref c) = 0 \<longleftrightarrow> c = 0)"
proof
  show "Interop7930 c a = Interop7930 c' a' \<longleftrightarrow> c = c' \<and> a = a'"
  proof
    assume e: "Interop7930 c a = Interop7930 c' a'"
    have n: "length (chain_ref c) \<le> 8" "length (chain_ref c') \<le> 8" by (rule chain_ref_props(2))+
    have "(word_of_nat (length (chain_ref c)) :: byte) = word_of_nat (length (chain_ref c'))" using e by (simp add: Interop7930_def)
    then have "length (chain_ref c) = length (chain_ref c')" using n by (simp add: word_of_nat_eq_iff take_bit_nat_eq_self)
    then show "c = c' \<and> a = a'" using e by (simp add: Interop7930_def chain_ref_inject)
  qed simp
  let ?r = "dropWhile (\<lambda>b. b = 0) (be_bytes 8 c)"
  show "hd (chain_ref c) = 0 \<longleftrightarrow> c = 0"
  proof (cases "?r = []")
    case True
    then have "unat c = 0" using chain_ref_props(1) [of c] by (simp add: chain_ref_eq be_nat_Cons)
    then show ?thesis using True by (simp add: chain_ref_eq word_unat_eq_iff)
  next
    case False
    then have "hd ?r \<noteq> 0" using hd_dropWhile by blast
    moreover have "c \<noteq> 0" using False by (auto simp: be_bytes_def)
    ultimately show ?thesis using False by (simp add: chain_ref_eq)
  qed
qed

end
