(* ===== verification/FilterCache.thy ===== *)
theory FilterCache
  imports HintFilter
begin

text \<open>
  The index filter and its cache: \<open>internal/hintfilter/index.go\<close>. \<open>Get\<close> reads the cache under
  its lock, builds without it and takes the lock again to store, so several builds can be under way
  at once: it is modelled as the steps between lock operations, and a step relation interleaves the
  steps of any number of callers. Time is in seconds. The manifest that travels with a filter is
  derived from it and left out.
\<close>

section \<open>Building from the index\<close>

record FilterSet =
  fs_account :: address
  fs_assets :: "address list"

definition index_keys :: "hashfn \<Rightarrow> u64 \<Rightarrow> FilterSet list \<Rightarrow> u64 list" where
  "index_keys k chainID sets =
     (let sub = Subkey k PublicSecret chainID KindAccountToken
      in concat (map (\<lambda>s. map (PairKey k sub (fs_account s)) (fs_assets s)) sets))"

definition FromIndex ::
  "hashfn \<Rightarrow> fuse_ops \<Rightarrow> sizing \<Rightarrow> u64 \<Rightarrow> FilterSet list \<Rightarrow> u64 \<Rightarrow> (filter_error + Filter \<times> byte list) option" where
  "FromIndex k ops sz chainID sets toBlock =
     (if sets = [] then Some (Inl ErrEmpty)
      else case BuildFilter ops sz (index_keys k chainID sets)
          \<lparr>mt_structure = 0, mt_blinded = False, mt_chain = chainID, mt_kind = KindAccountToken, mt_epoch = -1,
           mt_to = toBlock, mt_bits = 0, mt_desc = []\<rparr> of
        Inl e \<Rightarrow> Some (Inl e)
      | Inr f \<Rightarrow> (case Encode f of None \<Rightarrow> None | Some (Inl e) \<Rightarrow> Some (Inl e) | Some (Inr enc) \<Rightarrow> Some (Inr (f, enc))))"

section \<open>The cache\<close>

record Cache =
  cc_chain :: u64
  cc_min_interval :: nat
  cc_static :: bool
  cc_filter :: "(Filter \<times> byte list) option"
  cc_built_at :: nat
  cc_built_to :: u64

definition NewStatic :: "Filter \<Rightarrow> byte list \<Rightarrow> Cache" where
  "NewStatic f enc = \<lparr>cc_chain = 0, cc_min_interval = 0, cc_static = True, cc_filter = Some (f, enc), cc_built_at = 0, cc_built_to = 0\<rparr>"

definition NewCache :: "u64 \<Rightarrow> Cache" where
  "NewCache chainID = \<lparr>cc_chain = chainID, cc_min_interval = 300, cc_static = False, cc_filter = None, cc_built_at = 0, cc_built_to = 0\<rparr>"

datatype get_start = Serve "Filter \<times> byte list" | Fail | Rebuild u64

text \<open>Up to the build: \<open>cov\<close> is the end of the coverage, \<open>None\<close> when the query failed.\<close>

definition get_begin :: "Cache \<Rightarrow> u64 option \<Rightarrow> nat \<Rightarrow> get_start" where
  "get_begin c cov now =
     (if cc_static c then (case cc_filter c of Some r \<Rightarrow> Serve r | None \<Rightarrow> Fail)
      else case cov of
        None \<Rightarrow> (case cc_filter c of Some r \<Rightarrow> Serve r | None \<Rightarrow> Fail)
      | Some to \<Rightarrow>
          (case cc_filter c of None \<Rightarrow> Rebuild to
           | Some r \<Rightarrow> if cc_built_to c \<ge> to \<or> int now - int (cc_built_at c) < int (cc_min_interval c) then Serve r else Rebuild to))"

definition get_finish :: "u64 \<Rightarrow> Filter \<times> byte list \<Rightarrow> nat \<Rightarrow> Cache \<Rightarrow> Cache" where
  "get_finish to r now c =
     (if cc_filter c = None \<or> to \<ge> cc_built_to c then c\<lparr>cc_filter := Some r, cc_built_at := now, cc_built_to := to\<rparr> else c)"

text \<open>The caches reached while callers run \<open>Get\<close> at the same time; the multiset holds the coverage
  each build under way was started for.\<close>

inductive cache_step ::
  "hashfn \<Rightarrow> fuse_ops \<Rightarrow> sizing \<Rightarrow> Cache \<times> u64 multiset \<Rightarrow> Cache \<times> u64 multiset \<Rightarrow> bool" for k ops sz where
  start: "get_begin c cov now = Rebuild to \<Longrightarrow> cache_step k ops sz (c, P) (c, add_mset to P)"
| abandon: "to \<in># P \<Longrightarrow> cache_step k ops sz (c, P) (c, P - {#to#})"
| finish: "to \<in># P \<Longrightarrow> FromIndex k ops sz (cc_chain c) sets to = Some (Inr r)
    \<Longrightarrow> cache_step k ops sz (c, P) (get_finish to r now c, P - {#to#})"

section \<open>What is served\<close>

definition covers :: "hashfn \<Rightarrow> fuse_ops \<Rightarrow> u64 \<Rightarrow> FilterSet list \<Rightarrow> byte list \<Rightarrow> bool" where
  "covers k ops chainID sets enc \<longleftrightarrow> (\<exists>f'. DecodeFile enc = Some (Inr f') \<and> (\<forall>s \<in> set sets. \<forall>a \<in> set (fs_assets s).
     Contains ops f' (PairKey k (Subkey k PublicSecret chainID KindAccountToken) (fs_account s) a) = Some True))"

definition cache_inv :: "hashfn \<Rightarrow> fuse_ops \<Rightarrow> sizing \<Rightarrow> Cache \<Rightarrow> bool" where
  "cache_inv k ops sz c \<longleftrightarrow> (\<forall>r. cc_filter c = Some r \<longrightarrow> (\<exists>sets. FromIndex k ops sz (cc_chain c) sets (cc_built_to c) = Some (Inr r)))"

lemma FromIndex_block:
  "FromIndex k ops sz chainID sets to = Some (Inr (f, enc)) \<Longrightarrow> mt_to (fi_meta f) = to"
  by (auto simp: FromIndex_def BuildFilter_def Let_def split: if_splits sum.splits option.splits)

lemma FromIndex_covers:
  assumes "FromIndex k ops sz chainID sets to = Some (Inr (f, enc))" and "fuse_law ops" and "length (index_keys k chainID sets) < 2 ^ 61"
  shows "covers k ops chainID sets enc"
proof -
  let ?meta = "\<lparr>mt_structure = 0, mt_blinded = False, mt_chain = chainID, mt_kind = KindAccountToken, mt_epoch = -1,
           mt_to = to, mt_bits = 0, mt_desc = []\<rparr>"
  have b: "BuildFilter ops sz (index_keys k chainID sets) ?meta = Inr f" and e: "Encode f = Some (Inr enc)"
    using assms(1) by (auto simp: FromIndex_def split: if_splits sum.splits option.splits)
  have ok: "filter_ok f" "\<forall>key \<in> set (index_keys k chainID sets). Contains ops f key = Some True"
    using BuildFilter_ok [OF b _ assms(3,2)] by auto
  have "Contains ops (f\<lparr>fi_meta := (fi_meta f)\<lparr>mt_bits := 0\<rparr>\<rparr>) key = Contains ops f key" for key by (simp add: Contains_def)
  then show ?thesis
    using Decode_Encode [OF ok(1)] e ok(2) by (auto simp: covers_def index_keys_def Let_def)
qed

lemma step_keeps_cache:
  assumes "cache_step k ops sz (c, P) (c', P')"
  shows "cc_chain c' = cc_chain c \<and> (cc_filter c \<noteq> None \<longrightarrow> cc_filter c' \<noteq> None \<and> cc_built_to c \<le> cc_built_to c')
    \<and> (cache_inv k ops sz c \<longrightarrow> cache_inv k ops sz c')"
  using assms
proof cases
  case (finish to sets r now)
  have "cache_inv k ops sz (c\<lparr>cc_filter := Some r, cc_built_at := now, cc_built_to := to\<rparr>)"
    using finish(4) unfolding cache_inv_def by (intro allI impI exI [of _ sets]) simp
  then show ?thesis using finish by (auto simp: get_finish_def)
qed simp_all

text \<open>However the builds of concurrent callers overlap, the filter that is served never covers
  less than one served before, and it is always the filter of some answer of the index for the
  block it names: every pair of that answer is found by whoever reads the file.\<close>

theorem cache_never_goes_back:
  assumes "(cache_step k ops sz)\<^sup>*\<^sup>* (c, P) (c', P')" and "cache_inv k ops sz c" and "cc_filter c = Some r" and "fuse_law ops"
  shows "\<exists>f enc sets. cc_filter c' = Some (f, enc) \<and> cc_built_to c \<le> cc_built_to c' \<and> mt_to (fi_meta f) = cc_built_to c'
    \<and> FromIndex k ops sz (cc_chain c) sets (cc_built_to c') = Some (Inr (f, enc))
    \<and> (length (index_keys k (cc_chain c) sets) < 2 ^ 61 \<longrightarrow> covers k ops (cc_chain c) sets enc)"
proof -
  have "cc_chain c' = cc_chain c \<and> cc_filter c' \<noteq> None \<and> cc_built_to c \<le> cc_built_to c' \<and> cache_inv k ops sz c'"
    using assms(1)
  proof (induction rule: rtranclp_induct2)
    case (step c1 P1 c2 P2)
    then show ?case using step_keeps_cache [OF step.hyps(2)] by auto
  qed (use assms(2,3) in simp)
  then obtain f enc sets where "cc_chain c' = cc_chain c" "cc_filter c' = Some (f, enc)" "cc_built_to c \<le> cc_built_to c'"
      "FromIndex k ops sz (cc_chain c) sets (cc_built_to c') = Some (Inr (f, enc))"
    unfolding cache_inv_def by (metis not_None_eq prod.collapse)
  then show ?thesis
    using FromIndex_covers [of k ops sz "cc_chain c" sets "cc_built_to c'" f enc] FromIndex_block assms(4)
    by (intro exI [of _ f] exI [of _ enc] exI [of _ sets]) simp
qed

definition demo_sets :: "FilterSet list" where
  "demo_sets = [\<lparr>fs_account = 7, fs_assets = [9]\<rparr>]"

lemma demo_FromIndex: "\<exists>f enc. FromIndex (\<lambda>_. 3) no_fuse demo_sizing 5 demo_sets 9 = Some (Inr (f, enc))"
proof -
  have n: "length (skip_repeats (sort [x])) = 1" for x :: u64 by simp
  have "\<exists>f. BuildFilter no_fuse demo_sizing [x] \<lparr>mt_structure = 0, mt_blinded = False, mt_chain = 5, mt_kind = KindAccountToken,
      mt_epoch = -1, mt_to = 9, mt_bits = 0, mt_desc = []\<rparr> = Inr f" for x
    by (simp add: BuildFilter_def Let_def autoStructureMax_def)
  then obtain f where f: "BuildFilter no_fuse demo_sizing (index_keys (\<lambda>_. 3) 5 demo_sets)
      \<lparr>mt_structure = 0, mt_blinded = False, mt_chain = 5, mt_kind = KindAccountToken, mt_epoch = -1, mt_to = 9,
       mt_bits = 0, mt_desc = []\<rparr> = Inr f"
    by (auto simp: index_keys_def demo_sets_def Let_def)
  have "fuse_law no_fuse" by (simp add: fuse_law_def no_fuse_def)
  then have "filter_ok f" using BuildFilter_ok [OF f] by (simp add: index_keys_def demo_sets_def Let_def)
  then show ?thesis using f Decode_Encode [of f] by (auto simp: FromIndex_def demo_sets_def)
qed

theorem cache_never_goes_back_witness:
  "\<exists>c r f enc. cc_filter c = Some r \<and> cc_built_to c = 9 \<and> cc_filter (get_finish 8 r 4 c) = Some (f, enc) \<and> mt_to (fi_meta f) = 9"
proof -
  obtain f enc where r: "FromIndex (\<lambda>_. 3) no_fuse demo_sizing 5 demo_sets 9 = Some (Inr (f, enc))" using demo_FromIndex by blast
  define c where "c = (NewCache 5)\<lparr>cc_filter := Some (f, enc), cc_built_to := 9\<rparr>"
  have i: "cache_inv (\<lambda>_. 3) no_fuse demo_sizing c" unfolding cache_inv_def c_def
    using r by (intro allI impI exI [of _ demo_sets]) (simp add: NewCache_def)
  have same: "get_finish 8 (f, enc) 4 c = c" by (simp add: get_finish_def c_def)
  have "fuse_law no_fuse" by (simp add: fuse_law_def no_fuse_def)
  from cache_never_goes_back [OF rtranclp.rtrancl_refl i _ this] show ?thesis
    using same by (intro exI [of _ c] exI [of _ "(f, enc)"]) (auto simp: c_def)
qed

end
