(* ===== verification/Publisher.thy ===== *)
theory Publisher
  imports EpochStore FilterCache
begin

text \<open>
  The publisher of commitments: \<open>internal/hintreg/publisher.go\<close>, the templates of
  \<open>internal/snapshot/snapshot.go\<close> and the two ticks of \<open>cmd/evmscand\<close> that drive it. The registry
  contract, the submitter of transactions and the clock are parameters: each call to them is
  numbered and may answer anything at all, failures included. What the publisher does is a function
  on a state of the database, the number of calls so far and the transactions that were accepted
  for submission, with errors as values.
\<close>

section \<open>The registry and the submitter\<close>

datatype reg_status = RegNone | RegProposed | RegChallenged | RegFinalized | RegRejected

record RegistryEpoch =
  re_chain :: nat
  re_from :: nat
  re_to :: nat
  re_root :: hash
  re_coverage_root :: hash
  re_uri :: string
  re_publisher :: address
  re_challenger :: address
  re_bond :: nat
  re_published_at :: nat
  re_deadline :: nat
  re_status :: reg_status
  re_assertion :: hash

record Mode =
  mo_oracle :: address
  mo_currency :: address
  mo_arbiter :: address
  mo_publisher_bond :: nat
  mo_asset_bond :: nat
  mo_window :: nat

definition OracleMode :: "Mode \<Rightarrow> bool" where
  "OracleMode m \<longleftrightarrow> mo_oracle m \<noteq> 0"

record coverageClaim =
  cl_key :: hash
  cl_from :: nat
  cl_to :: nat
  cl_proof :: "hash list"

text \<open>The calls the publisher packs, before ABI encoding.\<close>

datatype reg_call =
    PublishIndex nat nat nat hash hash string
  | Approve address nat
  | FinalizeIndex int
  | ClaimCoverage int "coverageClaim list"

record reg_log =
  rl_address :: address
  rl_topics :: "hash list"
  rl_data :: "byte list"

record receipt =
  rc_success :: bool
  rc_tx :: hash
  rc_logs :: "reg_log list"

text \<open>\<open>rv_published\<close> and \<open>rv_rewarded\<close> are the event identifiers of the ABI; \<open>rv_reward_of\<close> unpacks the
  four values of a reward event and answers \<open>None\<close> when they are not the expected ones.\<close>

record reg_env =
  rv_address :: address
  rv_sender :: address
  rv_published :: "hash option"
  rv_rewarded :: "hash option"
  rv_reward_of :: "byte list \<Rightarrow> nat option"
  rv_mode :: "nat \<Rightarrow> string + Mode"
  rv_epoch :: "nat \<Rightarrow> int \<Rightarrow> string + RegistryEpoch"
  rv_claimable :: "nat \<Rightarrow> hash \<Rightarrow> nat \<Rightarrow> nat \<Rightarrow> string + nat"
  rv_allowance :: "nat \<Rightarrow> address \<Rightarrow> address \<Rightarrow> address \<Rightarrow> string + nat"
  rv_simulate :: "nat \<Rightarrow> address \<Rightarrow> int \<Rightarrow> bool"
  rv_submit :: "nat \<Rightarrow> address \<Rightarrow> nat \<Rightarrow> reg_call \<Rightarrow> string + hash"
  rv_wait :: "nat \<Rightarrow> hash \<Rightarrow> string + receipt"
  rv_now :: "nat \<Rightarrow> int"
  rv_dbnow :: "nat \<Rightarrow> int"
  rv_done :: "nat \<Rightarrow> bool"

datatype pub_error = ErrEmptyIndex | ErrUnchanged | ErrUntrusted trust | ErrUnfunded
  | PubStore store_error | PubConflict | PubFilter filter_error | PubPanic
  | PubRegistry string | PubStatus epoch_status | PubReverted | PubNoLog | PubProof merkle_error

record 'a pub_state =
  ps_db :: 'a
  ps_calls :: nat
  ps_sent :: "(address \<times> nat \<times> reg_call) list"

record PublisherOpts =
  pu_stale :: int
  pu_slack :: int
  pu_min_reward :: "int option"

section \<open>Sequencing\<close>

type_synonym ('s, 'b) pub = "'s pub_state \<Rightarrow> (pub_error + 'b) \<times> 's pub_state"

definition ret :: "'b \<Rightarrow> ('s, 'b) pub" where
  "ret x s = (Inr x, s)"

definition throw :: "pub_error \<Rightarrow> ('s, 'b) pub" where
  "throw e s = (Inl e, s)"

definition bind :: "('s, 'b) pub \<Rightarrow> ('b \<Rightarrow> ('s, 'c) pub) \<Rightarrow> ('s, 'c) pub" where
  "bind m f s = (case m s of (Inl e, s') \<Rightarrow> (Inl e, s') | (Inr x, s') \<Rightarrow> f x s')"

text \<open>The outcome of a call whose error does not end the caller.\<close>

definition try_pub :: "('s, 'b) pub \<Rightarrow> ('s, pub_error + 'b) pub" where
  "try_pub m s = (case m s of (r, s') \<Rightarrow> (Inr r, s'))"

definition ask :: "(nat \<Rightarrow> 'b) \<Rightarrow> ('s, 'b) pub" where
  "ask g s = (Inr (g (ps_calls s)), s\<lparr>ps_calls := ps_calls s + 1\<rparr>)"

definition call :: "(nat \<Rightarrow> string + 'b) \<Rightarrow> ('s, 'b) pub" where
  "call g = bind (ask g) (\<lambda>r. case r of Inl e \<Rightarrow> throw (PubRegistry e) | Inr x \<Rightarrow> ret x)"

definition query :: "('s \<Rightarrow> 'b) \<Rightarrow> ('s, 'b) pub" where
  "query f s = (Inr (f (ps_db s)), s)"

definition store :: "('s \<Rightarrow> 's) \<Rightarrow> ('s, unit) pub" where
  "store f s = (Inr (), s\<lparr>ps_db := f (ps_db s)\<rparr>)"

definition submit :: "reg_env \<Rightarrow> address \<Rightarrow> nat \<Rightarrow> reg_call \<Rightarrow> ('s, hash) pub" where
  "submit env to value data =
     bind (call (\<lambda>n. rv_submit env n to value data))
       (\<lambda>ref s. (Inr ref, s\<lparr>ps_sent := ps_sent s @ [(to, value, data)]\<rparr>))"

primrec each :: "('x \<Rightarrow> 'b \<Rightarrow> ('s, 'b) pub) \<Rightarrow> 'x list \<Rightarrow> 'b \<Rightarrow> ('s, 'b) pub" where
  "each f [] acc = ret acc"
| "each f (x # xs) acc = bind (f x acc) (each f xs)"

section \<open>Building\<close>

definition AssetKey :: "hashfn \<Rightarrow> nat \<Rightarrow> address \<Rightarrow> hash" where
  "AssetKey k chainID token = k (be_bytes 8 (word_of_nat chainID :: u64) @ addr_bytes token)"

definition cursor_range :: "Cursor \<Rightarrow> nat \<Rightarrow> nat \<times> nat" where
  "cursor_range c to =
     (let lo = (if cu_done c then cu_floor c else (cu_next c + 1) mod 2 ^ 64)
      in (lo, min (cu_tail c) to))"

definition coverage_entry :: "hashfn \<Rightarrow> nat \<Rightarrow> nat \<Rightarrow> address \<Rightarrow> nat \<Rightarrow> nat \<Rightarrow> EpochCoverage" where
  "coverage_entry k chainID i addr lo hi =
     (let key = AssetKey k chainID addr
      in \<lparr>cv_index = i, cv_asset = addr, cv_key = key, cv_from = lo, cv_to = hi,
          cv_leaf = CoverageLeaf k key (word_of_nat lo) (word_of_nat hi)\<rparr>)"

definition CoverageFromCursors :: "hashfn \<Rightarrow> nat \<Rightarrow> (address \<times> Cursor) list \<Rightarrow> nat \<Rightarrow> EpochCoverage list" where
  "CoverageFromCursors k chainID cursors to =
     fold (\<lambda>(addr, c) out.
        let (lo, hi) = cursor_range c to
        in if hi = 0 \<or> lo > hi then out else out @ [coverage_entry k chainID (length out) addr lo hi])
       cursors []"

definition coverageRoot :: "hashfn \<Rightarrow> EpochCoverage list \<Rightarrow> hash" where
  "coverageRoot k coverage = Root (Build k (map cv_leaf coverage))"

definition expectedReward :: "reg_env \<Rightarrow> EpochCoverage list \<Rightarrow> ('s, nat) pub" where
  "expectedReward env coverage =
     each (\<lambda>c total. bind (call (\<lambda>n. rv_claimable env n (cv_key c) (cv_from c) (cv_to c))) (\<lambda>amt. ret (total + amt)))
       coverage 0"

definition checkTrusted :: "nat \<Rightarrow> 'a epoch_db_scheme \<Rightarrow> pub_error option" where
  "checkTrusted chainID db =
     (case GetChainProfile chainID db of
        Inl ErrNotFound \<Rightarrow> None
      | Inl e \<Rightarrow> Some (PubStore e)
      | Inr prof \<Rightarrow> if ch_trust prof = TrustVerified then None else Some (ErrUntrusted (ch_trust prof)))"

definition indexFilterDigest ::
  "hashfn \<Rightarrow> fuse_ops \<Rightarrow> sizing \<Rightarrow> nat \<Rightarrow> AccountAssetSet list \<Rightarrow> nat \<Rightarrow> pub_error + hash" where
  "indexFilterDigest k ops sz chainID sets toBlock =
     (case FromIndex k ops sz (word_of_nat chainID)
         (map (\<lambda>s. \<lparr>fs_account = set_account s, fs_assets = set_assets s\<rparr>) sets) (word_of_nat toBlock) of
        None \<Rightarrow> Inl PubPanic
      | Some (Inl e) \<Rightarrow> (if e = ErrEmpty then Inr 0 else Inl (PubFilter e))
      | Some (Inr (f, enc)) \<Rightarrow> Inr (k enc))"

text \<open>\<open>strings.NewReplacer\<close> looks for its patterns at each position in turn and goes on after what
  it replaced.\<close>

fun URI :: "string \<Rightarrow> nat \<Rightarrow> nat \<Rightarrow> string" where
  "URI [] chainID epochID = []"
| "URI (c # cs) chainID epochID =
     (if take 4 (c # cs) = ''{id}'' then dec_string epochID @ URI (drop 3 cs) chainID epochID
      else if take 7 (c # cs) = ''{chain}'' then dec_string chainID @ URI (drop 6 cs) chainID epochID
      else c # URI cs chainID epochID)"

definition epoch_leaf_rows :: "hashfn \<Rightarrow> nat \<Rightarrow> AccountAssetSet list \<Rightarrow> EpochLeaf list" where
  "epoch_leaf_rows k chainID sets =
     map (\<lambda>(i, s). let ah = AssetsHash k (set_assets s)
        in \<lparr>el_index = i, el_account = set_account s, el_assets_hash = ah,
            el_leaf = LeafHash k (set_account s) (word_of_nat chainID) ah, el_assets = set_assets s\<rparr>)
       (enumerate 0 sets)"

definition lower_from :: "EpochCoverage list \<Rightarrow> nat \<Rightarrow> nat" where
  "lower_from coverage from = fold (\<lambda>c from. if cv_from c < from then cv_from c else from) coverage from"

definition new_epoch ::
  "hashfn \<Rightarrow> nat \<Rightarrow> string \<Rightarrow> nat \<Rightarrow> nat \<Rightarrow> EpochLeaf list \<Rightarrow> EpochCoverage list \<Rightarrow> hash \<Rightarrow> nat \<Rightarrow> Epoch" where
  "new_epoch k chainID uri from to rows coverage filterHash expected =
     \<lparr>ep_chain = chainID, ep_from = lower_from coverage from, ep_to = to,
      ep_root = Root (Build k (map el_leaf rows)), ep_coverage_root = coverageRoot k coverage,
      ep_leaf_count = length rows, ep_uri = uri, ep_onchain = None, ep_tx = None, ep_status = EpochBuilt,
      ep_ref = None, ep_submitted_at = None, ep_expected = dec_string expected, ep_claim_tx = None,
      ep_claimed_at = None, ep_reward = [], ep_filter = filterHash\<rparr>"

text \<open>The end of \<open>Build\<close>: the row gets its identifier, and the template of the pointer is expanded with it.\<close>

definition record_epoch :: "Epoch \<Rightarrow> EpochLeaf list \<Rightarrow> EpochCoverage list \<Rightarrow> ('a epoch_db_scheme, nat \<times> Epoch) pub" where
  "record_epoch e rows coverage =
     bind (\<lambda>s. case CreateEpoch e rows coverage (ps_db s) of (i, db) \<Rightarrow> (Inr i, s\<lparr>ps_db := db\<rparr>)) (\<lambda>created.
     case created of None \<Rightarrow> throw PubConflict | Some eid \<Rightarrow>
     let expanded = URI (ep_uri e) (ep_chain e) eid
     in if expanded \<noteq> ep_uri e
        then bind (store (SetEpochURI eid expanded)) (\<lambda>_. ret (eid, e\<lparr>ep_uri := expanded\<rparr>))
        else ret (eid, e))"

definition BuildEpoch ::
  "hashfn \<Rightarrow> fuse_ops \<Rightarrow> sizing \<Rightarrow> reg_env \<Rightarrow> PublisherOpts \<Rightarrow> nat \<Rightarrow> string \<Rightarrow> bool
   \<Rightarrow> ('a epoch_db_scheme, nat \<times> Epoch) pub" where
  "BuildEpoch k ops sz env opt chainID uri force =
     bind (query (checkTrusted chainID)) (\<lambda>refused.
     case refused of Some e \<Rightarrow> throw e | None \<Rightarrow>
     bind (query (CoverageRange chainID)) (\<lambda>(from, to).
     bind (query (SnapshotIndex chainID to)) (\<lambda>sets.
     if sets = [] then throw ErrEmptyIndex else
     let rows = epoch_leaf_rows k chainID sets;
         root = Root (Build k (map el_leaf rows))
     in case indexFilterDigest k ops sz chainID sets to of Inl e \<Rightarrow> throw e | Inr filterHash \<Rightarrow>
     bind (query (ListCursors chainID)) (\<lambda>cursors.
     let coverage = CoverageFromCursors k chainID cursors to;
         covRoot = coverageRoot k coverage
     in bind (query (LatestCommittedRoots chainID)) (\<lambda>last.
     if \<not> force \<and> last = Some (root, covRoot) then throw ErrUnchanged else
     bind (expectedReward env coverage) (\<lambda>expected.
     if (case pu_min_reward opt of None \<Rightarrow> False | Some m \<Rightarrow> m > 0 \<and> int expected < m) then throw ErrUnfunded
     else record_epoch (new_epoch k chainID uri from to rows coverage filterHash expected) rows coverage))))))"

section \<open>Publishing\<close>

definition ensureBondAllowance :: "reg_env \<Rightarrow> Mode \<Rightarrow> ('s, unit) pub" where
  "ensureBondAllowance env mode =
     bind (call (\<lambda>n. rv_allowance env n (mo_currency mode) (rv_sender env) (rv_address env))) (\<lambda>have.
     if have \<ge> mo_publisher_bond mode then ret ()
     else bind (submit env (mo_currency mode) 0 (Approve (rv_address env) (mo_publisher_bond mode))) (\<lambda>ref.
          bind (call (\<lambda>n. rv_wait env n ref)) (\<lambda>rcpt.
          if \<not> rc_success rcpt then throw PubReverted else ret ())))"

text \<open>\<open>big.Int.Int64\<close> keeps the low 64 bits.\<close>

definition epochIDFromReceipt :: "reg_env \<Rightarrow> receipt \<Rightarrow> int option" where
  "epochIDFromReceipt env r =
     (case rv_published env of None \<Rightarrow> None
      | Some ev \<Rightarrow> map_option (\<lambda>l. sint (ucast (rl_topics l ! 1) :: 64 word))
          (find (\<lambda>l. rl_address l = rv_address env \<and> length (rl_topics l) \<ge> 2 \<and> hd (rl_topics l) = ev) (rc_logs r)))"

definition rewardFromReceipt :: "reg_env \<Rightarrow> receipt \<Rightarrow> nat" where
  "rewardFromReceipt env r =
     (case rv_rewarded env of None \<Rightarrow> 0
      | Some ev \<Rightarrow> fold (\<lambda>l total.
          if rl_address l \<noteq> rv_address env \<or> rl_topics l = [] \<or> hd (rl_topics l) \<noteq> ev then total
          else case rv_reward_of env (rl_data l) of None \<Rightarrow> total | Some reward \<Rightarrow> total + reward) (rc_logs r) 0)"

definition settle :: "reg_env \<Rightarrow> nat \<Rightarrow> hash \<Rightarrow> ('a epoch_db_scheme, unit) pub" where
  "settle env epochID ref =
     bind (call (\<lambda>n. rv_wait env n ref)) (\<lambda>rcpt.
     if \<not> rc_success rcpt
     then bind (store (SetEpochStatus epochID EpochFailed)) (\<lambda>_. throw PubReverted)
     else case epochIDFromReceipt env rcpt of None \<Rightarrow> throw PubNoLog
       | Some onchainID \<Rightarrow>
           bind (store (MarkPublished epochID onchainID (rc_tx rcpt))) (\<lambda>_.
           bind (ask (\<lambda>n. rv_epoch env n onchainID)) (\<lambda>_. ret ())))"

definition publish_call :: "Epoch \<Rightarrow> reg_call" where
  "publish_call e = PublishIndex (ep_chain e) (ep_from e) (ep_to e) (ep_root e) (ep_coverage_root e) (ep_uri e)"

definition Publish :: "reg_env \<Rightarrow> nat \<Rightarrow> ('a epoch_db_scheme, hash) pub" where
  "Publish env epochID =
     bind (query (GetEpoch epochID)) (\<lambda>got.
     case got of Inl err \<Rightarrow> throw (PubStore err) | Inr e \<Rightarrow>
     if ep_status e \<noteq> EpochBuilt then throw (PubStatus (ep_status e)) else
     bind (call (rv_mode env)) (\<lambda>mode.
     bind (if OracleMode mode then bind (ensureBondAllowance env mode) (\<lambda>_. ret 0) else ret (mo_publisher_bond mode)) (\<lambda>value.
     bind (submit env (rv_address env) value (publish_call e)) (\<lambda>ref.
     bind (ask (rv_dbnow env)) (\<lambda>now.
     bind (store (MarkSubmitted epochID ref now)) (\<lambda>_.
     bind (settle env epochID ref) (\<lambda>_. ret ref)))))))"

section \<open>Settling\<close>

definition resume_one :: "reg_env \<Rightarrow> PublisherOpts \<Rightarrow> nat \<times> Epoch \<Rightarrow> nat \<Rightarrow> ('a epoch_db_scheme, nat) pub" where
  "resume_one env opt ie unresolved =
     (case ep_ref (snd ie) of
        None \<Rightarrow> bind (store (SetEpochStatus (fst ie) EpochFailed)) (\<lambda>_. ret unresolved)
      | Some ref \<Rightarrow>
          bind (ask (rv_now env)) (\<lambda>now.
          if pu_stale opt > 0 \<and> (case ep_submitted_at (snd ie) of None \<Rightarrow> False | Some t \<Rightarrow> now - t > pu_stale opt)
          then bind (store (SetEpochStatus (fst ie) EpochFailed)) (\<lambda>_. ret unresolved)
          else bind (try_pub (settle env (fst ie) ref)) (\<lambda>r.
               case r of Inr _ \<Rightarrow> ret unresolved
               | Inl err \<Rightarrow> bind (ask (rv_done env)) (\<lambda>cancelled. if cancelled then throw err else ret (unresolved + 1)))))"

definition ResumePending :: "reg_env \<Rightarrow> PublisherOpts \<Rightarrow> nat \<Rightarrow> ('a epoch_db_scheme, nat) pub" where
  "ResumePending env opt chainID =
     bind (query (PendingSubmissions chainID)) (\<lambda>pending. each (resume_one env opt) pending 0)"

text \<open>What is done with an epoch whose status on-chain allows settling it now.\<close>

definition finalize_now :: "reg_env \<Rightarrow> Mode \<Rightarrow> nat \<Rightarrow> int \<Rightarrow> RegistryEpoch \<Rightarrow> nat \<Rightarrow> ('a epoch_db_scheme, nat) pub" where
  "finalize_now env mode eid onchainID onchain cnt =
     bind (if OracleMode mode then ask (\<lambda>n. rv_simulate env n (rv_sender env) onchainID) else ret True) (\<lambda>ready.
     if \<not> ready then ret cnt else
     bind (submit env (rv_address env) 0 (FinalizeIndex onchainID)) (\<lambda>ref.
     bind (call (\<lambda>n. rv_wait env n ref)) (\<lambda>rcpt.
     if \<not> rc_success rcpt then ret cnt else
     bind (if re_status onchain = RegChallenged
           then bind (call (\<lambda>n. rv_epoch env n onchainID))
             (\<lambda>after. ret (if re_status after = RegRejected then EpochRejected else EpochFinalized))
           else ret EpochFinalized) (\<lambda>status.
     bind (store (SetEpochStatus eid status)) (\<lambda>_.
     ret (if status = EpochRejected then cnt else cnt + 1))))))"

definition seconds :: int where
  "seconds = 10 ^ 9"

definition finalize_one :: "reg_env \<Rightarrow> PublisherOpts \<Rightarrow> Mode \<Rightarrow> nat \<times> Epoch \<Rightarrow> nat \<Rightarrow> ('a epoch_db_scheme, nat) pub" where
  "finalize_one env opt mode ie cnt =
     (let onchainID = the (ep_onchain (snd ie)) in
      bind (call (\<lambda>n. rv_epoch env n onchainID)) (\<lambda>onchain.
      case re_status onchain of
        RegFinalized \<Rightarrow> bind (store (SetEpochStatus (fst ie) EpochFinalized)) (\<lambda>_. ret cnt)
      | RegRejected \<Rightarrow> bind (store (SetEpochStatus (fst ie) EpochRejected)) (\<lambda>_. ret cnt)
      | RegChallenged \<Rightarrow> if \<not> OracleMode mode then ret cnt else finalize_now env mode (fst ie) onchainID onchain cnt
      | RegProposed \<Rightarrow>
          bind (ask (rv_now env)) (\<lambda>now.
          if now < sint (word_of_nat (re_deadline onchain) :: 64 word) * seconds + pu_slack opt then ret cnt
          else finalize_now env mode (fst ie) onchainID onchain cnt)
      | RegNone \<Rightarrow> ret cnt))"

definition FinalizeDue :: "reg_env \<Rightarrow> PublisherOpts \<Rightarrow> nat \<Rightarrow> ('a epoch_db_scheme, nat) pub" where
  "FinalizeDue env opt chainID =
     bind (query (PublishedUnfinalized chainID)) (\<lambda>es.
     if es = [] then ret 0 else
     bind (call (rv_mode env)) (\<lambda>mode. each (finalize_one env opt mode) es 0))"

section \<open>Claiming\<close>

definition claim_coverage :: "reg_env \<Rightarrow> tree \<Rightarrow> nat \<times> EpochCoverage \<Rightarrow> coverageClaim list \<Rightarrow> ('s, coverageClaim list) pub" where
  "claim_coverage env t ic claims =
     bind (call (\<lambda>n. rv_claimable env n (cv_key (snd ic)) (cv_from (snd ic)) (cv_to (snd ic)))) (\<lambda>amt.
     if amt = 0 then ret claims
     else case Proof t (int (fst ic)) of Inl e \<Rightarrow> throw (PubProof e)
       | Inr proof \<Rightarrow> ret (claims @ [\<lparr>cl_key = cv_key (snd ic), cl_from = cv_from (snd ic), cl_to = cv_to (snd ic), cl_proof = proof\<rparr>]))"

definition claim_send :: "reg_env \<Rightarrow> nat \<times> Epoch \<Rightarrow> coverageClaim list \<Rightarrow> nat \<Rightarrow> ('a epoch_db_scheme, nat) pub" where
  "claim_send env ie claims paid =
     (if claims = []
      then bind (ask (rv_dbnow env)) (\<lambda>now. bind (store (MarkClaimed (fst ie) 0 ''0'' now)) (\<lambda>_. ret paid))
      else bind (submit env (rv_address env) 0 (ClaimCoverage (the (ep_onchain (snd ie))) claims)) (\<lambda>ref.
           bind (call (\<lambda>n. rv_wait env n ref)) (\<lambda>rcpt.
           if \<not> rc_success rcpt then ret paid
           else bind (ask (rv_dbnow env)) (\<lambda>now.
                bind (store (MarkClaimed (fst ie) (rc_tx rcpt) (dec_string (rewardFromReceipt env rcpt)) now)) (\<lambda>_.
                ret (paid + 1))))))"

definition claim_one :: "hashfn \<Rightarrow> reg_env \<Rightarrow> nat \<times> Epoch \<Rightarrow> nat \<Rightarrow> ('a epoch_db_scheme, nat) pub" where
  "claim_one k env ie paid =
     bind (query (EpochCoverageOf (fst ie))) (\<lambda>coverage.
     bind (each (claim_coverage env (Build k (map cv_leaf coverage))) (enumerate 0 coverage) []) (\<lambda>claims.
     claim_send env ie claims paid))"

definition ClaimDue :: "hashfn \<Rightarrow> reg_env \<Rightarrow> nat \<Rightarrow> ('a epoch_db_scheme, nat) pub" where
  "ClaimDue k env chainID =
     bind (query (UnclaimedFinalized chainID)) (\<lambda>es. each (claim_one k env) es 0)"

definition EpochProofFor ::
  "hashfn \<Rightarrow> nat \<Rightarrow> address \<Rightarrow> 'a epoch_db_scheme \<Rightarrow> pub_error + EpochLeaf \<times> hash list" where
  "EpochProofFor k epochID account db =
     (case EpochLeafFor epochID account db of Inl e \<Rightarrow> Inl (PubStore e)
      | Inr leaf \<Rightarrow>
          (case Proof (Build k (map el_leaf (EpochLeaves epochID db))) (int (el_index leaf)) of
             Inl e \<Rightarrow> Inl (PubProof e) | Inr proof \<Rightarrow> Inr (leaf, proof)))"

section \<open>The ticks of the daemon\<close>

definition settleTick :: "hashfn \<Rightarrow> reg_env \<Rightarrow> PublisherOpts \<Rightarrow> nat \<Rightarrow> ('a epoch_db_scheme, nat) pub" where
  "settleTick k env opt chainID =
     bind (try_pub (ResumePending env opt chainID)) (\<lambda>r.
     case r of Inl _ \<Rightarrow> ret 1
     | Inr pending \<Rightarrow>
         bind (try_pub (FinalizeDue env opt chainID)) (\<lambda>_.
         bind (try_pub (ClaimDue k env chainID)) (\<lambda>_. ret pending)))"

definition buildTick ::
  "hashfn \<Rightarrow> fuse_ops \<Rightarrow> sizing \<Rightarrow> reg_env \<Rightarrow> PublisherOpts \<Rightarrow> nat \<Rightarrow> string \<Rightarrow> ('a epoch_db_scheme, unit) pub" where
  "buildTick k ops sz env opt chainID uri =
     bind (settleTick k env opt chainID) (\<lambda>pending.
     if pending > 0 then ret () else
     bind (try_pub (BuildEpoch k ops sz env opt chainID uri False)) (\<lambda>r.
     case r of Inl _ \<Rightarrow> ret ()
     | Inr (eid, e) \<Rightarrow> bind (try_pub (Publish env eid)) (\<lambda>_. ret ())))"

end
