(* ===== verification/Lifecycle.thy ===== *)
theory Lifecycle
  imports Publisher
begin

text \<open>
  What the publisher keeps true: an epoch moves only along its life cycle, one \<open>publishIndex\<close>
  transaction is sent for it at most, and every claim it sends carries proofs that the registry
  accepts. A relation on states that holds across every elementary effect holds across a program
  (locale \<open>effect\<close>); the loops read a list of rows once and then change them one by one, so each
  step also says which row it may touch.
\<close>

section \<open>Programs and relations\<close>

definition keeps :: "('s pub_state \<Rightarrow> 's pub_state \<Rightarrow> bool) \<Rightarrow> ('s, 'b) pub \<Rightarrow> bool" where
  "keeps R m \<longleftrightarrow> (\<forall>s. R s (snd (m s)))"

lemma keepsD: "keeps R m \<Longrightarrow> R s (snd (m s))"
  by (simp add: keeps_def)

lemma keepsI: "(\<And>s. R s (snd (m s))) \<Longrightarrow> keeps R m"
  by (simp add: keeps_def)

text \<open>A relation a program may be followed along: reflexive, transitive, and blind to the number of
  calls that were made.\<close>

locale effect =
  fixes R :: "'s pub_state \<Rightarrow> 's pub_state \<Rightarrow> bool"
  assumes R_refl: "R s s"
    and R_trans: "R s t \<Longrightarrow> R t u \<Longrightarrow> R s u"
    and R_calls: "R s (s\<lparr>ps_calls := n\<rparr>)"
begin

lemma keeps_ret: "keeps R (ret x)" and keeps_throw: "keeps R (throw e)" and keeps_query: "keeps R (query f)"
  by (auto simp: keeps_def ret_def throw_def query_def R_refl)

lemma keeps_ask: "keeps R (ask g)"
  by (simp add: keeps_def ask_def R_calls)

lemma keeps_if: "keeps R m \<Longrightarrow> keeps R m' \<Longrightarrow> keeps R (if b then m else m')"
  by simp

lemma keeps_bind:
  assumes m: "keeps R m" and f: "\<And>x. keeps R (f x)"
  shows "keeps R (bind m f)"
proof (rule keepsI)
  fix s
  obtain r t where mt: "m s = (r, t)" by force
  with keepsD [OF m, of s] have st: "R s t" by simp
  then show "R s (snd (bind m f s))"
    by (cases r) (simp_all add: bind_def mt R_trans [OF st keepsD [OF f]])
qed

lemma keeps_call: "keeps R (call g)"
  unfolding call_def by (rule keeps_bind [OF keeps_ask]) (auto split: sum.split intro: keeps_ret keeps_throw)

lemma keeps_try: "keeps R m \<Longrightarrow> keeps R (try_pub m)"
  by (auto simp: keeps_def try_pub_def split: prod.split) (metis snd_conv)

lemma keeps_each: "(\<And>x acc. keeps R (f x acc)) \<Longrightarrow> keeps R (each f xs acc)"
  by (induction xs arbitrary: acc) (auto intro: keeps_ret keeps_bind)

text \<open>After a first part that keeps the relation, the rest starts in a related state.\<close>

lemma bind_after:
  assumes "keeps R m" and stop: "\<And>t. R s t \<Longrightarrow> Q t" and go: "\<And>x t. R s t \<Longrightarrow> m s = (Inr x, t) \<Longrightarrow> Q (snd (f x t))"
  shows "Q (snd (bind m f s))"
  using keepsD [OF assms(1), of s] stop go by (auto simp: bind_def split: prod.split sum.split)

end

lemma bind_query [simp]: "bind (query f) g s = g (f (ps_db s)) s"
  by (simp add: bind_def query_def)

lemma bind_ret [simp]: "bind (ret x) g = g x"
  by (simp add: bind_def ret_def fun_eq_iff)

lemma bind_throw [simp]: "bind (throw e) g = throw e"
  by (simp add: bind_def throw_def fun_eq_iff)

lemma bind_store [simp]: "bind (store f) g s = g () (s\<lparr>ps_db := f (ps_db s)\<rparr>)"
  by (simp add: bind_def store_def)

lemma bind_ask [simp]: "bind (ask q) g s = g (q (ps_calls s)) (s\<lparr>ps_calls := ps_calls s + 1\<rparr>)"
  by (simp add: bind_def ask_def)

lemma snd_ret [simp]: "snd (ret x s) = s" and snd_throw [simp]: "snd (throw e s) = s"
  by (simp_all add: ret_def throw_def)

section \<open>Parts without lasting effect\<close>

text \<open>Approvals and finalisations are not tracked; publications and claims are.\<close>

fun tracked :: "address \<times> nat \<times> reg_call \<Rightarrow> bool" where
  "tracked (_, _, PublishIndex _ _ _ _ _ _) = True"
| "tracked (_, _, ClaimCoverage _ _) = True"
| "tracked _ = False"

definition quiet :: "'s pub_state \<Rightarrow> 's pub_state \<Rightarrow> bool" where
  "quiet s t \<longleftrightarrow> ps_db t = ps_db s \<and> filter tracked (ps_sent t) = filter tracked (ps_sent s)"

interpretation quiet: effect quiet
  by unfold_locales (simp_all add: quiet_def)

lemma quiet_submit:
  "keeps quiet (submit env to v (Approve a n))" "keeps quiet (submit env to v (FinalizeIndex i))"
  unfolding submit_def by (rule quiet.keeps_bind [OF quiet.keeps_call], simp add: keeps_def quiet_def)+

lemmas quiet_rules = quiet.keeps_ret quiet.keeps_throw quiet.keeps_query quiet.keeps_ask quiet.keeps_call
  quiet.keeps_bind quiet.keeps_if quiet.keeps_each quiet_submit

lemma quiet_ensureBondAllowance: "keeps quiet (ensureBondAllowance env mode)"
  unfolding ensureBondAllowance_def by (intro quiet_rules)

lemma quiet_expectedReward: "keeps quiet (expectedReward env coverage)"
  unfolding expectedReward_def by (intro quiet_rules)

lemma quiet_claim_coverage: "keeps quiet (claim_coverage env t ic claims)"
  unfolding claim_coverage_def by (intro quiet_rules | auto split: sum.split intro: quiet_rules)+

section \<open>The life of an epoch\<close>

inductive epoch_move :: "Epoch \<Rightarrow> Epoch \<Rightarrow> bool" where
  uri: "ep_status e = EpochBuilt \<Longrightarrow> epoch_move e (e\<lparr>ep_uri := u\<rparr>)"
| submit: "ep_status e = EpochBuilt
    \<Longrightarrow> epoch_move e (e\<lparr>ep_status := EpochSubmitted, ep_ref := Some ref, ep_submitted_at := Some t\<rparr>)"
| publish: "ep_status e = EpochSubmitted
    \<Longrightarrow> epoch_move e (e\<lparr>ep_status := EpochPublished, ep_onchain := Some oc, ep_tx := Some tx\<rparr>)"
| fail: "ep_status e = EpochSubmitted \<Longrightarrow> epoch_move e (e\<lparr>ep_status := EpochFailed\<rparr>)"
| finalize: "ep_status e = EpochPublished \<Longrightarrow> epoch_move e (e\<lparr>ep_status := EpochFinalized\<rparr>)"
| reject: "ep_status e = EpochPublished \<Longrightarrow> epoch_move e (e\<lparr>ep_status := EpochRejected\<rparr>)"
| claim: "ep_status e = EpochFinalized \<Longrightarrow> ep_claimed_at e = None
    \<Longrightarrow> epoch_move e (e\<lparr>ep_claim_tx := c, ep_claimed_at := Some t, ep_reward := r\<rparr>)"

inductive_cases epoch_moveE: "epoch_move e e'"

text \<open>The columns that say how far an epoch came agree with its status.\<close>

definition row_ok :: "Epoch \<Rightarrow> bool" where
  "row_ok e \<longleftrightarrow> (ep_ref e = None \<longleftrightarrow> ep_status e = EpochBuilt)
     \<and> (ep_onchain e = None \<longleftrightarrow> ep_status e \<in> {EpochBuilt, EpochSubmitted, EpochFailed})
     \<and> (ep_claimed_at e \<noteq> None \<longrightarrow> ep_status e = EpochFinalized)"

lemma epoch_move_row_ok: "epoch_move e e' \<Longrightarrow> row_ok e \<Longrightarrow> row_ok e'"
  by (induction rule: epoch_move.induct) (auto simp: row_ok_def)

text \<open>What an epoch commits to.\<close>

definition commits :: "Epoch \<Rightarrow> nat \<times> nat \<times> nat \<times> hash \<times> hash \<times> nat \<times> hash" where
  "commits e = (ep_chain e, ep_from e, ep_to e, ep_root e, ep_coverage_root e, ep_leaf_count e, ep_filter e)"

lemma epoch_move_commits: "epoch_move e e' \<Longrightarrow> commits e' = commits e"
  by (induction rule: epoch_move.induct) (auto simp: commits_def)

lemma epoch_moves_commits: "epoch_move\<^sup>*\<^sup>* e e' \<Longrightarrow> commits e' = commits e"
  by (induction rule: rtranclp_induct) (auto dest: epoch_move_commits)

text \<open>The order in which an epoch passes through its states; the three outcomes are not comparable.\<close>

fun stage :: "epoch_status \<Rightarrow> nat" where
  "stage EpochBuilt = 0"
| "stage EpochSubmitted = 1"
| "stage EpochPublished = 2"
| "stage _ = 3"

instantiation epoch_status :: order
begin

definition less_epoch_status :: "epoch_status \<Rightarrow> epoch_status \<Rightarrow> bool" where
  "a < b \<longleftrightarrow> stage a < stage b"

definition less_eq_epoch_status :: "epoch_status \<Rightarrow> epoch_status \<Rightarrow> bool" where
  "a \<le> b \<longleftrightarrow> a = b \<or> a < (b :: epoch_status)"

instance
  by standard (auto simp: less_eq_epoch_status_def less_epoch_status_def)

end

lemma finalized_top: "EpochFinalized \<le> st \<longleftrightarrow> st = EpochFinalized"
  by (cases st) (simp_all add: less_eq_epoch_status_def less_epoch_status_def)

lemma epoch_move_stage: "epoch_move e e' \<Longrightarrow> ep_status e \<le> ep_status e'"
  by (induction rule: epoch_move.induct) (simp_all add: less_eq_epoch_status_def less_epoch_status_def)

lemma epoch_moves_stage: "epoch_move\<^sup>*\<^sup>* e e' \<Longrightarrow> ep_status e \<le> ep_status e'"
  by (induction rule: rtranclp_induct) (auto dest: epoch_move_stage)

lemma epoch_moves_onchain:
  assumes "epoch_move\<^sup>*\<^sup>* e e'" "row_ok e" "ep_onchain e = Some oc" shows "ep_onchain e' = Some oc \<and> row_ok e'"
  using assms
proof (induction rule: rtranclp_induct)
  case (step y z)
  then have y: "ep_onchain y = Some oc" "row_ok y" by auto
  from step.hyps(2) y have "ep_onchain z = Some oc" by (cases rule: epoch_move.cases) (auto simp: row_ok_def)
  with epoch_move_row_ok [OF step.hyps(2) y(2)] show ?case by simp
qed simp

section \<open>The invariant\<close>

definition row :: "'a epoch_db_scheme pub_state \<Rightarrow> nat \<Rightarrow> Epoch option" where
  "row s i = map_of (epochs (ps_db s)) i"

text \<open>What is stored beside an epoch is what it commits to.\<close>

definition cover_ok :: "hashfn \<Rightarrow> Epoch \<Rightarrow> EpochCoverage \<Rightarrow> bool" where
  "cover_ok k e c \<longleftrightarrow> ep_from e \<le> cv_from c \<and> cv_from c \<le> cv_to c \<and> cv_to c \<le> ep_to e \<and> cv_to c \<noteq> 0
     \<and> cv_key c = AssetKey k (ep_chain e) (cv_asset c)
     \<and> cv_leaf c = CoverageLeaf k (cv_key c) (word_of_nat (cv_from c)) (word_of_nat (cv_to c))"

definition leaf_ok :: "hashfn \<Rightarrow> Epoch \<Rightarrow> EpochLeaf \<Rightarrow> bool" where
  "leaf_ok k e l \<longleftrightarrow> el_leaf l = LeafHash k (el_account l) (word_of_nat (ep_chain e)) (AssetsHash k (el_assets l))
     \<and> el_assets l \<noteq> [] \<and> sorted_wrt (<) (el_assets l)"

definition backed :: "hashfn \<Rightarrow> 'a epoch_db_scheme \<Rightarrow> nat \<Rightarrow> Epoch \<Rightarrow> bool" where
  "backed k db i e \<longleftrightarrow>
     ep_root e = Root (Build k (map el_leaf (EachEpochLeaf i db)))
     \<and> ep_leaf_count e = length (EachEpochLeaf i db)
     \<and> ep_coverage_root e = coverageRoot k (EpochCoverageOf i db)
     \<and> (\<forall>c \<in> set (EpochCoverageOf i db). cover_ok k e c) \<and> sorted_wrt (<) (map cv_asset (EpochCoverageOf i db))
     \<and> (\<forall>l \<in> set (EachEpochLeaf i db). leaf_ok k e l) \<and> sorted_wrt (<) (map el_account (EachEpochLeaf i db))
     \<and> EachEpochLeaf i db \<noteq> [] \<and> ep_from e \<le> ep_to e"

definition tables_ok :: "'a epoch_db_scheme \<Rightarrow> bool" where
  "tables_ok db \<longleftrightarrow> keys_unique (interactions db) \<and> keys_unique (asset_cursors db) \<and> keys_unique (epochs db) \<and> keys_unique (epoch_leaves db) \<and> keys_unique (epoch_coverage db)
     \<and> (\<forall>i \<in> fst ` set (epochs db) \<union> fst ` fst ` set (epoch_leaves db) \<union> fst ` fst ` set (epoch_coverage db). i < epoch_seq db)"

definition publishes :: "(address \<times> nat \<times> reg_call) list \<Rightarrow> reg_call list" where
  "publishes sent = filter (\<lambda>c. case c of PublishIndex _ _ _ _ _ _ \<Rightarrow> True | _ \<Rightarrow> False) (map (snd \<circ> snd) sent)"

definition submitted_calls :: "(nat \<times> Epoch) list \<Rightarrow> reg_call multiset" where
  "submitted_calls tab = mset (map (publish_call \<circ> snd) (filter (\<lambda>(i, e). ep_ref e \<noteq> None) tab))"

definition call_of :: "Epoch \<Rightarrow> reg_call multiset" where
  "call_of e = (if ep_ref e = None then {#} else {#publish_call e#})"

definition claim_ok :: "hashfn \<Rightarrow> hash \<Rightarrow> coverageClaim \<Rightarrow> bool" where
  "claim_ok k root c \<longleftrightarrow> Verify k root (CoverageLeaf k (cl_key c) (word_of_nat (cl_from c)) (word_of_nat (cl_to c))) (cl_proof c)"

definition claims_ok :: "hashfn \<Rightarrow> 'a epoch_db_scheme pub_state \<Rightarrow> bool" where
  "claims_ok k s \<longleftrightarrow> (\<forall>oc cls. ClaimCoverage oc cls \<in> (snd \<circ> snd) ` set (ps_sent s) \<longrightarrow>
     (\<exists>i e. row s i = Some e \<and> ep_onchain e = Some oc \<and> ep_status e = EpochFinalized
        \<and> cls \<noteq> [] \<and> (\<forall>c \<in> set cls. claim_ok k (ep_coverage_root e) c)))"

definition pub_inv :: "hashfn \<Rightarrow> 'a epoch_db_scheme pub_state \<Rightarrow> bool" where
  "pub_inv k s \<longleftrightarrow> tables_ok (ps_db s)
     \<and> (\<forall>i e. row s i = Some e \<longrightarrow> row_ok e \<and> backed k (ps_db s) i e)
     \<and> mset (publishes (ps_sent s)) = submitted_calls (epochs (ps_db s))
     \<and> claims_ok k s"

definition evolves :: "'a epoch_db_scheme pub_state \<Rightarrow> 'a epoch_db_scheme pub_state \<Rightarrow> bool" where
  "evolves s t \<longleftrightarrow> (\<forall>i e. row s i = Some e \<longrightarrow> (\<exists>e'. row t i = Some e' \<and> epoch_move\<^sup>*\<^sup>* e e')
     \<and> EachEpochLeaf i (ps_db t) = EachEpochLeaf i (ps_db s) \<and> EpochCoverageOf i (ps_db t) = EpochCoverageOf i (ps_db s))"

text \<open>From a state that satisfies the invariant, to another one, along the life cycle.\<close>

definition good :: "hashfn \<Rightarrow> 'a epoch_db_scheme pub_state \<Rightarrow> 'a epoch_db_scheme pub_state \<Rightarrow> bool" where
  "good k s t \<longleftrightarrow> (pub_inv k s \<longrightarrow> pub_inv k t \<and> evolves s t)"

lemma evolves_refl: "evolves s s"
  by (auto simp: evolves_def)

lemma evolves_trans: "evolves s t \<Longrightarrow> evolves t u \<Longrightarrow> evolves s u"
  unfolding evolves_def by (metis rtranclp_trans)

lemma pub_inv_quiet:
  assumes "quiet s t" "pub_inv k s" shows "pub_inv k t"
proof -
  have db: "ps_db t = ps_db s" and tr: "filter tracked (ps_sent t) = filter tracked (ps_sent s)"
    using assms(1) by (auto simp: quiet_def)
  have pub: "publishes xs = publishes (filter tracked xs)" for xs
    by (induction xs) (auto simp: publishes_def split: reg_call.split)
  have cl: "ClaimCoverage oc cls \<in> (snd \<circ> snd) ` set xs \<longleftrightarrow> ClaimCoverage oc cls \<in> (snd \<circ> snd) ` set (filter tracked xs)"
    for oc cls xs by force
  have "publishes (ps_sent t) = publishes (ps_sent s)" using pub [of "ps_sent t"] pub [of "ps_sent s"] tr by simp
  moreover have "claims_ok k t = claims_ok k s"
    unfolding claims_ok_def row_def db using cl [of _ _ "ps_sent t"] cl [of _ _ "ps_sent s"] tr by simp
  ultimately show ?thesis using assms(2) by (simp add: pub_inv_def row_def db)
qed

lemma good_quiet: "quiet s t \<Longrightarrow> good k s t"
  using pub_inv_quiet by (auto simp: good_def evolves_def row_def quiet_def)

interpretation good: effect "good k" for k
proof
  show "good k s t \<Longrightarrow> good k t u \<Longrightarrow> good k s u" for s t u :: "'a epoch_db_scheme pub_state"
    unfolding good_def using evolves_trans by blast
qed (auto intro!: good_quiet simp: quiet_def)

section \<open>Changing one row\<close>

lemma row_update:
  "row (s\<lparr>ps_db := update_epoch i f (ps_db s)\<rparr>) j = (if j = i then map_option f (row s i) else row s j)"
  by (simp add: row_def update_epoch_def)

lemma row_sent [simp]: "row (s\<lparr>ps_sent := xs\<rparr>) = row s" and row_calls [simp]: "row (s\<lparr>ps_calls := n\<rparr>) = row s"
  by (simp_all add: row_def fun_eq_iff)

lemma update_row_absent: "i \<notin> fst ` set tab \<Longrightarrow> update_row i f tab = tab"
  by (induction tab) (auto simp: update_row_def)

lemma submitted_calls_Cons: "submitted_calls ((j, e) # tab) = call_of e + submitted_calls tab"
  by (simp add: submitted_calls_def call_of_def)

lemma call_of_submitted: "(i, e) \<in> set tab \<Longrightarrow> call_of e \<subseteq># submitted_calls tab"
  by (force simp: submitted_calls_def call_of_def)

lemma submitted_calls_update:
  assumes "keys_unique tab" "map_of tab i = Some e"
  shows "submitted_calls (update_row i f tab) = submitted_calls tab - call_of e + call_of (f e)"
  using assms
proof (induction tab)
  case (Cons p tab)
  obtain j e' where p: "p = (j, e')" by force
  show ?case
  proof (cases "j = i")
    case True
    with Cons.prems p have "i \<notin> fst ` set tab" "e' = e" by (auto simp: keys_unique_def)
    then have "update_row i f (p # tab) = (i, f e) # tab"
      using True p update_row_absent [of i tab f] by (simp add: update_row_def)
    with True p \<open>e' = e\<close> show ?thesis by (simp add: submitted_calls_Cons add.commute)
  next
    case False
    with Cons.prems p have ku: "keys_unique tab" "map_of tab i = Some e" by (auto simp: keys_unique_def)
    have "call_of e' + submitted_calls tab - call_of e = call_of e' + (submitted_calls tab - call_of e)"
      by (rule multiset_diff_union_assoc [OF call_of_submitted [OF map_of_SomeD [OF ku(2)]]])
    moreover have "update_row i f (p # tab) = (j, e') # update_row i f tab" using False p by (simp add: update_row_def)
    ultimately show ?thesis
      using Cons.IH [OF ku] p by (simp add: submitted_calls_Cons add.assoc)
  qed
qed simp

lemma backed_commits:
  assumes "backed k db i e" "commits e' = commits e"
    and "epoch_leaves db' = epoch_leaves db" "epoch_coverage db' = epoch_coverage db"
  shows "backed k db' i e'"
proof -
  have "EachEpochLeaf i db' = EachEpochLeaf i db" "EpochCoverageOf i db' = EpochCoverageOf i db"
    using assms(3,4) by (simp_all add: EachEpochLeaf_def EpochCoverageOf_def)
  then show ?thesis using assms(1,2) by (auto simp: backed_def commits_def cover_ok_def leaf_ok_def)
qed

lemma claims_ok_evolves:
  assumes "claims_ok k s" "evolves s t" "\<And>i e. row s i = Some e \<Longrightarrow> row_ok e"
    and sent: "\<And>oc cls. ClaimCoverage oc cls \<in> (snd \<circ> snd) ` set (ps_sent t) \<Longrightarrow> ClaimCoverage oc cls \<in> (snd \<circ> snd) ` set (ps_sent s)"
  shows "claims_ok k t"
  unfolding claims_ok_def
proof (intro allI impI)
  fix oc cls assume "ClaimCoverage oc cls \<in> (snd \<circ> snd) ` set (ps_sent t)"
  then obtain i e where e: "row s i = Some e" "ep_onchain e = Some oc" "ep_status e = EpochFinalized"
    "cls \<noteq> []" "\<forall>c \<in> set cls. claim_ok k (ep_coverage_root e) c"
    using assms(1) sent unfolding claims_ok_def by blast
  obtain e' where e': "row t i = Some e'" "epoch_move\<^sup>*\<^sup>* e e'" using assms(2) e(1) by (auto simp: evolves_def)
  have "ep_onchain e' = Some oc" using epoch_moves_onchain [OF e'(2) assms(3) [OF e(1)] e(2)] by simp
  moreover have "ep_status e' = EpochFinalized"
    using epoch_moves_stage [OF e'(2)] by (simp add: e(3) finalized_top)
  moreover have "ep_coverage_root e' = ep_coverage_root e" using epoch_moves_commits [OF e'(2)] by (simp add: commits_def)
  ultimately show "\<exists>i e. row t i = Some e \<and> ep_onchain e = Some oc \<and> ep_status e = EpochFinalized
      \<and> cls \<noteq> [] \<and> (\<forall>c \<in> set cls. claim_ok k (ep_coverage_root e) c)"
    using e(4,5) e'(1) by (intro exI [of _ i] exI [of _ e']) simp
qed

text \<open>A move of one row, while \<open>extra\<close> was sent: right when the publications among it are those the
  move accounts for.\<close>

lemma good_update:
  assumes r: "row s i = Some e" and mv: "epoch_move e (f e)"
    and sent: "ps_sent t = ps_sent s @ extra" and db: "ps_db t = update_epoch i f (ps_db s)"
    and pub: "mset (publishes extra) + call_of e = call_of (f e)"
    and cl: "\<And>oc cls. ClaimCoverage oc cls \<notin> (snd \<circ> snd) ` set extra"
  shows "good k s t"
  unfolding good_def
proof
  assume inv: "pub_inv k s"
  have rt: "row t j = (if j = i then Some (f e) else row s j)" for j
    using r by (simp add: row_def db update_epoch_def)
  have ev: "evolves s t" using r mv by (auto simp: evolves_def rt db update_epoch_def EachEpochLeaf_def EpochCoverageOf_def)
  have tb: "tables_ok (ps_db t)" using inv
    by (simp add: pub_inv_def tables_ok_def db update_epoch_def) (metis fst_update_row list.set_map)
  have rows: "row_ok e' \<and> backed k (ps_db t) j e'" if "row t j = Some e'" for j e'
  proof (cases "j = i")
    case True
    with that have [simp]: "e' = f e" by (simp add: rt)
    have "row_ok e" "backed k (ps_db s) i e" using inv r by (auto simp: pub_inv_def)
    then show ?thesis
      using True epoch_move_row_ok [OF mv] backed_commits [of k "ps_db s" i e "f e" "ps_db t"] epoch_move_commits [OF mv]
      by (simp add: db update_epoch_def)
  next
    case False
    with that inv show ?thesis
      using backed_commits [of k "ps_db s" j e' e' "ps_db t"] by (auto simp: rt pub_inv_def db update_epoch_def)
  qed
  have "claims_ok k t"
    by (rule claims_ok_evolves [OF _ ev]) (use inv cl sent in \<open>auto simp: pub_inv_def\<close>)
  moreover have "mset (publishes (ps_sent t)) = submitted_calls (epochs (ps_db t))"
  proof -
    have ku: "keys_unique (epochs (ps_db s))" using inv by (simp add: pub_inv_def tables_ok_def)
    have mem: "call_of e \<subseteq># submitted_calls (epochs (ps_db s))"
      by (rule call_of_submitted [OF map_of_SomeD [OF r [unfolded row_def]]])
    have "mset (publishes (ps_sent t)) = submitted_calls (epochs (ps_db s)) + mset (publishes extra)"
      using inv by (simp add: pub_inv_def sent publishes_def)
    also have "\<dots> = submitted_calls (epochs (ps_db s)) - call_of e + (mset (publishes extra) + call_of e)"
      using subset_mset.diff_add [OF mem] by (simp add: ac_simps)
    also have "\<dots> = submitted_calls (epochs (ps_db t))"
      unfolding pub using submitted_calls_update [OF ku r [unfolded row_def]] by (simp add: db update_epoch_def)
    finally show ?thesis .
  qed
  ultimately show "pub_inv k t \<and> evolves s t" using tb rows ev by (auto simp: pub_inv_def)
qed

section \<open>The operations\<close>

definition step_at :: "hashfn \<Rightarrow> nat \<Rightarrow> 'a epoch_db_scheme pub_state \<Rightarrow> 'a epoch_db_scheme pub_state \<Rightarrow> bool" where
  "step_at k i s t \<longleftrightarrow> (pub_inv k s \<longrightarrow> good k s t \<and> (\<forall>j. j \<noteq> i \<longrightarrow> row t j = row s j))"

lemma quiet_row: "quiet s t \<Longrightarrow> row t = row s"
  by (simp add: quiet_def row_def fun_eq_iff)

lemma step_at_quiet: "quiet s t \<Longrightarrow> step_at k i s t"
  by (simp add: step_at_def good_quiet quiet_row)

lemma step_at_trans: "step_at k i s t \<Longrightarrow> step_at k i t u \<Longrightarrow> step_at k i s u"
  unfolding step_at_def good_def using evolves_trans by fastforce

lemma step_at_good: "step_at k i s t \<Longrightarrow> good k s t"
  by (auto simp: step_at_def good_def)

lemma step_at_update:
  assumes "row s i = Some e" "epoch_move e (f e)" "call_of (f e) = call_of e"
  shows "step_at k i s (s\<lparr>ps_db := update_epoch i f (ps_db s)\<rparr>)"
  using good_update [of s i e f "s\<lparr>ps_db := update_epoch i f (ps_db s)\<rparr>" "[]" k] assms
  by (simp add: step_at_def row_update publishes_def)

lemma step_at_status:
  assumes "row s i = Some e" "epoch_move e (e\<lparr>ep_status := st\<rparr>)"
  shows "step_at k i s (s\<lparr>ps_db := SetEpochStatus i st (ps_db s)\<rparr>)"
  unfolding SetEpochStatus_def using assms
  by (intro step_at_update [where e = e]) (simp_all add: call_of_def publish_call_def)

lemma step_at_settle:
  assumes r: "row s i = Some e" "ep_status e = EpochSubmitted"
  shows "step_at k i s (snd (settle env i ref s))"
  unfolding settle_def
proof (rule quiet.bind_after [OF quiet.keeps_call])
  fix rcpt t assume q: "quiet s t"
  have rt: "row t i = Some e" using quiet_row [OF q] r(1) by simp
  have failed: "step_at k i t (t\<lparr>ps_db := SetEpochStatus i EpochFailed (ps_db t)\<rparr>)"
    by (rule step_at_status [OF rt epoch_move.fail [OF r(2)]])
  have published: "step_at k i t (t\<lparr>ps_db := MarkPublished i oc tx (ps_db t)\<rparr>)" for oc tx
    unfolding MarkPublished_def
    by (rule step_at_update [where e = e]) (simp_all add: rt r(2) epoch_move.publish call_of_def publish_call_def)
  have asked: "step_at k i t (u\<lparr>ps_calls := n\<rparr>)" if "step_at k i t u" for u n
    by (rule step_at_trans [OF that step_at_quiet]) (simp add: quiet_def)
  show "step_at k i s (snd ((if \<not> rc_success rcpt
     then bind (store (SetEpochStatus i EpochFailed)) (\<lambda>_. throw PubReverted)
     else case epochIDFromReceipt env rcpt of None \<Rightarrow> throw PubNoLog
       | Some onchainID \<Rightarrow>
           bind (store (MarkPublished i onchainID (rc_tx rcpt))) (\<lambda>_.
           bind (ask (\<lambda>n. rv_epoch env n onchainID)) (\<lambda>_. ret ()))) t))"
    by (rule step_at_trans [OF step_at_quiet [OF q]])
      (auto simp: failed asked [OF published] step_at_quiet quiet_def split: option.split)
qed (rule step_at_quiet)

text \<open>A loop over rows that were read at once: while it runs, the rows still ahead are as read.\<close>

lemma good_each_rows:
  assumes body: "\<And>i e acc t. row t i = Some e \<Longrightarrow> \<phi> e \<Longrightarrow> step_at k i t (snd (f (i, e) acc t))"
    and "distinct (map fst xs)" and "\<And>i e. (i, e) \<in> set xs \<Longrightarrow> row s i = Some e \<and> \<phi> e" and "pub_inv k s"
  shows "good k s (snd (each f xs acc s))"
  using assms(2-4)
proof (induction xs arbitrary: s acc)
  case (Cons x xs)
  obtain i e where x: "x = (i, e)" by force
  obtain r t where ft: "f x acc s = (r, t)" by force
  have st: "step_at k i s t" using body [of s i e acc] Cons.prems(2) [of i e] ft x by simp
  have "row t j = Some e' \<and> \<phi> e'" if "(j, e') \<in> set xs" for j e'
  proof -
    have "j \<noteq> i" using that Cons.prems(1) x by force
    then have "row t j = row s j" using st Cons.prems(3) by (simp add: step_at_def)
    then show ?thesis using Cons.prems(2) [of j e'] that by simp
  qed
  moreover have "pub_inv k t" using step_at_good [OF st] Cons.prems(3) by (simp add: good_def)
  ultimately have "good k t (snd (each f xs acc' t))" for acc' using Cons.IH Cons.prems(1) by simp
  with step_at_good [OF st] show ?case by (cases r) (auto simp: bind_def ft intro: good.R_trans)
qed (simp add: good.R_refl)

lemma queryEpochs_rows:
  assumes "tables_ok (ps_db s)"
  shows "distinct (map fst (queryEpochs p (ps_db s)))" "(i, e) \<in> set (queryEpochs p (ps_db s)) \<Longrightarrow> row s i = Some e \<and> p e"
proof -
  let ?q = "filter (\<lambda>(i, e). p e) (epochs (ps_db s))"
  have u: "distinct (map fst (epochs (ps_db s)))" using assms by (simp add: tables_ok_def keys_unique_def)
  then have "distinct (map fst ?q)" by (rule distinct_map_filter)
  moreover have "mset (map fst (sort_key fst ?q)) = mset (map fst ?q)" by simp
  ultimately show "distinct (map fst (queryEpochs p (ps_db s)))"
    unfolding queryEpochs_def by (metis mset_eq_imp_distinct_iff)
  show "(i, e) \<in> set (queryEpochs p (ps_db s)) \<Longrightarrow> row s i = Some e \<and> p e"
    using u by (auto simp: queryEpochs_def row_def)
qed

lemma good_each_query:
  assumes "\<And>i e acc t. row t i = Some e \<Longrightarrow> p e \<Longrightarrow> step_at k i t (snd (f (i, e) acc t))"
    and "ps_db s = db"
  shows "good k s (snd (each f (queryEpochs p db) acc s))"
  unfolding good_def
proof
  assume inv: "pub_inv k s"
  then have tb: "tables_ok (ps_db s)" by (simp add: pub_inv_def)
  have "good k s (snd (each f (queryEpochs p db) acc s))"
    by (rule good_each_rows [where \<phi> = p, OF assms(1)]) (use queryEpochs_rows [OF tb] assms(2) inv in auto)
  with inv show "pub_inv k (snd (each f (queryEpochs p db) acc s)) \<and> evolves s (snd (each f (queryEpochs p db) acc s))"
    by (simp add: good_def)
qed

lemma bind_try [simp]: "bind (try_pub m) g s = g (fst (m s)) (snd (m s))"
  by (simp add: bind_def try_pub_def split: prod.split)

lemma bind_submit:
  "bind (submit env a v c) g s =
     (case rv_submit env (ps_calls s) a v c of
        Inl err \<Rightarrow> (Inl (PubRegistry err), s\<lparr>ps_calls := ps_calls s + 1\<rparr>)
      | Inr ref \<Rightarrow> g ref (s\<lparr>ps_calls := ps_calls s + 1, ps_sent := ps_sent s @ [(a, v, c)]\<rparr>))"
  by (simp add: submit_def call_def bind_def ask_def throw_def ret_def split: sum.split)

lemma after_quiet:
  assumes "keeps quiet m" "\<And>x t. quiet s t \<Longrightarrow> m s = (Inr x, t) \<Longrightarrow> step_at k i t (snd (f x t))"
  shows "step_at k i s (snd (bind m f s))"
  by (rule quiet.bind_after [OF assms(1)]) (auto intro: step_at_quiet step_at_trans [OF step_at_quiet assms(2)])

lemma after_calls: "step_at k i (s\<lparr>ps_calls := n\<rparr>) t \<Longrightarrow> step_at k i s t"
  by (rule step_at_trans [OF step_at_quiet]) (auto simp: quiet_def)

lemma step_at_resume_one:
  assumes r: "row s i = Some e" "ep_chain e = chainID \<and> ep_status e = EpochSubmitted"
  shows "step_at k i s (snd (resume_one env opt (i, e) n s))"
proof -
  let ?s = "s\<lparr>ps_calls := ps_calls s + 1\<rparr>"
  have failed: "step_at k i t (t\<lparr>ps_db := SetEpochStatus i EpochFailed (ps_db t)\<rparr>)" if "row t i = Some e" for t
    by (rule step_at_status [OF that]) (simp add: epoch_move.fail r(2))
  have settled: "step_at k i ?s (snd (settle env i ref ?s))" for ref
    by (rule step_at_settle [where e = e]) (simp_all add: r)
  have asked: "step_at k i ?s (u\<lparr>ps_calls := m\<rparr>)" if "step_at k i ?s u" for u m
    by (rule step_at_trans [OF that step_at_quiet]) (simp add: quiet_def)
  show ?thesis
  proof (cases "ep_ref e")
    case None
    then show ?thesis using failed [OF r(1)] by (simp add: resume_one_def)
  next
    case (Some ref)
    have "step_at k i ?s (snd (resume_one env opt (i, e) n s))"
      using failed [of ?s] asked [OF settled] settled r(1) Some
      by (auto simp: resume_one_def split: sum.split)
    then show ?thesis by (rule after_calls)
  qed
qed

lemma good_ResumePending: "good k s (snd (ResumePending env opt chainID s))"
  unfolding ResumePending_def bind_query PendingSubmissions_def
  by (rule good_each_query [OF step_at_resume_one refl])

text \<open>The same with what is known of the row, for the parts of a handler from the inside out.\<close>

definition safe_at :: "hashfn \<Rightarrow> nat \<Rightarrow> Epoch \<Rightarrow> ('a epoch_db_scheme, 'b) pub \<Rightarrow> bool" where
  "safe_at k i e m \<longleftrightarrow> (\<forall>s. row s i = Some e \<longrightarrow> step_at k i s (snd (m s)))"

lemma safe_bind:
  assumes "keeps quiet m" "\<And>x s t. m s = (Inr x, t) \<Longrightarrow> safe_at k i e (f x)"
  shows "safe_at k i e (bind m f)"
  using assms(2) unfolding safe_at_def by (auto intro!: after_quiet [OF assms(1)] simp: quiet_row)

lemma safe_ret: "safe_at k i e (ret x)" and safe_throw: "safe_at k i e (throw err)"
  by (simp_all add: safe_at_def step_at_quiet quiet_def)

lemma safe_if: "(b \<Longrightarrow> safe_at k i e m) \<Longrightarrow> (\<not> b \<Longrightarrow> safe_at k i e m') \<Longrightarrow> safe_at k i e (if b then m else m')"
  by simp

lemma safe_status:
  assumes "epoch_move e (e\<lparr>ep_status := st\<rparr>)"
  shows "safe_at k i e (bind (store (SetEpochStatus i st)) (\<lambda>_. ret x))"
  using step_at_status assms by (auto simp: safe_at_def)

lemma safe_atD: "safe_at k i e m \<Longrightarrow> row s i = Some e \<Longrightarrow> step_at k i s (snd (m s))"
  by (simp add: safe_at_def)

lemmas safe_rules = safe_ret safe_throw safe_if safe_bind

lemma safe_finalize_now:
  assumes st: "ep_status e = EpochPublished"
  shows "safe_at k i e (finalize_now env mode i oc onchain n)"
proof -
  have verdict: "status \<in> {EpochRejected, EpochFinalized}"
    if "(if re_status onchain = RegChallenged
         then bind (call (\<lambda>n. rv_epoch env n oc)) (\<lambda>after. ret (if re_status after = RegRejected then EpochRejected else EpochFinalized))
         else ret EpochFinalized) s = (Inr status, t)" for status s t
    using that by (auto simp: call_def bind_def ret_def throw_def split: if_splits sum.splits prod.splits)
  have moved: "safe_at k i e (bind (store (SetEpochStatus i status)) (\<lambda>_. ret x))"
    if "status \<in> {EpochRejected, EpochFinalized}" for status and x :: nat
    by (rule safe_status) (use that st in \<open>auto intro: epoch_move.intros\<close>)
  show ?thesis
    unfolding finalize_now_def
    apply (rule safe_bind, intro quiet_rules)
    apply (rule safe_if [OF safe_ret])
    apply (rule safe_bind [OF quiet_submit(2)])
    apply (rule safe_bind [OF quiet.keeps_call])
    apply (rule safe_if [OF safe_ret])
    apply (rule safe_bind, intro quiet_rules)
    apply (rule moved, erule verdict)
    done
qed

lemma safe_finalize_one:
  assumes "ep_status e = EpochPublished"
  shows "safe_at k i e (finalize_one env opt mode (i, e) n)"
  unfolding finalize_one_def Let_def fst_conv
  by (intro safe_bind quiet_rules)
    (use assms in \<open>auto split: reg_status.split intro!: safe_rules safe_status safe_finalize_now quiet_rules epoch_move.intros\<close>)

lemma good_FinalizeDue: "good k s (snd (FinalizeDue env opt chainID s))"
  unfolding FinalizeDue_def bind_query
proof (cases "PublishedUnfinalized chainID (ps_db s) = []")
  case False
  have "good k s (snd (bind (call (rv_mode env)) (\<lambda>mode. each (finalize_one env opt mode) (PublishedUnfinalized chainID (ps_db s)) 0) s))"
  proof (rule quiet.bind_after [OF quiet.keeps_call])
    fix mode t assume q: "quiet s t"
    have "good k t (snd (each (finalize_one env opt mode) (PublishedUnfinalized chainID (ps_db s)) 0 t))"
      unfolding PublishedUnfinalized_def
      by (rule good_each_query) (use q safe_atD [OF safe_finalize_one] in \<open>auto simp: quiet_def\<close>)
    then show "good k s (snd (each (finalize_one env opt mode) (PublishedUnfinalized chainID (ps_db s)) 0 t))"
      by (rule good.R_trans [OF good_quiet [OF q]])
  qed (rule good_quiet)
  with False show "good k s (snd ((if PublishedUnfinalized chainID (ps_db s) = [] then ret 0
      else bind (call (rv_mode env)) (\<lambda>mode. each (finalize_one env opt mode) (PublishedUnfinalized chainID (ps_db s)) 0)) s))" by simp
qed (simp add: good.R_refl)

section \<open>Claims\<close>

lemma claims_collected:
  assumes "each (claim_coverage env t) ics acc s = (Inr claims, u)" "\<forall>c \<in> set acc. P c"
    and "\<And>i c pr. (i, c) \<in> set ics \<Longrightarrow> Proof t (int i) = Inr pr
      \<Longrightarrow> P \<lparr>cl_key = cv_key c, cl_from = cv_from c, cl_to = cv_to c, cl_proof = pr\<rparr>"
  shows "\<forall>c \<in> set claims. P c"
  using assms
proof (induction ics arbitrary: acc s)
  case (Cons ic ics)
  obtain i c where ic: "ic = (i, c)" by force
  obtain acc' v where step: "claim_coverage env t ic acc s = (Inr acc', v)" "each (claim_coverage env t) ics acc' v = (Inr claims, u)"
    using Cons.prems(1) by (auto simp: bind_def split: prod.splits sum.splits)
  have "\<forall>c \<in> set acc'. P c"
    using step(1) Cons.prems(2) Cons.prems(3) [of i c]
    by (auto simp: ic claim_coverage_def call_def bind_def ask_def ret_def throw_def split: sum.splits if_splits)
  then show ?case by (rule Cons.IH [OF step(2)]) (use Cons.prems(3) in auto)
qed (simp add: ret_def)

lemma claims_verify:
  assumes "backed k db i e"
    and "each (claim_coverage env (Build k (map cv_leaf (EpochCoverageOf i db)))) (enumerate 0 (EpochCoverageOf i db)) [] s = (Inr claims, u)"
  shows "\<forall>c \<in> set claims. claim_ok k (ep_coverage_root e) c"
proof (rule claims_collected [OF assms(2)])
  fix j c pr
  assume c: "(j, c) \<in> set (enumerate 0 (EpochCoverageOf i db))"
    and pr: "Proof (Build k (map cv_leaf (EpochCoverageOf i db))) (int j) = Inr pr"
  then have j: "j < length (EpochCoverageOf i db)" "EpochCoverageOf i db ! j = c" by (auto simp: in_set_enumerate_eq)
  then have "Verify k (coverageRoot k (EpochCoverageOf i db)) (cv_leaf c) pr"
    using Proof_Build [of j "map cv_leaf (EpochCoverageOf i db)" k] pr by (auto simp: coverageRoot_def)
  moreover have "cover_ok k e c" "ep_coverage_root e = coverageRoot k (EpochCoverageOf i db)"
    using assms(1) j by (auto simp: backed_def)
  ultimately show "claim_ok k (ep_coverage_root e) \<lparr>cl_key = cv_key c, cl_from = cv_from c, cl_to = cv_to c, cl_proof = pr\<rparr>"
    by (simp add: claim_ok_def cover_ok_def)
qed simp

lemma step_at_sent_claim:
  assumes "row s i = Some e" "ep_status e = EpochFinalized" "ep_onchain e = Some oc" "cls \<noteq> []"
    and "\<forall>c \<in> set cls. claim_ok k (ep_coverage_root e) c"
    and t: "ps_sent t = ps_sent s @ [(a, v, ClaimCoverage oc cls)]" "ps_db t = ps_db s"
  shows "step_at k i s t"
proof -
  have "row t = row s" using t(2) by (simp add: row_def fun_eq_iff)
  moreover have "publishes (ps_sent t) = publishes (ps_sent s)" by (simp add: t(1) publishes_def)
  moreover have "claims_ok k s \<Longrightarrow> claims_ok k t"
    using assms unfolding claims_ok_def \<open>row t = row s\<close> by (auto simp: t(1))
  ultimately show ?thesis by (auto simp: step_at_def good_def pub_inv_def evolves_def t(2))
qed

lemma submit_then:
  assumes "step_at k i t (t\<lparr>ps_calls := ps_calls t + 1, ps_sent := ps_sent t @ [(a, v, c)]\<rparr>)"
    and "\<And>ref. safe_at k i e (f ref)" "row t i = Some e"
  shows "step_at k i t (snd (bind (submit env a v c) f t))"
proof (cases "rv_submit env (ps_calls t) a v c")
  case (Inr ref)
  have "row (t\<lparr>ps_calls := ps_calls t + 1, ps_sent := ps_sent t @ [(a, v, c)]\<rparr>) i = Some e"
    using assms(3) by (simp add: row_def)
  then show ?thesis
    using step_at_trans [OF assms(1) safe_atD [OF assms(2)]] Inr by (simp add: bind_submit)
qed (simp add: bind_submit step_at_quiet quiet_def)

lemma safe_MarkClaimed:
  assumes "ep_status e = EpochFinalized" "ep_claimed_at e = None"
  shows "safe_at k i e (bind (store (MarkClaimed i tx w now)) (\<lambda>_. ret x))"
  unfolding safe_at_def MarkClaimed_def bind_store snd_ret
  by (intro allI impI, rule step_at_update) (auto simp: assms epoch_move.claim call_of_def publish_call_def)

lemma step_at_claim_send:
  assumes r: "row s i = Some e" and e: "ep_status e = EpochFinalized" "ep_onchain e = Some oc" "ep_claimed_at e = None"
    and ok: "\<forall>c \<in> set claims. claim_ok k (ep_coverage_root e) c"
  shows "step_at k i s (snd (claim_send env (i, e) claims n s))"
proof -
  have claimed: "safe_at k i e (bind (ask (rv_dbnow env)) (\<lambda>now. bind (store (MarkClaimed i tx w now)) (\<lambda>_. ret x)))" for tx w and x :: nat
    by (rule safe_bind [OF quiet.keeps_ask]) (rule safe_MarkClaimed [OF e(1,3)])
  show ?thesis
  proof (cases "claims = []")
    case True
    then show ?thesis using safe_atD [OF claimed r] by (simp add: claim_send_def)
  next
    case False
    show ?thesis
      unfolding claim_send_def if_not_P [OF False] fst_conv snd_conv e(2) option.sel
      by (rule submit_then [OF step_at_sent_claim [OF r e(1,2) False ok] _ r])
        (simp_all add: safe_bind [OF quiet.keeps_call] safe_if [OF safe_ret claimed])
  qed
qed

lemma step_at_claim_one:
  assumes r: "row s i = Some e" and e: "ep_status e = EpochFinalized" "ep_onchain e \<noteq> None" "ep_claimed_at e = None"
  shows "step_at k i s (snd (claim_one k env (i, e) n s))"
proof (cases "pub_inv k s")
  case True
  then have bk: "backed k (ps_db s) i e" using r by (simp add: pub_inv_def)
  obtain oc where oc: "ep_onchain e = Some oc" using e(2) by auto
  show ?thesis
    unfolding claim_one_def bind_query fst_conv
  proof (rule after_quiet)
    show "keeps quiet (each (claim_coverage env (Build k (map cv_leaf (EpochCoverageOf i (ps_db s))))) (enumerate 0 (EpochCoverageOf i (ps_db s))) [])"
      by (intro quiet_rules quiet_claim_coverage)
    fix claims t
    assume q: "quiet s t"
      and got: "each (claim_coverage env (Build k (map cv_leaf (EpochCoverageOf i (ps_db s))))) (enumerate 0 (EpochCoverageOf i (ps_db s))) [] s = (Inr claims, t)"
    show "step_at k i t (snd (claim_send env (i, e) claims n t))"
      by (rule step_at_claim_send [OF _ e(1) oc e(3) claims_verify [OF bk got]]) (simp add: quiet_row [OF q] r)
  qed
qed (simp add: step_at_def)

lemma good_ClaimDue: "good k s (snd (ClaimDue k env chainID s))"
  unfolding ClaimDue_def bind_query UnclaimedFinalized_def
  by (rule good_each_query [OF step_at_claim_one]) auto

section \<open>Submitting\<close>

lemma snd_bind_ret [simp]: "snd (bind m (\<lambda>_. ret x) s) = snd (m s)"
  by (simp add: bind_def ret_def split: prod.split sum.split)

lemma step_at_submit:
  assumes r: "row s i = Some e" "ep_status e = EpochBuilt"
  shows "step_at k i s (snd (bind (submit env a v (publish_call e)) (\<lambda>ref. bind (ask (rv_dbnow env)) (\<lambda>now.
    bind (store (MarkSubmitted i ref now)) (\<lambda>_. bind (settle env i ref) (\<lambda>_. ret ref)))) s))"
proof (cases "rv_submit env (ps_calls s) a v (publish_call e)")
  case (Inr ref)
  define f where "f = (\<lambda>now e. e\<lparr>ep_status := EpochSubmitted, ep_ref := Some ref, ep_submitted_at := Some now\<rparr> :: Epoch)"
  define now where "now = rv_dbnow env (ps_calls s + 1)"
  define t where "t = s\<lparr>ps_sent := ps_sent s @ [(a, v, publish_call e)], ps_calls := ps_calls s + 2,
    ps_db := update_epoch i (f now) (ps_db s)\<rparr>"
  have rt: "row t j = (if j = i then Some (f now e) else row s j)" for j
    using r(1) by (simp add: t_def row_def update_epoch_def)
  have "step_at k i s t"
    unfolding step_at_def
  proof
    assume "pub_inv k s"
    then have "ep_ref e = None" using r by (auto simp: pub_inv_def row_ok_def)
    then have "good k s t"
      by (intro good_update [where i = i and e = e and f = "f now" and extra = "[(a, v, publish_call e)]"])
        (auto simp: r t_def f_def epoch_move.submit call_of_def publishes_def publish_call_def)
    then show "good k s t \<and> (\<forall>j. j \<noteq> i \<longrightarrow> row t j = row s j)" by (simp add: rt)
  qed
  moreover have "step_at k i t (snd (settle env i ref t))"
    by (rule step_at_settle [where e = "f now e"]) (simp_all add: rt f_def)
  ultimately have "step_at k i s (snd (settle env i ref t))" by (rule step_at_trans)
  then show ?thesis by (simp add: bind_submit Inr t_def f_def now_def MarkSubmitted_def)
qed (simp add: bind_submit step_at_quiet quiet_def)

lemma good_Publish: "good k s (snd (Publish env i s))"
proof (cases "map_of (epochs (ps_db s)) i")
  case (Some e)
  then have r: "row s i = Some e" by (simp add: row_def)
  show ?thesis
  proof (cases "ep_status e = EpochBuilt")
    case True
    have sent: "safe_at k i e (bind (submit env a v (publish_call e)) (\<lambda>ref. bind (ask (rv_dbnow env)) (\<lambda>now.
        bind (store (MarkSubmitted i ref now)) (\<lambda>_. bind (settle env i ref) (\<lambda>_. ret ref)))))" for a v
      unfolding safe_at_def by (intro allI impI step_at_submit [OF _ True])
    have "safe_at k i e (bind (call (rv_mode env)) (\<lambda>mode.
        bind (if OracleMode mode then bind (ensureBondAllowance env mode) (\<lambda>_. ret 0) else ret (mo_publisher_bond mode)) (\<lambda>value.
        bind (submit env (rv_address env) value (publish_call e)) (\<lambda>ref. bind (ask (rv_dbnow env)) (\<lambda>now.
        bind (store (MarkSubmitted i ref now)) (\<lambda>_. bind (settle env i ref) (\<lambda>_. ret ref)))))))"
      by (rule safe_bind [OF quiet.keeps_call], rule safe_bind [OF _ sent]) (intro quiet_rules quiet_ensureBondAllowance)
    from step_at_good [OF safe_atD [OF this r]] show ?thesis
      using Some True by (simp add: Publish_def GetEpoch_def)
  qed (simp add: Publish_def GetEpoch_def Some good.R_refl)
qed (simp add: Publish_def GetEpoch_def good.R_refl)

end
