(* ===== verification/Commitments.thy ===== *)
theory Commitments
  imports Lifecycle
begin

text \<open>
  What a built epoch commits to (\<open>Build\<close> of \<open>internal/hintreg/publisher.go\<close>), the step relation of
  the publisher with everything that may happen between its operations, and the properties of the
  publisher: the refusals of \<open>Build\<close>, the contents and the proofs of a stored epoch, the life cycle,
  one publication per epoch, valid claims, and how the declared coverage relates to what was scanned.
\<close>

section \<open>Building\<close>

definition covered :: "nat \<Rightarrow> address \<times> Cursor \<Rightarrow> bool" where
  "covered to ac \<longleftrightarrow> snd (cursor_range (snd ac) to) \<noteq> 0 \<and> fst (cursor_range (snd ac) to) \<le> snd (cursor_range (snd ac) to)"

lemma CoverageFromCursors_eq:
  "CoverageFromCursors k chainID cursors to =
     map (\<lambda>(i, a, c). coverage_entry k chainID i a (fst (cursor_range c to)) (snd (cursor_range c to)))
       (enumerate 0 (filter (covered to) cursors))"
proof (induction cursors rule: rev_induct)
  case (snoc x xs)
  obtain a c where x: "x = (a, c)" by force
  obtain lo hi where lh: "cursor_range c to = (lo, hi)" by force
  show ?case
    using snoc.IH by (auto simp: CoverageFromCursors_def x lh covered_def enumerate_append_eq Let_def)
qed (simp add: CoverageFromCursors_def)

lemma CoverageFromCursors_index: "map cv_index (CoverageFromCursors k chainID cursors to) = [0..<length (CoverageFromCursors k chainID cursors to)]"
proof -
  have "map cv_index (map (\<lambda>(i, a, c). coverage_entry k chainID i a (fst (cursor_range c to)) (snd (cursor_range c to))) xs) = map fst xs" for xs
    by (induction xs) (auto simp: coverage_entry_def Let_def)
  from this [of "enumerate 0 (filter (covered to) cursors)"] show ?thesis
    unfolding CoverageFromCursors_eq length_map length_enumerate by (simp only: map_fst_enumerate) simp
qed

lemma CoverageFromCursors_entry:
  assumes "c \<in> set (CoverageFromCursors k chainID cursors to)"
  shows "cv_from c \<le> cv_to c" "cv_to c \<le> to" "cv_to c \<noteq> 0"
    and "cv_leaf c = CoverageLeaf k (cv_key c) (word_of_nat (cv_from c)) (word_of_nat (cv_to c))"
    and "cv_key c = AssetKey k chainID (cv_asset c)"
  using assms by (auto simp: CoverageFromCursors_eq in_set_enumerate_eq coverage_entry_def Let_def covered_def cursor_range_def
    dest!: nth_mem)

lemma CoverageFromCursors_asset: "map cv_asset (CoverageFromCursors k chainID cursors to) = map fst (filter (covered to) cursors)"
proof -
  have "map cv_asset (map (\<lambda>(i, a, c). coverage_entry k chainID i a (fst (cursor_range c to)) (snd (cursor_range c to))) xs)
      = map fst (map snd xs)" for xs :: "(nat \<times> address \<times> Cursor) list"
    by (induction xs) (auto simp: coverage_entry_def Let_def)
  from this [of "enumerate 0 (filter (covered to) cursors)"] show ?thesis
    unfolding CoverageFromCursors_eq by (simp only: map_snd_enumerate)
qed

lemma ListCursors_sorted: "keys_unique (asset_cursors db) \<Longrightarrow> sorted_wrt (<) (map fst (ListCursors chainID db))"
  using distinct_ListCursors [of db chainID] by (simp add: strict_sorted_iff ListCursors_def)

text \<open>What a snapshot of the index looks like when the rollup has one row per key.\<close>

definition sets_ok :: "AccountAssetSet list \<Rightarrow> bool" where
  "sets_ok sets \<longleftrightarrow> sorted_wrt (<) (map set_account sets) \<and> (\<forall>s \<in> set sets. set_assets s \<noteq> [] \<and> sorted_wrt (<) (set_assets s))"

lemma SnapshotIndex_ok:
  assumes "keys_unique (interactions db)" shows "sets_ok (SnapshotIndex chainID to db)"
proof -
  define rows where "rows = filter (\<lambda>((c, acc, ast), r). c = chainID \<and> ia_first r \<le> to) (interactions db)"
  have d: "distinct (map fst rows)" using assms by (simp add: rows_def keys_unique_def distinct_map_filter)
  define part where "part acc = map (\<lambda>((c, a, ast), r). ast) (filter (\<lambda>((c, a, ast), r). a = acc) rows)" for acc
  have "distinct (part acc)" for acc
  proof -
    let ?xs = "filter (\<lambda>((c, a, ast), r). a = acc) rows"
    have "inj_on (\<lambda>(c, a, ast). ast) (set (map fst ?xs))" by (auto simp: inj_on_def rows_def)
    moreover have "distinct (map fst ?xs)" using d by (rule distinct_map_filter)
    ultimately have "distinct (map (\<lambda>(c, a, ast). ast) (map fst ?xs))" by (simp only: distinct_map [of "\<lambda>(c, a, ast). ast"] simp_thms)
    then show ?thesis by (simp add: part_def comp_def split_def)
  qed
  moreover have "sort (part acc) \<noteq> []" if "acc \<in> set (map (\<lambda>((c, a, ast), r). a) rows)" for acc
  proof -
    have "part acc \<noteq> []" using that by (fastforce simp: part_def filter_empty_conv)
    then show ?thesis by (metis set_sort set_empty)
  qed
  ultimately show ?thesis
    unfolding sets_ok_def SnapshotIndex_def Let_def rows_def [symmetric] part_def [symmetric]
    by (simp add: strict_sorted_iff comp_def)
qed

lemma range_ordered:
  assumes "CoverageRange chainID db = (from, to)" "SnapshotIndex chainID to db \<noteq> []"
  shows "from \<le> to"
proof -
  obtain x where "x \<in> set (SnapshotIndex chainID to db)" using last_in_set [OF assms(2)] by blast
  then obtain acc ast r where r: "((chainID, acc, ast), r) \<in> set (interactions db)" "ia_first r \<le> to"
    by (auto simp: SnapshotIndex_def Let_def)
  define rows where "rows = map snd (filter (\<lambda>((c, acc, ast), r). c = chainID) (interactions db))"
  have "r \<in> set rows" unfolding rows_def using r(1) by force
  moreover from this have "from = Min (set (map ia_first rows))"
    using assms(1) by (cases "rows = []") (auto simp: CoverageRange_def Let_def rows_def [symmetric])
  ultimately have "from \<le> ia_first r" by simp
  with r(2) show ?thesis by simp
qed

lemma lower_from_le: "lower_from cs from \<le> from \<and> (\<forall>c \<in> set cs. lower_from cs from \<le> cv_from c)"
proof (induction cs arbitrary: "from")
  case (Cons c cs)
  from Cons.IH [of "if cv_from c < from then cv_from c else from"] show ?case
    by (auto simp: lower_from_def split: if_splits)
qed (simp add: lower_from_def)

lemma lower_from_mem: "lower_from cs from = from \<or> lower_from cs from \<in> cv_from ` set cs"
proof (induction cs arbitrary: "from")
  case (Cons c cs)
  from Cons.IH [of "if cv_from c < from then cv_from c else from"] show ?case
    by (auto simp: lower_from_def split: if_splits)
qed (simp add: lower_from_def)

lemma epoch_leaf_rows_index [simp]: "map el_index (epoch_leaf_rows k chainID sets) = [0..<length sets]"
proof -
  have "map el_index (epoch_leaf_rows k chainID sets) = map fst (enumerate 0 sets)"
    unfolding epoch_leaf_rows_def by (simp add: Let_def comp_def split_def)
  then show ?thesis by simp
qed

lemma length_epoch_leaf_rows [simp]: "length (epoch_leaf_rows k chainID sets) = length sets"
  by (simp add: epoch_leaf_rows_def)

lemma nth_epoch_leaf_rows:
  "j < length sets \<Longrightarrow> epoch_leaf_rows k chainID sets ! j = \<lparr>el_index = j, el_account = set_account (sets ! j),
     el_assets_hash = AssetsHash k (set_assets (sets ! j)),
     el_leaf = LeafHash k (set_account (sets ! j)) (word_of_nat chainID) (AssetsHash k (set_assets (sets ! j))),
     el_assets = set_assets (sets ! j)\<rparr>"
  by (simp add: epoch_leaf_rows_def enumerate_eq_zip Let_def)

text \<open>Rows of a fresh identifier, and of the others, in a keyed table that grew.\<close>

lemma fresh_rows:
  fixes n :: nat
  assumes "\<And>p. p \<in> set tab \<Longrightarrow> fst (fst p) < n" "map f rows = [0..<length rows]"
  shows "map snd (sort_key (snd \<circ> fst) (filter (\<lambda>((j, x), r). j = n) (tab @ map (\<lambda>r. ((n, f r), r)) rows))) = rows"
    "i \<noteq> n \<Longrightarrow> filter (\<lambda>((j, x), r). j = i) (tab @ map (\<lambda>r. ((n, f r), r)) rows) = filter (\<lambda>((j, x), r). j = i) tab"
    "distinct (map fst tab) \<Longrightarrow> distinct (map fst (tab @ map (\<lambda>r. ((n, f r), r)) rows))"
proof -
  have "fst (fst p) \<noteq> n" if "p \<in> set tab" for p using assms(1) [OF that] by simp
  then have "filter (\<lambda>((j, x), r). j = n) tab = []" by (simp add: filter_empty_conv split_def)
  moreover have "filter (\<lambda>((j, x), r). j = n) (map (\<lambda>r. ((n, f r), r)) rows) = map (\<lambda>r. ((n, f r), r)) rows"
    by (simp add: filter_map comp_def)
  moreover have "sorted (map (snd \<circ> fst) (map (\<lambda>r. ((n, f r), r)) rows))"
    using assms(2) by (simp add: comp_def)
  ultimately show "map snd (sort_key (snd \<circ> fst) (filter (\<lambda>((j, x), r). j = n) (tab @ map (\<lambda>r. ((n, f r), r)) rows))) = rows"
    by (simp add: sort_key_id_if_sorted comp_def)
  show "i \<noteq> n \<Longrightarrow> filter (\<lambda>((j, x), r). j = i) (tab @ map (\<lambda>r. ((n, f r), r)) rows) = filter (\<lambda>((j, x), r). j = i) tab"
    by (simp add: filter_map comp_def)
  have "distinct (map f rows)" using assms(2) by simp
  then have "distinct (map (\<lambda>r. (n, f r)) rows)" by (simp add: distinct_map inj_on_def)
  then show "distinct (map fst tab) \<Longrightarrow> distinct (map fst (tab @ map (\<lambda>r. ((n, f r), r)) rows))"
    using assms(1) by (fastforce simp: comp_def)
qed

text \<open>A new epoch whose leaves and coverage are numbered from zero is stored, next to all the old ones.\<close>

lemma CreateEpoch_stores:
  assumes tb: "tables_ok db" and ix: "map el_index leaves = [0..<length leaves]" "map cv_index coverage = [0..<length coverage]"
  shows "\<exists>db'. CreateEpoch e leaves coverage db = (Some (epoch_seq db), db')
    \<and> tables_ok db' \<and> epochs db' = epochs db @ [(epoch_seq db, built_row e leaves)]
    \<and> (\<forall>i. map_of (epochs db') i = (if i = epoch_seq db then Some (built_row e leaves) else map_of (epochs db) i))
    \<and> EachEpochLeaf (epoch_seq db) db' = leaves \<and> EpochCoverageOf (epoch_seq db) db' = coverage
    \<and> (\<forall>i. i \<noteq> epoch_seq db \<longrightarrow> EachEpochLeaf i db' = EachEpochLeaf i db \<and> EpochCoverageOf i db' = EpochCoverageOf i db)"
proof -
  define n where "n = epoch_seq db"
  define ls where "ls = epoch_leaves db @ map (\<lambda>l. ((n, el_index l), l)) leaves"
  define cs where "cs = epoch_coverage db @ map (\<lambda>c. ((n, cv_index c), c)) coverage"
  define db' where "db' = db\<lparr>epoch_seq := n + 1, epochs := epochs db @ [(n, built_row e leaves)], epoch_leaves := ls, epoch_coverage := cs\<rparr>"
  have lt: "\<And>p. p \<in> set (epoch_leaves db) \<Longrightarrow> fst (fst p) < n" "\<And>p. p \<in> set (epoch_coverage db) \<Longrightarrow> fst (fst p) < n"
    "\<And>p. p \<in> set (epochs db) \<Longrightarrow> fst p < n"
    using tb by (auto simp: tables_ok_def n_def)
  note l = fresh_rows [of "epoch_leaves db" n el_index leaves, OF lt(1) ix(1), folded ls_def]
  note c = fresh_rows [of "epoch_coverage db" n cv_index coverage, OF lt(2) ix(2), folded cs_def]
  have ku: "keys_unique ls" "keys_unique cs" using l(3) c(3) tb by (auto simp: tables_ok_def keys_unique_def)
  have new: "n \<notin> fst ` set (epochs db)" using lt(3) by force
  have "keys_unique (epochs db')" using tb new by (auto simp: tables_ok_def keys_unique_def db'_def)
  moreover have "\<forall>i \<in> fst ` set (epochs db') \<union> fst ` fst ` set ls \<union> fst ` fst ` set cs. i < n + 1"
    using lt by (fastforce simp: db'_def ls_def cs_def less_Suc_eq)
  ultimately have "tables_ok db'" using ku tb by (simp add: tables_ok_def db'_def)
  moreover have "map_of (epochs db') i = (if i = n then Some (built_row e leaves) else map_of (epochs db) i)" for i
    using new [folded map_of_eq_None_iff] by (auto simp: db'_def map_add_def split: option.split)
  moreover have "CreateEpoch e leaves coverage db = (Some n, db')"
    using ku by (simp add: CreateEpoch_def Let_def n_def ls_def cs_def db'_def)
  ultimately show ?thesis
    unfolding n_def [symmetric] using l(1,2) c(1,2)
    by (intro exI [of _ db']) (auto simp: db'_def EachEpochLeaf_def EpochCoverageOf_def)
qed

lemma leaf_rows_ok:
  assumes "sets_ok sets" "ep_chain e = chainID"
  shows "\<forall>l \<in> set (epoch_leaf_rows k chainID sets). leaf_ok k e l"
    and "sorted_wrt (<) (map el_account (epoch_leaf_rows k chainID sets))"
proof -
  show "\<forall>l \<in> set (epoch_leaf_rows k chainID sets). leaf_ok k e l"
    using assms by (auto simp: epoch_leaf_rows_def leaf_ok_def sets_ok_def Let_def in_set_enumerate_eq)
  have "map el_account (epoch_leaf_rows k chainID sets) = map set_account sets"
    by (rule nth_equalityI) (simp_all add: nth_epoch_leaf_rows)
  then show "sorted_wrt (<) (map el_account (epoch_leaf_rows k chainID sets))" using assms(1) by (simp add: sets_ok_def)
qed

lemma backed_new:
  assumes cov: "coverage = CoverageFromCursors k chainID cursors to" "sorted_wrt (<) (map fst cursors)"
    and rows: "leaves = epoch_leaf_rows k chainID sets" "sets_ok sets" "sets \<noteq> []" "from \<le> to"
    and e: "ep_root e = Root (Build k (map el_leaf leaves))" "ep_coverage_root e = coverageRoot k coverage"
      "ep_from e = lower_from coverage from" "ep_to e = to" "ep_chain e = chainID"
    and db: "EachEpochLeaf i db = leaves" "EpochCoverageOf i db = coverage"
  shows "backed k db i (built_row e leaves)"
proof -
  have c: "ep_chain (built_row e leaves) = chainID" "ep_from (built_row e leaves) = lower_from coverage from"
    "ep_to (built_row e leaves) = to" "ep_leaf_count (built_row e leaves) = length leaves"
    "ep_root (built_row e leaves) = Root (Build k (map el_leaf leaves))" "ep_coverage_root (built_row e leaves) = coverageRoot k coverage"
    by (simp_all add: built_row_def e)
  have "sorted_wrt (<) (map cv_asset coverage)"
    unfolding cov(1) CoverageFromCursors_asset using cov(2) by (simp add: sorted_wrt_map sorted_wrt_filter)
  moreover have "leaves \<noteq> []" using rows(3) length_epoch_leaf_rows [of k chainID sets] by (auto simp: rows(1) simp del: length_epoch_leaf_rows)
  moreover have "cover_ok k (built_row e leaves) v" if "v \<in> set coverage" for v
    using CoverageFromCursors_entry [of v k chainID cursors to] lower_from_le [of coverage "from"] that
    by (auto simp: cover_ok_def c cov(1) [symmetric])
  moreover have "ep_from (built_row e leaves) \<le> ep_to (built_row e leaves)"
    using lower_from_le [of coverage "from"] rows(4) by (simp add: c)
  ultimately show ?thesis
    using leaf_rows_ok [OF rows(2) c(1), of k] unfolding backed_def db by (auto simp: c rows(1) [symmetric])
qed

text \<open>What storing a commitment does to the state.\<close>

lemma good_CreateEpoch:
  assumes cov: "coverage = CoverageFromCursors k chainID cursors to" "sorted_wrt (<) (map fst cursors)"
    and rows: "leaves = epoch_leaf_rows k chainID sets" "sets_ok sets" "sets \<noteq> []" "from \<le> to"
    and e: "ep_root e = Root (Build k (map el_leaf leaves))" "ep_coverage_root e = coverageRoot k coverage"
      "ep_from e = lower_from coverage from" "ep_to e = to" "ep_chain e = chainID"
    and t: "t = s\<lparr>ps_db := snd (CreateEpoch e leaves coverage (ps_db s))\<rparr>" and inv: "pub_inv k s"
  shows "fst (CreateEpoch e leaves coverage (ps_db s)) = Some (epoch_seq (ps_db s))"
    and "row t (epoch_seq (ps_db s)) = Some (built_row e leaves)"
    and "EachEpochLeaf (epoch_seq (ps_db s)) (ps_db t) = leaves"
    and "EpochCoverageOf (epoch_seq (ps_db s)) (ps_db t) = coverage"
    and "row s (epoch_seq (ps_db s)) = None" "pub_inv k t" "evolves s t"
proof -
  let ?n = "epoch_seq (ps_db s)"
  have tb: "tables_ok (ps_db s)" using inv by (simp add: pub_inv_def)
  have cix: "map cv_index coverage = [0..<length coverage]" unfolding cov(1) by (rule CoverageFromCursors_index)
  have ix: "map el_index leaves = [0..<length leaves]" by (simp add: rows(1))
  obtain db' where c: "CreateEpoch e leaves coverage (ps_db s) = (Some ?n, db')" and tb': "tables_ok db'"
    and ep: "epochs db' = epochs (ps_db s) @ [(?n, built_row e leaves)]"
    and tab: "\<And>i. map_of (epochs db') i = (if i = ?n then Some (built_row e leaves) else map_of (epochs (ps_db s)) i)"
    and new: "EachEpochLeaf ?n db' = leaves" "EpochCoverageOf ?n db' = coverage"
    and old: "\<And>i. i \<noteq> ?n \<Longrightarrow> EachEpochLeaf i db' = EachEpochLeaf i (ps_db s) \<and> EpochCoverageOf i db' = EpochCoverageOf i (ps_db s)"
    using CreateEpoch_stores [OF tb ix cix, of e] by blast
  have db: "ps_db t = db'" "ps_sent t = ps_sent s" by (simp_all add: t c)
  have rt: "row t i = (if i = ?n then Some (built_row e leaves) else row s i)" for i by (simp add: row_def db tab)
  show none: "row s ?n = None" using tb by (force simp: tables_ok_def row_def map_of_eq_None_iff)
  show ev: "evolves s t" unfolding evolves_def
  proof (intro allI impI)
    fix i e0 assume "row s i = Some e0"
    moreover from this none have "i \<noteq> ?n" by auto
    ultimately show "(\<exists>e'. row t i = Some e' \<and> epoch_move\<^sup>*\<^sup>* e0 e') \<and> EachEpochLeaf i (ps_db t) = EachEpochLeaf i (ps_db s)
        \<and> EpochCoverageOf i (ps_db t) = EpochCoverageOf i (ps_db s)"
      using old by (auto simp: rt db)
  qed
  have "row_ok e' \<and> backed k (ps_db t) i e'" if "row t i = Some e'" for i e'
  proof (cases "i = ?n")
    case True
    moreover have "row_ok (built_row e leaves)" by (simp add: row_ok_def built_row_def)
    ultimately show ?thesis using that backed_new [OF cov rows e new] by (auto simp: rt db)
  next
    case False
    with that inv have "row_ok e'" "backed k (ps_db s) i e'" by (auto simp: rt pub_inv_def)
    with old [OF False] show ?thesis by (simp add: backed_def db)
  qed
  moreover have "claims_ok k t" by (rule claims_ok_evolves [OF _ ev]) (use inv in \<open>auto simp: pub_inv_def db\<close>)
  moreover have "submitted_calls (epochs (ps_db t)) = submitted_calls (epochs (ps_db s))"
    by (simp add: submitted_calls_def db ep built_row_def)
  ultimately show "pub_inv k t" using inv tb' by (simp add: pub_inv_def db)
  show "fst (CreateEpoch e leaves coverage (ps_db s)) = Some ?n" "row t ?n = Some (built_row e leaves)"
    "EachEpochLeaf ?n (ps_db t) = leaves" "EpochCoverageOf ?n (ps_db t) = coverage"
    by (simp_all add: c rt db new)
qed

lemma built_new_epoch: "built_row (new_epoch k chainID uri from to rows coverage fh x) rows = new_epoch k chainID uri from to rows coverage fh x"
  by (simp add: built_row_def new_epoch_def)

lemma record_epoch_ok:
  assumes cov: "coverage = CoverageFromCursors k chainID cursors to" "sorted_wrt (<) (map fst cursors)" and inv: "pub_inv k s"
    and rows: "rows = epoch_leaf_rows k chainID sets" "sets_ok sets" "sets \<noteq> []" "from \<le> to"
    and rec: "record_epoch (new_epoch k chainID uri from to rows coverage fh x) rows coverage s = (r, t)"
  shows "\<exists>eid e. r = Inr (eid, e) \<and> row s eid = None \<and> row t eid = Some e
    \<and> e = new_epoch k chainID (URI uri chainID eid) from to rows coverage fh x
    \<and> EachEpochLeaf eid (ps_db t) = rows \<and> EpochCoverageOf eid (ps_db t) = coverage
    \<and> pub_inv k t \<and> evolves s t \<and> ps_sent t = ps_sent s"
proof -
  define e where "e = new_epoch k chainID uri from to rows coverage fh x"
  define n where "n = epoch_seq (ps_db s)"
  define u where "u = s\<lparr>ps_db := snd (CreateEpoch e rows coverage (ps_db s))\<rparr>"
  have ef: "ep_root e = Root (Build k (map el_leaf rows))" "ep_coverage_root e = coverageRoot k coverage"
    "ep_from e = lower_from coverage from" "ep_to e = to" "ep_chain e = chainID" "ep_status e = EpochBuilt" "ep_uri e = uri"
    by (simp_all add: e_def new_epoch_def)
  note g = good_CreateEpoch [OF cov rows ef(1-5) u_def inv, folded n_def]
  have b: "built_row e rows = e" unfolding e_def by (rule built_new_epoch)
  have ru: "row u n = Some e" using g(2) by (simp add: b)
  define v where "v = u\<lparr>ps_db := SetEpochURI n (URI uri chainID n) (ps_db u)\<rparr>"
  have "step_at k n u v"
    unfolding v_def SetEpochURI_def
    by (rule step_at_update [where e = e]) (simp_all add: ru ef epoch_move.uri call_of_def, simp add: e_def new_epoch_def)
  then have gv: "pub_inv k v" "evolves u v" using g(6) by (auto simp: step_at_def good_def)
  have rv: "row v n = Some (e\<lparr>ep_uri := URI uri chainID n\<rparr>)" using ru by (simp add: v_def SetEpochURI_def row_update)
  have lv: "EachEpochLeaf n (ps_db v) = rows" "EpochCoverageOf n (ps_db v) = coverage"
    using g(3,4) by (simp_all add: v_def SetEpochURI_def update_epoch_def EachEpochLeaf_def EpochCoverageOf_def)
  have sent: "ps_sent u = ps_sent s" "ps_sent v = ps_sent s" by (simp_all add: u_def v_def)
  have rec': "(if URI uri chainID n \<noteq> uri then (Inr (n, e\<lparr>ep_uri := URI uri chainID n\<rparr>), v) else (Inr (n, e), u)) = (r, t)"
  proof -
    obtain db' where c: "CreateEpoch e rows coverage (ps_db s) = (Some n, db')"
      using g(1) by (cases "CreateEpoch e rows coverage (ps_db s)") simp
    have "record_epoch e rows coverage s = (if URI uri chainID n \<noteq> uri then (Inr (n, e\<lparr>ep_uri := URI uri chainID n\<rparr>), v) else (Inr (n, e), u))"
      by (simp add: record_epoch_def bind_def c ef store_def ret_def u_def v_def Let_def)
    then show ?thesis using rec by (simp add: e_def)
  qed
  have eu: "e\<lparr>ep_uri := w\<rparr> = new_epoch k chainID w from to rows coverage fh x" for w by (simp add: e_def new_epoch_def)
  show ?thesis
  proof (cases "URI uri chainID n = uri")
    case True
    then show ?thesis using rec' ru g sent e_def by auto
  next
    case False
    then show ?thesis using rec' rv lv gv sent g(5) evolves_trans [OF g(7) gv(2)] by (auto simp: eu)
  qed
qed

text \<open>What a run of \<open>Build\<close> that was not refused has seen and done.\<close>

definition built_from ::
  "hashfn \<Rightarrow> PublisherOpts \<Rightarrow> nat \<Rightarrow> string \<Rightarrow> bool \<Rightarrow> 'a epoch_db_scheme \<Rightarrow> nat \<Rightarrow> Epoch \<Rightarrow> EpochLeaf list \<Rightarrow> EpochCoverage list \<Rightarrow> bool" where
  "built_from k opt chainID uri force db eid e rows coverage \<longleftrightarrow>
     (let (from, to) = CoverageRange chainID db; sets = SnapshotIndex chainID to db
      in checkTrusted chainID db = None \<and> sets \<noteq> [] \<and> rows = epoch_leaf_rows k chainID sets
       \<and> coverage = CoverageFromCursors k chainID (ListCursors chainID db) to
       \<and> (force \<or> LatestCommittedRoots chainID db \<noteq> Some (ep_root e, ep_coverage_root e))
       \<and> (\<exists>fh x. e = new_epoch k chainID (URI uri chainID eid) from to rows coverage fh x
            \<and> (\<forall>m. pu_min_reward opt = Some m \<longrightarrow> m \<le> 0 \<or> m \<le> int x)))"

lemma BuildEpoch_outcome:
  assumes inv: "pub_inv k s" and run: "BuildEpoch k ops sz env opt chainID uri force s = (r, t)"
  shows "(\<exists>err. r = Inl err \<and> quiet s t) \<or>
    (\<exists>eid e rows coverage. r = Inr (eid, e) \<and> built_from k opt chainID uri force (ps_db s) eid e rows coverage
      \<and> row s eid = None \<and> row t eid = Some e \<and> EachEpochLeaf eid (ps_db t) = rows \<and> EpochCoverageOf eid (ps_db t) = coverage
      \<and> pub_inv k t \<and> evolves s t)"
    (is "?refused \<or> ?built")
proof -
  obtain "from" to where ft: "CoverageRange chainID (ps_db s) = (from, to)" by force
  define sets where "sets = SnapshotIndex chainID to (ps_db s)"
  define rows where "rows = epoch_leaf_rows k chainID sets"
  define cursors where "cursors = ListCursors chainID (ps_db s)"
  define coverage where "coverage = CoverageFromCursors k chainID cursors to"
  define root where "root = Root (Build k (map el_leaf rows))"
  have "tables_ok (ps_db s)" using inv by (simp add: pub_inv_def)
  then have srt: "sorted_wrt (<) (map fst cursors)" and ok: "sets_ok sets"
    using ListCursors_sorted SnapshotIndex_ok by (auto simp: cursors_def sets_def tables_ok_def)
  have qs: "quiet s s" by (rule quiet.R_refl)
  have range: "from \<le> to" if "sets \<noteq> []" using range_ordered [OF ft] that by (simp add: sets_def)
  consider (no) err where "r = Inl err" "t = s"
    | (yes) fh where "checkTrusted chainID (ps_db s) = None" "sets \<noteq> []"
        "force \<or> LatestCommittedRoots chainID (ps_db s) \<noteq> Some (root, coverageRoot k coverage)"
        "bind (expectedReward env coverage) (\<lambda>expected.
           if (case pu_min_reward opt of None \<Rightarrow> False | Some m \<Rightarrow> m > 0 \<and> int expected < m) then throw ErrUnfunded
           else record_epoch (new_epoch k chainID uri from to rows coverage fh expected) rows coverage) s = (r, t)"
    using run unfolding root_def coverage_def cursors_def rows_def sets_def
    by (auto simp: BuildEpoch_def ft Let_def throw_def split: option.splits if_splits sum.splits)
  then show ?thesis
  proof cases
    case no
    with qs show ?thesis by blast
  next
    case yes
    obtain rr u where ex: "expectedReward env coverage s = (rr, u)" by force
    with keepsD [OF quiet_expectedReward, of s env coverage] have q: "quiet s u" by simp
    have inv': "pub_inv k u" and db: "ps_db u = ps_db s" using pub_inv_quiet [OF q inv] q by (auto simp: quiet_def)
    show ?thesis
    proof (cases rr)
      case (Inl err)
      with yes(4) ex q show ?thesis by (auto simp: bind_def)
    next
      case (Inr x)
      show ?thesis
      proof (cases "case pu_min_reward opt of None \<Rightarrow> False | Some m \<Rightarrow> m > 0 \<and> int x < m")
        case True
        with yes(4) ex q Inr show ?thesis by (auto simp: bind_def throw_def)
      next
        case False
        with yes(4) ex Inr have "record_epoch (new_epoch k chainID uri from to rows coverage fh x) rows coverage u = (r, t)"
          by (simp add: bind_def)
        from record_epoch_ok [OF coverage_def srt inv' rows_def ok yes(2) range [OF yes(2)] this] obtain eid e where
          e: "r = Inr (eid, e)" "row u eid = None" "row t eid = Some e" "e = new_epoch k chainID (URI uri chainID eid) from to rows coverage fh x"
            "EachEpochLeaf eid (ps_db t) = rows" "EpochCoverageOf eid (ps_db t) = coverage" "pub_inv k t" "evolves u t" by blast
        have "ep_root e = root" "ep_coverage_root e = coverageRoot k coverage" by (simp_all add: e(4) new_epoch_def root_def)
        moreover have "\<exists>fh x. e = new_epoch k chainID (URI uri chainID eid) from to rows coverage fh x
            \<and> (\<forall>m. pu_min_reward opt = Some m \<longrightarrow> m \<le> 0 \<or> m \<le> int x)"
          using False by (intro exI [of _ fh] exI [of _ x]) (auto simp: e(4))
        ultimately have "built_from k opt chainID uri force (ps_db s) eid e rows coverage"
          using yes(1-3) by (simp add: built_from_def ft sets_def [symmetric] cursors_def [symmetric] rows_def [symmetric] coverage_def [symmetric])
        moreover have "evolves s t" using e(8) quiet_row [OF q] db by (simp add: evolves_def)
        ultimately show ?thesis using e quiet_row [OF q] by auto
      qed
    qed
  qed
qed

lemma good_BuildEpoch: "good k s (snd (BuildEpoch k ops sz env opt chainID uri force s))"
  unfolding good_def
proof
  assume inv: "pub_inv k s"
  obtain r t where run: "BuildEpoch k ops sz env opt chainID uri force s = (r, t)" by force
  from BuildEpoch_outcome [OF inv run] show "pub_inv k (snd (BuildEpoch k ops sz env opt chainID uri force s))
      \<and> evolves s (snd (BuildEpoch k ops sz env opt chainID uri force s))"
    using inv pub_inv_quiet [of s t k] by (auto simp: run evolves_def quiet_row) (simp_all add: quiet_def)
qed

section \<open>Runs of the publisher\<close>

text \<open>Between the operations of the publisher the indexer may write anything to its own tables that
  their primary keys allow.\<close>

definition same_epochs :: "'a epoch_db_scheme \<Rightarrow> 'a epoch_db_scheme \<Rightarrow> bool" where
  "same_epochs db db' \<longleftrightarrow> keys_unique (interactions db') \<and> keys_unique (asset_cursors db') \<and> epoch_seq db' = epoch_seq db \<and> epochs db' = epochs db
     \<and> epoch_leaves db' = epoch_leaves db \<and> epoch_coverage db' = epoch_coverage db"

inductive pub_step ::
  "hashfn \<Rightarrow> fuse_ops \<Rightarrow> sizing \<Rightarrow> 'a epoch_db_scheme pub_state \<Rightarrow> 'a epoch_db_scheme pub_state \<Rightarrow> bool" for k ops sz where
  index: "same_epochs (ps_db s) db' \<Longrightarrow> pub_step k ops sz s (s\<lparr>ps_db := db'\<rparr>)"
| build: "pub_step k ops sz s (snd (BuildEpoch k ops sz env opt chainID uri force s))"
| publish: "pub_step k ops sz s (snd (Publish env eid s))"
| settle: "pub_step k ops sz s (snd (settleTick k env opt chainID s))"
| tick: "pub_step k ops sz s (snd (buildTick k ops sz env opt chainID uri s))"

definition no_epochs :: "'a epoch_db_scheme pub_state \<Rightarrow> bool" where
  "no_epochs s \<longleftrightarrow> keys_unique (interactions (ps_db s)) \<and> keys_unique (asset_cursors (ps_db s)) \<and> epochs (ps_db s) = [] \<and> epoch_leaves (ps_db s) = [] \<and> epoch_coverage (ps_db s) = [] \<and> ps_sent s = []"

lemma pub_inv_init: "no_epochs s \<Longrightarrow> pub_inv k s"
  by (simp add: no_epochs_def pub_inv_def tables_ok_def keys_unique_def row_def submitted_calls_def publishes_def claims_ok_def)

lemma good_index: "same_epochs (ps_db s) db' \<Longrightarrow> good k s (s\<lparr>ps_db := db'\<rparr>)"
  by (auto simp: good_def same_epochs_def pub_inv_def tables_ok_def claims_ok_def row_def evolves_def backed_def
    EachEpochLeaf_def EpochCoverageOf_def)

lemma keeps_good:
  "keeps (good k) (ResumePending env opt chainID)" "keeps (good k) (FinalizeDue env opt chainID)"
  "keeps (good k) (ClaimDue k env chainID)" "keeps (good k) (Publish env eid)"
  "keeps (good k) (BuildEpoch k ops sz env opt chainID uri force)"
  by (intro keepsI good_ResumePending good_FinalizeDue good_ClaimDue good_Publish good_BuildEpoch)+

lemma keeps_settleTick: "keeps (good k) (settleTick k env opt chainID)"
  unfolding settleTick_def
  by (rule good.keeps_bind [OF good.keeps_try [OF keeps_good(1)]])
    (auto split: sum.split intro!: good.keeps_ret good.keeps_bind good.keeps_try keeps_good)

lemma keeps_buildTick: "keeps (good k) (buildTick k ops sz env opt chainID uri)"
  unfolding buildTick_def
  by (rule good.keeps_bind [OF keeps_settleTick])
    (auto split: sum.split intro!: good.keeps_ret good.keeps_bind good.keeps_try keeps_good)

lemma pub_step_good: "pub_step k ops sz s t \<Longrightarrow> good k s t"
  by (induction rule: pub_step.induct) (auto intro: good_index keepsD [OF keeps_settleTick] keepsD [OF keeps_buildTick] keepsD [OF keeps_good(4)] keepsD [OF keeps_good(5)])

lemma pub_run_good: "(pub_step k ops sz)\<^sup>*\<^sup>* s t \<Longrightarrow> good k s t"
  by (induction rule: rtranclp_induct) (auto intro: good.R_refl good.R_trans pub_step_good)

lemma run_inv: "no_epochs s0 \<Longrightarrow> (pub_step k ops sz)\<^sup>*\<^sup>* s0 s \<Longrightarrow> pub_inv k s"
  using pub_run_good [of k ops sz s0 s] pub_inv_init [of s0 k] by (simp add: good_def)

lemma run_row:
  assumes "no_epochs s0" "(pub_step k ops sz)\<^sup>*\<^sup>* s0 s" "(pub_step k ops sz)\<^sup>*\<^sup>* s t" "row s i = Some e"
  shows "\<exists>e'. row t i = Some e' \<and> epoch_move\<^sup>*\<^sup>* e e' \<and> row_ok e \<and> row_ok e' \<and> backed k (ps_db t) i e'
    \<and> EachEpochLeaf i (ps_db t) = EachEpochLeaf i (ps_db s) \<and> EpochCoverageOf i (ps_db t) = EpochCoverageOf i (ps_db s)"
proof -
  have "pub_inv k s" "pub_inv k t" using assms(1-3) by (auto intro: run_inv rtranclp_trans)
  moreover then have "evolves s t" using pub_run_good [OF assms(3)] by (simp add: good_def)
  ultimately show ?thesis using assms(4) by (auto simp: evolves_def pub_inv_def) blast
qed

text \<open>A submission fixes the pointer, a settled epoch cannot move except to be claimed, and a claimed one not at all.\<close>

lemma epoch_moves_uri: "epoch_move\<^sup>*\<^sup>* e e' \<Longrightarrow> ep_status e \<noteq> EpochBuilt \<Longrightarrow> ep_uri e' = ep_uri e \<and> ep_ref e' = ep_ref e"
proof (induction rule: rtranclp_induct)
  case (step y z)
  have "ep_status y \<noteq> EpochBuilt"
    using epoch_moves_stage [OF step.hyps(1)] step.prems by (auto simp: less_eq_epoch_status_def less_epoch_status_def)
  with step show ?case by (auto elim!: epoch_moveE)
qed simp

lemma epoch_moves_closed:
  "epoch_move\<^sup>*\<^sup>* e e' \<Longrightarrow> row_ok e \<Longrightarrow> ep_claimed_at e \<noteq> None \<or> ep_status e \<in> {EpochFailed, EpochRejected} \<Longrightarrow> e' = e"
proof (induction rule: rtranclp_induct)
  case (step y z)
  then have "y = e" by simp
  with step.hyps(2) step.prems show ?case by (cases rule: epoch_move.cases) (auto simp: row_ok_def)
qed simp

section \<open>A demonstration run\<close>

definition demo_onchain :: RegistryEpoch where
  "demo_onchain = \<lparr>re_chain = 5, re_from = 2, re_to = 9, re_root = 3, re_coverage_root = 3, re_uri = ''t/1'', re_publisher = 2,
     re_challenger = 0, re_bond = 10, re_published_at = 0, re_deadline = 60, re_status = RegFinalized, re_assertion = 0\<rparr>"

definition demo_env :: reg_env where
  "demo_env = \<lparr>rv_address = 1, rv_sender = 2, rv_published = Some 4, rv_rewarded = None, rv_reward_of = (\<lambda>_. None),
     rv_mode = (\<lambda>_. Inr \<lparr>mo_oracle = 0, mo_currency = 0, mo_arbiter = 3, mo_publisher_bond = 10, mo_asset_bond = 1, mo_window = 60\<rparr>),
     rv_epoch = (\<lambda>_ _. Inr demo_onchain), rv_claimable = (\<lambda>_ _ _ _. Inr 6), rv_allowance = (\<lambda>_ _ _ _. Inr 0),
     rv_simulate = (\<lambda>_ _ _. True), rv_submit = (\<lambda>_ _ _ _. Inr 11),
     rv_wait = (\<lambda>_ _. Inr \<lparr>rc_success = True, rc_tx = 12, rc_logs = [\<lparr>rl_address = 1, rl_topics = [4, 6], rl_data = []\<rparr>]\<rparr>),
     rv_now = (\<lambda>_. 0), rv_dbnow = (\<lambda>_. 0), rv_done = (\<lambda>_. False)\<rparr>"

definition demo_pub_opts :: PublisherOpts where
  "demo_pub_opts = \<lparr>pu_stale = 0, pu_slack = 0, pu_min_reward = Some 5\<rparr>"

definition demo_hint :: Asset where
  "demo_hint = \<lparr>as_standard = 20, as_symbol = [], as_name = [], as_decimals = None, as_hint_from = 0, as_registrant = None,
     as_registry_key = None, as_source = SourceOnchain, as_status = StatusLive, as_promoted = False, as_reports = 0,
     as_reported_at = None, as_report_reason = []\<rparr>"

definition demo_epoch_db :: epoch_db where
  "demo_epoch_db = \<lparr>interactions = [((5, 7, 9), \<lparr>ia_account = 7, ia_asset = 9, ia_first = 3, ia_last = 9, ia_count = 2, ia_roles = 1\<rparr>)],
     pending_events = [], chains = [], assets = [((5, 9), demo_hint)],
     asset_cursors = [((5, 9), \<lparr>cu_anchor = 8, cu_next = 0, cu_done = True, cu_tail = 20, cu_logs = 2, cu_floor = 2\<rparr>)],
     asset_demand = [], asset_demand_onchain = [], account_verdicts = [], user_state_heads = [],
     account_asset_commits = [], account_asset_commit_items = [], account_hints = [],
     epoch_seq = 1, epochs = [], epoch_leaves = [], epoch_coverage = [], registry_sync = []\<rparr>"

definition demo_pub :: "epoch_db pub_state" where
  "demo_pub = \<lparr>ps_db = demo_epoch_db, ps_calls = 0, ps_sent = []\<rparr>"

abbreviation demo_hash :: hashfn where
  "demo_hash \<equiv> (\<lambda>_. 3)"

definition demo_build :: "(pub_error + nat \<times> Epoch) \<times> epoch_db pub_state" where
  "demo_build = BuildEpoch demo_hash no_fuse demo_sizing demo_env demo_pub_opts 5 ''t/{id}'' False demo_pub"

lemma demo_digest: "indexFilterDigest demo_hash no_fuse demo_sizing 5 [\<lparr>set_account = 7, set_assets = [9]\<rparr>] 9 = Inr 3"
proof -
  have w: "word_of_nat 5 = (5 :: u64)" "word_of_nat 9 = (9 :: u64)" by simp_all
  obtain f enc where "FromIndex demo_hash no_fuse demo_sizing 5 demo_sets 9 = Some (Inr (f, enc))" using demo_FromIndex by blast
  then show ?thesis unfolding indexFilterDigest_def w by (simp add: demo_sets_def)
qed

lemma demo_no_epochs: "no_epochs demo_pub"
  by (simp add: no_epochs_def demo_pub_def demo_epoch_db_def keys_unique_def)

definition demo_epoch :: Epoch where
  "demo_epoch = \<lparr>ep_chain = 5, ep_from = 2, ep_to = 9, ep_root = 3, ep_coverage_root = 3, ep_leaf_count = 1, ep_uri = ''t/1'',
     ep_onchain = None, ep_tx = None, ep_status = EpochBuilt, ep_ref = None, ep_submitted_at = None, ep_expected = ''6'',
     ep_claim_tx = None, ep_claimed_at = None, ep_reward = [], ep_filter = 3\<rparr>"

definition demo_db :: "Epoch \<Rightarrow> epoch_db" where
  "demo_db e = demo_epoch_db\<lparr>epoch_seq := 2, epochs := [(1, e)],
     epoch_leaves := [((1, 0), \<lparr>el_index = 0, el_account = 7, el_assets_hash = 3, el_leaf = 3, el_assets = [9]\<rparr>)],
     epoch_coverage := [((1, 0), \<lparr>cv_index = 0, cv_asset = 9, cv_key = 3, cv_from = 2, cv_to = 9, cv_leaf = 3\<rparr>)]\<rparr>"

lemma demo_build_eq: "demo_build = (Inr (1, demo_epoch), \<lparr>ps_db = demo_db demo_epoch, ps_calls = 1, ps_sent = []\<rparr>)"
proof -
  have cr: "CoverageRange 5 demo_epoch_db = (3, 9)" by (simp add: CoverageRange_def demo_epoch_db_def)
  have si: "SnapshotIndex 5 9 demo_epoch_db = [\<lparr>set_account = 7, set_assets = [9]\<rparr>]"
    by (simp add: SnapshotIndex_def demo_epoch_db_def Let_def)
  have lc: "ListCursors 5 demo_epoch_db = [(9, \<lparr>cu_anchor = 8, cu_next = 0, cu_done = True, cu_tail = 20, cu_logs = 2, cu_floor = 2\<rparr>)]"
    by (simp add: ListCursors_def demo_epoch_db_def demo_hint_def)
  have ct: "checkTrusted 5 demo_epoch_db = None" by (simp add: checkTrusted_def GetChainProfile_def demo_epoch_db_def)
  have lr: "LatestCommittedRoots 5 demo_epoch_db = None" by (simp add: LatestCommittedRoots_def queryEpochs_def demo_epoch_db_def)
  have ds: "dec_string (Suc 0) = ''1''" "dec_string 6 = ''6''" by code_simp+
  have tb: "epoch_seq demo_epoch_db = 1" "epochs demo_epoch_db = []" "epoch_leaves demo_epoch_db = []" "epoch_coverage demo_epoch_db = []"
    by (simp_all add: demo_epoch_db_def)
  have hashes: "Root (Build demo_hash [x]) = x" "AssetsHash demo_hash as = 3" "LeafHash demo_hash a c h = 3"
    "CoverageLeaf demo_hash key x1 x2 = 3" "AssetKey demo_hash n a = 3" for x as a c h key x1 x2 n
    by (simp_all add: Build_def Root_def build_levels.simps AssetsHash_def LeafHash_def CoverageLeaf_def AssetKey_def)
  show ?thesis
    unfolding demo_build_def BuildEpoch_def bind_query
    by (simp add: demo_pub_def cr si lc ct lr demo_digest CoverageFromCursors_def cursor_range_def expectedReward_def call_def demo_env_def
      demo_pub_opts_def record_epoch_def bind_def ask_def ret_def CreateEpoch_def tb keys_unique_def new_epoch_def epoch_leaf_rows_def
      coverage_entry_def lower_from_def store_def Let_def ds hashes coverageRoot_def demo_epoch_def demo_db_def SetEpochURI_def
      update_epoch_def update_row_def built_row_def)
qed

lemma demo_run: "(pub_step demo_hash no_fuse demo_sizing)\<^sup>*\<^sup>* demo_pub (snd demo_build)"
  unfolding demo_build_def by (intro r_into_rtranclp pub_step.build)

definition demo_published :: "epoch_db pub_state" where
  "demo_published = snd (Publish demo_env 1 (snd demo_build))"

lemma demo_run_published: "(pub_step demo_hash no_fuse demo_sizing)\<^sup>*\<^sup>* (snd demo_build) demo_published"
  unfolding demo_published_def by (intro r_into_rtranclp pub_step.publish)

lemma demo_row: "\<exists>e. fst demo_build = Inr (1, e) \<and> row (snd demo_build) 1 = Some e \<and> ep_status e = EpochBuilt \<and> ep_uri e = ''t/1''"
  by (simp add: demo_build_eq row_def demo_db_def demo_epoch_def)

definition demo_claimed :: "epoch_db pub_state" where
  "demo_claimed = snd (settleTick demo_hash demo_env demo_pub_opts 5 demo_published)"

lemma demo_published_eq: "demo_published = \<lparr>ps_db = demo_db (demo_epoch\<lparr>ep_status := EpochPublished, ep_ref := Some 11,
    ep_submitted_at := Some 0, ep_onchain := Some 6, ep_tx := Some 12\<rparr>), ps_calls = 6, ps_sent = [(1, 10, publish_call demo_epoch)]\<rparr>"
  by (simp add: demo_published_def Publish_def demo_build_eq demo_db_def GetEpoch_def demo_epoch_def bind_def query_def call_def ask_def ret_def
    OracleMode_def demo_env_def submit_def store_def MarkSubmitted_def MarkPublished_def update_epoch_def update_row_def settle_def
    epochIDFromReceipt_def publish_call_def)

lemma demo_claim_sent: "(1, 0, ClaimCoverage 6 [\<lparr>cl_key = 3, cl_from = 2, cl_to = 9, cl_proof = []\<rparr>]) \<in> set (ps_sent demo_claimed)"
proof -
  have pf: "Proof (Build demo_hash [3]) 0 = Inr []" by (simp add: Build_def Proof_def build_levels.simps)
  show ?thesis
    by (simp add: demo_claimed_def settleTick_def demo_published_eq ResumePending_def FinalizeDue_def ClaimDue_def PendingSubmissions_def
      PublishedUnfinalized_def UnclaimedFinalized_def queryEpochs_def demo_db_def demo_epoch_def bind_def try_pub_def query_def call_def ask_def
      ret_def demo_env_def demo_onchain_def finalize_one_def store_def SetEpochStatus_def update_epoch_def update_row_def claim_one_def
      EpochCoverageOf_def claim_coverage_def claim_send_def submit_def pf Let_def)
qed

lemma demo_run_claimed: "(pub_step demo_hash no_fuse demo_sizing)\<^sup>*\<^sup>* demo_pub demo_claimed"
  unfolding demo_claimed_def
  by (rule rtranclp.rtrancl_into_rtrancl [OF rtranclp_trans [OF demo_run demo_run_published] pub_step.settle])

section \<open>Serving proofs\<close>

lemma set_EachEpochLeaf: "set (EachEpochLeaf i db) = {l. \<exists>j. ((i, j), l) \<in> set (epoch_leaves db)}"
  by (force simp: EachEpochLeaf_def image_iff)

lemma distinct_SnapshotIndex: "distinct (map set_account (SnapshotIndex chainID to db))"
  by (simp add: SnapshotIndex_def Let_def comp_def)

lemma EpochLeafFor_unique:
  assumes "distinct (map el_account (EachEpochLeaf i db))" "l \<in> set (EachEpochLeaf i db)"
  shows "EpochLeafFor i (el_account l) db = Inr l"
proof -
  define P where "P p \<longleftrightarrow> fst (fst p) = i \<and> el_account (snd p) = el_account l" for p :: "(nat \<times> nat) \<times> EpochLeaf"
  have f: "EpochLeafFor i (el_account l) db = (case find P (epoch_leaves db) of None \<Rightarrow> Inl ErrNotFound | Some p \<Rightarrow> Inr (snd p))"
    by (simp add: EpochLeafFor_def split_def P_def [abs_def] split: option.split)
  obtain j where "((i, j), l) \<in> set (epoch_leaves db)" using assms(2) by (auto simp: set_EachEpochLeaf)
  moreover have "P ((i, j), l)" by (simp add: P_def)
  ultimately obtain p where p: "find P (epoch_leaves db) = Some p" by (metis find_None_iff not_None_eq)
  then have "P p" "p \<in> set (epoch_leaves db)" by (auto simp: find_Some_iff)
  then have "snd p \<in> set (EachEpochLeaf i db)" "el_account (snd p) = el_account l"
    by (auto simp: set_EachEpochLeaf P_def) (metis prod.collapse)
  then have "snd p = l" using assms by (auto simp: distinct_map dest: inj_onD)
  then show ?thesis by (simp add: f p)
qed

lemma EpochProofFor_leaf:
  assumes "EachEpochLeaf i db = rows" "distinct (map el_account rows)" "j < length rows" "el_index (rows ! j) = j"
  shows "\<exists>pr. EpochProofFor k i (el_account (rows ! j)) db = Inr (rows ! j, pr)
    \<and> Verify k (Root (Build k (map el_leaf rows))) (el_leaf (rows ! j)) pr"
proof -
  have l: "EpochLeafFor i (el_account (rows ! j)) db = Inr (rows ! j)" by (rule EpochLeafFor_unique) (use assms in simp_all)
  have m: "map el_leaf (EpochLeaves i db) = map el_leaf rows" by (simp add: EpochLeaves_def assms(1) comp_def)
  show ?thesis
    using Proof_Build [of j "map el_leaf rows" k] assms(3,4) by (auto simp: EpochProofFor_def l m)
qed

section \<open>Properties\<close>

text \<open>C8: However the publisher is run, whatever the registry answers and whatever the indexer writes
  in between, a stored epoch never changes what it commits to; its status only moves forward from
  built over submitted and published to one outcome; its pointer and its submission are fixed once
  it was submitted and its identifier on-chain once it has one; a failed, rejected or claimed epoch
  is never touched again.\<close>

theorem epoch_lifecycle:
  assumes "no_epochs s0" "(pub_step k ops sz)\<^sup>*\<^sup>* s0 s" "(pub_step k ops sz)\<^sup>*\<^sup>* s t" "row s i = Some e"
  shows "\<exists>e'. row t i = Some e' \<and> commits e' = commits e \<and> ep_status e \<le> ep_status e'
    \<and> (ep_status e \<noteq> EpochBuilt \<longrightarrow> ep_uri e' = ep_uri e \<and> ep_ref e' = ep_ref e)
    \<and> (ep_onchain e \<noteq> None \<longrightarrow> ep_onchain e' = ep_onchain e)
    \<and> (ep_claimed_at e \<noteq> None \<or> ep_status e \<in> {EpochFailed, EpochRejected} \<longrightarrow> e' = e)"
proof -
  obtain e' where e': "row t i = Some e'" "epoch_move\<^sup>*\<^sup>* e e'" "row_ok e" using run_row [OF assms] by blast
  then show ?thesis
    using epoch_moves_commits [OF e'(2)] epoch_moves_stage [OF e'(2)] epoch_moves_uri [OF e'(2)]
      epoch_moves_onchain [OF e'(2,3)] epoch_moves_closed [OF e'(2,3)] by fastforce
qed

theorem epoch_lifecycle_witness:
  "\<exists>e e'. row (snd demo_build) 1 = Some e \<and> ep_status e = EpochBuilt \<and> row demo_published 1 = Some e' \<and> commits e' = commits e"
  using demo_row epoch_lifecycle [OF demo_no_epochs demo_run demo_run_published] by blast

text \<open>C7: The \<open>publishIndex\<close> transactions that were sent are exactly those of the epochs past the built
  state, one for each, with the roots, the block range and the pointer the epoch is stored with:
  no interruption, failure or restart of a wait makes the publisher bond the same epoch twice.\<close>

theorem one_publication_per_epoch:
  assumes "no_epochs s0" "(pub_step k ops sz)\<^sup>*\<^sup>* s0 t"
  shows "mset (publishes (ps_sent t)) = mset (map (publish_call \<circ> snd) (filter (\<lambda>(i, e). ep_status e \<noteq> EpochBuilt) (epochs (ps_db t))))
    \<and> distinct (map fst (epochs (ps_db t)))"
proof -
  have inv: "pub_inv k t" using run_inv [OF assms] .
  then have u: "distinct (map fst (epochs (ps_db t)))" by (simp add: pub_inv_def tables_ok_def keys_unique_def)
  have "(case p of (i, e) \<Rightarrow> ep_ref e \<noteq> None) = (case p of (i, e) \<Rightarrow> ep_status e \<noteq> EpochBuilt)" if "p \<in> set (epochs (ps_db t))" for p
  proof -
    obtain i e where p: "p = (i, e)" by force
    with that u have "row t i = Some e" by (simp add: row_def)
    with inv have "row_ok e" by (simp add: pub_inv_def)
    then show ?thesis by (auto simp: p row_ok_def)
  qed
  then have "filter (\<lambda>(i, e). ep_ref e \<noteq> None) (epochs (ps_db t)) = filter (\<lambda>(i, e). ep_status e \<noteq> EpochBuilt) (epochs (ps_db t))"
    by (rule filter_cong [OF refl])
  then show ?thesis using inv u by (simp add: pub_inv_def submitted_calls_def)
qed

theorem one_publication_per_epoch_witness:
  "mset (publishes (ps_sent demo_published)) = mset (map (publish_call \<circ> snd) (filter (\<lambda>(i, e). ep_status e \<noteq> EpochBuilt) (epochs (ps_db demo_published))))"
  using one_publication_per_epoch [OF demo_no_epochs rtranclp_trans [OF demo_run demo_run_published]] by simp

text \<open>Every coverage claim that was ever sent names a finalized epoch of this publisher and carries,
  for each asset range it claims, a path that verifies against the coverage root stored with that
  epoch.\<close>

theorem claims_carry_valid_proofs:
  assumes "no_epochs s0" "(pub_step k ops sz)\<^sup>*\<^sup>* s0 t" "(a, v, ClaimCoverage oc cls) \<in> set (ps_sent t)"
  shows "\<exists>i e. row t i = Some e \<and> ep_onchain e = Some oc \<and> ep_status e = EpochFinalized \<and> cls \<noteq> []
    \<and> (\<forall>c \<in> set cls. Verify k (ep_coverage_root e) (CoverageLeaf k (cl_key c) (word_of_nat (cl_from c)) (word_of_nat (cl_to c))) (cl_proof c))"
proof -
  have "ClaimCoverage oc cls \<in> (snd \<circ> snd) ` set (ps_sent t)" using assms(3) by force
  then show ?thesis using run_inv [OF assms(1,2)] unfolding pub_inv_def claims_ok_def claim_ok_def by blast
qed

theorem claims_carry_valid_proofs_witness:
  "\<exists>i e. row demo_claimed i = Some e \<and> ep_onchain e = Some 6 \<and> ep_status e = EpochFinalized"
  using claims_carry_valid_proofs [OF demo_no_epochs demo_run_claimed demo_claim_sent] by blast

text \<open>C9: Whenever \<open>Build\<close> has stored an epoch, then at any later time every account of the index at
  that block gets its leaf, with exactly the contracts it had in the snapshot, and a path that
  verifies against the root the epoch committed to.\<close>

theorem committed_accounts_provable:
  assumes "no_epochs s0" "(pub_step k ops sz)\<^sup>*\<^sup>* s0 s" "BuildEpoch k ops sz env opt chainID uri force s = (Inr (eid, e), t)"
    and "(pub_step k ops sz)\<^sup>*\<^sup>* t u" "x \<in> set (SnapshotIndex chainID (ep_to e) (ps_db s))"
  shows "\<exists>leaf pr e'. EpochProofFor k eid (set_account x) (ps_db u) = Inr (leaf, pr)
    \<and> el_assets leaf = set_assets x \<and> el_leaf leaf = LeafHash k (set_account x) (word_of_nat chainID) (AssetsHash k (set_assets x))
    \<and> row u eid = Some e' \<and> ep_root e' = ep_root e \<and> Verify k (ep_root e) (el_leaf leaf) pr"
proof -
  define sets where "sets = SnapshotIndex chainID (ep_to e) (ps_db s)"
  define rows where "rows = epoch_leaf_rows k chainID sets"
  have inv: "pub_inv k s" by (rule run_inv [OF assms(1,2)])
  from BuildEpoch_outcome [OF inv assms(3)] have b: "row t eid = Some e" "EachEpochLeaf eid (ps_db t) = rows"
    "ep_root e = Root (Build k (map el_leaf rows))"
    by (auto simp: built_from_def Let_def rows_def sets_def new_epoch_def split: prod.splits)
  have "(pub_step k ops sz)\<^sup>*\<^sup>* s0 t"
    using assms(2) pub_step.build [of k ops sz s env opt chainID uri force] assms(3) by simp
  from run_row [OF assms(1) this assms(4) b(1)] obtain e' where
    e': "row u eid = Some e'" "epoch_move\<^sup>*\<^sup>* e e'" "EachEpochLeaf eid (ps_db u) = rows" using b(2) by auto
  obtain j where j: "j < length sets" "sets ! j = x" using assms(5) by (auto simp: in_set_conv_nth sets_def)
  have "map el_account rows = map set_account sets"
    by (rule nth_equalityI) (simp_all add: rows_def nth_epoch_leaf_rows)
  then have "distinct (map el_account rows)" using distinct_SnapshotIndex by (simp add: sets_def)
  from EpochProofFor_leaf [OF e'(3) this, of j k] obtain pr where
    "EpochProofFor k eid (el_account (rows ! j)) (ps_db u) = Inr (rows ! j, pr)"
    "Verify k (Root (Build k (map el_leaf rows))) (el_leaf (rows ! j)) pr"
    using j by (auto simp: rows_def nth_epoch_leaf_rows)
  moreover have "ep_root e' = ep_root e" using epoch_moves_commits [OF e'(2)] by (simp add: commits_def)
  ultimately show ?thesis
    using j e'(1) by (intro exI [of _ "rows ! j"] exI [of _ pr] exI [of _ e']) (simp add: b(3) rows_def nth_epoch_leaf_rows)
qed

theorem committed_accounts_provable_witness:
  "\<exists>leaf pr. EpochProofFor demo_hash 1 7 (ps_db demo_claimed) = Inr (leaf, pr) \<and> el_assets leaf = [9] \<and> Verify demo_hash 3 (el_leaf leaf) pr"
proof -
  have run: "(pub_step demo_hash no_fuse demo_sizing)\<^sup>*\<^sup>* \<lparr>ps_db = demo_db demo_epoch, ps_calls = 1, ps_sent = []\<rparr> demo_claimed"
    using rtranclp.rtrancl_into_rtrancl [OF demo_run_published pub_step.settle] by (simp add: demo_claimed_def demo_build_eq)
  have x: "\<lparr>set_account = 7, set_assets = [9]\<rparr> \<in> set (SnapshotIndex 5 (ep_to demo_epoch) (ps_db demo_pub))"
    by (simp add: SnapshotIndex_def demo_pub_def demo_epoch_db_def demo_epoch_def)
  from committed_accounts_provable [OF demo_no_epochs rtranclp.rtrancl_refl demo_build_eq [unfolded demo_build_def] run x] show ?thesis
    by (auto simp: demo_epoch_def)
qed

text \<open>\<open>Build\<close> stores nothing when it refuses, and it refuses a chain that is not verified whatever
  the caller forces, a chain with nothing indexed, and, unless forced, a commitment equal to the
  last one. When it answers with an epoch, the chain is trusted (or has no profile), that epoch is
  stored under a new identifier, its coverage lies inside its block range and the quoted reward
  reaches the configured minimum.\<close>

theorem Build_refusals:
  assumes "no_epochs s0" "(pub_step k ops sz)\<^sup>*\<^sup>* s0 s" "BuildEpoch k ops sz env opt chainID uri force s = (r, t)"
  shows "(\<forall>err. r = Inl err \<longrightarrow> ps_db t = ps_db s \<and> publishes (ps_sent t) = publishes (ps_sent s))
    \<and> (\<forall>prof. GetChainProfile chainID (ps_db s) = Inr prof \<and> ch_trust prof \<noteq> TrustVerified \<longrightarrow> r = Inl (ErrUntrusted (ch_trust prof)))
    \<and> (\<forall>eid e. r = Inr (eid, e) \<longrightarrow>
        GetEpoch eid (ps_db t) = Inr e \<and> row s eid = None \<and> ep_status e = EpochBuilt
        \<and> SnapshotIndex chainID (ep_to e) (ps_db s) \<noteq> []
        \<and> (force \<or> LatestCommittedRoots chainID (ps_db s) \<noteq> Some (ep_root e, ep_coverage_root e))
        \<and> (\<forall>c \<in> set (EpochCoverageOf eid (ps_db t)). ep_from e \<le> cv_from c \<and> cv_from c \<le> cv_to c \<and> cv_to c \<le> ep_to e)
        \<and> (\<exists>x. ep_expected e = dec_string x \<and> (\<forall>m. pu_min_reward opt = Some m \<longrightarrow> m \<le> 0 \<or> m \<le> int x)))"
proof -
  have inv: "pub_inv k s" by (rule run_inv [OF assms(1,2)])
  note out = BuildEpoch_outcome [OF inv assms(3)]
  have "publishes xs = publishes (filter tracked xs)" for xs
    by (induction xs) (auto simp: publishes_def split: reg_call.split)
  from this [of "ps_sent t"] this [of "ps_sent s"] have refused: "ps_db t = ps_db s \<and> publishes (ps_sent t) = publishes (ps_sent s)"
    if "r = Inl err" for err using out that by (auto simp: quiet_def)
  have untrusted: "r = Inl (ErrUntrusted (ch_trust prof))"
    if "GetChainProfile chainID (ps_db s) = Inr prof" "ch_trust prof \<noteq> TrustVerified" for prof
    using assms(3) that by (simp add: BuildEpoch_def checkTrusted_def throw_def)
  have built: "GetEpoch eid (ps_db t) = Inr e \<and> row s eid = None \<and> ep_status e = EpochBuilt
      \<and> SnapshotIndex chainID (ep_to e) (ps_db s) \<noteq> []
      \<and> (force \<or> LatestCommittedRoots chainID (ps_db s) \<noteq> Some (ep_root e, ep_coverage_root e))
      \<and> (\<forall>c \<in> set (EpochCoverageOf eid (ps_db t)). ep_from e \<le> cv_from c \<and> cv_from c \<le> cv_to c \<and> cv_to c \<le> ep_to e)
      \<and> (\<exists>x. ep_expected e = dec_string x \<and> (\<forall>m. pu_min_reward opt = Some m \<longrightarrow> m \<le> 0 \<or> m \<le> int x))"
    if "r = Inr (eid, e)" for eid e
  proof -
    from out that obtain rows coverage where b: "built_from k opt chainID uri force (ps_db s) eid e rows coverage"
      and st: "row s eid = None" "row t eid = Some e" "pub_inv k t" by auto
    have "\<forall>c \<in> set (EpochCoverageOf eid (ps_db t)). ep_from e \<le> cv_from c \<and> cv_from c \<le> cv_to c \<and> cv_to c \<le> ep_to e"
      using st by (auto simp: pub_inv_def backed_def cover_ok_def)
    moreover have "ep_status e = EpochBuilt \<and> SnapshotIndex chainID (ep_to e) (ps_db s) \<noteq> []
        \<and> (force \<or> LatestCommittedRoots chainID (ps_db s) \<noteq> Some (ep_root e, ep_coverage_root e))
        \<and> (\<exists>x. ep_expected e = dec_string x \<and> (\<forall>m. pu_min_reward opt = Some m \<longrightarrow> m \<le> 0 \<or> m \<le> int x))"
      using b by (auto simp: built_from_def new_epoch_def Let_def split: prod.splits)
    ultimately show ?thesis using st by (simp add: GetEpoch_def row_def)
  qed
  show ?thesis using refused untrusted built by blast
qed

theorem Build_refusals_witness:
  "GetEpoch 1 (ps_db (snd demo_build)) = Inr demo_epoch
   \<and> fst (BuildEpoch demo_hash no_fuse demo_sizing demo_env demo_pub_opts 5 [] True
       (demo_pub\<lparr>ps_db := demo_epoch_db\<lparr>chains := [(5, default_chain [])]\<rparr>\<rparr>)) = Inl (ErrUntrusted TrustUnverified)"
proof -
  let ?s = "demo_pub\<lparr>ps_db := demo_epoch_db\<lparr>chains := [(5, default_chain [])]\<rparr>\<rparr>"
  have s: "no_epochs ?s" by (simp add: no_epochs_def demo_pub_def demo_epoch_db_def keys_unique_def)
  have p: "GetChainProfile 5 (ps_db ?s) = Inr (default_chain [])" "ch_trust (default_chain []) = TrustUnverified"
    by (simp_all add: GetChainProfile_def default_chain_def)
  obtain r t where run: "BuildEpoch demo_hash no_fuse demo_sizing demo_env demo_pub_opts 5 [] True ?s = (r, t)" by force
  show ?thesis
    using Build_refusals [OF demo_no_epochs rtranclp.rtrancl_refl demo_build_eq [unfolded demo_build_def]]
      Build_refusals [OF s rtranclp.rtrancl_refl run] p run by (simp add: demo_build_eq)
qed

section \<open>Declared coverage\<close>

text \<open>The blocks of an asset the two workers have read, by its cursor: the backfiller from where it has
  come down to (its floor once it is done) up to the block below the anchor, the follower from the
  block above the anchor up to the tail.\<close>

definition backfilled :: "Cursor \<Rightarrow> nat set" where
  "backfilled c = {b. (if cu_done c then cu_floor c else cu_next c + 1) \<le> b \<and> b < cu_anchor c}"

definition followed :: "Cursor \<Rightarrow> nat set" where
  "followed c = {b. cu_anchor c < b \<and> b \<le> cu_tail c}"

text \<open>The block ranges an epoch declares as covered are, up to the block of the epoch, the blocks the
  workers have read, and the anchor block, which neither of them reads; right after its registration
  an asset is already declared covered on its anchor block alone.\<close>

theorem coverage_adds_anchor_block:
  assumes "(a, c) \<in> set cursors" "cu_anchor c \<le> cu_tail c" "cu_anchor c \<le> to" "0 < cu_anchor c"
    and "if cu_done c then cu_floor c \<le> cu_anchor c else cu_next c < cu_anchor c" "cu_anchor c < 2 ^ 64"
  shows "(\<exists>v \<in> set (CoverageFromCursors k chainID cursors to). cv_asset v = a \<and> cu_anchor c \<in> {cv_from v..cv_to v}
      \<and> {cv_from v..cv_to v} = insert (cu_anchor c) ((backfilled c \<union> followed c) \<inter> {..to}))
    \<and> cu_anchor c \<notin> backfilled c \<union> followed c"
proof -
  define lo hi where "lo = fst (cursor_range c to)" and "hi = snd (cursor_range c to)"
  have lh: "lo = (if cu_done c then cu_floor c else cu_next c + 1)" "hi = min (cu_tail c) to"
    using assms(5,6) by (auto simp: lo_def hi_def cursor_range_def Let_def)
  have "covered to (a, c)" using assms(2-5) by (auto simp: covered_def lo_def [symmetric] hi_def [symmetric] lh split: if_splits)
  then have "(a, c) \<in> set (filter (covered to) cursors)" using assms(1) by simp
  then obtain i where i: "i < length (filter (covered to) cursors)" "filter (covered to) cursors ! i = (a, c)"
    by (metis in_set_conv_nth)
  have "coverage_entry k chainID i a lo hi \<in> set (CoverageFromCursors k chainID cursors to)"
    unfolding CoverageFromCursors_eq lo_def hi_def list.set_map
    by (rule image_eqI [where x = "(i, a, c)"]) (use i in \<open>auto simp: in_set_enumerate_eq\<close>)
  moreover have "{lo..hi} = insert (cu_anchor c) ((backfilled c \<union> followed c) \<inter> {..to})"
    using assms(2-5) by (auto simp: lh backfilled_def followed_def split: if_splits)
  moreover have "cu_anchor c \<in> {lo..hi}" using assms(2-5) by (auto simp: lh split: if_splits)
  ultimately show ?thesis
    by (intro conjI bexI [of _ "coverage_entry k chainID i a lo hi"])
      (auto simp: coverage_entry_def Let_def backfilled_def followed_def)
qed

theorem coverage_adds_anchor_block_witness:
  "\<exists>v \<in> set (CoverageFromCursors demo_hash 5 [(9, fresh_cursor 8)] 20). cv_from v = 8 \<and> cv_to v = 8 \<and> backfilled (fresh_cursor 8) \<union> followed (fresh_cursor 8) = {}"
  using coverage_adds_anchor_block [of 9 "fresh_cursor 8" "[(9, fresh_cursor 8)]" 20 demo_hash 5]
  by (auto simp: fresh_cursor_def backfillStart_def backfilled_def followed_def CoverageFromCursors_def cursor_range_def coverage_entry_def Let_def)

end
