(* ===== verification/Snapshot.thy ===== *)
theory Snapshot
  imports Commitments
begin

text \<open>
  The table behind a commitment as a document: \<open>internal/snapshot\<close> (\<open>snapshot.go\<close>, \<open>restore.go\<close>) and
  the handler of \<open>internal/api/snapshot.go\<close> that writes it. A document is a header and a list of rows
  as the JSON decoder yields them, \<open>None\<close> for one that does not decode. The lemmas take a stored
  epoch out to a document, through verification, and back into an empty database, where building
  again gives the same two roots.
\<close>

section \<open>The format\<close>

definition snap_format :: string where
  "snap_format = ''evmscan-snapshot/1''"

record Header =
  hd_format :: string
  hd_chain :: nat
  hd_from :: nat
  hd_to :: nat
  hd_root :: hash
  hd_coverage_root :: hash
  hd_leaf_count :: int
  hd_asset_count :: int
  hd_onchain :: "int option"
  hd_registry :: "address option"
  hd_registry_chain :: nat

record snap_coverage =
  sc_asset :: address
  sc_from :: nat
  sc_to :: nat

record snap_leaf =
  sl_account :: address
  sl_assets :: "address list"

record line =
  ln_t :: string
  ln_asset :: "address option"
  ln_account :: "address option"
  ln_assets :: "address list"
  ln_from :: nat
  ln_to :: nat

type_synonym document = "Header option \<times> line option list"

definition NewWriter :: "Header \<Rightarrow> Header" where
  "NewWriter h = h\<lparr>hd_format := snap_format\<rparr>"

definition WriteCoverage :: "snap_coverage \<Rightarrow> line" where
  "WriteCoverage c = \<lparr>ln_t = ''coverage'', ln_asset = Some (sc_asset c), ln_account = None, ln_assets = [], ln_from = sc_from c, ln_to = sc_to c\<rparr>"

definition WriteLeaf :: "snap_leaf \<Rightarrow> line" where
  "WriteLeaf l = \<lparr>ln_t = ''leaf'', ln_asset = None, ln_account = Some (sl_account l), ln_assets = sl_assets l, ln_from = 0, ln_to = 0\<rparr>"

definition epoch_header :: "Epoch \<Rightarrow> nat \<Rightarrow> address option \<Rightarrow> nat \<Rightarrow> Header" where
  "epoch_header e ncov registry regChain =
     \<lparr>hd_format = [], hd_chain = ep_chain e, hd_from = ep_from e, hd_to = ep_to e, hd_root = ep_root e,
      hd_coverage_root = ep_coverage_root e, hd_leaf_count = int (ep_leaf_count e), hd_asset_count = int ncov,
      hd_onchain = ep_onchain e, hd_registry = registry, hd_registry_chain = regChain\<rparr>"

definition epochSnapshot :: "address option \<Rightarrow> nat \<Rightarrow> nat \<Rightarrow> 'a epoch_db_scheme \<Rightarrow> store_error + document" where
  "epochSnapshot registry regChain eid db =
     (case GetEpoch eid db of Inl err \<Rightarrow> Inl err
      | Inr e \<Rightarrow>
          let coverage = EpochCoverageOf eid db
          in Inr (Some (NewWriter (epoch_header e (length coverage) registry regChain)),
               map (\<lambda>c. Some (WriteCoverage \<lparr>sc_asset = cv_asset c, sc_from = cv_from c, sc_to = cv_to c\<rparr>)) coverage
               @ map (\<lambda>l. Some (WriteLeaf \<lparr>sl_account = el_account l, sl_assets = el_assets l\<rparr>)) (EachEpochLeaf eid db)))"

section \<open>Reading\<close>

datatype snap_error = SnapHeader | SnapFormat string | SnapRow nat | SnapDecode | SnapNoAsset nat | SnapOrder | SnapNoAccount nat
  | SnapUnknown string | SnapLeafCount int nat | SnapAssetCount int nat

record snap_result =
  rs_header :: Header
  rs_root :: hash
  rs_coverage_root :: hash
  rs_leaves :: nat
  rs_assets :: nat

definition Matches :: "snap_result \<Rightarrow> hash \<Rightarrow> hash \<Rightarrow> bool" where
  "Matches r idx cov \<longleftrightarrow> rs_root r = idx \<and> rs_coverage_root r = cov"

definition snap_asset_key :: "hashfn \<Rightarrow> nat \<Rightarrow> address \<Rightarrow> hash" where
  "snap_asset_key k chainID token = k (be_bytes 8 (word_of_nat chainID :: u64) @ addr_bytes token)"

definition snap_cover_hash :: "hashfn \<Rightarrow> nat \<Rightarrow> snap_coverage \<Rightarrow> hash" where
  "snap_cover_hash k chainID c = CoverageLeaf k (snap_asset_key k chainID (sc_asset c)) (word_of_nat (sc_from c)) (word_of_nat (sc_to c))"

definition snap_leaf_hash :: "hashfn \<Rightarrow> nat \<Rightarrow> snap_leaf \<Rightarrow> hash" where
  "snap_leaf_hash k chainID l = LeafHash k (sl_account l) (word_of_nat chainID) (AssetsHash k (sl_assets l))"

fun verify_rows ::
  "hashfn \<Rightarrow> nat \<Rightarrow> line option list \<Rightarrow> hash list \<Rightarrow> hash list \<Rightarrow> bool \<Rightarrow> snap_error + hash list \<times> hash list" where
  "verify_rows k chainID [] il cl seen = Inr (il, cl)"
| "verify_rows k chainID (None # rows) il cl seen = Inl (SnapRow (length il + length cl + 1))"
| "verify_rows k chainID (Some ln # rows) il cl seen =
     (if ln_t ln = ''coverage'' then
        (case ln_asset ln of None \<Rightarrow> Inl (SnapNoAsset (length cl + 1))
         | Some asset \<Rightarrow>
             if seen then Inl SnapOrder
             else verify_rows k chainID rows il
               (cl @ [snap_cover_hash k chainID \<lparr>sc_asset = asset, sc_from = ln_from ln, sc_to = ln_to ln\<rparr>]) seen)
      else if ln_t ln = ''leaf'' then
        (case ln_account ln of None \<Rightarrow> Inl (SnapNoAccount (length il + 1))
         | Some account \<Rightarrow> verify_rows k chainID rows
             (il @ [snap_leaf_hash k chainID \<lparr>sl_account = account, sl_assets = ln_assets ln\<rparr>]) cl True)
      else Inl (SnapUnknown (ln_t ln)))"

definition VerifySnapshot :: "hashfn \<Rightarrow> document \<Rightarrow> snap_error + snap_result" where
  "VerifySnapshot k doc =
     (case fst doc of None \<Rightarrow> Inl SnapHeader
      | Some h \<Rightarrow>
          if hd_format h \<noteq> snap_format then Inl (SnapFormat (hd_format h))
          else case verify_rows k (hd_chain h) (snd doc) [] [] False of Inl err \<Rightarrow> Inl err
          | Inr (il, cl) \<Rightarrow>
              if hd_leaf_count h \<noteq> 0 \<and> hd_leaf_count h \<noteq> int (length il) then Inl (SnapLeafCount (hd_leaf_count h) (length il))
              else if hd_asset_count h \<noteq> 0 \<and> hd_asset_count h \<noteq> int (length cl) then Inl (SnapAssetCount (hd_asset_count h) (length cl))
              else Inr \<lparr>rs_header = h, rs_root = (if il \<noteq> [] then Root (Build k il) else 0),
                        rs_coverage_root = (if cl \<noteq> [] then Root (Build k cl) else 0),
                        rs_leaves = length il, rs_assets = length cl\<rparr>)"

fun read_rows :: "line option list \<Rightarrow> snap_coverage list \<Rightarrow> snap_leaf list \<Rightarrow> snap_error + snap_coverage list \<times> snap_leaf list" where
  "read_rows [] cov leaves = Inr (cov, leaves)"
| "read_rows (None # rows) cov leaves = Inl SnapDecode"
| "read_rows (Some ln # rows) cov leaves =
     (if ln_t ln = ''coverage'' then
        (case ln_asset ln of None \<Rightarrow> Inl (SnapNoAsset (length cov + 1))
         | Some asset \<Rightarrow> read_rows rows (cov @ [\<lparr>sc_asset = asset, sc_from = ln_from ln, sc_to = ln_to ln\<rparr>]) leaves)
      else if ln_t ln = ''leaf'' then
        (case ln_account ln of None \<Rightarrow> Inl (SnapNoAccount (length leaves + 1))
         | Some account \<Rightarrow> read_rows rows cov (leaves @ [\<lparr>sl_account = account, sl_assets = ln_assets ln\<rparr>]))
      else Inl (SnapUnknown (ln_t ln)))"

definition ReadSnapshot :: "document \<Rightarrow> snap_error + Header \<times> snap_coverage list \<times> snap_leaf list" where
  "ReadSnapshot doc =
     (case fst doc of None \<Rightarrow> Inl SnapHeader
      | Some h \<Rightarrow>
          if hd_format h \<noteq> snap_format then Inl (SnapFormat (hd_format h))
          else case read_rows (snd doc) [] [] of Inl err \<Rightarrow> Inl err | Inr (cov, leaves) \<Rightarrow> Inr (h, cov, leaves))"

definition RebuildRoots :: "hashfn \<Rightarrow> Header \<Rightarrow> snap_coverage list \<Rightarrow> snap_leaf list \<Rightarrow> snap_result" where
  "RebuildRoots k h coverage leaves =
     \<lparr>rs_header = h,
      rs_root = (if leaves \<noteq> [] then Root (Build k (map (snap_leaf_hash k (hd_chain h)) leaves)) else 0),
      rs_coverage_root = (if coverage \<noteq> [] then Root (Build k (map (snap_cover_hash k (hd_chain h)) coverage)) else 0),
      rs_leaves = length leaves, rs_assets = length coverage\<rparr>"

section \<open>Restoring\<close>

text \<open>The status the caller passes is not used by \<open>RegisterAsset\<close>, which inserts a row as pending.\<close>

definition restore_asset :: "hashfn \<Rightarrow> nat \<Rightarrow> snap_coverage \<Rightarrow> 'a asset_db_scheme \<Rightarrow> 'a asset_db_scheme" where
  "restore_asset k chainID c db =
     (let a = \<lparr>as_standard = 0, as_symbol = [], as_name = [], as_decimals = None, as_hint_from = sc_from c, as_registrant = None,
               as_registry_key = Some (hash_bytes (snap_asset_key k chainID (sc_asset c))), as_source = SourceSnapshot,
               as_status = StatusLive, as_promoted = False, as_reports = 0, as_reported_at = None, as_report_reason = []\<rparr>;
          db = fst (RegisterAsset chainID (sc_asset c) a (sc_from c) db);
          next = (if sc_from c > 0 then sc_from c - 1 else 0);
          db = AdvanceBackfill chainID (sc_asset c) next True 0 db;
          db = SetBackfillFloor chainID (sc_asset c) (sc_from c) db
      in AdvanceTail chainID (sc_asset c) (sc_to c) 0 db)"

definition restore_batch :: nat where
  "restore_batch = 2000"

definition restore_push :: "nat \<Rightarrow> Interaction \<Rightarrow> Interaction list \<times> 'a index_db_scheme \<Rightarrow> Interaction list \<times> 'a index_db_scheme" where
  "restore_push chainID r st =
     (let rows = fst st @ [r]
      in if length rows \<ge> restore_batch then ([], FoldInteractions chainID rows (snd st)) else (rows, snd st))"

definition restore_row :: "Header \<Rightarrow> address \<Rightarrow> address \<Rightarrow> Interaction" where
  "restore_row h account asset =
     \<lparr>ia_account = account, ia_asset = asset, ia_first = hd_from h, ia_last = hd_to h, ia_count = 0, ia_roles = 0\<rparr>"

definition restore_leaf :: "Header \<Rightarrow> snap_leaf \<Rightarrow> Interaction list \<times> 'a index_db_scheme \<Rightarrow> Interaction list \<times> 'a index_db_scheme" where
  "restore_leaf h l st = fold (\<lambda>asset. restore_push (hd_chain h) (restore_row h (sl_account l) asset)) (sl_assets l) st"

definition restore_flush :: "nat \<Rightarrow> Interaction list \<times> 'a index_db_scheme \<Rightarrow> 'a index_db_scheme" where
  "restore_flush chainID st = (if fst st = [] then snd st else FoldInteractions chainID (fst st) (snd st))"

definition Restore ::
  "hashfn \<Rightarrow> Header \<Rightarrow> snap_coverage list \<Rightarrow> snap_leaf list \<Rightarrow> 'a asset_db_scheme \<Rightarrow> 'a asset_db_scheme \<times> nat \<times> nat \<times> nat" where
  "Restore k h coverage leaves db =
     (let db = UpsertChain (hd_chain h) (''chain-'' @ dec_string (hd_chain h)) db;
          db = fold (restore_asset k (hd_chain h)) coverage db;
          db = restore_flush (hd_chain h) (fold (restore_leaf h) leaves ([], db))
      in (db, length coverage, length leaves, sum_list (map (length \<circ> sl_assets) leaves)))"

section \<open>Documents and rows\<close>

lemma snap_eta [simp]:
  "\<lparr>sc_asset = sc_asset c, sc_from = sc_from c, sc_to = sc_to c\<rparr> = c" "\<lparr>sl_account = sl_account l, sl_assets = sl_assets l\<rparr> = l"
  by simp_all

lemma verify_rows_written:
  "verify_rows k chainID (map (\<lambda>c. Some (WriteCoverage (f c))) cov @ rest) il cl False
     = verify_rows k chainID rest il (cl @ map (snap_cover_hash k chainID \<circ> f) cov) False"
  by (induction cov arbitrary: cl) (simp_all add: WriteCoverage_def)

lemma verify_leaves_written:
  "verify_rows k chainID (map (\<lambda>l. Some (WriteLeaf (g l))) leaves) il cl seen
     = Inr (il @ map (snap_leaf_hash k chainID \<circ> g) leaves, cl)"
  by (induction leaves arbitrary: il seen) (simp_all add: WriteLeaf_def)

lemma read_rows_written:
  "read_rows (map (\<lambda>c. Some (WriteCoverage (f c))) cov @ map (\<lambda>l. Some (WriteLeaf (g l))) leaves) cov0 leaves0
     = Inr (cov0 @ map f cov, leaves0 @ map g leaves)"
proof -
  have "read_rows (map (\<lambda>l. Some (WriteLeaf (g l))) ls) c0 l0 = Inr (c0, l0 @ map g ls)" for ls c0 l0
    by (induction ls arbitrary: l0) (simp_all add: WriteLeaf_def)
  then show ?thesis by (induction cov arbitrary: cov0) (simp_all add: WriteCoverage_def)
qed

text \<open>Verification and rebuilding from the rows read agree on every document that verification accepts.\<close>

lemma verify_read:
  "verify_rows k chainID rows il cl seen = Inr (il', cl') \<Longrightarrow> il = map (snap_leaf_hash k chainID) leaves
   \<Longrightarrow> cl = map (snap_cover_hash k chainID) cov
   \<Longrightarrow> \<exists>cov' leaves'. read_rows rows cov leaves = Inr (cov', leaves')
     \<and> il' = map (snap_leaf_hash k chainID) leaves' \<and> cl' = map (snap_cover_hash k chainID) cov'"
proof (induction k chainID rows il cl seen arbitrary: cov leaves rule: verify_rows.induct)
  case (3 k chainID ln rows il cl seen)
  then show ?case
    by (cases "ln_t ln = ''coverage''"; cases "ln_t ln = ''leaf''")
      (auto split: option.splits if_splits simp del: snap_cover_hash_def snap_leaf_hash_def)
qed auto

lemma Verify_is_Rebuild:
  assumes "VerifySnapshot k doc = Inr res"
  shows "\<exists>h cov leaves. fst doc = Some h \<and> ReadSnapshot doc = Inr (h, cov, leaves) \<and> res = RebuildRoots k h cov leaves"
proof -
  obtain h il cl where d: "fst doc = Some h" "hd_format h = snap_format" "verify_rows k (hd_chain h) (snd doc) [] [] False = Inr (il, cl)"
    and res: "res = \<lparr>rs_header = h, rs_root = (if il \<noteq> [] then Root (Build k il) else 0),
      rs_coverage_root = (if cl \<noteq> [] then Root (Build k cl) else 0), rs_leaves = length il, rs_assets = length cl\<rparr>"
    using assms by (auto simp: VerifySnapshot_def split: option.splits if_splits sum.splits)
  from verify_read [OF d(3)] obtain cov leaves where "read_rows (snd doc) [] [] = Inr (cov, leaves)"
    "il = map (snap_leaf_hash k (hd_chain h)) leaves" "cl = map (snap_cover_hash k (hd_chain h)) cov" by force
  then show ?thesis using d(1,2) by (auto simp: ReadSnapshot_def RebuildRoots_def res)
qed

section \<open>What a restore leaves behind\<close>

lemma FoldInteractions_Nil [simp]: "FoldInteractions c [] db = db"
  by (simp add: FoldInteractions_def)

lemma FoldInteractions_append: "FoldInteractions c (xs @ ys) db = FoldInteractions c ys (FoldInteractions c xs db)"
  by (simp add: FoldInteractions_def)

text \<open>Writing in batches is writing at once.\<close>

lemma restore_batches: "restore_flush c (fold (restore_push c) rs (rows, db)) = FoldInteractions c (rows @ rs) db"
proof (induction rs arbitrary: rows db)
  case (Cons r rs)
  show ?case
  proof (cases "length (rows @ [r]) \<ge> restore_batch")
    case True
    then have "fold (restore_push c) (r # rs) (rows, db) = fold (restore_push c) rs ([], FoldInteractions c (rows @ [r]) db)"
      by (simp add: restore_push_def Let_def)
    moreover have "FoldInteractions c (rows @ r # rs) db = FoldInteractions c rs (FoldInteractions c (rows @ [r]) db)"
      using FoldInteractions_append [of c "rows @ [r]" rs db] by simp
    ultimately show ?thesis using Cons.IH [of "[]" "FoldInteractions c (rows @ [r]) db"] by (simp only: append_Nil)
  next
    case False
    then show ?thesis using Cons.IH [of "rows @ [r]"] by (simp add: restore_push_def Let_def)
  qed
qed (simp add: restore_flush_def)

definition restored_rows :: "Header \<Rightarrow> snap_leaf list \<Rightarrow> Interaction list" where
  "restored_rows h leaves = concat (map (\<lambda>l. map (restore_row h (sl_account l)) (sl_assets l)) leaves)"

lemma fold_restore_leaf: "fold (restore_leaf h) leaves st = fold (restore_push (hd_chain h)) (restored_rows h leaves) st"
  by (induction leaves arbitrary: st) (simp_all add: restored_rows_def restore_leaf_def fold_map comp_def)

lemma fold_upsert_fresh:
  assumes "distinct (map fst tab @ map (row_key c) rows)"
  shows "fold (upsert_row c) rows tab = tab @ map (\<lambda>r. (row_key c r, r)) rows"
  using assms
proof (induction rows arbitrary: tab)
  case (Cons r rows)
  have n: "row_key c r \<notin> fst ` set tab" using Cons.prems by auto
  then have "map_of tab (row_key c r) = None" by (simp add: map_of_eq_None_iff)
  moreover have "AList.update k v tab = tab @ [(k, v)]" if "k \<notin> fst ` set tab" for k and v :: Interaction
    using that by (induction tab) auto
  ultimately have "upsert_row c r tab = tab @ [(row_key c r, r)]" using n by (simp add: upsert_row_def)
  then show ?case using Cons.IH [of "tab @ [(row_key c r, r)]"] Cons.prems by auto
qed simp

lemma restored_keys:
  assumes "sorted_wrt (<) (map sl_account leaves)" "\<forall>l \<in> set leaves. sorted_wrt (<) (sl_assets l)"
  shows "distinct (map (row_key c) (restored_rows h leaves))"
  using assms
proof (induction leaves)
  case (Cons l leaves)
  have "distinct (sl_assets l)" using Cons.prems(2) by (simp add: strict_sorted_iff)
  then have "distinct (map (row_key c) (map (restore_row h (sl_account l)) (sl_assets l)))"
    by (simp add: distinct_map inj_on_def restore_row_def row_key_def)
  moreover have "sl_account l \<notin> sl_account ` set leaves" using Cons.prems(1) by auto
  then have "row_key c ` set (map (restore_row h (sl_account l)) (sl_assets l)) \<inter> row_key c ` set (restored_rows h leaves) = {}"
    by (auto simp: restored_rows_def row_key_def restore_row_def)
  moreover have "distinct (map (row_key c) (restored_rows h leaves))" using Cons by simp
  moreover have "restored_rows h (l # leaves) = map (restore_row h (sl_account l)) (sl_assets l) @ restored_rows h leaves"
    by (simp add: restored_rows_def)
  ultimately show ?case by (simp only: map_append distinct_append set_map)
qed (simp add: restored_rows_def)

lemma sets_eqI:
  assumes "sets_ok A" "sets_ok B" "set_account ` set A = set_account ` set B"
    and "\<And>x y. x \<in> set A \<Longrightarrow> y \<in> set B \<Longrightarrow> set_account x = set_account y \<Longrightarrow> set (set_assets x) = set (set_assets y)"
  shows "A = B"
proof -
  have m: "map set_account A = map set_account B"
    using assms(1-3) by (intro strict_sorted_equal) (simp_all add: sets_ok_def)
  then have len: "length A = length B" by (rule map_eq_imp_length_eq)
  show ?thesis
  proof (rule nth_equalityI [OF len])
    fix i assume i: "i < length A"
    have acc: "set_account (A ! i) = set_account (B ! i)" using m i len by (metis nth_map)
    then have "set_assets (A ! i) = set_assets (B ! i)"
      using assms i len by (intro strict_sorted_equal) (auto simp: sets_ok_def)
    with acc show "A ! i = B ! i" by simp
  qed
qed

lemma in_SnapshotIndex:
  "x \<in> set (SnapshotIndex c to db) \<longleftrightarrow>
     (\<exists>ast r. ((c, set_account x, ast), r) \<in> set (interactions db) \<and> ia_first r \<le> to)
     \<and> set_assets x = sort (map (\<lambda>((c, a, ast), r). ast) (filter (\<lambda>((c', a, ast), r). a = set_account x)
         (filter (\<lambda>((c', acc, ast), r). c' = c \<and> ia_first r \<le> to) (interactions db))))"
  unfolding SnapshotIndex_def Let_def by (cases x) (force simp: image_iff)

lemma set_SnapshotIndex_assets:
  "x \<in> set (SnapshotIndex c to db) \<Longrightarrow>
     set (set_assets x) = {ast. \<exists>r. ((c, set_account x, ast), r) \<in> set (interactions db) \<and> ia_first r \<le> to}"
  by (force simp: in_SnapshotIndex image_iff)

lemma accounts_SnapshotIndex:
  "set_account ` set (SnapshotIndex c to db) = {a. \<exists>ast r. ((c, a, ast), r) \<in> set (interactions db) \<and> ia_first r \<le> to}"
  by (force simp: SnapshotIndex_def Let_def image_iff)

section \<open>Restoring into an empty database\<close>

definition restored_cursor :: "snap_coverage \<Rightarrow> Cursor" where
  "restored_cursor c = \<lparr>cu_anchor = sc_from c, cu_next = sc_from c - 1, cu_done = True, cu_tail = max (sc_from c) (sc_to c),
     cu_logs = 0, cu_floor = sc_from c\<rparr>"

definition restored_asset :: "hashfn \<Rightarrow> nat \<Rightarrow> snap_coverage \<Rightarrow> Asset" where
  "restored_asset k chainID c =
     \<lparr>as_standard = 0, as_symbol = [], as_name = [], as_decimals = None, as_hint_from = sc_from c, as_registrant = None,
      as_registry_key = Some (hash_bytes (snap_asset_key k chainID (sc_asset c))), as_source = SourceSnapshot,
      as_status = StatusPending, as_promoted = False, as_reports = 0, as_reported_at = None, as_report_reason = []\<rparr>"

lemma upsert_fresh: "k \<notin> fst ` set tab \<Longrightarrow> upsert k v f tab = tab @ [(k, v)]"
  by (simp add: upsert_def map_of_eq_None_iff)

lemma restore_asset_fresh:
  assumes "(chainID, sc_asset c) \<notin> fst ` set (assets db)" "(chainID, sc_asset c) \<notin> fst ` set (asset_cursors db)"
  shows "restore_asset k chainID c db =
    db\<lparr>assets := assets db @ [((chainID, sc_asset c), restored_asset k chainID c)],
       asset_cursors := asset_cursors db @ [((chainID, sc_asset c), restored_cursor c)]\<rparr>"
  using assms
  by (simp add: restore_asset_def RegisterAsset_def upsert_fresh AdvanceBackfill_def SetBackfillFloor_def AdvanceTail_def Let_def
    update_row_last restored_asset_def restored_cursor_def fresh_cursor_def)

lemma restore_assets_fresh:
  assumes "distinct (map fst (assets db) @ map (\<lambda>c. (chainID, sc_asset c)) cov)"
    and "distinct (map fst (asset_cursors db) @ map (\<lambda>c. (chainID, sc_asset c)) cov)"
  shows "fold (restore_asset k chainID) cov db =
    db\<lparr>assets := assets db @ map (\<lambda>c. ((chainID, sc_asset c), restored_asset k chainID c)) cov,
       asset_cursors := asset_cursors db @ map (\<lambda>c. ((chainID, sc_asset c), restored_cursor c)) cov\<rparr>"
  using assms
proof (induction cov arbitrary: db)
  case (Cons c cov)
  have "restore_asset k chainID c db =
    db\<lparr>assets := assets db @ [((chainID, sc_asset c), restored_asset k chainID c)],
       asset_cursors := asset_cursors db @ [((chainID, sc_asset c), restored_cursor c)]\<rparr>" (is "_ = ?db")
    by (rule restore_asset_fresh) (use Cons.prems in auto)
  moreover have "distinct (map fst (assets ?db) @ map (\<lambda>c. (chainID, sc_asset c)) cov)"
    "distinct (map fst (asset_cursors ?db) @ map (\<lambda>c. (chainID, sc_asset c)) cov)" using Cons.prems by auto
  ultimately show ?case using Cons.IH [of ?db] by simp
qed simp

text \<open>The tables of a restore into an empty database, row by row.\<close>

definition no_index :: "'a asset_db_scheme \<Rightarrow> bool" where
  "no_index db \<longleftrightarrow> interactions db = [] \<and> assets db = [] \<and> asset_cursors db = []"

definition doc_ok :: "Header \<Rightarrow> snap_coverage list \<Rightarrow> snap_leaf list \<Rightarrow> bool" where
  "doc_ok h cov leaves \<longleftrightarrow> sorted_wrt (<) (map sc_asset cov)
     \<and> (\<forall>c \<in> set cov. sc_from c \<le> sc_to c \<and> sc_to c \<le> hd_to h \<and> sc_to c \<noteq> 0)
     \<and> sorted_wrt (<) (map sl_account leaves) \<and> (\<forall>l \<in> set leaves. sl_assets l \<noteq> [] \<and> sorted_wrt (<) (sl_assets l))
     \<and> leaves \<noteq> [] \<and> hd_from h \<le> hd_to h"

lemma Restore_tables:
  assumes "no_index db" "doc_ok h cov leaves"
  shows "interactions (fst (Restore k h cov leaves db)) = map (\<lambda>r. (row_key (hd_chain h) r, r)) (restored_rows h leaves)"
    and "assets (fst (Restore k h cov leaves db)) = map (\<lambda>c. ((hd_chain h, sc_asset c), restored_asset k (hd_chain h) c)) cov"
    and "asset_cursors (fst (Restore k h cov leaves db)) = map (\<lambda>c. ((hd_chain h, sc_asset c), restored_cursor c)) cov"
proof -
  define db1 where "db1 = UpsertChain (hd_chain h) (''chain-'' @ dec_string (hd_chain h)) db"
  have t1: "interactions db1 = []" "assets db1 = []" "asset_cursors db1 = []"
    using assms(1) by (simp_all add: no_index_def db1_def UpsertChain_def)
  have "distinct (map sc_asset cov)" using assms(2) by (simp add: doc_ok_def strict_sorted_iff)
  then have d: "distinct (map (\<lambda>c. (hd_chain h, sc_asset c)) cov)" by (simp add: distinct_map inj_on_def)
  define db2 where "db2 = fold (restore_asset k (hd_chain h)) cov db1"
  have t2: "interactions db2 = []" "assets db2 = map (\<lambda>c. ((hd_chain h, sc_asset c), restored_asset k (hd_chain h) c)) cov"
    "asset_cursors db2 = map (\<lambda>c. ((hd_chain h, sc_asset c), restored_cursor c)) cov"
    using restore_assets_fresh [of db1 "hd_chain h" cov k] d by (simp_all add: db2_def t1)
  have r: "fst (Restore k h cov leaves db) = FoldInteractions (hd_chain h) (restored_rows h leaves) db2"
    by (simp add: Restore_def Let_def db2_def db1_def fold_restore_leaf restore_batches)
  have "distinct (map (row_key (hd_chain h)) (restored_rows h leaves))"
    using assms(2) by (intro restored_keys) (auto simp: doc_ok_def)
  then show "interactions (fst (Restore k h cov leaves db)) = map (\<lambda>r. (row_key (hd_chain h) r, r)) (restored_rows h leaves)"
    by (simp add: r FoldInteractions_def t2 fold_upsert_fresh)
  show "assets (fst (Restore k h cov leaves db)) = map (\<lambda>c. ((hd_chain h, sc_asset c), restored_asset k (hd_chain h) c)) cov"
    "asset_cursors (fst (Restore k h cov leaves db)) = map (\<lambda>c. ((hd_chain h, sc_asset c), restored_cursor c)) cov"
    by (simp_all add: r FoldInteractions_def t2)
qed

lemma in_restored_rows:
  "(key, r) \<in> set (map (\<lambda>r. (row_key c r, r)) (restored_rows h leaves)) \<longleftrightarrow>
     (\<exists>l \<in> set leaves. \<exists>a \<in> set (sl_assets l). key = (c, sl_account l, a) \<and> r = restore_row h (sl_account l) a)"
  by (auto simp: restored_rows_def row_key_def restore_row_def image_iff)

lemma restored_SnapshotIndex:
  assumes "no_index db" "doc_ok h cov leaves"
  shows "SnapshotIndex (hd_chain h) (hd_to h) (fst (Restore k h cov leaves db))
    = map (\<lambda>l. \<lparr>set_account = sl_account l, set_assets = sl_assets l\<rparr>) leaves"
proof (rule sets_eqI)
  let ?db = "fst (Restore k h cov leaves db)"
  note t = Restore_tables [OF assms, of k]
  have mem: "((hd_chain h, acc, a), r) \<in> set (interactions ?db) \<longleftrightarrow>
      (\<exists>l \<in> set leaves. acc = sl_account l \<and> a \<in> set (sl_assets l) \<and> r = restore_row h acc a)" for acc a r
    unfolding t(1) in_restored_rows by auto
  have first: "ia_first (restore_row h acc a) \<le> hd_to h" for acc a
    using assms(2) by (simp add: restore_row_def doc_ok_def)
  have "distinct (map (row_key (hd_chain h)) (restored_rows h leaves))"
    using assms(2) by (intro restored_keys) (auto simp: doc_ok_def)
  then show "sets_ok (SnapshotIndex (hd_chain h) (hd_to h) ?db)"
    by (intro SnapshotIndex_ok) (simp add: t(1) keys_unique_def comp_def)
  show "sets_ok (map (\<lambda>l. \<lparr>set_account = sl_account l, set_assets = sl_assets l\<rparr>) leaves)"
    using assms(2) by (auto simp: sets_ok_def doc_ok_def comp_def)
  have ne: "\<exists>a. a \<in> set (sl_assets l)" if "l \<in> set leaves" for l
    using assms(2) that by (auto simp: doc_ok_def) (meson last_in_set)
  show "set_account ` set (SnapshotIndex (hd_chain h) (hd_to h) ?db)
      = set_account ` set (map (\<lambda>l. \<lparr>set_account = sl_account l, set_assets = sl_assets l\<rparr>) leaves)"
  proof -
    have "\<exists>ast r. (\<exists>l' \<in> set leaves. sl_account l = sl_account l' \<and> ast \<in> set (sl_assets l') \<and> r = restore_row h (sl_account l) ast)
        \<and> ia_first r \<le> hd_to h" if "l \<in> set leaves" for l
      using ne [OF that] first that by blast
    then show ?thesis unfolding accounts_SnapshotIndex mem by (auto simp: image_iff)
  qed
  have inj: "l = l'" if "l \<in> set leaves" "l' \<in> set leaves" "sl_account l = sl_account l'" for l l'
    using assms(2) that by (auto simp: doc_ok_def strict_sorted_iff distinct_map dest: inj_onD)
  show "set (set_assets x) = set (set_assets y)"
    if "x \<in> set (SnapshotIndex (hd_chain h) (hd_to h) ?db)"
      "y \<in> set (map (\<lambda>l. \<lparr>set_account = sl_account l, set_assets = sl_assets l\<rparr>) leaves)" "set_account x = set_account y" for x y
  proof -
    note xy = that
    obtain l where l: "l \<in> set leaves" "set_assets y = sl_assets l" "set_account x = sl_account l" using xy(2,3) by auto
    then have "(\<exists>r. (\<exists>l' \<in> set leaves. set_account x = sl_account l' \<and> a \<in> set (sl_assets l') \<and> r = restore_row h (set_account x) a)
        \<and> ia_first r \<le> hd_to h) \<longleftrightarrow> a \<in> set (sl_assets l)" for a
      using first inj by auto
    then show ?thesis unfolding set_SnapshotIndex_assets [OF xy(1)] mem l(2) by blast
  qed
qed

lemma CoverageFromCursors_leaf:
  "map cv_leaf (CoverageFromCursors k chainID cursors to) =
     map (\<lambda>(a, c). CoverageLeaf k (AssetKey k chainID a) (word_of_nat (fst (cursor_range c to))) (word_of_nat (snd (cursor_range c to))))
       (filter (covered to) cursors)"
proof -
  define f where "f = (\<lambda>(a, c). CoverageLeaf k (AssetKey k chainID a) (word_of_nat (fst (cursor_range c to))) (word_of_nat (snd (cursor_range c to))))"
  have "map cv_leaf (map (\<lambda>(i, a, c). coverage_entry k chainID i a (fst (cursor_range c to)) (snd (cursor_range c to))) xs)
      = map f (map snd xs)" for xs :: "(nat \<times> address \<times> Cursor) list"
    by (induction xs) (auto simp: coverage_entry_def Let_def f_def)
  from this [of "enumerate 0 (filter (covered to) cursors)"] show ?thesis
    unfolding CoverageFromCursors_eq f_def [symmetric] by (simp only: map_snd_enumerate)
qed

lemma snap_asset_key [simp]: "snap_asset_key = AssetKey"
  by (intro ext) (simp add: snap_asset_key_def AssetKey_def)

lemma restored_cursors:
  assumes "no_index db" "doc_ok h cov leaves"
  shows "ListCursors (hd_chain h) (fst (Restore k h cov leaves db)) = map (\<lambda>c. (sc_asset c, restored_cursor c)) cov"
proof -
  let ?db = "fst (Restore k h cov leaves db)"
  note t = Restore_tables [OF assms, of k]
  have "map_of (assets ?db) (hd_chain h, sc_asset c) \<noteq> None \<and> (\<forall>a. map_of (assets ?db) (hd_chain h, sc_asset c) = Some a \<longrightarrow> as_status a = StatusPending)"
    if "c \<in> set cov" for c
    using that by (auto simp: t(2) map_of_eq_None_iff restored_asset_def image_iff dest!: map_of_SomeD)
  then have "filter (\<lambda>((c, addr), cur). c = hd_chain h
      \<and> (case map_of (assets ?db) (c, addr) of None \<Rightarrow> False | Some a \<Rightarrow> as_status a \<noteq> StatusRevoked)) (asset_cursors ?db) = asset_cursors ?db"
    by (fastforce simp: t(3) filter_id_conv)
  moreover have "sorted (map sc_asset cov)" using assms(2) by (simp add: doc_ok_def strict_sorted_iff)
  ultimately show ?thesis by (simp add: ListCursors_def t(3) sort_key_id_if_sorted comp_def)
qed

lemma restored_coverage:
  assumes "no_index db" "doc_ok h cov leaves"
  shows "map cv_leaf (CoverageFromCursors k (hd_chain h) (ListCursors (hd_chain h) (fst (Restore k h cov leaves db))) (hd_to h))
    = map (snap_cover_hash k (hd_chain h)) cov"
proof -
  have r: "cursor_range (restored_cursor c) (hd_to h) = (sc_from c, sc_to c)" if "c \<in> set cov" for c
    using assms(2) that by (auto simp: doc_ok_def restored_cursor_def cursor_range_def Let_def)
  have "covered (hd_to h) (sc_asset c, restored_cursor c)" if "c \<in> set cov" for c
    using assms(2) that r [OF that] by (auto simp: doc_ok_def covered_def)
  then have "filter (covered (hd_to h)) (map (\<lambda>c. (sc_asset c, restored_cursor c)) cov) = map (\<lambda>c. (sc_asset c, restored_cursor c)) cov"
    by (simp add: filter_id_conv)
  then show ?thesis using r by (simp add: restored_cursors [OF assms] CoverageFromCursors_leaf snap_cover_hash_def)
qed

lemma CoverageFromCursors_from:
  assumes "v \<in> set (CoverageFromCursors k chainID cursors to)"
  shows "\<exists>(a, c) \<in> set cursors. cv_from v = fst (cursor_range c to)"
proof -
  obtain i a c where v: "v = coverage_entry k chainID i a (fst (cursor_range c to)) (snd (cursor_range c to))"
    and "(i, a, c) \<in> set (enumerate 0 (filter (covered to) cursors))"
    using assms by (auto simp: CoverageFromCursors_eq)
  then have "i < length (filter (covered to) cursors)" "filter (covered to) cursors ! i = (a, c)"
    by (simp_all add: in_set_enumerate_eq)
  then have "(a, c) \<in> set (filter (covered to) cursors)" by (metis nth_mem)
  then show ?thesis by (auto simp: v coverage_entry_def Let_def intro!: bexI [of _ "(a, c)"])
qed

lemma restored_from:
  assumes "no_index db" "doc_ok h cov leaves"
    and "v \<in> set (CoverageFromCursors k (hd_chain h) (ListCursors (hd_chain h) (fst (Restore k h cov leaves db))) (hd_to h))"
  shows "\<exists>c \<in> set cov. cv_from v = sc_from c"
  using CoverageFromCursors_from [OF assms(3)] unfolding restored_cursors [OF assms(1,2)]
  by (auto simp: cursor_range_def restored_cursor_def Let_def)

lemma restored_range:
  assumes "no_index db" "doc_ok h cov leaves"
  shows "CoverageRange (hd_chain h) (fst (Restore k h cov leaves db)) = (hd_from h, hd_to h)"
proof -
  let ?rows = "restored_rows h leaves"
  have "map snd (filter (\<lambda>((c, acc, ast), r). c = hd_chain h) (map (\<lambda>r. (row_key (hd_chain h) r, r)) ?rows)) = ?rows"
    by (simp add: filter_map comp_def row_key_def)
  moreover have "ia_first r = hd_from h \<and> ia_last r = hd_to h" if "r \<in> set ?rows" for r
    using that by (auto simp: restored_rows_def restore_row_def)
  moreover have "?rows \<noteq> []"
    using assms(2) by (cases leaves) (auto simp: doc_ok_def restored_rows_def)
  ultimately show ?thesis
    by (auto simp: CoverageRange_def Restore_tables [OF assms] Let_def intro!: antisym Min.boundedI Max.boundedI)
qed

section \<open>The document of an epoch\<close>

definition doc_coverage :: "'a epoch_db_scheme \<Rightarrow> nat \<Rightarrow> snap_coverage list" where
  "doc_coverage db i = map (\<lambda>c. \<lparr>sc_asset = cv_asset c, sc_from = cv_from c, sc_to = cv_to c\<rparr>) (EpochCoverageOf i db)"

definition doc_leaves :: "'a epoch_db_scheme \<Rightarrow> nat \<Rightarrow> snap_leaf list" where
  "doc_leaves db i = map (\<lambda>l. \<lparr>sl_account = el_account l, sl_assets = el_assets l\<rparr>) (EachEpochLeaf i db)"

lemma epochSnapshot_read:
  assumes "map_of (epochs db) i = Some e"
  obtains doc h where "epochSnapshot reg rc i db = Inr doc" "ReadSnapshot doc = Inr (h, doc_coverage db i, doc_leaves db i)"
    "hd_chain h = ep_chain e" "hd_from h = ep_from e" "hd_to h = ep_to e" "fst doc = Some h" "hd_format h = snap_format"
    "hd_leaf_count h = int (ep_leaf_count e)" "hd_asset_count h = int (length (doc_coverage db i))"
    "verify_rows k (ep_chain e) (snd doc) [] [] False
       = Inr (map (snap_leaf_hash k (ep_chain e)) (doc_leaves db i), map (snap_cover_hash k (ep_chain e)) (doc_coverage db i))"
proof -
  define h where "h = NewWriter (epoch_header e (length (EpochCoverageOf i db)) reg rc)"
  define rows where "rows = map (\<lambda>c. Some (WriteCoverage \<lparr>sc_asset = cv_asset c, sc_from = cv_from c, sc_to = cv_to c\<rparr>)) (EpochCoverageOf i db)
    @ map (\<lambda>l. Some (WriteLeaf \<lparr>sl_account = el_account l, sl_assets = el_assets l\<rparr>)) (EachEpochLeaf i db)"
  show ?thesis
  proof (rule that [of "(Some h, rows)" h])
    show "epochSnapshot reg rc i db = Inr (Some h, rows)" using assms by (simp add: epochSnapshot_def GetEpoch_def h_def rows_def Let_def)
    have hf: "hd_format h = snap_format" by (simp add: h_def NewWriter_def)
    then show "ReadSnapshot (Some h, rows) = Inr (h, doc_coverage db i, doc_leaves db i)"
      using read_rows_written [of "\<lambda>c. \<lparr>sc_asset = cv_asset c, sc_from = cv_from c, sc_to = cv_to c\<rparr>" "EpochCoverageOf i db"
        "\<lambda>l. \<lparr>sl_account = el_account l, sl_assets = el_assets l\<rparr>" "EachEpochLeaf i db" "[]" "[]"]
      by (simp add: ReadSnapshot_def rows_def doc_coverage_def doc_leaves_def)
    show "verify_rows k (ep_chain e) (snd (Some h, rows)) [] [] False
       = Inr (map (snap_leaf_hash k (ep_chain e)) (doc_leaves db i), map (snap_cover_hash k (ep_chain e)) (doc_coverage db i))"
      using verify_rows_written [where f = "\<lambda>c. \<lparr>sc_asset = cv_asset c, sc_from = cv_from c, sc_to = cv_to c\<rparr>" and cov = "EpochCoverageOf i db"]
        verify_leaves_written [where g = "\<lambda>l. \<lparr>sl_account = el_account l, sl_assets = el_assets l\<rparr>" and leaves = "EachEpochLeaf i db"]
      by (simp add: rows_def doc_coverage_def doc_leaves_def comp_def)
  qed (simp_all add: h_def NewWriter_def epoch_header_def doc_coverage_def)
qed

lemma backed_document:
  assumes "backed k db i e" "hd_to h = ep_to e" "hd_from h = ep_from e"
  shows "doc_ok h (doc_coverage db i) (doc_leaves db i)"
    and "map (snap_leaf_hash k (ep_chain e)) (doc_leaves db i) = map el_leaf (EachEpochLeaf i db)"
    and "map (snap_cover_hash k (ep_chain e)) (doc_coverage db i) = map cv_leaf (EpochCoverageOf i db)"
    and "doc_leaves db i \<noteq> []"
  using assms
  by (auto simp: backed_def doc_ok_def doc_coverage_def doc_leaves_def comp_def cover_ok_def leaf_ok_def snap_leaf_hash_def snap_cover_hash_def)

lemma Root_Build_Nil [simp]: "Root (Build k []) = 0"
  by (simp add: Root_def Build_def)

section \<open>Properties\<close>

text \<open>Whatever happened before, the document served for a stored epoch passes verification, and the
  two roots recomputed from its rows are the ones the epoch was committed with; reading it and
  rebuilding from the rows in memory gives the same result.\<close>

theorem snapshot_verifies:
  assumes "no_epochs s0" "(pub_step k ops sz)\<^sup>*\<^sup>* s0 t" "row t i = Some e"
  shows "\<exists>doc res h cov leaves. epochSnapshot registry regChain i (ps_db t) = Inr doc
    \<and> VerifySnapshot k doc = Inr res \<and> Matches res (ep_root e) (ep_coverage_root e)
    \<and> rs_leaves res = ep_leaf_count e \<and> ReadSnapshot doc = Inr (h, cov, leaves) \<and> RebuildRoots k h cov leaves = res"
proof -
  have b: "backed k (ps_db t) i e" using run_inv [OF assms(1,2)] assms(3) by (simp add: pub_inv_def)
  obtain doc h where d: "epochSnapshot registry regChain i (ps_db t) = Inr doc"
    "ReadSnapshot doc = Inr (h, doc_coverage (ps_db t) i, doc_leaves (ps_db t) i)"
    "hd_chain h = ep_chain e" "hd_from h = ep_from e" "hd_to h = ep_to e" "fst doc = Some h" "hd_format h = snap_format"
    "hd_leaf_count h = int (ep_leaf_count e)" "hd_asset_count h = int (length (doc_coverage (ps_db t) i))"
    "verify_rows k (ep_chain e) (snd doc) [] [] False = Inr (map (snap_leaf_hash k (ep_chain e)) (doc_leaves (ps_db t) i),
       map (snap_cover_hash k (ep_chain e)) (doc_coverage (ps_db t) i))"
    using epochSnapshot_read [OF assms(3) [unfolded row_def], of registry regChain k] by blast
  have n: "length (doc_leaves (ps_db t) i) = ep_leaf_count e" using b by (simp add: backed_def doc_leaves_def)
  define res where "res = RebuildRoots k h (doc_coverage (ps_db t) i) (doc_leaves (ps_db t) i)"
  have "VerifySnapshot k doc = Inr res"
    using d by (simp add: VerifySnapshot_def res_def RebuildRoots_def n)
  moreover have "Matches res (ep_root e) (ep_coverage_root e)"
    using b backed_document [OF b d(5) d(4)] d(3)
    by (auto simp: Matches_def res_def RebuildRoots_def backed_def coverageRoot_def)
  ultimately show ?thesis using d(1,2) n unfolding res_def by (fastforce simp: RebuildRoots_def)
qed

theorem snapshot_verifies_witness:
  "\<exists>doc res. epochSnapshot None 1 1 (ps_db (snd demo_build)) = Inr doc \<and> VerifySnapshot demo_hash doc = Inr res
     \<and> Matches res (ep_root demo_epoch) (ep_coverage_root demo_epoch)"
proof -
  have "row (snd demo_build) 1 = Some demo_epoch" by (simp add: demo_build_eq row_def demo_db_def)
  from snapshot_verifies [OF demo_no_epochs demo_run this, of None 1] show ?thesis by blast
qed

text \<open>C28: Restoring the document of a stored epoch into an empty database brings the commitment back:
  building again over the restored tables covers the same block range and gives the same index
  root and the same coverage root.\<close>

theorem restore_reproduces_commitment:
  assumes "no_epochs s0" "(pub_step k ops sz)\<^sup>*\<^sup>* s0 t" "row t i = Some e"
    and "epochSnapshot registry regChain i (ps_db t) = Inr doc" "ReadSnapshot doc = Inr (h, cov, leaves)" "no_index db"
  defines "db' \<equiv> fst (Restore k h cov leaves db)"
  defines "coverage \<equiv> CoverageFromCursors k (ep_chain e) (ListCursors (ep_chain e) db') (ep_to e)"
  shows "CoverageRange (ep_chain e) db' = (ep_from e, ep_to e) \<and> lower_from coverage (ep_from e) = ep_from e
    \<and> Root (Build k (map el_leaf (epoch_leaf_rows k (ep_chain e) (SnapshotIndex (ep_chain e) (ep_to e) db')))) = ep_root e
    \<and> coverageRoot k coverage = ep_coverage_root e"
proof -
  have b: "backed k (ps_db t) i e" using run_inv [OF assms(1,2)] assms(3) by (simp add: pub_inv_def)
  obtain h' where d: "(h, cov, leaves) = (h', doc_coverage (ps_db t) i, doc_leaves (ps_db t) i)"
    "hd_chain h' = ep_chain e" "hd_from h' = ep_from e" "hd_to h' = ep_to e"
    using epochSnapshot_read [OF assms(3) [unfolded row_def], of registry regChain k] assms(4,5) by (metis sum.inject(2))
  have h: "h = h'" "cov = doc_coverage (ps_db t) i" "leaves = doc_leaves (ps_db t) i" using d(1) by simp_all
  note doc = backed_document [OF b d(4) d(3), folded h]
  have c: "hd_chain h = ep_chain e" "hd_from h = ep_from e" "hd_to h = ep_to e" using d(2-4) by (simp_all add: h)
  note r = restored_SnapshotIndex [OF assms(6) doc(1), of k] restored_coverage [OF assms(6) doc(1), of k] restored_range [OF assms(6) doc(1), of k]
    restored_from [OF assms(6) doc(1), of _ k]
  note r' = r [unfolded c, folded db'_def, folded coverage_def]
  have "map el_leaf (epoch_leaf_rows k (ep_chain e) (SnapshotIndex (ep_chain e) (ep_to e) db')) = map (snap_leaf_hash k (ep_chain e)) leaves"
    unfolding r'(1) by (rule nth_equalityI) (simp_all add: nth_epoch_leaf_rows snap_leaf_hash_def)
  then have "Root (Build k (map el_leaf (epoch_leaf_rows k (ep_chain e) (SnapshotIndex (ep_chain e) (ep_to e) db')))) = ep_root e"
    using b by (simp add: doc(2) backed_def)
  moreover have "coverageRoot k coverage = ep_coverage_root e"
    using b unfolding coverageRoot_def r'(2) doc(3) by (simp add: backed_def coverageRoot_def)
  moreover have "ep_from e \<le> cv_from v" if "v \<in> set coverage" for v
    using r'(4) [OF that] b by (auto simp: h backed_def cover_ok_def doc_coverage_def)
  then have "lower_from coverage (ep_from e) = ep_from e"
    using lower_from_le [of coverage "ep_from e"] lower_from_mem [of coverage "ep_from e"] by force
  ultimately show ?thesis using r'(3) by simp
qed

theorem restore_reproduces_commitment_witness:
  "\<exists>db' :: epoch_db. CoverageRange 5 db' = (ep_from demo_epoch, ep_to demo_epoch)
     \<and> coverageRoot demo_hash (CoverageFromCursors demo_hash 5 (ListCursors 5 db') (ep_to demo_epoch)) = ep_coverage_root demo_epoch"
proof -
  have r: "row (snd demo_build) 1 = Some demo_epoch" "ep_chain demo_epoch = 5" by (simp_all add: demo_build_eq row_def demo_db_def demo_epoch_def)
  obtain doc h cov leaves where d: "epochSnapshot None 1 1 (ps_db (snd demo_build)) = Inr doc" "ReadSnapshot doc = Inr (h, cov, leaves)"
    using epochSnapshot_read [OF r(1) [unfolded row_def]] by metis
  have e: "no_index (demo_epoch_db\<lparr>interactions := [], assets := [], asset_cursors := []\<rparr>)" by (simp add: no_index_def)
  show ?thesis
    using restore_reproduces_commitment [OF demo_no_epochs demo_run r(1) d e] unfolding r(2) by blast
qed

text \<open>The strings that are hashed for a document.\<close>

definition leaf_strings_of :: "hashfn \<Rightarrow> nat \<Rightarrow> snap_leaf list \<Rightarrow> byte list list" where
  "leaf_strings_of k chainID leaves = map (\<lambda>l. leaf_preimage (sl_account l) (word_of_nat chainID) (AssetsHash k (sl_assets l))) leaves"

definition cover_strings_of :: "hashfn \<Rightarrow> nat \<Rightarrow> snap_coverage list \<Rightarrow> byte list list" where
  "cover_strings_of k chainID cov = map (\<lambda>c. coverage_preimage (AssetKey k chainID (sc_asset c)) (word_of_nat (sc_from c)) (word_of_nat (sc_to c))) cov"

definition doc_strings :: "hashfn \<Rightarrow> nat \<Rightarrow> snap_coverage list \<Rightarrow> snap_leaf list \<Rightarrow> byte list set" where
  "doc_strings k chainID cov leaves =
     set (leaf_strings_of k chainID leaves) \<union> set (build_queries k (map k (leaf_strings_of k chainID leaves)))
     \<union> set (cover_strings_of k chainID cov) \<union> set (build_queries k (map k (cover_strings_of k chainID cov)))
     \<union> (\<lambda>l. concat (map addr_bytes (sorted_list_of_set (set (sl_assets l))))) ` set leaves
     \<union> (\<lambda>c. be_bytes 8 (word_of_nat chainID :: u64) @ addr_bytes (sc_asset c)) ` set cov"

lemma RebuildRoots_strings:
  "rs_root (RebuildRoots k h cov leaves) \<noteq> 0 \<Longrightarrow> leaves \<noteq> [] \<and> rs_root (RebuildRoots k h cov leaves) = Root (Build k (map k (leaf_strings_of k (hd_chain h) leaves)))"
  "rs_coverage_root (RebuildRoots k h cov leaves) \<noteq> 0 \<Longrightarrow> cov \<noteq> [] \<and> rs_coverage_root (RebuildRoots k h cov leaves) = Root (Build k (map k (cover_strings_of k (hd_chain h) cov)))"
  by (auto simp: RebuildRoots_def leaf_strings_of_def cover_strings_of_def snap_leaf_hash_def [abs_def] snap_cover_hash_def [abs_def]
    LeafHash_def CoverageLeaf_def comp_def split: if_splits)

lemma doc_stringsI:
  "l \<in> set leaves \<Longrightarrow> concat (map addr_bytes (sorted_list_of_set (set (sl_assets l)))) \<in> doc_strings k chainID cov leaves"
  "c \<in> set cov \<Longrightarrow> be_bytes 8 (word_of_nat chainID :: u64) @ addr_bytes (sc_asset c) \<in> doc_strings k chainID cov leaves"
  unfolding doc_strings_def by blast+

lemma u64_of_nat_inject: "a < 2 ^ 64 \<Longrightarrow> b < 2 ^ 64 \<Longrightarrow> (word_of_nat a :: u64) = word_of_nat b \<longleftrightarrow> a = b"
  by (simp add: word_of_nat_eq_iff take_bit_nat_eq_self)

lemma leaf_sets_subset:
  assumes "set (leaf_strings_of k chainID leaves) \<subseteq> set (leaf_strings_of k chainID leaves')"
    and inj: "inj_on k (doc_strings k chainID cov leaves \<union> doc_strings k chainID cov' leaves')"
  shows "(\<lambda>l. (sl_account l, set (sl_assets l))) ` set leaves \<subseteq> (\<lambda>l. (sl_account l, set (sl_assets l))) ` set leaves'"
proof
  fix p assume "p \<in> (\<lambda>l. (sl_account l, set (sl_assets l))) ` set leaves"
  then obtain l where l: "l \<in> set leaves" "p = (sl_account l, set (sl_assets l))" by auto
  have "leaf_preimage (sl_account l) (word_of_nat chainID) (AssetsHash k (sl_assets l)) \<in> set (leaf_strings_of k chainID leaves')"
    by (rule subsetD [OF assms(1)]) (use l(1) in \<open>simp add: leaf_strings_of_def\<close>)
  then obtain l' where l': "l' \<in> set leaves'" "sl_account l = sl_account l'" "AssetsHash k (sl_assets l) = AssetsHash k (sl_assets l')"
    by (auto simp: leaf_strings_of_def)
  have "inj_on k {concat (map addr_bytes (sorted_list_of_set (set zs))) |zs. zs \<in> {sl_assets l, sl_assets l'}}"
    using doc_stringsI(1) [OF l(1), of k chainID cov] doc_stringsI(1) [OF l'(1), of k chainID cov'] by (intro inj_on_subset [OF inj]) blast
  then have "set (sl_assets l) = set (sl_assets l')" using AssetsHash_identifies_set [of "sl_assets l" "sl_assets l'" k] l'(3) by blast
  then show "p \<in> (\<lambda>l. (sl_account l, set (sl_assets l))) ` set leaves'" using l(2) l'(1,2) by auto
qed

lemma cover_set_subset:
  assumes "set (cover_strings_of k chainID cov) \<subseteq> set (cover_strings_of k chainID cov')"
    and inj: "inj_on k (doc_strings k chainID cov leaves \<union> doc_strings k chainID cov' leaves')"
    and w: "\<forall>c \<in> set cov \<union> set cov'. sc_from c < 2 ^ 64 \<and> sc_to c < 2 ^ 64"
  shows "set cov \<subseteq> set cov'"
proof
  fix c assume c: "c \<in> set cov"
  have "coverage_preimage (AssetKey k chainID (sc_asset c)) (word_of_nat (sc_from c)) (word_of_nat (sc_to c)) \<in> set (cover_strings_of k chainID cov')"
    by (rule subsetD [OF assms(1)]) (use c in \<open>simp add: cover_strings_of_def\<close>)
  then obtain c' where c': "c' \<in> set cov'" "AssetKey k chainID (sc_asset c) = AssetKey k chainID (sc_asset c')"
    "(word_of_nat (sc_from c) :: u64) = word_of_nat (sc_from c')" "(word_of_nat (sc_to c) :: u64) = word_of_nat (sc_to c')"
    by (auto simp: cover_strings_of_def)
  have "be_bytes 8 (word_of_nat chainID :: u64) @ addr_bytes (sc_asset c) = be_bytes 8 (word_of_nat chainID :: u64) @ addr_bytes (sc_asset c')"
    using c'(2) doc_stringsI(2) [OF c, of chainID k leaves] doc_stringsI(2) [OF c'(1), of chainID k leaves']
    by (intro inj_onD [OF inj]) (simp_all only: AssetKey_def Un_iff simp_thms)
  then have "sc_asset c = sc_asset c'" by simp
  moreover have "sc_from c < 2 ^ 64" "sc_to c < 2 ^ 64" "sc_from c' < 2 ^ 64" "sc_to c' < 2 ^ 64" using w c c'(1) by simp_all
  then have "sc_from c = sc_from c'" "sc_to c = sc_to c'" using c'(3,4) u64_of_nat_inject by blast+
  ultimately have "c = c'" by simp
  with c'(1) show "c \<in> set cov'" by simp
qed

text \<open>The host of a snapshot is not trusted: any two documents for a chain that match the same
  committed roots state the same accounts with the same asset sets and the same coverage, unless
  Keccak collides on the strings hashed for them.\<close>

theorem matching_documents_agree:
  assumes "VerifySnapshot k doc = Inr res" "Matches res r c" "ReadSnapshot doc = Inr (h, cov, leaves)"
    and "VerifySnapshot k doc' = Inr res'" "Matches res' r c" "ReadSnapshot doc' = Inr (h', cov', leaves')"
    and "r \<noteq> 0" "c \<noteq> 0" "hd_chain h' = hd_chain h"
    and "inj_on k (doc_strings k (hd_chain h) cov leaves \<union> doc_strings k (hd_chain h) cov' leaves')"
    and "\<forall>x \<in> set cov \<union> set cov'. sc_from x < 2 ^ 64 \<and> sc_to x < 2 ^ 64"
  shows "(\<lambda>l. (sl_account l, set (sl_assets l))) ` set leaves = (\<lambda>l. (sl_account l, set (sl_assets l))) ` set leaves'
    \<and> set cov = set cov'"
proof -
  let ?L = "leaf_strings_of k (hd_chain h)" and ?C = "cover_strings_of k (hd_chain h)"
  have res: "res = RebuildRoots k h cov leaves" "res' = RebuildRoots k h' cov' leaves'"
    using Verify_is_Rebuild [OF assms(1)] Verify_is_Rebuild [OF assms(4)] assms(3,6) by auto
  have root: "leaves \<noteq> []" "r = Root (Build k (map k (?L leaves)))" "leaves' \<noteq> []" "r = Root (Build k (map k (?L leaves')))"
    using RebuildRoots_strings(1) [of k h cov leaves] RebuildRoots_strings(1) [of k h' cov' leaves'] assms(2,5,7,9)
    by (auto simp: res Matches_def)
  have croot: "cov \<noteq> []" "c = Root (Build k (map k (?C cov)))" "cov' \<noteq> []" "c = Root (Build k (map k (?C cov')))"
    using RebuildRoots_strings(2) [of k h cov leaves] RebuildRoots_strings(2) [of k h' cov' leaves'] assms(2,5,8,9)
    by (auto simp: res Matches_def)
  have "set (?L leaves) = set (?L leaves')"
  proof (rule merkle_root_binds [where k = k])
    show "inj_on k (set (?L leaves) \<union> set (build_queries k (map k (?L leaves))) \<union> set (?L leaves') \<union> set (build_queries k (map k (?L leaves'))))"
      by (rule inj_on_subset [OF assms(10)]) (unfold doc_strings_def, blast)
  qed (use root in \<open>auto simp: leaf_strings_of_def\<close>)
  moreover have "set (?C cov) = set (?C cov')"
  proof (rule merkle_root_binds [where k = k])
    show "inj_on k (set (?C cov) \<union> set (build_queries k (map k (?C cov))) \<union> set (?C cov') \<union> set (build_queries k (map k (?C cov'))))"
      by (rule inj_on_subset [OF assms(10)]) (unfold doc_strings_def, blast)
  qed (use croot in \<open>auto simp: cover_strings_of_def\<close>)
  moreover have "inj_on k (doc_strings k (hd_chain h) cov' leaves' \<union> doc_strings k (hd_chain h) cov leaves)"
    using assms(10) by (simp add: Un_commute)
  moreover have "\<forall>x \<in> set cov' \<union> set cov. sc_from x < 2 ^ 64 \<and> sc_to x < 2 ^ 64" using assms(11) by blast
  ultimately show ?thesis
    using leaf_sets_subset [of k "hd_chain h" leaves leaves' cov cov'] leaf_sets_subset [of k "hd_chain h" leaves' leaves cov' cov]
      cover_set_subset [of k "hd_chain h" cov cov' leaves leaves'] cover_set_subset [of k "hd_chain h" cov' cov leaves' leaves]
      assms(10,11) by (intro conjI equalityI) auto
qed

definition demo_doc :: "address list \<Rightarrow> document" where
  "demo_doc as = (Some \<lparr>hd_format = snap_format, hd_chain = 5, hd_from = 2, hd_to = 9, hd_root = 0, hd_coverage_root = 0,
       hd_leaf_count = 1, hd_asset_count = 1, hd_onchain = None, hd_registry = None, hd_registry_chain = 0\<rparr>,
     [Some (WriteCoverage \<lparr>sc_asset = 3, sc_from = 2, sc_to = 9\<rparr>), Some (WriteLeaf \<lparr>sl_account = 1, sl_assets = as\<rparr>)])"

lemma toy_hash_cover: "toy_hash (coverage_preimage key f 9) = 105"
proof -
  have "replicate 24 0 @ be_bytes 8 (9 :: u64) = hash_bytes 9" by (simp add: be_bytes_def) code_simp
  then have "coverage_preimage key f 9 = (hash_bytes key @ replicate 24 0 @ be_bytes 8 f) @ hash_bytes 9"
    by (simp add: coverage_preimage_def)
  then show ?thesis by (simp only: toy_hash_append) simp
qed

lemma demo_doc_facts:
  assumes "set as = {3}" shows "AssetsHash toy_hash as = 23"
    "VerifySnapshot toy_hash (demo_doc as) = Inr \<lparr>rs_header = the (fst (demo_doc as)), rs_root = 119, rs_coverage_root = 105, rs_leaves = 1, rs_assets = 1\<rparr>"
proof -
  show a: "AssetsHash toy_hash as = 23"
    using assms by (simp add: AssetsHash_set toy_hash_def of_be_def be_nat_be_bytes)
  show "VerifySnapshot toy_hash (demo_doc as) = Inr \<lparr>rs_header = the (fst (demo_doc as)), rs_root = 119, rs_coverage_root = 105, rs_leaves = 1, rs_assets = 1\<rparr>"
    by (simp add: VerifySnapshot_def demo_doc_def WriteCoverage_def WriteLeaf_def snap_cover_hash_def snap_leaf_hash_def a LeafHash_def
      CoverageLeaf_def toy_hash_leaf toy_hash_cover Root_def Build_def build_levels.simps)
qed

lemma demo_doc_read:
  "ReadSnapshot (demo_doc as) = Inr (the (fst (demo_doc as)), [\<lparr>sc_asset = 3, sc_from = 2, sc_to = 9\<rparr>], [\<lparr>sl_account = 1, sl_assets = as\<rparr>])"
  by (simp add: ReadSnapshot_def demo_doc_def WriteCoverage_def WriteLeaf_def)

lemma demo_doc_strings:
  assumes "set as = {3}"
  shows "doc_strings toy_hash 5 [\<lparr>sc_asset = 3, sc_from = 2, sc_to = 9\<rparr>] [\<lparr>sl_account = 1, sl_assets = as\<rparr>]
    = {leaf_preimage 1 5 23, coverage_preimage (AssetKey toy_hash 5 3) 2 9, addr_bytes 3, be_bytes 8 (5 :: u64) @ addr_bytes 3}"
  using assms by (auto simp: doc_strings_def leaf_strings_of_def cover_strings_of_def demo_doc_facts(1) [OF assms] build_queries_def build_levels.simps)

theorem matching_documents_agree_witness:
  "fst (demo_doc [3]) = fst (demo_doc [3, 3]) \<and>
   (\<lambda>l. (sl_account l, set (sl_assets l))) ` set [\<lparr>sl_account = 1, sl_assets = [3]\<rparr>]
     = (\<lambda>l. (sl_account l, set (sl_assets l))) ` set [\<lparr>sl_account = 1, sl_assets = [3, 3]\<rparr>]"
proof -
  let ?h = "the (fst (demo_doc [3]))"
  have c: "hd_chain ?h = 5" and h: "the (fst (demo_doc [3, 3])) = ?h" "fst (demo_doc [3]) = fst (demo_doc [3, 3])" by (simp_all add: demo_doc_def)
  have m: "Matches \<lparr>rs_header = ?h, rs_root = 119, rs_coverage_root = 105, rs_leaves = 1, rs_assets = 1\<rparr> 119 105" by (simp add: Matches_def)
  have s: "set [3 :: address] = {3}" "set [3, 3 :: address] = {3}" by simp_all
  have v: "toy_hash (addr_bytes 3) = 23" "toy_hash (be_bytes 8 (5 :: u64) @ addr_bytes 3) = 5 * 2 ^ 160 + 31"
    by (simp_all add: toy_hash_def of_be_def be_nat_append be_nat_be_bytes)
  have inj: "inj_on toy_hash (doc_strings toy_hash (hd_chain ?h) [\<lparr>sc_asset = 3, sc_from = 2, sc_to = 9\<rparr>] [\<lparr>sl_account = 1, sl_assets = [3]\<rparr>]
      \<union> doc_strings toy_hash (hd_chain ?h) [\<lparr>sc_asset = 3, sc_from = 2, sc_to = 9\<rparr>] [\<lparr>sl_account = 1, sl_assets = [3, 3]\<rparr>])"
    unfolding c demo_doc_strings [OF s(1)] demo_doc_strings [OF s(2)] Un_absorb
    by (rule inj_onI) (auto simp: toy_hash_leaf toy_hash_cover v)
  from matching_documents_agree [OF demo_doc_facts(2) [OF s(1)] m demo_doc_read demo_doc_facts(2) [OF s(2), unfolded h(1)] m demo_doc_read [of "[3, 3]", unfolded h(1)]
      _ _ refl inj] h(2) show ?thesis by simp
qed

end
