(* ===== verification/Mirror.thy ===== *)
theory Mirror
  imports Snapshot
begin

text \<open>
  The mirror of the registry: \<open>internal/hintreg/mirror.go\<close> and the paged reads of \<open>client.go\<close> it
  uses. The registry contract, the heads and the code of the indexed chains are arguments; a read
  that is made several times may answer differently each time. The lemmas give the effect of a
  sync on each asset, one at a time, up to the first head that cannot be read, and what it forgets.
\<close>

section \<open>Paged reads\<close>

datatype mirror_error = CallFailed | BadAssetCount | NoHead

record RegisteredAsset =
  ra_chain :: nat
  ra_token :: address
  ra_kind :: nat
  ra_from :: nat
  ra_registrant :: address
  ra_registered_at :: nat
  ra_bond :: nat
  ra_active :: bool

record Demand =
  dm_chain :: nat
  dm_token :: address
  dm_voters :: nat

text \<open>\<open>assetCount\<close>, \<open>listAssets\<close>, \<open>demandCount\<close> and \<open>listDemand\<close> of the contract.\<close>

record registry =
  rg_asset_count :: "mirror_error + nat"
  rg_list_assets :: "nat \<Rightarrow> nat \<Rightarrow> mirror_error + RegisteredAsset list"
  rg_demand_count :: "mirror_error + nat"
  rg_list_demand :: "nat \<Rightarrow> nat \<Rightarrow> mirror_error + Demand list"
  rg_address :: address

definition AssetCount :: "registry \<Rightarrow> mirror_error + nat" where
  "AssetCount rg = (case rg_asset_count rg of Inl e \<Rightarrow> Inl e | Inr n \<Rightarrow> if n < 2 ^ 64 then Inr n else Inl BadAssetCount)"

text \<open>The loop of both listings. The offset is a 64-bit counter: a registry that keeps answering could
  keep the loop running, which is the value \<open>None\<close>.\<close>

partial_function (option) pages ::
  "(nat \<Rightarrow> nat \<Rightarrow> mirror_error + 'a list) \<Rightarrow> nat \<Rightarrow> nat \<Rightarrow> nat \<Rightarrow> 'a list \<Rightarrow> (mirror_error + 'a list) option" where
  "pages fetch count_all pageSize offset out =
     (if offset < count_all then
        (case fetch offset pageSize of Inl e \<Rightarrow> Some (Inl e)
         | Inr page \<Rightarrow> if page = [] then Some (Inr out)
             else pages fetch count_all pageSize ((offset + pageSize) mod 2 ^ 64) (out @ page))
      else Some (Inr out))"

definition page_size :: "nat \<Rightarrow> nat" where
  "page_size n = (if n = 0 then 200 else n)"

definition ClientListAssets :: "registry \<Rightarrow> nat \<Rightarrow> (mirror_error + RegisteredAsset list) option" where
  "ClientListAssets rg pageSize =
     (case AssetCount rg of Inl e \<Rightarrow> Some (Inl e) | Inr count_all \<Rightarrow> pages (rg_list_assets rg) count_all (page_size pageSize) 0 [])"

definition ClientListDemand :: "registry \<Rightarrow> nat \<Rightarrow> (mirror_error + Demand list) option" where
  "ClientListDemand rg pageSize =
     (case rg_demand_count rg of Inl e \<Rightarrow> Some (Inl e)
      | Inr count_all \<Rightarrow> pages (rg_list_demand rg) (count_all mod 2 ^ 64) (page_size pageSize) 0 [])"

definition KindToStandard :: "nat \<Rightarrow> nat" where
  "KindToStandard kind = (if kind = 20 \<or> kind = 21 \<or> kind = 55 then kind else 0)"

section \<open>The mirror\<close>

text \<open>\<open>mi_head i\<close> and \<open>mi_code i\<close> are what the node answers while the \<open>i\<close>-th asset is processed.\<close>

record mirror =
  mi_registry :: registry
  mi_head :: "nat \<Rightarrow> nat \<Rightarrow> mirror_error + nat option"
  mi_code :: "(nat \<Rightarrow> nat \<Rightarrow> address \<Rightarrow> mirror_error + byte list) option"
  mi_reg_chain :: nat

definition hasCode :: "mirror \<Rightarrow> nat \<Rightarrow> nat \<Rightarrow> address \<Rightarrow> mirror_error + bool" where
  "hasCode m i chainID token =
     (case mi_code m of None \<Rightarrow> Inr True
      | Some f \<Rightarrow> (case f i chainID token of Inl e \<Rightarrow> Inl e | Inr code \<Rightarrow> Inr (length code > 0)))"

definition hint_asset :: "hashfn \<Rightarrow> RegisteredAsset \<Rightarrow> nat \<Rightarrow> Asset" where
  "hint_asset k a head =
     \<lparr>as_standard = KindToStandard (ra_kind a), as_symbol = [], as_name = [], as_decimals = None,
      as_hint_from = (if ra_from a > head then 0 else ra_from a), as_registrant = Some (ra_registrant a),
      as_registry_key = Some (hash_bytes (AssetKey k (ra_chain a) (ra_token a))), as_source = SourceOnchain, as_status = StatusPending,
      as_promoted = False, as_reports = 0, as_reported_at = None, as_report_reason = []\<rparr>"

definition adopt :: "hashfn \<Rightarrow> RegisteredAsset \<Rightarrow> nat \<Rightarrow> 'a asset_db_scheme \<times> nat set \<Rightarrow> 'a asset_db_scheme \<times> nat set" where
  "adopt k a head st =
     (let (db, created) = RegisterAsset (ra_chain a) (ra_token a) (hint_asset k a head) head (fst st)
      in if created then (db, insert (ra_chain a) (snd st))
         else case GetAsset (ra_chain a) (ra_token a) db of
             Inr a0 \<Rightarrow> if as_status a0 = StatusPending then (ReRegisterAsset (ra_chain a) (ra_token a) head db, snd st) else (db, snd st)
           | Inl _ \<Rightarrow> (db, snd st))"

fun sync_assets :: "hashfn \<Rightarrow> mirror \<Rightarrow> nat \<Rightarrow> RegisteredAsset list \<Rightarrow> 'a asset_db_scheme \<times> nat set
    \<Rightarrow> mirror_error option \<times> 'a asset_db_scheme \<times> nat set" where
  "sync_assets k m i [] st = (None, st)"
| "sync_assets k m i (a # as) st =
     (case mi_head m i (ra_chain a) of Inl e \<Rightarrow> (Some e, st)
      | Inr None \<Rightarrow> sync_assets k m (i + 1) as st
      | Inr (Some head) \<Rightarrow>
          if \<not> ra_active a
          then sync_assets k m (i + 1) as (SetAssetStatus (ra_chain a) (ra_token a) StatusRevoked (fst st), snd st)
          else case hasCode m i (ra_chain a) (ra_token a) of
            Inl _ \<Rightarrow> sync_assets k m (i + 1) as st
          | Inr False \<Rightarrow> sync_assets k m (i + 1) as (SetAssetStatus (ra_chain a) (ra_token a) StatusRevoked (fst st), snd st)
          | Inr True \<Rightarrow> sync_assets k m (i + 1) as (adopt k a head st))"

text \<open>The result is the flag that remembers a registry without votes, and the database.\<close>

definition syncDemand :: "mirror \<Rightarrow> bool \<times> 'a demand_db_scheme \<Rightarrow> (bool \<times> 'a demand_db_scheme) option" where
  "syncDemand m st =
     (case ClientListDemand (mi_registry m) 200 of None \<Rightarrow> None
      | Some (Inl _) \<Rightarrow> Some (True, snd st)
      | Some (Inr votes) \<Rightarrow>
          (case ReplaceOnchainDemand (map (\<lambda>v. ((dm_chain v, dm_token v), dm_voters v)) votes) (snd st) of
             None \<Rightarrow> Some (False, snd st) | Some db \<Rightarrow> Some (False, db)))"

text \<open>The result is the error, if any, the chains whose follower is woken, the flag and the database.
  The head of the registry's chain is read last.\<close>

definition SyncRegistry :: "hashfn \<Rightarrow> mirror \<Rightarrow> bool \<times> 'a epoch_db_scheme
    \<Rightarrow> (mirror_error option \<times> nat set \<times> bool \<times> 'a epoch_db_scheme) option" where
  "SyncRegistry k m st =
     (case ClientListAssets (mi_registry m) 200 of None \<Rightarrow> None
      | Some (Inl e) \<Rightarrow> Some (Some e, {}, st)
      | Some (Inr as) \<Rightarrow>
          (case sync_assets k m 0 as (snd st, {}) of
             (Some e, db, _) \<Rightarrow> Some (Some e, {}, fst st, db)
           | (None, db, touched) \<Rightarrow>
               (case syncDemand m (fst st, db) of None \<Rightarrow> None
                | Some (flag, db) \<Rightarrow>
                    Some (None, touched, flag,
                      case mi_head m (length as) (mi_reg_chain m) of
                        Inr (Some head) \<Rightarrow> SetRegistrySyncCursor (mi_reg_chain m) (rg_address (mi_registry m)) head db
                      | _ \<Rightarrow> db))))"

section \<open>The pages of a registry\<close>

lemma pages_complete:
  assumes "\<And>o' l. fetch o' l = Inr (take l (drop o' reg))" "0 < l" "length reg + l \<le> 2 ^ 64"
  shows "pages fetch (length reg) l offset out = Some (Inr (out @ drop offset reg))"
proof (induction "length reg - offset" arbitrary: offset out rule: less_induct)
  case less
  show ?case
  proof (cases "offset < length reg")
    case True
    have ne: "take l (drop offset reg) \<noteq> []" using True assms(2) by simp
    have "offset + l < 2 ^ 64" using True assms(3) by linarith
    then have "(offset + l) mod 2 ^ 64 = offset + l" by simp
    moreover have "pages fetch (length reg) l (offset + l) (out @ take l (drop offset reg))
        = Some (Inr ((out @ take l (drop offset reg)) @ drop (offset + l) reg))"
      by (rule less) (use True assms(2) in linarith)
    moreover have "take l (drop offset reg) @ drop (offset + l) reg = drop offset reg"
      by (metis append_take_drop_id drop_drop add.commute)
    ultimately show ?thesis
      using True ne by (subst pages.simps) (simp add: assms(1))
  next
    case False
    then show ?thesis by (subst pages.simps) simp
  qed
qed

section \<open>One asset\<close>

definition sync_one :: "hashfn \<Rightarrow> mirror \<Rightarrow> nat \<Rightarrow> RegisteredAsset \<Rightarrow> nat option \<Rightarrow> 'a asset_db_scheme \<times> nat set \<Rightarrow> 'a asset_db_scheme \<times> nat set" where
  "sync_one k m i a h st =
     (case h of None \<Rightarrow> st
      | Some head \<Rightarrow>
          if \<not> ra_active a \<or> hasCode m i (ra_chain a) (ra_token a) = Inr False
          then (SetAssetStatus (ra_chain a) (ra_token a) StatusRevoked (fst st), snd st)
          else if hasCode m i (ra_chain a) (ra_token a) = Inr True then adopt k a head st else st)"

lemma sync_assets_Cons:
  "sync_assets k m i (a # as) st =
     (case mi_head m i (ra_chain a) of Inl e \<Rightarrow> (Some e, st) | Inr h \<Rightarrow> sync_assets k m (i + 1) as (sync_one k m i a h st))"
  by (auto simp: sync_one_def split: sum.split option.split bool.split)

definition lookup :: "'a asset_db_scheme \<Rightarrow> asset_key \<Rightarrow> Asset option \<times> Cursor option" where
  "lookup db key = (map_of (assets db) key, map_of (asset_cursors db) key)"

definition ra_key :: "RegisteredAsset \<Rightarrow> asset_key" where
  "ra_key a = (ra_chain a, ra_token a)"

definition restarted :: "nat \<Rightarrow> Cursor \<Rightarrow> Cursor" where
  "restarted head c = c\<lparr>cu_anchor := head, cu_next := backfillStart head, cu_done := False, cu_tail := head\<rparr>"

text \<open>The effect of a sync on the row and the cursor of one listed asset.\<close>

definition mirrored :: "hashfn \<Rightarrow> mirror \<Rightarrow> nat \<Rightarrow> RegisteredAsset \<Rightarrow> Asset option \<times> Cursor option \<Rightarrow> Asset option \<times> Cursor option" where
  "mirrored k m i a rc =
     (case mi_head m i (ra_chain a) of Inr (Some head) \<Rightarrow>
          if \<not> ra_active a \<or> hasCode m i (ra_chain a) (ra_token a) = Inr False
          then (map_option (\<lambda>r. r\<lparr>as_status := StatusRevoked\<rparr>) (fst rc), snd rc)
          else if hasCode m i (ra_chain a) (ra_token a) = Inr True
          then let r = (case fst rc of None \<Rightarrow> hint_asset k a head | Some old \<Rightarrow> merge_asset (hint_asset k a head) old)
               in (Some r, Some (case snd rc of None \<Rightarrow> fresh_cursor head
                     | Some c \<Rightarrow> if as_status r = StatusPending then restarted head c else c))
          else rc
      | _ \<Rightarrow> rc)"

lemma hint_asset_pending [simp]: "(hint_asset k a head)\<lparr>as_status := StatusPending, as_reports := 0, as_reported_at := None, as_report_reason := []\<rparr> = hint_asset k a head"
  by (simp add: hint_asset_def)

lemma lookup_sync_one:
  assumes "mi_head m i (ra_chain a) = Inr h"
  shows "lookup (fst (sync_one k m i a h st)) key = (if key = ra_key a then mirrored k m i a (lookup (fst st) key) else lookup (fst st) key)"
proof (cases h)
  case None
  then show ?thesis using assms by (simp add: sync_one_def mirrored_def)
next
  case (Some head)
  have "lookup (fst (adopt k a head st)) key = (if key = ra_key a then
      (let r = (case fst (lookup (fst st) key) of None \<Rightarrow> hint_asset k a head | Some old \<Rightarrow> merge_asset (hint_asset k a head) old)
       in (Some r, Some (case snd (lookup (fst st) key) of None \<Rightarrow> fresh_cursor head
             | Some c \<Rightarrow> if as_status r = StatusPending then restarted head c else c))) else lookup (fst st) key)"
    by (auto simp: adopt_def lookup_def ra_key_def RegisterAsset_def GetAsset_def ReRegisterAsset_def Let_def restarted_def
      split: option.splits)
  then show ?thesis using assms Some by (auto simp: sync_one_def mirrored_def lookup_def ra_key_def SetAssetStatus_def)
qed

lemma find_absent: "key \<notin> f ` set as \<Longrightarrow> find (\<lambda>(j, a). f a = key) (enumerate n as) = None"
  by (induction as arbitrary: n) auto

lemma lookup_sync_assets:
  assumes "sync_assets k m i as st = (None, db', T')" "distinct (map ra_key as)"
  shows "lookup db' key = (case find (\<lambda>(j, a). ra_key a = key) (enumerate i as) of
      None \<Rightarrow> lookup (fst st) key | Some (j, a) \<Rightarrow> mirrored k m j a (lookup (fst st) key))"
  using assms
proof (induction as arbitrary: i st)
  case (Cons a as)
  from Cons.prems(1) obtain h where h: "mi_head m i (ra_chain a) = Inr h"
    and rest: "sync_assets k m (i + 1) as (sync_one k m i a h st) = (None, db', T')"
    unfolding sync_assets_Cons by (auto split: sum.splits)
  have "find (\<lambda>(j, b). ra_key b = ra_key a) (enumerate (Suc i) as) = None"
    by (rule find_absent) (use Cons.prems(2) in simp)
  then show ?case
    using Cons.IH [OF rest] Cons.prems(2) lookup_sync_one [OF h, of k st key] by (auto split: option.splits)
qed simp

lemma find_enumerate:
  assumes "distinct (map f as)" "j < length as"
  shows "find (\<lambda>(i, a). f a = f (as ! j)) (enumerate 0 as) = Some (j, as ! j)"
proof -
  have "find (\<lambda>(i, a). f a = f (as ! j)) (enumerate n as) = Some (n + j, as ! j)" for n
    using assms
  proof (induction as arbitrary: n j)
    case (Cons a as)
    then show ?case
      by (cases j) auto
  qed simp
  from this [of 0] show ?thesis by simp
qed

lemma sync_assets_keeps:
  "interactions (fst (snd (sync_assets k m i as st))) = interactions (fst st)"
proof (induction as arbitrary: i st)
  case (Cons a as)
  have "interactions (fst (sync_one k m i a h st)) = interactions (fst st)" for h
    by (auto simp: sync_one_def adopt_def RegisterAsset_def ReRegisterAsset_def SetAssetStatus_def Let_def split: option.split sum.split)
  then show ?case using Cons by (simp add: sync_assets_Cons del: sync_assets.simps split: sum.split)
qed simp

lemma sync_assets_runs:
  "\<forall>i c. \<exists>h. mi_head m i c = Inr h \<Longrightarrow> \<exists>db T. sync_assets k m i as st = (None, db, T)"
proof (induction as arbitrary: i st)
  case (Cons a as)
  then show ?case by (metis sync_assets_Cons sum.case(2))
qed simp

text \<open>A sync that fails has processed the assets before the one whose head it could not read.\<close>

lemma sync_assets_prefix:
  "sync_assets k m i as st = (r, st') \<Longrightarrow> \<exists>n \<le> length as. sync_assets k m i (take n as) st = (None, st')
     \<and> (\<forall>j < n. \<exists>h. mi_head m (i + j) (ra_chain (as ! j)) = Inr h)
     \<and> (case r of None \<Rightarrow> n = length as | Some e \<Rightarrow> n < length as \<and> mi_head m (i + n) (ra_chain (as ! n)) = Inl e)"
proof (induction as arbitrary: i st)
  case (Cons a as)
  show ?case
  proof (cases "mi_head m i (ra_chain a)")
    case (Inl e)
    then have "r = Some e" "st' = st" using Cons.prems by (simp_all add: sync_assets_Cons del: sync_assets.simps(2))
    then show ?thesis using Inl by (intro exI [of _ 0]) simp
  next
    case (Inr h)
    then have "sync_assets k m (i + 1) as (sync_one k m i a h st) = (r, st')"
      using Cons.prems by (simp add: sync_assets_Cons del: sync_assets.simps(2))
    from Cons.IH [OF this] obtain n where n: "n \<le> length as" "sync_assets k m (i + 1) (take n as) (sync_one k m i a h st) = (None, st')"
      "\<forall>j < n. \<exists>h. mi_head m (i + 1 + j) (ra_chain (as ! j)) = Inr h"
      "case r of None \<Rightarrow> n = length as | Some e \<Rightarrow> n < length as \<and> mi_head m (i + 1 + n) (ra_chain (as ! n)) = Inl e"
      by blast
    have "\<exists>h. mi_head m (i + j) (ra_chain ((a # as) ! j)) = Inr h" if "j < Suc n" for j
      using Inr n(3) that by (cases j) auto
    moreover have "sync_assets k m i (take (Suc n) (a # as)) st = (None, st')"
      using n(2) Inr by (simp add: sync_assets_Cons del: sync_assets.simps(2))
    ultimately show ?thesis using n(1,4) by (intro exI [of _ "Suc n"]) (auto split: option.splits)
  qed
qed simp

lemma lookup_outside:
  assumes "sync_assets k m i as st = (None, db', T')" "distinct (map ra_key as)" "key \<notin> ra_key ` set as"
  shows "lookup db' key = lookup (fst st) key"
  unfolding lookup_sync_assets [OF assms(1,2)] find_absent [OF assms(3)] by simp

lemma touched_sync_one:
  assumes "mi_head m i (ra_chain a) = Inr h"
  shows "snd (sync_one k m i a h st) = snd st \<union>
     (if snd (lookup (fst st) (ra_key a)) = None \<and> snd (lookup (fst (sync_one k m i a h st)) (ra_key a)) \<noteq> None then {ra_chain a} else {})"
  by (auto simp: sync_one_def adopt_def lookup_def ra_key_def RegisterAsset_def GetAsset_def ReRegisterAsset_def SetAssetStatus_def Let_def
      split: option.splits)

text \<open>A chain is woken when one of its assets got a cursor.\<close>

lemma touched_sync:
  "sync_assets k m i as st = (None, db', T') \<Longrightarrow> distinct (map ra_key as) \<Longrightarrow>
     T' = snd st \<union> ra_chain ` {a \<in> set as. snd (lookup (fst st) (ra_key a)) = None \<and> snd (lookup db' (ra_key a)) \<noteq> None}"
proof (induction as arbitrary: i st)
  case (Cons a as)
  from Cons.prems(1) obtain h where h: "mi_head m i (ra_chain a) = Inr h"
    and rest: "sync_assets k m (i + 1) as (sync_one k m i a h st) = (None, db', T')"
    unfolding sync_assets_Cons by (auto split: sum.splits)
  have d: "distinct (map ra_key as)" "ra_key a \<notin> ra_key ` set as" using Cons.prems(2) by auto
  have "lookup (fst (sync_one k m i a h st)) (ra_key b) = lookup (fst st) (ra_key b)" if "b \<in> set as" for b
    using lookup_sync_one [OF h, of k st "ra_key b"] d(2) that by (auto simp: rev_image_eqI)
  then have "{b \<in> set as. snd (lookup (fst (sync_one k m i a h st)) (ra_key b)) = None \<and> snd (lookup db' (ra_key b)) \<noteq> None}
      = {b \<in> set as. snd (lookup (fst st) (ra_key b)) = None \<and> snd (lookup db' (ra_key b)) \<noteq> None}" by auto
  then show ?case
    using Cons.IH [OF rest d(1)] touched_sync_one [OF h, of k st] lookup_outside [OF rest d]
    by (auto split: if_splits)
qed simp

section \<open>Properties\<close>

text \<open>What the contract's listings promise.\<close>

definition lists :: "registry \<Rightarrow> RegisteredAsset list \<Rightarrow> Demand list \<Rightarrow> bool" where
  "lists rg reg votes \<longleftrightarrow> rg_asset_count rg = Inr (length reg) \<and> rg_demand_count rg = Inr (length votes)
     \<and> rg_list_assets rg = (\<lambda>offset l. Inr (take l (drop offset reg)))
     \<and> rg_list_demand rg = (\<lambda>offset l. Inr (take l (drop offset votes)))
     \<and> length reg + 200 \<le> 2 ^ 64 \<and> length votes + 200 \<le> 2 ^ 64"

lemma lists_read:
  assumes "lists rg reg votes"
  shows "ClientListAssets rg 200 = Some (Inr reg)" "ClientListDemand rg 200 = Some (Inr votes)"
proof -
  have "pages (rg_list_assets rg) (length reg) 200 0 [] = Some (Inr ([] @ drop 0 reg))"
    by (rule pages_complete) (use assms in \<open>simp_all add: lists_def\<close>)
  then show "ClientListAssets rg 200 = Some (Inr reg)" using assms by (simp add: ClientListAssets_def AssetCount_def lists_def page_size_def)
  have "pages (rg_list_demand rg) (length votes) 200 0 [] = Some (Inr ([] @ drop 0 votes))"
    by (rule pages_complete) (use assms in \<open>simp_all add: lists_def\<close>)
  then show "ClientListDemand rg 200 = Some (Inr votes)" using assms by (simp add: ClientListDemand_def lists_def page_size_def)
qed

lemma sync_assets_keeps_votes:
  fixes st :: "'a epoch_db_scheme \<times> nat set"
  shows "asset_demand_onchain (fst (snd (sync_assets k m i as st))) = asset_demand_onchain (fst st)
    \<and> registry_sync (fst (snd (sync_assets k m i as st))) = registry_sync (fst st)"
proof (induction as arbitrary: i st)
  case (Cons a as)
  have "asset_demand_onchain (fst (sync_one k m i a h st)) = asset_demand_onchain (fst st)
      \<and> registry_sync (fst (sync_one k m i a h st)) = registry_sync (fst st)" for h
    by (auto simp: sync_one_def adopt_def RegisterAsset_def ReRegisterAsset_def SetAssetStatus_def Let_def split: option.split sum.split)
  then show ?case using Cons by (simp add: sync_assets_Cons del: sync_assets.simps split: sum.split)
qed simp

lemma sync_runs:
  assumes "lists (mi_registry m) reg votes" "sync_assets k m 0 reg (db, {}) = (r, db1, T)"
  shows "\<exists>flag db'. SyncRegistry k m (f, db) = Some (r, if r = None then T else {}, flag, db')
    \<and> assets db' = assets db1 \<and> asset_cursors db' = asset_cursors db1 \<and> interactions db' = interactions db1
    \<and> (case r of Some e \<Rightarrow> flag = f \<and> db' = db1
       | None \<Rightarrow> asset_demand_onchain db' = (if distinct (map (\<lambda>v. (dm_chain v, dm_token v)) votes)
             then map (\<lambda>v. ((dm_chain v, dm_token v), dm_voters v)) votes else asset_demand_onchain db1)
           \<and> (\<forall>head. mi_head m (length reg) (mi_reg_chain m) = Inr (Some head) \<longrightarrow>
                RegistrySyncCursor (mi_reg_chain m) (rg_address (mi_registry m)) db' = head))"
proof (cases r)
  case None
  define votes' where "votes' = map (\<lambda>v. ((dm_chain v, dm_token v), dm_voters v)) votes"
  define db2 where "db2 = (if keys_unique votes' then db1\<lparr>asset_demand_onchain := votes'\<rparr> else db1)"
  have d: "syncDemand m (f, db1) = Some (False, db2)"
    by (simp add: syncDemand_def lists_read(2) [OF assms(1)] ReplaceOnchainDemand_def db2_def votes'_def)
  define db' where "db' = (case mi_head m (length reg) (mi_reg_chain m) of
      Inr (Some head) \<Rightarrow> SetRegistrySyncCursor (mi_reg_chain m) (rg_address (mi_registry m)) head db2 | _ \<Rightarrow> db2)"
  have run: "SyncRegistry k m (f, db) = Some (None, T, False, db')"
    using assms(2) None by (simp add: SyncRegistry_def lists_read(1) [OF assms(1)] d db'_def)
  have same: "assets db' = assets db1" "asset_cursors db' = asset_cursors db1" "interactions db' = interactions db1"
    "asset_demand_onchain db' = asset_demand_onchain db2"
    by (auto simp: db'_def db2_def SetRegistrySyncCursor_def split: sum.split option.split)
  have "keys_unique votes' \<longleftrightarrow> distinct (map (\<lambda>v. (dm_chain v, dm_token v)) votes)"
    by (simp add: keys_unique_def votes'_def comp_def)
  then have "asset_demand_onchain db' = (if distinct (map (\<lambda>v. (dm_chain v, dm_token v)) votes) then votes' else asset_demand_onchain db1)"
    by (simp add: same(4) db2_def)
  moreover have "RegistrySyncCursor (mi_reg_chain m) (rg_address (mi_registry m)) db' = head"
    if "mi_head m (length reg) (mi_reg_chain m) = Inr (Some head)" for head
    using that by (simp add: db'_def RegistrySyncCursor_def SetRegistrySyncCursor_def split: option.split)
  ultimately show ?thesis using None run same(1-3) unfolding votes'_def by auto
next
  case (Some e)
  then show ?thesis using assms(2) by (simp add: SyncRegistry_def lists_read(1) [OF assms(1)])
qed

lemma sync_effect:
  assumes "lists (mi_registry m) reg votes" "distinct (map ra_key reg)" "\<forall>i c. \<exists>h. mi_head m i c = Inr h"
  shows "\<exists>touched flag db'. SyncRegistry k m (f, db) = Some (None, touched, flag, db')
    \<and> (\<forall>j < length reg. lookup db' (ra_key (reg ! j)) = mirrored k m j (reg ! j) (lookup db (ra_key (reg ! j))))"
proof -
  obtain db1 T where s: "sync_assets k m 0 reg (db, {}) = (None, db1, T)" using sync_assets_runs [OF assms(3)] by blast
  obtain flag db' where run: "SyncRegistry k m (f, db) = Some (None, T, flag, db')"
    and same: "assets db' = assets db1" "asset_cursors db' = asset_cursors db1"
    using sync_runs [OF assms(1) s, of f] by auto
  have "lookup db' (ra_key (reg ! j)) = mirrored k m j (reg ! j) (lookup db (ra_key (reg ! j)))" if "j < length reg" for j
    using lookup_sync_assets [OF s assms(2), of "ra_key (reg ! j)"] find_enumerate [OF assms(2) that]
    by (simp add: lookup_def same)
  then show ?thesis using run by blast
qed

definition demo_mirror :: mirror where
  "demo_mirror = \<lparr>mi_registry = \<lparr>rg_asset_count = Inr 1,
      rg_list_assets = (\<lambda>offset l. Inr (take l (drop offset [\<lparr>ra_chain = 5, ra_token = 9, ra_kind = 20, ra_from = 2, ra_registrant = 4,
        ra_registered_at = 0, ra_bond = 0, ra_active = True\<rparr>]))),
      rg_demand_count = Inr 0, rg_list_demand = (\<lambda>offset l. Inr (take l (drop offset []))), rg_address = 1\<rparr>,
    mi_head = (\<lambda>i c. Inr (Some 30)), mi_code = None, mi_reg_chain = 1\<rparr>"

abbreviation demo_reg :: "RegisteredAsset list" where
  "demo_reg \<equiv> [\<lparr>ra_chain = 5, ra_token = 9, ra_kind = 20, ra_from = 2, ra_registrant = 4, ra_registered_at = 0, ra_bond = 0, ra_active = True\<rparr>]"

lemma demo_lists: "lists (mi_registry demo_mirror) demo_reg []" "distinct (map ra_key demo_reg)" "\<forall>i c. \<exists>h. mi_head demo_mirror i c = Inr h"
  by (simp_all add: lists_def demo_mirror_def)

text \<open>A database right after a restore.\<close>

definition demo_restored :: epoch_db where
  "demo_restored = fst (Restore demo_hash (the (fst (demo_doc [9]))) [\<lparr>sc_asset = 9, sc_from = 2, sc_to = 9\<rparr>] [\<lparr>sl_account = 1, sl_assets = [9]\<rparr>]
     (demo_epoch_db\<lparr>interactions := [], assets := [], asset_cursors := []\<rparr>))"

lemma demo_restored_lookup:
  "lookup demo_restored (5, 9) = (Some (restored_asset demo_hash 5 \<lparr>sc_asset = 9, sc_from = 2, sc_to = 9\<rparr>), Some (restored_cursor \<lparr>sc_asset = 9, sc_from = 2, sc_to = 9\<rparr>))"
proof -
  have "no_index (demo_epoch_db\<lparr>interactions := [], assets := [], asset_cursors := []\<rparr>)" by (simp add: no_index_def)
  moreover have "doc_ok (the (fst (demo_doc [9]))) [\<lparr>sc_asset = 9, sc_from = 2, sc_to = 9\<rparr>] [\<lparr>sl_account = 1, sl_assets = [9]\<rparr>]"
    by (simp add: doc_ok_def demo_doc_def)
  ultimately show ?thesis
    unfolding lookup_def demo_restored_def by (simp add: Restore_tables) (simp add: demo_doc_def)
qed

text \<open>The row and the cursor of a listed asset.\<close>

abbreviation row :: "'a asset_db_scheme \<Rightarrow> RegisteredAsset \<Rightarrow> Asset option" where
  "row db a \<equiv> map_of (assets db) (ra_chain a, ra_token a)"

abbreviation cur :: "'a asset_db_scheme \<Rightarrow> RegisteredAsset \<Rightarrow> Cursor option" where
  "cur db a \<equiv> map_of (asset_cursors db) (ra_chain a, ra_token a)"

text \<open>What an asset that is adopted at a head has afterwards: a new asset is pending with a fresh
  cursor; a known one keeps what is known about it, a revoked one is pending again; and every
  asset that is pending has its cursor put back to the head, whatever it had reached.\<close>

definition adopted_row :: "RegisteredAsset \<Rightarrow> nat \<Rightarrow> Asset option \<Rightarrow> Asset \<Rightarrow> bool" where
  "adopted_row a head old r \<longleftrightarrow> as_source r = SourceOnchain \<and>
     (case old of
        None \<Rightarrow> as_status r = StatusPending \<and> as_standard r = KindToStandard (ra_kind a) \<and> as_registrant r = Some (ra_registrant a)
          \<and> as_hint_from r = (if ra_from a > head then 0 else ra_from a) \<and> \<not> as_promoted r \<and> as_reports r = 0
      | Some old \<Rightarrow> as_status r = (if as_status old = StatusRevoked then StatusPending else as_status old)
          \<and> as_standard r = (if as_standard old = 0 then KindToStandard (ra_kind a) else as_standard old)
          \<and> as_registrant r = as_registrant old \<and> as_hint_from r = as_hint_from old \<and> as_promoted r = as_promoted old
          \<and> as_reports r = as_reports old \<and> as_symbol r = as_symbol old \<and> as_name r = as_name old \<and> as_decimals r = as_decimals old)"

definition adopted_cursor :: "nat \<Rightarrow> Asset \<Rightarrow> Cursor option \<Rightarrow> Cursor option \<Rightarrow> bool" where
  "adopted_cursor head r old new \<longleftrightarrow> new = Some (case old of
      None \<Rightarrow> \<lparr>cu_anchor = head, cu_next = head - 1, cu_done = False, cu_tail = head, cu_logs = 0, cu_floor = 0\<rparr>
    | Some c \<Rightarrow> if as_status r = StatusPending
        then c\<lparr>cu_anchor := head, cu_next := head - 1, cu_done := False, cu_tail := head\<rparr> else c)"

lemma adopted:
  assumes "mirrored k m j a (old, c) = (new, c')" "mi_head m j (ra_chain a) = Inr (Some head)"
    "ra_active a" "hasCode m j (ra_chain a) (ra_token a) = Inr True"
  shows "\<exists>r. new = Some r \<and> adopted_row a head old r \<and> adopted_cursor head r c c'"
  using assms
  by (cases old; cases c)
    (auto simp: mirrored_def adopted_row_def adopted_cursor_def hint_asset_def merge_asset_def non_empty_def coalesce_def fresh_cursor_def
      restarted_def backfillStart_def Let_def split: option.splits)

lemma mirrored_cases:
  assumes "mirrored k m j a (old, c) = (new, c')"
  shows "case (mi_head m j (ra_chain a), ra_active a, hasCode m j (ra_chain a) (ra_token a)) of
      (Inr (Some head), True, Inr True) \<Rightarrow> \<exists>r. new = Some r \<and> adopted_row a head old r \<and> adopted_cursor head r c c'
    | (Inr (Some head), True, Inl _) \<Rightarrow> new = old \<and> c' = c
    | (Inr (Some head), _, _) \<Rightarrow> new = map_option (\<lambda>r. r\<lparr>as_status := StatusRevoked\<rparr>) old \<and> c' = c
    | _ \<Rightarrow> new = old \<and> c' = c"
  using assms adopted [OF assms]
  by (auto simp: mirrored_def split: sum.split option.split bool.split)

text \<open>C30: A sync against a registry that answers its listings, of any size and page by page, and
  whatever the nodes answer. It goes through the listed assets in order and stops with the error
  of the first head it cannot read; every asset before that one is done. An asset of a chain that
  is not run, or whose code cannot be read, is left as it is. One that is inactive or has no code
  is revoked. Any other is adopted: it has a row with the status pending, or the one it had
  unless that was revoked, and its cursor is at the head when it had none or when it is pending,
  so a pending asset loses the progress of its scan. No other asset is touched, nor the index.

  A sync without error wakes exactly the chains of the assets that got their first cursor,
  records the head of the registry's chain when it can read it, and the votes are those of the
  registry alone (unless it lists a token twice); one with an error does none of this.\<close>

theorem sync_mirrors_registry:
  assumes "lists (mi_registry m) reg votes" "distinct (map ra_key reg)"
  shows "\<exists>n result touched flag db'. SyncRegistry k m (f, db) = Some (result, touched, flag, db') \<and> n \<le> length reg
    \<and> (\<forall>j < n. \<exists>h. mi_head m j (ra_chain (reg ! j)) = Inr h)
    \<and> (\<forall>j < n.
         case (mi_head m j (ra_chain (reg ! j)), ra_active (reg ! j), hasCode m j (ra_chain (reg ! j)) (ra_token (reg ! j))) of
           (Inr (Some head), True, Inr True) \<Rightarrow> \<exists>r. row db' (reg ! j) = Some r
             \<and> adopted_row (reg ! j) head (row db (reg ! j)) r \<and> adopted_cursor head r (cur db (reg ! j)) (cur db' (reg ! j))
         | (Inr (Some head), True, Inl _) \<Rightarrow> row db' (reg ! j) = row db (reg ! j) \<and> cur db' (reg ! j) = cur db (reg ! j)
         | (Inr (Some head), _, _) \<Rightarrow> row db' (reg ! j) = map_option (\<lambda>r. r\<lparr>as_status := StatusRevoked\<rparr>) (row db (reg ! j))
             \<and> cur db' (reg ! j) = cur db (reg ! j)
         | _ \<Rightarrow> row db' (reg ! j) = row db (reg ! j) \<and> cur db' (reg ! j) = cur db (reg ! j))
    \<and> (\<forall>key. key \<notin> ra_key ` set (take n reg) \<longrightarrow>
         map_of (assets db') key = map_of (assets db) key \<and> map_of (asset_cursors db') key = map_of (asset_cursors db) key)
    \<and> interactions db' = interactions db
    \<and> (if n < length reg
        then mi_head m n (ra_chain (reg ! n)) = Inl (the result) \<and> result \<noteq> None \<and> touched = {} \<and> flag = f
          \<and> asset_demand_onchain db' = asset_demand_onchain db \<and> registry_sync db' = registry_sync db
        else result = None \<and> touched = ra_chain ` {a \<in> set reg. cur db a = None \<and> cur db' a \<noteq> None}
          \<and> asset_demand_onchain db' = (if distinct (map (\<lambda>v. (dm_chain v, dm_token v)) votes)
              then map (\<lambda>v. ((dm_chain v, dm_token v), dm_voters v)) votes else asset_demand_onchain db)
          \<and> (\<forall>head. mi_head m (length reg) (mi_reg_chain m) = Inr (Some head) \<longrightarrow>
               RegistrySyncCursor (mi_reg_chain m) (rg_address (mi_registry m)) db' = head))"
proof -
  obtain r db1 T where s: "sync_assets k m 0 reg (db, {}) = (r, db1, T)" by (metis prod_cases3)
  obtain n where n: "n \<le> length reg" "sync_assets k m 0 (take n reg) (db, {}) = (None, db1, T)"
    "\<forall>j < n. \<exists>h. mi_head m j (ra_chain (reg ! j)) = Inr h"
    "case r of None \<Rightarrow> n = length reg | Some e \<Rightarrow> n < length reg \<and> mi_head m n (ra_chain (reg ! n)) = Inl e"
    using sync_assets_prefix [OF s] unfolding add_0 by blast
  have d: "distinct (map ra_key (take n reg))" using assms(2) by (simp add: take_map [symmetric])
  obtain flag db' where run: "SyncRegistry k m (f, db) = Some (r, if r = None then T else {}, flag, db')"
    and same: "assets db' = assets db1" "asset_cursors db' = asset_cursors db1" "interactions db' = interactions db1"
    and fin: "case r of Some e \<Rightarrow> flag = f \<and> db' = db1
       | None \<Rightarrow> asset_demand_onchain db' = (if distinct (map (\<lambda>v. (dm_chain v, dm_token v)) votes)
             then map (\<lambda>v. ((dm_chain v, dm_token v), dm_voters v)) votes else asset_demand_onchain db1)
           \<and> (\<forall>head. mi_head m (length reg) (mi_reg_chain m) = Inr (Some head) \<longrightarrow>
                RegistrySyncCursor (mi_reg_chain m) (rg_address (mi_registry m)) db' = head)"
    using sync_runs [OF assms(1) s] by blast
  have kept: "interactions db1 = interactions db" "asset_demand_onchain db1 = asset_demand_onchain db" "registry_sync db1 = registry_sync db"
    using sync_assets_keeps [of k m 0 reg "(db, {})"] sync_assets_keeps_votes [of k m 0 reg "(db, {})"] s by simp_all
  have one: "mirrored k m j (reg ! j) (row db (reg ! j), cur db (reg ! j)) = (row db' (reg ! j), cur db' (reg ! j))" if "j < n" for j
    using lookup_sync_assets [OF n(2) d, of "ra_key (reg ! j)"] find_enumerate [OF d, of j] that n(1)
    by (simp add: lookup_def ra_key_def same)
  have touched: "T = ra_chain ` {a \<in> set (take n reg). cur db a = None \<and> cur db' a \<noteq> None}"
    using touched_sync [OF n(2) d] by (simp add: lookup_def ra_key_def same)
  have out: "map_of (assets db') key = map_of (assets db) key \<and> map_of (asset_cursors db') key = map_of (asset_cursors db) key"
    if "key \<notin> ra_key ` set (take n reg)" for key
    using lookup_outside [OF n(2) d that] by (simp add: lookup_def same)
  have last: "if n < length reg
      then mi_head m n (ra_chain (reg ! n)) = Inl (the r) \<and> r \<noteq> None \<and> (if r = None then T else {}) = {} \<and> flag = f
        \<and> asset_demand_onchain db' = asset_demand_onchain db \<and> registry_sync db' = registry_sync db
      else r = None \<and> (if r = None then T else {}) = ra_chain ` {a \<in> set reg. cur db a = None \<and> cur db' a \<noteq> None}
        \<and> asset_demand_onchain db' = (if distinct (map (\<lambda>v. (dm_chain v, dm_token v)) votes)
            then map (\<lambda>v. ((dm_chain v, dm_token v), dm_voters v)) votes else asset_demand_onchain db)
        \<and> (\<forall>head. mi_head m (length reg) (mi_reg_chain m) = Inr (Some head) \<longrightarrow>
             RegistrySyncCursor (mi_reg_chain m) (rg_address (mi_registry m)) db' = head)"
    using n(1,4) fin kept touched by (auto split: option.splits)
  have ints: "interactions db' = interactions db" by (simp add: same(3) kept(1))
  show ?thesis
    by (rule exI [of _ n], rule exI [of _ r], rule exI [of _ "if r = None then T else {}"], rule exI [of _ flag], rule exI [of _ db'],
        intro conjI run n(1) n(3) ints last allI impI mirrored_cases [OF one] out [THEN conjunct1] out [THEN conjunct2])
qed

theorem sync_mirrors_registry_witness:
  "\<exists>result touched flag db'. SyncRegistry demo_hash demo_mirror (False, demo_restored) = Some (result, touched, flag, db')
     \<and> map_of (assets db') (7, 7) = map_of (assets demo_restored) (7, 7)"
proof -
  have "(7, 7) \<notin> ra_key ` set (take n demo_reg)" for n by (cases n) (auto simp: ra_key_def)
  then show ?thesis using sync_mirrors_registry [OF demo_lists(1,2), of demo_hash False demo_restored] by blast
qed

text \<open>A sync takes an asset that is still pending back to the start: its cursor is put at the head
  as if nothing had been scanned, so every block below the head whose logs the workers have already
  folded into the index is to be read, and counted, again.\<close>

theorem sync_forgets_pending_progress:
  assumes "lists (mi_registry m) reg votes" "distinct (map ra_key reg)" "\<forall>i c. \<exists>h. mi_head m i c = Inr h"
    and "j < length reg" "ra_active (reg ! j)" "mi_head m j (ra_chain (reg ! j)) = Inr (Some head)"
    and "hasCode m j (ra_chain (reg ! j)) (ra_token (reg ! j)) = Inr True"
    and "lookup db (ra_key (reg ! j)) = (Some r, Some c)" "as_status r = StatusPending"
    and "SyncRegistry k m (f, db) = Some (None, touched, flag, db')"
  shows "\<exists>c'. snd (lookup db' (ra_key (reg ! j))) = Some c' \<and> cu_tail c' = head \<and> \<not> cu_done c'
    \<and> backfilled c' \<union> followed c' = {} \<and> (backfilled c \<union> followed c) \<inter> {..<head} \<subseteq> {..cu_next c'}"
proof -
  have "lookup db' (ra_key (reg ! j)) = mirrored k m j (reg ! j) (Some r, Some c)"
    using sync_effect [OF assms(1-3), of k f db] assms(4,8,10) by auto
  also have "snd \<dots> = Some (restarted head c)"
    using assms(5-7,9) by (simp add: mirrored_def Let_def merge_asset_def)
  finally show ?thesis by (auto simp: restarted_def backfilled_def followed_def backfillStart_def)
qed

theorem sync_forgets_pending_progress_witness:
  "\<exists>touched flag db' c'. SyncRegistry demo_hash demo_mirror (False, demo_restored) = Some (None, touched, flag, db')
     \<and> snd (lookup db' (5, 9)) = Some c' \<and> backfilled c' \<union> followed c' = {} \<and> {3..9} \<subseteq> {..cu_next c'}"
proof -
  obtain T flag db' where run: "SyncRegistry demo_hash demo_mirror (False, demo_restored) = Some (None, T, flag, db')"
    using sync_effect [OF demo_lists, of demo_hash False demo_restored] by blast
  have a: "0 < length demo_reg" "ra_active (demo_reg ! 0)" "mi_head demo_mirror 0 (ra_chain (demo_reg ! 0)) = Inr (Some 30)"
    "hasCode demo_mirror 0 (ra_chain (demo_reg ! 0)) (ra_token (demo_reg ! 0)) = Inr True" "ra_key (demo_reg ! 0) = (5, 9)"
    by (simp_all add: demo_mirror_def hasCode_def ra_key_def)
  have p: "as_status (restored_asset demo_hash 5 \<lparr>sc_asset = 9, sc_from = 2, sc_to = 9\<rparr>) = StatusPending" by (simp add: restored_asset_def)
  have "(backfilled (restored_cursor \<lparr>sc_asset = 9, sc_from = 2, sc_to = 9\<rparr>) \<union> followed (restored_cursor \<lparr>sc_asset = 9, sc_from = 2, sc_to = 9\<rparr>)) \<inter> {..<30} = {3..9}"
    by (auto simp: backfilled_def followed_def restored_cursor_def)
  with sync_forgets_pending_progress [OF demo_lists a(1-4) demo_restored_lookup [folded a(5)] p run] run show ?thesis
    unfolding a(5) by metis
qed

end
