(* ===== verification/PriceMath.thy ===== *)
theory PriceMath
  imports Prelude Complex_Main "HOL-Library.Log_Nat"
begin

text \<open>
  Price arithmetic: \<open>internal/price/math.go\<close>. Rationals are \<open>big.Rat\<close>; a \<open>big.Float\<close> of precision 320
  is a rational with every result rounded to 320 significant bits, ties to even. A nil rational is
  \<open>None\<close>. The lemmas bound the error of the tick ratio and the meaning of the printed decimals.
\<close>

section \<open>Rounding to 320 bits\<close>

definition exp2 :: "rat \<Rightarrow> int" where
  "exp2 x = (let (n, d) = quotient_of x; k = int (floorlog 2 (nat n)) - int (floorlog 2 (nat d))
     in if 2 powi k \<le> x then k else k - 1)"

definition round_even :: "rat \<Rightarrow> int" where
  "round_even y = (let f = \<lfloor>y\<rfloor>; r = y - of_int f in if r < 1 / 2 \<or> r = 1 / 2 \<and> even f then f else f + 1)"

definition rnd :: "rat \<Rightarrow> rat" where
  "rnd x = (if x \<le> 0 then x else let s = 2 powi (319 - exp2 x) in of_int (round_even (x * s)) / s)"

section \<open>Operations\<close>

definition tickBase :: rat where
  "tickBase = rnd (10001 / 10000)"

fun ratio_loop :: "nat \<Rightarrow> rat \<Rightarrow> rat \<Rightarrow> rat" where
  "ratio_loop n res base =
     (if n = 0 then res else ratio_loop (n div 2) (if odd n then rnd (res * base) else res) (rnd (base * base)))"

declare ratio_loop.simps [simp del]

definition ratioFromTick :: "int \<Rightarrow> rat" where
  "ratioFromTick tick =
     (let res = ratio_loop (nat \<bar>tick\<bar>) 1 tickBase in if tick < 0 then rnd (1 / res) else res)"

definition ratioFromSqrtPriceX96 :: "int option \<Rightarrow> rat option" where
  "ratioFromSqrtPriceX96 s = (case s of None \<Rightarrow> None | Some s \<Rightarrow> if s \<le> 0 then None else Some (of_int (s * s) / 2 ^ 192))"

definition twapTick :: "int option \<Rightarrow> int option \<Rightarrow> nat \<Rightarrow> int option" where
  "twapTick start end window =
     (case (start, end) of (Some s, Some e) \<Rightarrow>
        if window = 0 then None
        else let q = (e - s) div int window in if q > 887272 \<or> q < - 887272 then None else Some q
      | _ \<Rightarrow> None)"

definition pow10 :: "nat \<Rightarrow> rat" where
  "pow10 n = 10 ^ n"

definition wholeUnits :: "rat \<Rightarrow> nat \<Rightarrow> nat \<Rightarrow> rat" where
  "wholeUnits raw dec0 dec1 = (if dec0 \<ge> dec1 then raw * pow10 (dec0 - dec1) else raw / pow10 (dec1 - dec0))"

definition invert :: "rat option \<Rightarrow> rat option" where
  "invert r = (case r of None \<Rightarrow> None | Some r \<Rightarrow> if r = 0 then None else Some (1 / r))"

definition feedPrice :: "int option \<Rightarrow> nat \<Rightarrow> rat option" where
  "feedPrice answer decimals = (case answer of None \<Rightarrow> None | Some a \<Rightarrow> if a \<le> 0 then None else Some (of_int a / pow10 decimals))"

definition v3VirtualReserve :: "int option \<Rightarrow> int option \<Rightarrow> bool \<Rightarrow> rat option" where
  "v3VirtualReserve liquidity sqrtPriceX96 token0 =
     (case (liquidity, sqrtPriceX96) of (Some l, Some s) \<Rightarrow>
        if s \<le> 0 then None
        else Some (if token0 then of_int (l * 2 ^ 96) / of_int s else of_int (l * s) / 2 ^ 96)
      | _ \<Rightarrow> None)"

section \<open>Rendering\<close>

text \<open>\<open>big.Rat.FloatString\<close> with at least one place: the last place is rounded, halves away from zero.\<close>

definition pad_zeros :: "nat \<Rightarrow> string \<Rightarrow> string" where
  "pad_zeros n s = replicate (n - length s) (CHR ''0'') @ s"

definition FloatString :: "rat \<Rightarrow> nat \<Rightarrow> string" where
  "FloatString r prec =
     (let v = nat \<lfloor>\<bar>r\<bar> * 10 ^ prec + 1 / 2\<rfloor>
      in (if r < 0 then ''-'' else []) @ dec_string (v div 10 ^ prec) @ ''.'' @ pad_zeros prec (dec_string (v mod 10 ^ prec)))"

fun trim_end :: "nat \<Rightarrow> string \<Rightarrow> string" where
  "trim_end n s = (if length s > n \<and> last s = CHR ''0'' then trim_end n (butlast s) else s)"

declare trim_end.simps [simp del]

definition trimZeros :: "string \<Rightarrow> nat \<Rightarrow> string" where
  "trimZeros s keep =
     (let dot = length (takeWhile (\<lambda>c. c \<noteq> CHR ''.'') s) in if dot = length s then s else trim_end (dot + 1 + keep) s)"

definition price_places :: "rat \<Rightarrow> nat" where
  "price_places r = (if r < 1 / 100 then 12 else if r < 1 then 6 else 4)"

definition FormatPrice :: "rat option \<Rightarrow> string" where
  "FormatPrice r = (case r of None \<Rightarrow> [] | Some r \<Rightarrow> trimZeros (FloatString r (price_places r)) 2)"

definition FormatValue :: "rat option \<Rightarrow> string" where
  "FormatValue r = (case r of None \<Rightarrow> [] | Some r \<Rightarrow> FloatString r 2)"

definition FormatRatio :: "rat option \<Rightarrow> string" where
  "FormatRatio r = (case r of None \<Rightarrow> [] | Some r \<Rightarrow> trimZeros (FloatString r 18) 2)"

section \<open>Accuracy of the rounding\<close>

lemma exp2_bounds:
  assumes "0 < x" shows "2 powi exp2 x \<le> x" "x < 2 powi (exp2 x + 1)"
proof -
  obtain n d where q: "quotient_of x = (n, d)" by force
  have x: "x = of_int n / of_int d" and d: "0 < d" using quotient_of_div [OF q] quotient_of_denom_pos [OF q] by auto
  have n: "0 < n" using assms d by (simp add: x zero_less_divide_iff)
  define a b where "a = floorlog 2 (nat n)" and "b = floorlog 2 (nat d)"
  have ab: "2 ^ (a - 1) \<le> nat n" "nat n < 2 ^ a" "2 ^ (b - 1) \<le> nat d" "nat d < 2 ^ b"
    using floorlog_bounds [of "nat n" 2] floorlog_bounds [of "nat d" 2] n d by (auto simp: a_def b_def)
  have pos: "0 < a" "0 < b" using n d by (auto simp: a_def b_def floorlog_def)
  have i: "2 ^ (a - 1) \<le> n" "n < 2 ^ a" "2 ^ (b - 1) \<le> d" "d < 2 ^ b"
    using ab n d by (simp_all add: le_nat_iff nat_less_iff)
  have "rat_of_int (2 ^ (a - 1)) \<le> of_int n" "of_int n < rat_of_int (2 ^ a)" "rat_of_int (2 ^ (b - 1)) \<le> of_int d" "of_int d < rat_of_int (2 ^ b)"
    using i by (simp_all only: of_int_le_iff of_int_less_iff)
  then have r: "(2 :: rat) ^ (a - 1) \<le> of_int n" "of_int n < (2 :: rat) ^ a" "(2 :: rat) ^ (b - 1) \<le> of_int d" "of_int d < (2 :: rat) ^ b"
    by simp_all
  have "x < 2 ^ a / 2 ^ (b - 1)" unfolding x by (rule frac_less) (use r n in auto)
  also have "\<dots> = 2 powi (int a - int (b - 1))" by (simp add: power_int_diff)
  finally have up: "x < 2 powi (int a - int b + 1)" using pos by (simp add: of_nat_diff algebra_simps)
  have "2 powi (int (a - 1) - int b) = (2 :: rat) ^ (a - 1) / 2 ^ b" by (simp add: power_int_diff)
  also have "\<dots> < x" unfolding x by (rule frac_less2) (use r d in auto)
  finally have lo: "2 powi (int a - int b - 1) < x" using pos by (simp add: of_nat_diff algebra_simps)
  show "2 powi exp2 x \<le> x" "x < 2 powi (exp2 x + 1)"
    using up lo by (auto simp: exp2_def q a_def [symmetric] b_def [symmetric] Let_def)
qed

lemma round_even_error: "\<bar>of_int (round_even y) - y\<bar> \<le> 1 / 2"
proof -
  define f where "f = \<lfloor>y\<rfloor>"
  have "of_int f \<le> y" "y < of_int f + 1" using floor_correct [of y] by (auto simp: f_def)
  then show ?thesis unfolding round_even_def f_def [symmetric] Let_def by (auto simp: abs_if)
qed

lemma rnd_error:
  assumes "0 < x" shows "\<bar>rnd x - x\<bar> \<le> x / 2 ^ 320"
proof -
  define s :: rat where "s = 2 powi (319 - exp2 x)"
  have s: "0 < s" by (simp add: s_def zero_less_power_int)
  have "\<bar>rnd x - x\<bar> = \<bar>of_int (round_even (x * s)) - x * s\<bar> / s"
    using assms s by (simp add: rnd_def Let_def s_def [symmetric] field_simps abs_if)
  also have "\<dots> \<le> (1 / 2) / s" by (rule divide_right_mono [OF round_even_error]) (use s in simp)
  also have "\<dots> = 2 powi exp2 x / 2 ^ 320"
  proof -
    have "s = 2 powi (int 319) / 2 powi exp2 x" unfolding s_def by (subst power_int_diff) auto
    then have "s = 2 ^ 319 / 2 powi exp2 x" by (simp only: power_int_of_nat)
    then show ?thesis by simp
  qed
  also have "\<dots> \<le> x / 2 ^ 320" using exp2_bounds(1) [OF assms] by (simp add: divide_right_mono)
  finally show ?thesis .
qed

text \<open>Two positive numbers whose ratio is at most \<open>m\<close> roundings away from one.\<close>

definition ulp :: rat where
  "ulp = 1 + 1 / 2 ^ 319"

definition close_to :: "nat \<Rightarrow> rat \<Rightarrow> rat \<Rightarrow> bool" where
  "close_to m x y \<longleftrightarrow> 0 < x \<and> 0 < y \<and> x \<le> ulp ^ m * y \<and> y \<le> ulp ^ m * x"

lemma ulp_pos: "0 < ulp" "1 \<le> ulp"
  by (simp_all add: ulp_def)

lemma close_refl: "0 < x \<Longrightarrow> close_to 0 x x"
  by (simp add: close_to_def)

lemma close_mono: "close_to m x y \<Longrightarrow> m \<le> n \<Longrightarrow> close_to n x y"
  unfolding close_to_def using power_increasing [OF _ ulp_pos(2), of m n] by (meson mult_right_mono order_less_imp_le order_trans)

lemma close_mult: "close_to m x y \<Longrightarrow> close_to n x' y' \<Longrightarrow> close_to (m + n) (x * x') (y * y')"
  unfolding close_to_def power_add
  using mult_mono [of x "ulp ^ m * y" x' "ulp ^ n * y'"] mult_mono [of y "ulp ^ m * x" y' "ulp ^ n * x'"] ulp_pos
  by (simp add: mult_ac)

lemma close_inverse: "close_to m x y \<Longrightarrow> close_to m (1 / x) (1 / y)"
  unfolding close_to_def by (auto simp: field_simps)

lemma close_rnd: "close_to m x y \<Longrightarrow> close_to (Suc m) (rnd x) y"
proof -
  assume w: "close_to m x y"
  define e :: rat where "e = 1 / 2 ^ 320"
  have e: "0 < e" "e < 1 / 2" "ulp = 1 + 2 * e" by (simp_all add: e_def ulp_def)
  have x: "0 < x" "0 < y" "x \<le> ulp ^ m * y" "y \<le> ulp ^ m * x" using w by (auto simp: close_to_def)
  have r: "\<bar>rnd x - x\<bar> \<le> x * e" using rnd_error [OF x(1)] by (simp add: e_def)
  have up: "rnd x \<le> x * (1 + e)" and lo: "x * (1 - e) \<le> rnd x" using r by (auto simp: abs_le_iff algebra_simps)
  have "0 < x * (1 - e)" using x(1) e by simp
  then have pos: "0 < rnd x" using lo by linarith
  have "x * (1 + e) \<le> x * ulp" by (rule mult_left_mono) (use x(1) e in auto)
  with up have "rnd x \<le> x * ulp" by linarith
  also have "\<dots> \<le> ulp ^ Suc m * y" using x(3) ulp_pos(1) by (simp add: mult_right_mono mult.assoc [symmetric] mult.commute)
  finally have 1: "rnd x \<le> ulp ^ Suc m * y" .
  have "0 \<le> e * (1 - 2 * e)" using e(1,2) by (intro mult_nonneg_nonneg) auto
  then have "1 \<le> (1 - e) * (1 + 2 * e)" by (simp add: algebra_simps)
  then have "x \<le> x * ((1 - e) * ulp)" using x(1) e(3) by simp
  also have "\<dots> = (x * (1 - e)) * ulp" by simp
  also have "\<dots> \<le> rnd x * ulp" using lo ulp_pos(1) by (simp add: mult_right_mono)
  finally have "ulp ^ m * x \<le> ulp ^ m * (rnd x * ulp)" by (rule mult_left_mono) (use ulp_pos(1) in simp)
  then have "y \<le> ulp ^ m * (rnd x * ulp)" using x(4) by linarith
  then show ?thesis using 1 pos x(2) by (simp add: close_to_def mult_ac)
qed

section \<open>The ratio of a tick\<close>

abbreviation tick_base :: rat where
  "tick_base \<equiv> 10001 / 10000"

lemma ratio_loop_close:
  assumes "close_to (2 * v) res (tick_base ^ v)" "close_to (2 * w - 1) base (tick_base ^ w)" "0 < w"
  shows "close_to (2 * (v + n * w)) (ratio_loop n res base) (tick_base ^ (v + n * w))"
  using assms
proof (induction n arbitrary: v w res base rule: less_induct)
  case (less n)
  show ?case
  proof (cases "n = 0")
    case True
    then show ?thesis using less.prems by (simp add: ratio_loop.simps)
  next
    case False
    define res' where "res' = (if odd n then rnd (res * base) else res)"
    have sq: "close_to (2 * (2 * w) - 1) (rnd (base * base)) (tick_base ^ (2 * w))"
    proof -
      have "Suc (2 * w - 1 + (2 * w - 1)) = 2 * (2 * w) - 1" using less.prems(3) by linarith
      moreover have "tick_base ^ w * tick_base ^ w = tick_base ^ (2 * w)" by (simp only: mult_2 power_add)
      ultimately show ?thesis using close_rnd [OF close_mult [OF less.prems(2,2)]] by (simp only:)
    qed
    have res': "close_to (2 * (v + n mod 2 * w)) res' (tick_base ^ (v + n mod 2 * w))"
    proof (cases "odd n")
      case True
      have "Suc (2 * v + (2 * w - 1)) = 2 * (v + w)" using less.prems(3) by simp
      then show ?thesis using True close_rnd [OF close_mult [OF less.prems(1,2)]] by (simp add: res'_def power_add odd_iff_mod_2_eq_one)
    next
      case False
      then show ?thesis using less.prems(1) by (simp add: res'_def even_iff_mod_2_eq_zero)
    qed
    have eq: "v + n mod 2 * w + n div 2 * (2 * w) = v + n * w"
      by (metis add.assoc add_mult_distrib mod_mult_div_eq mult.assoc mult.commute)
    have "close_to (2 * (v + n mod 2 * w + n div 2 * (2 * w))) (ratio_loop (n div 2) res' (rnd (base * base)))
        (tick_base ^ (v + n mod 2 * w + n div 2 * (2 * w)))"
      by (rule less.IH [OF _ res' sq]) (use less.prems(3) False in simp_all)
    moreover have "ratio_loop n res base = ratio_loop (n div 2) res' (rnd (base * base))"
      using False by (simp add: ratio_loop.simps [of n res base] res'_def)
    ultimately show ?thesis by (simp only: eq)
  qed
qed

lemma close_bound:
  assumes "close_to m x y" "ulp ^ m \<le> 1 + d" "0 \<le> d"
  shows "\<bar>x / y - 1\<bar> \<le> d"
proof -
  have c: "0 < x" "0 < y" "x \<le> ulp ^ m * y" "y \<le> ulp ^ m * x" using assms(1) by (auto simp: close_to_def)
  have "x \<le> (1 + d) * y" "y \<le> (1 + d) * x"
    using c(3,4) mult_right_mono [OF assms(2) less_imp_le [OF c(1)]] mult_right_mono [OF assms(2) less_imp_le [OF c(2)]] by linarith+
  then have "x / y \<le> 1 + d" "1 \<le> (1 + d) * (x / y)" using c(1,2) by (simp_all add: field_simps)
  moreover define z where "z = x / y"
  ultimately have z: "z \<le> 1 + d" "1 \<le> (1 + d) * z" by simp_all
  have "1 - d \<le> z"
  proof (cases "z \<le> 1")
    case True
    then have "d * z \<le> d" using assms(3) mult_left_mono [of z 1 d] by simp
    then show ?thesis using z(2) by (simp add: algebra_simps)
  next
    case False
    then show ?thesis using assms(3) by linarith
  qed
  then show ?thesis using z(1) by (simp add: z_def abs_le_iff)
qed

lemma ulp_power:
  fixes a :: rat
  assumes "0 \<le> a" "2 * of_nat k * a \<le> 1"
  shows "(1 + a) ^ k \<le> 1 + 2 * of_nat k * a"
  using assms
proof (induction k)
  case (Suc k)
  have b: "2 * of_nat k * a \<le> 1" using Suc.prems by (simp add: algebra_simps)
  have "(1 + a) ^ Suc k \<le> (1 + a) * (1 + 2 * of_nat k * a)"
    using Suc.IH [OF Suc.prems(1) b] Suc.prems(1) by (simp add: mult_left_mono)
  also have "\<dots> = 1 + a + 2 * of_nat k * a + (2 * of_nat k * a) * a" by (simp add: algebra_simps)
  also have "\<dots> \<le> 1 + a + 2 * of_nat k * a + 1 * a" using mult_right_mono [OF b Suc.prems(1)] by simp
  finally show ?case by (simp add: algebra_simps)
qed simp

text \<open>C21: The ratio of a tick that a pool can have is positive and agrees with 1.0001 to the power of
  the tick to at least 297 bits, although it is computed with repeated rounding to 320 bits, for
  negative ticks through a rounded reciprocal.\<close>

theorem ratioFromTick_accurate:
  assumes "\<bar>tick\<bar> \<le> 887272"
  shows "0 < ratioFromTick tick \<and> \<bar>ratioFromTick tick / tick_base powi tick - 1\<bar> \<le> 1 / 2 ^ 297"
proof -
  define n where "n = nat \<bar>tick\<bar>"
  have n: "n \<le> 887272" "tick = (if tick < 0 then - int n else int n)" using assms by (auto simp: n_def)
  have "close_to 1 tickBase (tick_base ^ 1)" using close_rnd [OF close_refl, of tick_base] by (simp add: tickBase_def)
  from ratio_loop_close [of 0 1 1 tickBase n] this have c: "close_to (2 * n) (ratio_loop n 1 tickBase) (tick_base ^ n)"
    by (simp add: close_refl)
  have eq: "ratioFromTick tick = (if tick < 0 then rnd (1 / ratio_loop n 1 tickBase) else ratio_loop n 1 tickBase)"
    by (simp add: ratioFromTick_def n_def)
  have "close_to (Suc (2 * n)) (ratioFromTick tick) (tick_base powi tick)"
  proof (cases "tick < 0")
    case True
    then have "tick_base powi tick = 1 / tick_base ^ n" using n(2) by (simp add: power_int_minus_divide)
    then show ?thesis using close_rnd [OF close_inverse [OF c]] True by (simp add: eq)
  next
    case False
    then have "tick_base powi tick = tick_base ^ n" using n(2) by (metis power_int_of_nat)
    then show ?thesis using close_mono [OF c, of "Suc (2 * n)"] False by (simp add: eq)
  qed
  then have c21: "close_to (2 ^ 21) (ratioFromTick tick) (tick_base powi tick)" by (rule close_mono) (use n(1) in simp)
  have "ulp ^ (2 ^ 21) \<le> 1 + 1 / 2 ^ 297"
    using ulp_power [of "1 / 2 ^ 319" "2 ^ 21"] by (simp add: ulp_def)
  from close_bound [OF c21 this] have "\<bar>ratioFromTick tick / tick_base powi tick - 1\<bar> \<le> 1 / 2 ^ 297" by simp
  then show ?thesis using c21 unfolding close_to_def by blast
qed


theorem ratioFromTick_accurate_witness:
  "0 < ratioFromTick (- 3) \<and> \<bar>ratioFromTick (- 3) / tick_base powi (- 3) - 1\<bar> \<le> 1 / 2 ^ 297"
  using ratioFromTick_accurate [of "- 3"] by (simp only: abs_minus_cancel abs_numeral)

section \<open>Reading prices back\<close>

text \<open>The number a rendered price stands for: its whole part, a dot and its decimals.\<close>

definition read_decimal :: "string \<Rightarrow> rat option" where
  "read_decimal s =
     (let ip = takeWhile (\<lambda>c. c \<noteq> CHR ''.'') s; fp = drop (length ip + 1) s
      in case (dec_val ip, dec_val fp) of (Some i, Some f) \<Rightarrow> Some (of_nat i + of_nat f / 10 ^ length fp) | _ \<Rightarrow> None)"

lemma no_dot: "CHR ''.'' \<notin> set (dec_string n)"
proof (induction n rule: dec_string.induct)
  case (1 n)
  have d: "char_of (48 + k) \<noteq> CHR ''.''" if "k < 10" for k :: nat
  proof
    assume "char_of (48 + k) = CHR ''.''"
    then have "of_char (char_of (48 + k)) = (46 :: nat)" by simp
    then show False using that by (simp add: of_char_of)
  qed
  show ?case using 1 d [of n] d [of "n mod 10"] by (auto simp: dec_string.simps [of n])
qed

lemma takeWhile_dot: "CHR ''.'' \<notin> set ip \<Longrightarrow> takeWhile (\<lambda>c. c \<noteq> CHR ''.'') (ip @ ''.'' @ fp) = ip"
  by (induction ip) auto

lemma read_decimal_parts:
  assumes "CHR ''.'' \<notin> set ip" "dec_val ip = Some i" "dec_val fp = Some f"
  shows "read_decimal (ip @ ''.'' @ fp) = Some (of_nat i + of_nat f / 10 ^ length fp)"
  using takeWhile_dot [OF assms(1), of fp] assms(2,3) by (simp add: read_decimal_def Let_def)

lemma dec_val_pad: "s \<noteq> [] \<Longrightarrow> dec_val (pad_zeros n s) = dec_val s"
proof -
  assume s: "s \<noteq> []"
  have "dec_step (Some 0) (CHR ''0'') = Some 0" by (simp add: dec_step_def digit_val_def)
  then have "foldl dec_step (Some 0) (replicate k (CHR ''0'') @ s) = foldl dec_step (Some 0) s" for k
    by (induction k) simp_all
  then show ?thesis using s by (simp add: pad_zeros_def dec_val_def)
qed

lemma dec_val_snoc_zero: "fp \<noteq> [] \<Longrightarrow> dec_val (fp @ ''0'') = map_option (\<lambda>n. n * 10) (dec_val fp)"
  by (simp add: dec_val_def dec_step_def digit_val_def split: option.split)

lemma trim_end_value:
  assumes "dec_val fp = Some f" "0 < keep"
  shows "\<exists>fp' f'. trim_end (length ip + 1 + keep) (ip @ ''.'' @ fp) = ip @ ''.'' @ fp' \<and> dec_val fp' = Some f'
    \<and> (of_nat f' :: rat) / 10 ^ length fp' = of_nat f / 10 ^ length fp \<and> length fp' \<le> length fp \<and> (keep \<le> length fp \<longrightarrow> keep \<le> length fp')"
  using assms(1)
proof (induction fp arbitrary: f rule: rev_induct)
  case (snoc c fp)
  show ?case
  proof (cases "keep < length (fp @ [c]) \<and> c = CHR ''0''")
    case True
    then have ne: "fp \<noteq> []" using assms(2) by auto
    then obtain g where g: "dec_val fp = Some g" "f = g * 10" using snoc.prems True dec_val_snoc_zero [OF ne] by auto
    have t: "trim_end (length ip + 1 + keep) (ip @ ''.'' @ fp @ [c]) = trim_end (length ip + 1 + keep) (ip @ ''.'' @ fp)"
      using True by (subst trim_end.simps) (simp add: butlast_append)
    have "(of_nat f :: rat) / 10 ^ length (fp @ [c]) = of_nat g / 10 ^ length fp" by (simp add: g(2))
    then show ?thesis using snoc.IH [OF g(1)] True unfolding t by (metis Suc_leI le_SucI length_append_singleton less_Suc_eq_le)
  next
    case False
    have "trim_end (length ip + 1 + keep) (ip @ ''.'' @ fp @ [c]) = ip @ ''.'' @ fp @ [c]"
      using False by (subst trim_end.simps) auto
    then show ?thesis using snoc.prems by blast
  qed
qed (simp add: dec_val_def)

lemma length_dec_string: "m < 10 ^ n \<Longrightarrow> 0 < n \<Longrightarrow> length (dec_string m) \<le> n"
proof (induction n arbitrary: m)
  case (Suc n)
  show ?case
  proof (cases "m < 10")
    case False
    then have "m div 10 < 10 ^ n" "0 < n" using Suc.prems(1) by (auto simp: less_mult_imp_div_less mult.commute intro: Nat.gr0I)
    from Suc.IH [OF this] False show ?thesis by (simp add: dec_string.simps [of m])
  qed (simp add: dec_string.simps [of m])
qed simp

lemma FloatString_value:
  assumes "0 \<le> r" "0 < n"
  shows "\<exists>ip fp i f. FloatString r n = ip @ ''.'' @ fp \<and> CHR ''.'' \<notin> set ip \<and> dec_val ip = Some i \<and> dec_val fp = Some f
    \<and> length fp = n \<and> \<bar>of_nat i + of_nat f / 10 ^ n - r\<bar> \<le> 1 / (2 * 10 ^ n)"
proof -
  define v where "v = nat \<lfloor>r * 10 ^ n + 1 / 2\<rfloor>"
  have "0 \<le> r * 10 ^ n + 1 / 2" using assms(1) by simp
  then have "of_nat v = (of_int \<lfloor>r * 10 ^ n + 1 / 2\<rfloor> :: rat)" by (simp add: v_def)
  moreover have "of_int \<lfloor>r * 10 ^ n + 1 / 2\<rfloor> \<le> r * 10 ^ n + 1 / 2" "r * 10 ^ n + 1 / 2 < of_int \<lfloor>r * 10 ^ n + 1 / 2\<rfloor> + 1"
    using floor_correct [of "r * 10 ^ n + 1 / 2"] by simp_all
  ultimately have v: "\<bar>of_nat v - r * 10 ^ n\<bar> \<le> 1 / 2" unfolding abs_le_iff by linarith
  have "of_nat (v div 10 ^ n) + of_nat (v mod 10 ^ n) / 10 ^ n = (of_nat v :: rat) / 10 ^ n"
  proof -
    have "(of_nat v :: rat) = of_nat (v div 10 ^ n * 10 ^ n + v mod 10 ^ n)" by (simp only: div_mult_mod_eq)
    then have "(of_nat v :: rat) = of_nat (v div 10 ^ n) * 10 ^ n + of_nat (v mod 10 ^ n)"
      by (simp only: of_nat_add of_nat_mult of_nat_power of_nat_numeral)
    then show ?thesis by (simp add: add_divide_distrib)
  qed
  then have "\<bar>of_nat (v div 10 ^ n) + of_nat (v mod 10 ^ n) / 10 ^ n - r\<bar> = \<bar>of_nat v - r * 10 ^ n\<bar> / 10 ^ n"
    by (simp add: abs_if field_simps)
  also have "\<dots> \<le> (1 / 2) / 10 ^ n" by (rule divide_right_mono [OF v]) simp
  finally have err: "\<bar>of_nat (v div 10 ^ n) + of_nat (v mod 10 ^ n) / 10 ^ n - r\<bar> \<le> 1 / (2 * 10 ^ n)" by simp
  have "length (dec_string (v mod 10 ^ n)) \<le> n" by (rule length_dec_string) (use assms(2) in simp_all)
  then have "length (pad_zeros n (dec_string (v mod 10 ^ n))) = n" by (simp add: pad_zeros_def)
  moreover have "FloatString r n = dec_string (v div 10 ^ n) @ ''.'' @ pad_zeros n (dec_string (v mod 10 ^ n))"
    using assms(1) by (simp add: FloatString_def v_def Let_def)
  ultimately show ?thesis
    using err no_dot dec_val_pad [of "dec_string (v mod 10 ^ n)" n]
    by (intro exI [of _ "dec_string (v div 10 ^ n)"] exI [of _ "pad_zeros n (dec_string (v mod 10 ^ n))"]) auto
qed

text \<open>A rendered price is a plain decimal with at least two places that, read back, is within half a
  unit of the last place kept for its magnitude: dropping zeros loses nothing.\<close>

theorem FormatPrice_reads_back:
  assumes "0 \<le> r"
  shows "\<exists>ip fp v. FormatPrice (Some r) = ip @ ''.'' @ fp \<and> 2 \<le> length fp \<and> length fp \<le> price_places r
    \<and> read_decimal (FormatPrice (Some r)) = Some v \<and> \<bar>v - r\<bar> \<le> 1 / (2 * 10 ^ price_places r)"
proof -
  have n: "2 \<le> price_places r" by (simp add: price_places_def)
  then have n0: "0 < price_places r" by simp
  obtain ip fp i f where s: "FloatString r (price_places r) = ip @ ''.'' @ fp" "CHR ''.'' \<notin> set ip" "dec_val ip = Some i" "dec_val fp = Some f"
    "length fp = price_places r" "\<bar>of_nat i + of_nat f / 10 ^ price_places r - r\<bar> \<le> 1 / (2 * 10 ^ price_places r)"
    using FloatString_value [OF assms n0] by blast
  obtain fp' f' where t: "trim_end (length ip + 1 + 2) (ip @ ''.'' @ fp) = ip @ ''.'' @ fp'" "dec_val fp' = Some f'"
    "(of_nat f' :: rat) / 10 ^ length fp' = of_nat f / 10 ^ length fp" "length fp' \<le> length fp" "2 \<le> length fp \<longrightarrow> 2 \<le> length fp'"
    using trim_end_value [OF s(4), of 2 ip] by auto
  have "FormatPrice (Some r) = ip @ ''.'' @ fp'"
    using t(1) takeWhile_dot [OF s(2), of fp] by (simp add: FormatPrice_def trimZeros_def s(1) Let_def)
  moreover have "read_decimal (ip @ ''.'' @ fp') = Some (of_nat i + of_nat f / 10 ^ price_places r)"
    using read_decimal_parts [OF s(2,3) t(2)] t(3) s(5) by simp
  ultimately show ?thesis using s(5,6) t(4,5) n by auto
qed

theorem FormatPrice_reads_back_witness:
  "\<exists>v. read_decimal (FormatPrice (Some (1 / 3))) = Some v \<and> \<bar>v - 1 / 3\<bar> \<le> 1 / (2 * 10 ^ 6)"
  using FormatPrice_reads_back [of "1 / 3"] by (auto simp: price_places_def)

end
