(* ===== verification/PriceQuote.thy ===== *)
theory PriceQuote
  imports PriceMath "HOL-Library.Multiset"
begin

text \<open>
  From what the chain says to a price: the types of \<open>internal/price/lens.go\<close> and the resolver of
  \<open>quote.go\<close>. Text for display (the pair a hop names, notes) is left out; durations are nanoseconds,
  which \<open>time.Time.Sub\<close> saturates at 64 bits. The lemmas show what a confidence tier stands for.
\<close>

section \<open>Data\<close>

record Feed =
  fd_aggregator :: address
  fd_quote :: nat
  fd_via_registry :: bool
  fd_answered :: bool
  fd_answer :: "int option"
  fd_decimals :: "nat option"
  fd_started_at :: nat
  fd_updated_at :: nat
  fd_round :: "int option"
  fd_answered_in :: "int option"
  fd_description :: string

record Pool =
  pl_address :: address
  pl_kind :: nat
  pl_token0 :: address
  pl_token1 :: address
  pl_fee :: nat
  pl_sqrt :: "int option"
  pl_tick :: int
  pl_liquidity :: "int option"
  pl_window :: nat
  pl_cum_start :: "int option"
  pl_cum_end :: "int option"
  pl_reserve0 :: "int option"
  pl_reserve1 :: "int option"
  pl_reserve_time :: nat

record TokenSources =
  tk_token :: address
  tk_contract :: bool
  tk_symbol :: string
  tk_decimals :: "nat option"
  tk_feeds :: "Feed list"
  tk_pools :: "Pool list"

record price_snapshot =
  px_chain :: nat
  px_block :: nat
  px_parent :: hash
  px_time :: nat
  px_native :: "Feed option"
  px_tokens :: "TokenSources list"
  px_calls :: nat
  px_atomic :: bool

record QuoteToken =
  qk_address :: address
  qk_symbol :: string
  qk_wrapped :: bool
  qk_peg :: bool

record Sources =
  so_feed_registry :: address
  so_native_feed :: address
  so_feeds :: "(address \<times> address \<times> nat) list"
  so_v3_factory :: address
  so_fee_tiers :: "nat list"
  so_v2_factory :: address
  so_quote_tokens :: "QuoteToken list"

definition SourcesEmpty :: "Sources \<Rightarrow> bool" where
  "SourcesEmpty s \<longleftrightarrow> so_feed_registry s = 0 \<and> so_native_feed s = 0 \<and> length (so_feeds s) = 0 \<and> so_v3_factory s = 0 \<and> so_v2_factory s = 0"

datatype Confidence = ConfidenceNone | ConfidenceLow | ConfidenceMedium | ConfidenceHigh

fun tier :: "Confidence \<Rightarrow> nat" where
  "tier ConfidenceNone = 0" | "tier ConfidenceLow = 1" | "tier ConfidenceMedium = 2" | "tier ConfidenceHigh = 3"

instantiation Confidence :: linorder
begin
definition less_eq_Confidence :: "Confidence \<Rightarrow> Confidence \<Rightarrow> bool" where
  "less_eq_Confidence a b \<longleftrightarrow> tier a \<le> tier b"
definition less_Confidence :: "Confidence \<Rightarrow> Confidence \<Rightarrow> bool" where
  "less_Confidence a b \<longleftrightarrow> tier a < tier b"
instance
proof
  fix a b :: Confidence
  show "a \<le> b \<Longrightarrow> b \<le> a \<Longrightarrow> a = b" by (cases a; cases b) (simp_all add: less_eq_Confidence_def)
qed (auto simp: less_eq_Confidence_def less_Confidence_def)
end

datatype hop_kind = KindChainlink | KindNativeFeed | KindV3TWAP | KindV3Spot | KindV2Spot | KindAssumedPeg

record Policy =
  po_max_age :: int
  po_min_window :: int

definition seconds :: "nat \<Rightarrow> int" where
  "seconds n = int n * 10 ^ 9"

definition policy_defaults :: "Policy \<Rightarrow> Policy" where
  "policy_defaults p = \<lparr>po_max_age = (if po_max_age p \<le> 0 then seconds (25 * 3600) else po_max_age p),
     po_min_window = (if po_min_window p \<le> 0 then seconds 600 else po_min_window p)\<rparr>"

record Hop =
  hp_kind :: hop_kind
  hp_address :: address
  hp_price :: rat
  hp_updated_at :: nat
  hp_age :: int
  hp_stale :: bool
  hp_fee :: nat
  hp_window :: nat
  hp_depth :: "rat option"

record PriceCandidate =
  cd_usd :: rat
  cd_conf :: Confidence
  cd_route :: "Hop list"
  cd_feed :: bool
  cd_age :: int
  cd_depth :: "rat option"

record Quote =
  qu_token :: address
  qu_symbol :: string
  qu_decimals :: "nat option"
  qu_usd :: "rat option"
  qu_conf :: Confidence
  qu_route :: "Hop list"
  qu_alternatives :: "PriceCandidate list"
  qu_block :: nat
  qu_time :: nat

definition QuoteStale :: "Quote \<Rightarrow> bool" where
  "QuoteStale q \<longleftrightarrow> (\<exists>h \<in> set (qu_route q). hp_stale h)"

section \<open>Hops\<close>

definition i64 :: "nat \<Rightarrow> int" where
  "i64 n = sint (word_of_nat n :: 64 word)"

definition saturate :: "int \<Rightarrow> int" where
  "saturate d = max (- (2 ^ 63)) (min (2 ^ 63 - 1) d)"

definition feedHop :: "Policy \<Rightarrow> nat \<Rightarrow> Feed option \<Rightarrow> (Hop \<times> Confidence) option" where
  "feedHop po now f =
     (case f of None \<Rightarrow> None | Some f \<Rightarrow>
      if \<not> fd_answered f then None
      else case fd_decimals f of None \<Rightarrow> None | Some d \<Rightarrow>
      (case feedPrice (fd_answer f) d of None \<Rightarrow> None | Some price \<Rightarrow>
        let age = (if fd_updated_at f > 0 then max 0 (saturate ((i64 now - i64 (fd_updated_at f)) * 10 ^ 9)) else 0);
            old = (fd_updated_at f = 0 \<or> age > po_max_age po);
            behind = (case (fd_answered_in f, fd_round f) of (Some a, Some r) \<Rightarrow> a < r | _ \<Rightarrow> False)
        in Some (\<lparr>hp_kind = KindChainlink, hp_address = fd_aggregator f, hp_price = price, hp_updated_at = fd_updated_at f,
                  hp_age = age, hp_stale = (old \<or> behind), hp_fee = 0, hp_window = 0, hp_depth = None\<rparr>,
                 if old \<or> behind then ConfidenceLow else ConfidenceHigh)))"

definition pool_ratio :: "Policy \<Rightarrow> Pool \<Rightarrow> (hop_kind \<times> nat \<times> Confidence \<times> rat) option" where
  "pool_ratio po p =
     (if pl_kind p = 3 then
        if pl_window p > 0 then
          (case twapTick (pl_cum_start p) (pl_cum_end p) (pl_window p) of None \<Rightarrow> None
           | Some tick \<Rightarrow> Some (KindV3TWAP, pl_window p,
               if seconds (pl_window p) \<ge> po_min_window po then ConfidenceMedium else ConfidenceLow, ratioFromTick tick))
        else map_option (\<lambda>raw. (KindV3Spot, 0, ConfidenceLow, raw)) (ratioFromSqrtPriceX96 (pl_sqrt p))
      else if pl_kind p = 2 then
        (case (pl_reserve0 p, pl_reserve1 p) of
           (Some r0, Some r1) \<Rightarrow> if r0 = 0 \<or> r1 = 0 then None else Some (KindV2Spot, 0, ConfidenceLow, of_int r1 / of_int r0)
         | _ \<Rightarrow> None)
      else None)"

definition poolHop :: "Policy \<Rightarrow> Pool \<Rightarrow> nat \<Rightarrow> nat \<Rightarrow> bool \<Rightarrow> (Hop \<times> Confidence) option" where
  "poolHop po p decToken decQuote tokenIs0 =
     (let dec0 = (if tokenIs0 then decToken else decQuote); dec1 = (if tokenIs0 then decQuote else decToken)
      in case pool_ratio po p of None \<Rightarrow> None
      | Some (kind, window, conf, raw) \<Rightarrow>
          if raw \<le> 0 then None
          else let price = wholeUnits raw dec0 dec1
               in case (if tokenIs0 then Some price else invert (Some price)) of None \<Rightarrow> None
                  | Some price \<Rightarrow> Some (\<lparr>hp_kind = kind, hp_address = pl_address p, hp_price = price, hp_updated_at = 0, hp_age = 0,
                      hp_stale = False, hp_fee = pl_fee p, hp_window = window, hp_depth = None\<rparr>, conf))"

definition depthUSD :: "Pool \<Rightarrow> nat \<Rightarrow> bool \<Rightarrow> rat \<Rightarrow> rat option" where
  "depthUSD p decQuote quoteIs0 quoteUSD =
     map_option (\<lambda>reserve. reserve / pow10 decQuote * quoteUSD)
       (if pl_kind p = 3 then v3VirtualReserve (pl_liquidity p) (pl_sqrt p) quoteIs0
        else if pl_kind p = 2 then map_option of_int (if quoteIs0 then pl_reserve0 p else pl_reserve1 p)
        else None)"

section \<open>Ranking\<close>

definition cand_less :: "PriceCandidate \<Rightarrow> PriceCandidate \<Rightarrow> bool" where
  "cand_less a b =
     (if cd_conf a \<noteq> cd_conf b then cd_conf a > cd_conf b
      else if cd_feed a \<noteq> cd_feed b then cd_feed a
      else if cd_feed a then cd_age a < cd_age b
      else case (cd_depth a, cd_depth b) of (None, _) \<Rightarrow> False | (Some _, None) \<Rightarrow> True | (Some x, Some y) \<Rightarrow> x > y)"

text \<open>\<open>sort.SliceStable\<close>: an element goes before those it is not worse than and that came later.\<close>

fun rank_insert :: "PriceCandidate \<Rightarrow> PriceCandidate list \<Rightarrow> PriceCandidate list" where
  "rank_insert x [] = [x]"
| "rank_insert x (y # ys) = (if cand_less y x then y # rank_insert x ys else x # y # ys)"

definition rank :: "PriceCandidate list \<Rightarrow> PriceCandidate list" where
  "rank c = foldr rank_insert c []"

section \<open>Candidates\<close>

record resolver =
  rz_snap :: price_snapshot
  rz_policy :: Policy
  rz_by_addr :: "address \<rightharpoonup> TokenSources"
  rz_quotes :: "address \<rightharpoonup> QuoteToken"

definition single :: "Hop \<Rightarrow> Confidence \<Rightarrow> PriceCandidate" where
  "single hop conf = \<lparr>cd_usd = hp_price hop, cd_conf = conf, cd_route = [hop], cd_feed = True, cd_age = hp_age hop, cd_depth = None\<rparr>"

definition nativeHop :: "resolver \<Rightarrow> (Hop \<times> Confidence) option" where
  "nativeHop r = map_option (\<lambda>(hop, conf). (hop\<lparr>hp_kind := KindNativeFeed\<rparr>, conf))
     (feedHop (rz_policy r) (px_time (rz_snap r)) (px_native (rz_snap r)))"

definition feed_candidate :: "resolver \<Rightarrow> Feed \<Rightarrow> PriceCandidate list" where
  "feed_candidate r f =
     (case feedHop (rz_policy r) (px_time (rz_snap r)) (Some f) of None \<Rightarrow> []
      | Some (hop, conf) \<Rightarrow>
          if fd_quote f = 0 then [single hop conf]
          else if fd_quote f = 1 then
            (case nativeHop r of None \<Rightarrow> []
             | Some (nHop, nConf) \<Rightarrow> [\<lparr>cd_usd = hp_price hop * hp_price nHop, cd_conf = min conf nConf, cd_route = [hop, nHop],
                 cd_feed = True, cd_age = max (hp_age hop) (hp_age nHop), cd_depth = None\<rparr>])
          else [])"

definition feedCandidates :: "resolver \<Rightarrow> TokenSources \<Rightarrow> PriceCandidate list" where
  "feedCandidates r t = concat (map (feed_candidate r) (tk_feeds t))"

definition peg_hop :: Hop where
  "peg_hop = \<lparr>hp_kind = KindAssumedPeg, hp_address = 0, hp_price = 1, hp_updated_at = 0, hp_age = 0, hp_stale = False,
     hp_fee = 0, hp_window = 0, hp_depth = None\<rparr>"

definition quoteTokenCandidates :: "resolver \<Rightarrow> TokenSources \<Rightarrow> PriceCandidate list" where
  "quoteTokenCandidates r t =
     (case rz_quotes r (tk_token t) of None \<Rightarrow> []
      | Some qt \<Rightarrow>
          (if qk_wrapped qt then (case nativeHop r of None \<Rightarrow> [] | Some (hop, conf) \<Rightarrow> [single hop conf]) else [])
          @ (if qk_peg qt then [\<lparr>cd_usd = 1, cd_conf = ConfidenceLow, cd_route = [peg_hop], cd_feed = False, cd_age = 0, cd_depth = None\<rparr>] else []))"

definition quoteUSD :: "resolver \<Rightarrow> TokenSources \<Rightarrow> (rat \<times> Confidence \<times> Hop) option" where
  "quoteUSD r q =
     (case rank (feedCandidates r q @ quoteTokenCandidates r q) of [] \<Rightarrow> None
      | best # _ \<Rightarrow>
          let hop = hd (cd_route best);
              hop = (if length (cd_route best) > 1
                     then hop\<lparr>hp_price := cd_usd best, hp_stale := hp_stale hop \<or> hp_stale (cd_route best ! 1)\<rparr> else hop);
              conf = (if hp_kind hop = KindAssumedPeg then ConfidenceMedium else cd_conf best)
          in Some (cd_usd best, conf, hop))"

definition pool_candidate :: "resolver \<Rightarrow> TokenSources \<Rightarrow> nat \<Rightarrow> Pool \<Rightarrow> PriceCandidate list" where
  "pool_candidate r t decToken p =
     (case (if tk_token t = pl_token0 p then Some (pl_token1 p, True) else if tk_token t = pl_token1 p then Some (pl_token0 p, False) else None) of
        None \<Rightarrow> []
      | Some (quoteAddr, tokenIs0) \<Rightarrow>
     (case rz_by_addr r quoteAddr of None \<Rightarrow> []
      | Some quote \<Rightarrow>
     (case tk_decimals quote of None \<Rightarrow> []
      | Some decQuote \<Rightarrow>
     (case quoteUSD r quote of None \<Rightarrow> []
      | Some (qUSD, qConf, qHop) \<Rightarrow>
     (case poolHop (rz_policy r) p decToken decQuote tokenIs0 of None \<Rightarrow> []
      | Some (hop, conf) \<Rightarrow>
          let depth = depthUSD p decQuote (\<not> tokenIs0) qUSD; hop = hop\<lparr>hp_depth := depth\<rparr>
          in [\<lparr>cd_usd = hp_price hop * qUSD, cd_conf = min conf qConf, cd_route = [hop, qHop], cd_feed = False, cd_age = 0, cd_depth = depth\<rparr>])))))"

definition poolCandidates :: "resolver \<Rightarrow> TokenSources \<Rightarrow> nat \<Rightarrow> PriceCandidate list" where
  "poolCandidates r t decToken = concat (map (pool_candidate r t decToken) (tk_pools t))"

section \<open>Quotes\<close>

definition blank_quote :: "resolver \<Rightarrow> address \<Rightarrow> string \<Rightarrow> nat option \<Rightarrow> Quote" where
  "blank_quote r token symbol decimals = \<lparr>qu_token = token, qu_symbol = symbol, qu_decimals = decimals, qu_usd = None, qu_conf = ConfidenceNone,
     qu_route = [], qu_alternatives = [], qu_block = px_block (rz_snap r), qu_time = px_time (rz_snap r)\<rparr>"

definition pick_best :: "PriceCandidate list \<Rightarrow> Quote \<Rightarrow> Quote" where
  "pick_best cands q =
     (case cands of [] \<Rightarrow> q
      | best # _ \<Rightarrow> q\<lparr>qu_usd := Some (cd_usd best), qu_conf := cd_conf best, qu_route := cd_route best, qu_alternatives := cands\<rparr>)"

definition native_quote :: "resolver \<Rightarrow> Quote" where
  "native_quote r = pick_best (case nativeHop r of None \<Rightarrow> [] | Some (hop, conf) \<Rightarrow> [single hop conf]) (blank_quote r 0 ''native'' None)"

definition token_candidates :: "resolver \<Rightarrow> TokenSources \<Rightarrow> PriceCandidate list" where
  "token_candidates r t = feedCandidates r t @ quoteTokenCandidates r t
     @ (case tk_decimals t of None \<Rightarrow> [] | Some d \<Rightarrow> poolCandidates r t d)"

definition token_quote :: "resolver \<Rightarrow> TokenSources \<Rightarrow> Quote" where
  "token_quote r t =
     (let q = blank_quote r (tk_token t) (tk_symbol t) (tk_decimals t)
      in if \<not> tk_contract t then q else pick_best (rank (token_candidates r t)) q)"

definition make_resolver :: "price_snapshot \<Rightarrow> Sources \<Rightarrow> Policy \<Rightarrow> resolver" where
  "make_resolver snap sources policy = \<lparr>rz_snap = snap, rz_policy = policy_defaults policy,
     rz_by_addr = map_of (rev (map (\<lambda>t. (tk_token t, t)) (px_tokens snap))),
     rz_quotes = map_of (rev (map (\<lambda>q. (qk_address q, q)) (so_quote_tokens sources)))\<rparr>"

definition Resolve :: "price_snapshot \<Rightarrow> Sources \<Rightarrow> Policy \<Rightarrow> Quote \<times> (address \<rightharpoonup> Quote)" where
  "Resolve snap sources policy =
     (let r = make_resolver snap sources policy
      in (native_quote r, map_of (rev (map (\<lambda>t. (tk_token t, token_quote r t)) (px_tokens snap)))))"

section \<open>Ranking is a stable sort\<close>

lemma conf_less_iff [simp]: "(a :: Confidence) < b \<longleftrightarrow> tier a < tier b" "a \<le> b \<longleftrightarrow> tier a \<le> tier b"
  by (simp_all add: less_Confidence_def less_eq_Confidence_def)

lemma tier_inject [simp]: "tier a = tier b \<longleftrightarrow> a = b"
  by (cases a; cases b) simp_all

lemma cand_less_irrefl [simp]: "\<not> cand_less a a"
  by (simp add: cand_less_def split: option.split)

text \<open>The comparison is total on classes of equal rank: not being worse is transitive.\<close>

lemma cand_less_negtrans: "\<not> cand_less b a \<Longrightarrow> \<not> cand_less c b \<Longrightarrow> \<not> cand_less c a"
  by (auto simp: cand_less_def split: if_splits option.splits)

lemma cand_less_asym: "cand_less a b \<Longrightarrow> \<not> cand_less b a"
  by (auto simp: cand_less_def split: if_splits option.splits)

lemma mset_rank_insert [simp]: "mset (rank_insert x ys) = add_mset x (mset ys)"
  by (induction ys) auto

lemma mset_rank [simp]: "mset (rank c) = mset c"
  by (induction c) (simp_all add: rank_def)

lemma set_rank [simp]: "set (rank c) = set c"
  by (metis mset_rank set_mset_mset)

lemma rank_insert_sorted:
  "sorted_wrt (\<lambda>a b. \<not> cand_less b a) ys \<Longrightarrow> sorted_wrt (\<lambda>a b. \<not> cand_less b a) (rank_insert x ys)"
proof (induction ys)
  case (Cons y ys)
  have set: "set (rank_insert x ys) = insert x (set ys)" by (metis mset_rank_insert set_mset_mset set_mset_add_mset_insert)
  show ?case
  proof (cases "cand_less y x")
    case True
    then show ?thesis using Cons set cand_less_asym by auto
  next
    case False
    then show ?thesis using Cons.prems cand_less_negtrans by auto
  qed
qed simp

lemma rank_sorted: "sorted_wrt (\<lambda>a b. \<not> cand_less b a) (rank c)"
  by (induction c) (simp_all add: rank_def rank_insert_sorted)

lemma rank_Nil [simp]: "rank c = [] \<longleftrightarrow> c = []"
  by (metis mset_rank mset_zero_iff)

lemma rank_empty [simp]: "rank [] = []"
  by (simp add: rank_def)

lemma rank_best: "rank c = best # rest \<Longrightarrow> best \<in> set c \<and> (\<forall>x \<in> set c. \<not> cand_less x best)"
proof -
  assume r: "rank c = best # rest"
  then have "set c = insert best (set rest)" using set_rank [of c] by simp
  then show ?thesis using rank_sorted [of c] by (auto simp: r)
qed

text \<open>Candidates that neither goes before the other keep their order.\<close>

definition tied :: "PriceCandidate \<Rightarrow> PriceCandidate \<Rightarrow> bool" where
  "tied a b \<longleftrightarrow> \<not> cand_less a b \<and> \<not> cand_less b a"

lemma filter_rank_insert: "filter (tied a) (rank_insert x ys) = filter (tied a) (x # ys)"
proof (induction ys)
  case (Cons y ys)
  have "\<not> (tied a x \<and> tied a y)" if "cand_less y x"
    using that cand_less_negtrans [of a x y] by (auto simp: tied_def)
  then show ?case using Cons by auto
qed simp

lemma rank_stable: "filter (tied a) (rank c) = filter (tied a) c"
  by (induction c) (simp_all add: rank_def filter_rank_insert)

section \<open>What a tier stands for\<close>

definition fresh_feed :: "Policy \<Rightarrow> Hop \<Rightarrow> bool" where
  "fresh_feed po h \<longleftrightarrow> hp_kind h \<in> {KindChainlink, KindNativeFeed} \<and> \<not> hp_stale h \<and> hp_age h \<le> po_max_age po"

definition sound :: "Policy \<Rightarrow> PriceCandidate \<Rightarrow> bool" where
  "sound po c \<longleftrightarrow> 0 < cd_usd c \<and> cd_usd c = prod_list (map hp_price (cd_route c)) \<and> cd_conf c \<noteq> ConfidenceNone \<and> cd_route c \<noteq> []
     \<and> length (cd_route c) \<le> 2
     \<and> (cd_conf c = ConfidenceHigh \<longrightarrow> (\<forall>h \<in> set (cd_route c). fresh_feed po h))
     \<and> (cd_conf c = ConfidenceMedium \<longrightarrow> (\<exists>h q. cd_route c = [h, q] \<and> hp_kind h = KindV3TWAP \<and> po_min_window po \<le> seconds (hp_window h)
          \<and> (hp_kind q = KindAssumedPeg \<or> fresh_feed po q)))"

lemma pow10_pos [simp]: "0 < pow10 n"
  by (simp add: pow10_def)

lemma wholeUnits_pos: "0 < raw \<Longrightarrow> 0 < wholeUnits raw d0 d1"
  by (simp add: wholeUnits_def)

lemma feedHop_sound:
  assumes "feedHop po now f = Some (hop, conf)"
  shows "0 < hp_price hop" "hp_kind hop = KindChainlink" "conf \<noteq> ConfidenceNone" "conf \<noteq> ConfidenceMedium" "conf = ConfidenceHigh \<Longrightarrow> fresh_feed po hop"
  using assms by (auto simp: feedHop_def feedPrice_def Let_def fresh_feed_def split: option.splits if_splits)

lemma nativeHop_sound:
  assumes "nativeHop r = Some (hop, conf)"
  shows "0 < hp_price hop" "hp_kind hop = KindNativeFeed" "conf \<noteq> ConfidenceNone" "conf \<noteq> ConfidenceMedium" "conf = ConfidenceHigh \<Longrightarrow> fresh_feed (rz_policy r) hop"
  using assms feedHop_sound by (fastforce simp: nativeHop_def fresh_feed_def)+

lemma conf_cases: "c \<noteq> ConfidenceNone \<Longrightarrow> c \<noteq> ConfidenceMedium \<Longrightarrow> c = ConfidenceLow \<or> c = ConfidenceHigh"
  by (cases c) auto

lemma single_sound:
  assumes "0 < hp_price hop" "conf \<noteq> ConfidenceNone" "conf \<noteq> ConfidenceMedium" "conf = ConfidenceHigh \<Longrightarrow> fresh_feed po hop"
  shows "sound po (single hop conf)"
  using assms by (simp add: sound_def single_def)

lemma feed_candidate_sound: "c \<in> set (feed_candidate r f) \<Longrightarrow> sound (rz_policy r) c \<and> cd_conf c \<noteq> ConfidenceMedium"
proof -
  assume c: "c \<in> set (feed_candidate r f)"
  then obtain hop conf where h: "feedHop (rz_policy r) (px_time (rz_snap r)) (Some f) = Some (hop, conf)"
    by (cases "feedHop (rz_policy r) (px_time (rz_snap r)) (Some f)") (auto simp: feed_candidate_def)
  note hs = feedHop_sound [OF h]
  show ?thesis
  proof (cases "fd_quote f = 0")
    case True
    then have "c = single hop conf" using c h by (simp add: feed_candidate_def)
    moreover have "sound (rz_policy r) (single hop conf)" by (rule single_sound) (use hs in auto)
    ultimately show ?thesis using hs(4) by (simp add: single_def)
  next
    case False
    then have q1: "fd_quote f = 1" using c h by (cases "fd_quote f = 1") (simp_all add: feed_candidate_def)
    obtain nHop nConf where n: "nativeHop r = Some (nHop, nConf)"
      using c h q1 by (cases "nativeHop r") (auto simp: feed_candidate_def)
    have cc: "c = \<lparr>cd_usd = hp_price hop * hp_price nHop, cd_conf = min conf nConf, cd_route = [hop, nHop],
                 cd_feed = True, cd_age = max (hp_age hop) (hp_age nHop), cd_depth = None\<rparr>"
      using c h q1 n by (simp add: feed_candidate_def)
    note ns = nativeHop_sound [OF n]
    show ?thesis
      using conf_cases [OF hs(3,4)] conf_cases [OF ns(3,4)] hs ns by (auto simp: cc sound_def min_def)
  qed
qed

lemma quote_candidates_sound:
  assumes "c \<in> set (feedCandidates r t @ quoteTokenCandidates r t)"
  shows "sound (rz_policy r) c \<and> cd_conf c \<noteq> ConfidenceMedium"
proof (cases "c \<in> set (feedCandidates r t)")
  case True
  then show ?thesis using feed_candidate_sound by (auto simp: feedCandidates_def)
next
  case False
  then have "c \<in> set (quoteTokenCandidates r t)" using assms by simp
  moreover have "quoteTokenCandidates r t = []" if "rz_quotes r (tk_token t) = None" using that by (simp add: quoteTokenCandidates_def)
  ultimately obtain qt where qt: "rz_quotes r (tk_token t) = Some qt" by fastforce
  have "(\<exists>hop conf. nativeHop r = Some (hop, conf) \<and> c = single hop conf)
      \<or> c = \<lparr>cd_usd = 1, cd_conf = ConfidenceLow, cd_route = [peg_hop], cd_feed = False, cd_age = 0, cd_depth = None\<rparr>"
    using \<open>c \<in> set (quoteTokenCandidates r t)\<close>
    by (cases "nativeHop r"; cases "qk_wrapped qt"; cases "qk_peg qt") (auto simp: quoteTokenCandidates_def qt)
  then show ?thesis
  proof
    assume "\<exists>hop conf. nativeHop r = Some (hop, conf) \<and> c = single hop conf"
    then obtain hop conf where n: "nativeHop r = Some (hop, conf)" "c = single hop conf" by blast
    have "sound (rz_policy r) (single hop conf)" by (rule single_sound) (use nativeHop_sound [OF n(1)] in auto)
    then show ?thesis using nativeHop_sound(4) [OF n(1)] n(2) by (simp add: single_def)
  qed (simp add: sound_def peg_hop_def)
qed

lemma quoteUSD_sound:
  assumes "quoteUSD r q = Some (usd, conf, hop)"
  shows "0 < usd" "hp_price hop = usd" "conf \<noteq> ConfidenceNone"
    and "conf = ConfidenceHigh \<Longrightarrow> fresh_feed (rz_policy r) hop"
    and "conf = ConfidenceMedium \<Longrightarrow> hp_kind hop = KindAssumedPeg"
proof -
  obtain best rest where b: "rank (feedCandidates r q @ quoteTokenCandidates r q) = best # rest" "usd = cd_usd best"
    and hop: "hop = (if length (cd_route best) > 1 then (hd (cd_route best))\<lparr>hp_price := cd_usd best, hp_stale := hp_stale (hd (cd_route best)) \<or> hp_stale (cd_route best ! 1)\<rparr>
        else hd (cd_route best))"
    and conf: "conf = (if hp_kind hop = KindAssumedPeg then ConfidenceMedium else cd_conf best)"
    using assms by (auto simp: quoteUSD_def Let_def split: list.splits)
  have s: "sound (rz_policy r) best" "cd_conf best \<noteq> ConfidenceMedium"
    using quote_candidates_sound rank_best [OF b(1)] by auto
  then show "0 < usd" "conf \<noteq> ConfidenceNone" using b(2) by (auto simp: sound_def conf)
  obtain h hs where route: "cd_route best = h # hs" using s(1) by (auto simp: sound_def neq_Nil_conv)
  show "hp_price hop = usd" using s(1) by (cases hs) (auto simp: hop route sound_def b(2))
  show "conf = ConfidenceHigh \<Longrightarrow> fresh_feed (rz_policy r) hop"
    using s(1) by (cases hs) (auto simp: hop conf route sound_def fresh_feed_def split: if_splits)
  show "conf = ConfidenceMedium \<Longrightarrow> hp_kind hop = KindAssumedPeg" using s(2) by (auto simp: conf split: if_splits)
qed

lemma poolHop_sound:
  assumes "poolHop po p d0 d1 is0 = Some (hop, conf)"
  shows "0 < hp_price hop" "conf = ConfidenceLow \<or> conf = ConfidenceMedium \<and> hp_kind hop = KindV3TWAP \<and> po_min_window po \<le> seconds (hp_window hop)"
  using assms wholeUnits_pos
  by (auto simp: poolHop_def pool_ratio_def invert_def Let_def not_le split: option.splits if_splits)

lemma pool_candidate_sound: "c \<in> set (pool_candidate r t d p) \<Longrightarrow> sound (rz_policy r) c"
proof -
  assume "c \<in> set (pool_candidate r t d p)"
  then obtain quote decQuote qUSD qConf qHop is0 hop conf depth where
    q: "quoteUSD r quote = Some (qUSD, qConf, qHop)" and h: "poolHop (rz_policy r) p d decQuote is0 = Some (hop, conf)"
    and c: "c = \<lparr>cd_usd = hp_price hop * qUSD, cd_conf = min conf qConf, cd_route = [hop\<lparr>hp_depth := depth\<rparr>, qHop], cd_feed = False, cd_age = 0, cd_depth = depth\<rparr>"
    by (auto simp: pool_candidate_def Let_def split: option.splits if_splits dest!: sym [of "Some _"])
  note qs = quoteUSD_sound [OF q] and hs = poolHop_sound [OF h]
  show ?thesis
    using qs hs by (cases qConf) (auto simp: c sound_def min_def)
qed

lemma token_candidates_sound: "c \<in> set (token_candidates r t) \<Longrightarrow> sound (rz_policy r) c"
  using quote_candidates_sound [of c r t] pool_candidate_sound
  by (auto simp: token_candidates_def poolCandidates_def split: option.splits)

section \<open>Properties\<close>

lemma map_of_rev_SomeD:
  "map_of (rev (map (\<lambda>t. (f t, g t)) ts)) a = Some q \<Longrightarrow> \<exists>xs t ys. ts = xs @ t # ys \<and> f t = a \<and> q = g t \<and> a \<notin> f ` set ys"
proof (induction ts rule: rev_induct)
  case (snoc t ts)
  have step: "map_of (rev (map (\<lambda>t. (f t, g t)) (ts @ [t]))) a = (if a = f t then Some (g t) else map_of (rev (map (\<lambda>t. (f t, g t)) ts)) a)"
    by simp
  show ?case
  proof (cases "f t = a")
    case True
    then show ?thesis using snoc.prems by (intro exI [of _ ts] exI [of _ t] exI [of _ "[]"]) simp
  next
    case False
    then have "map_of (rev (map (\<lambda>t. (f t, g t)) ts)) a = Some q" using snoc.prems unfolding step by auto
    then obtain xs t' ys where "ts = xs @ t' # ys" "f t' = a" "q = g t'" "a \<notin> f ` set ys" using snoc.IH by blast
    then show ?thesis using False by (intro exI [of _ xs] exI [of _ t'] exI [of _ "ys @ [t]"]) simp
  qed
qed simp

text \<open>What a quote of a token says, given the candidates it was picked from.\<close>

definition picked_from :: "PriceCandidate list \<Rightarrow> Quote \<Rightarrow> bool" where
  "picked_from cands q \<longleftrightarrow> mset (qu_alternatives q) = mset cands
     \<and> sorted_wrt (\<lambda>c d. \<not> cand_less d c) (qu_alternatives q)
     \<and> (\<forall>c. filter (tied c) (qu_alternatives q) = filter (tied c) cands)
     \<and> (case qu_alternatives q of
          [] \<Rightarrow> qu_usd q = None \<and> qu_conf q = ConfidenceNone \<and> qu_route q = []
        | best # _ \<Rightarrow> qu_usd q = Some (cd_usd best) \<and> qu_conf q = cd_conf best \<and> qu_route q = cd_route best)"

lemma picked_from_rank: "picked_from cands (pick_best (rank cands) (blank_quote r token symbol decimals))"
proof (cases "rank cands")
  case Nil
  then have "cands = []" by (metis rank_Nil)
  then show ?thesis by (simp add: picked_from_def pick_best_def blank_quote_def)
next
  case (Cons best rest)
  have "qu_alternatives (pick_best (rank cands) (blank_quote r token symbol decimals)) = rank cands"
    by (simp add: pick_best_def Cons)
  then show ?thesis unfolding picked_from_def by (simp add: rank_sorted rank_stable) (simp add: pick_best_def Cons)
qed

lemma token_quote_picked: "picked_from (if tk_contract t then token_candidates r t else []) (token_quote r t)"
  using picked_from_rank [of "token_candidates r t"] picked_from_rank [of "[]"]
  by (auto simp: token_quote_def Let_def pick_best_def)

text \<open>C20: Every quote of a token is defensible whatever the chain says, and is the best there is.
  Its alternatives are all the candidates of the token's sources, none if there is no contract,
  in the order of the ranking, ties in the order they were found; price, tier and route are those
  of the first. Every candidate has a positive price, the product of the at most two hops of its
  route, and a tier; one of the high tier has only fresh feeds on its route; one of the medium
  tier is a time-weighted pool price over at least the minimum window, crossed through a fresh
  feed or an assumed peg. So a token has no price exactly when its tier is none, exactly when it
  has no candidate.\<close>

theorem quotes_are_defensible:
  assumes "snd (Resolve snap sources policy) a = Some q"
  defines "po \<equiv> policy_defaults policy"
  shows "(\<exists>xs t ys. px_tokens snap = xs @ t # ys \<and> tk_token t = a \<and> a \<notin> tk_token ` set ys
        \<and> picked_from (if tk_contract t then token_candidates (make_resolver snap sources policy) t else []) q)
    \<and> (qu_usd q = None \<longleftrightarrow> qu_conf q = ConfidenceNone) \<and> (qu_usd q = None \<longleftrightarrow> qu_alternatives q = [])
    \<and> (\<forall>c \<in> set (qu_alternatives q). 0 < cd_usd c \<and> cd_usd c = prod_list (map hp_price (cd_route c))
        \<and> cd_conf c \<noteq> ConfidenceNone \<and> length (cd_route c) \<in> {1, 2}
        \<and> (cd_conf c = ConfidenceHigh \<longrightarrow>
             (\<forall>h \<in> set (cd_route c). hp_kind h \<in> {KindChainlink, KindNativeFeed} \<and> \<not> hp_stale h \<and> hp_age h \<le> po_max_age po))
        \<and> (cd_conf c = ConfidenceMedium \<longrightarrow>
             (\<exists>h hq. cd_route c = [h, hq] \<and> hp_kind h = KindV3TWAP \<and> po_min_window po \<le> seconds (hp_window h)
               \<and> (hp_kind hq = KindAssumedPeg
                  \<or> hp_kind hq \<in> {KindChainlink, KindNativeFeed} \<and> \<not> hp_stale hq \<and> hp_age hq \<le> po_max_age po))))"
    (is "?picked \<and> ?none \<and> ?empty \<and> ?all")
proof -
  define r where "r = make_resolver snap sources policy"
  have pol: "rz_policy r = po" by (simp add: r_def make_resolver_def po_def)
  obtain xs t ys where t: "px_tokens snap = xs @ t # ys" "tk_token t = a" "q = token_quote r t" "a \<notin> tk_token ` set ys"
    using assms(1) by (auto simp: Resolve_def Let_def r_def dest!: map_of_rev_SomeD)
  have p: "picked_from (if tk_contract t then token_candidates r t else []) q" unfolding t(3) by (rule token_quote_picked)
  then have "set (qu_alternatives q) \<subseteq> set (token_candidates r t)"
    by (auto simp: picked_from_def simp flip: set_mset_mset split: if_splits)
  then have s: "sound po c" if "c \<in> set (qu_alternatives q)" for c using token_candidates_sound that pol by blast
  have ?picked using t p unfolding r_def by blast
  moreover have ?all using s by (fastforce simp: sound_def fresh_feed_def Suc_le_eq le_Suc_eq numeral_2_eq_2)
  moreover have "?none \<and> ?empty"
    using p s by (cases "qu_alternatives q") (auto simp: picked_from_def sound_def)
  ultimately show ?thesis by blast
qed

definition demo_price_snap :: price_snapshot where
  "demo_price_snap = \<lparr>px_chain = 1, px_block = 8, px_parent = 0, px_time = 1000, px_native = None,
     px_tokens = [\<lparr>tk_token = 9, tk_contract = True, tk_symbol = ''T'', tk_decimals = Some 6,
       tk_feeds = [\<lparr>fd_aggregator = 3, fd_quote = 0, fd_via_registry = True, fd_answered = True, fd_answer = Some 250, fd_decimals = Some 2,
         fd_started_at = 990, fd_updated_at = 990, fd_round = Some 4, fd_answered_in = Some 4, fd_description = []\<rparr>], tk_pools = []\<rparr>],
     px_calls = 1, px_atomic = True\<rparr>"

definition demo_sources :: Sources where
  "demo_sources = \<lparr>so_feed_registry = 4, so_native_feed = 0, so_feeds = [], so_v3_factory = 0, so_fee_tiers = [], so_v2_factory = 0, so_quote_tokens = []\<rparr>"

definition demo_policy :: Policy where
  "demo_policy = \<lparr>po_max_age = 0, po_min_window = 0\<rparr>"

lemma demo_resolved:
  "\<exists>q. snd (Resolve demo_price_snap demo_sources demo_policy) 9 = Some q \<and> qu_conf q = ConfidenceHigh \<and> qu_usd q = Some (250 / 100)"
  by (simp add: Resolve_def demo_price_snap_def make_resolver_def demo_sources_def demo_policy_def policy_defaults_def seconds_def token_quote_def
    token_candidates_def feedCandidates_def feed_candidate_def feedHop_def feedPrice_def i64_def saturate_def quoteTokenCandidates_def
    poolCandidates_def rank_def pick_best_def blank_quote_def single_def pow10_def Let_def)

theorem quotes_are_defensible_witness:
  "\<exists>q c. snd (Resolve demo_price_snap demo_sources demo_policy) 9 = Some q \<and> qu_usd q = Some (250 / 100)
     \<and> c \<in> set (qu_alternatives q) \<and> length (cd_route c) \<in> {1, 2} \<and> 0 < cd_usd c"
proof -
  obtain q where q: "snd (Resolve demo_price_snap demo_sources demo_policy) 9 = Some q" "qu_conf q = ConfidenceHigh" "qu_usd q = Some (250 / 100)"
    using demo_resolved by blast
  from quotes_are_defensible [OF q(1)] have a: "qu_usd q = None \<longleftrightarrow> qu_alternatives q = []"
    "\<forall>c \<in> set (qu_alternatives q). 0 < cd_usd c \<and> length (cd_route c) \<in> {1, 2}" by blast+
  then obtain c where "c \<in> set (qu_alternatives q)" using q(3) by (cases "qu_alternatives q") auto
  then show ?thesis using a(2) q by blast
qed

end
