(* ===== verification/Pricer.thy ===== *)
theory Pricer
  imports PriceQuote
begin

text \<open>
  Reading the lens in batches (\<open>Query\<close> of \<open>internal/price/lens.go\<close>) and the cached pricer of
  \<open>pricer.go\<close>. The call that is made of the node is an argument, with the number of the call; its
  reply is the decoded snapshot. The lemmas show that a batch that is too large never loses a token,
  and where each served quote comes from: the cache while it is young, and otherwise this reply.
\<close>

section \<open>Batches\<close>

datatype query_error = TooBig | Cancelled | QueryFailed nat

type_synonym lens_call = "nat \<Rightarrow> address list \<Rightarrow> query_error + price_snapshot"

definition merge_reply :: "price_snapshot option \<Rightarrow> price_snapshot \<Rightarrow> price_snapshot" where
  "merge_reply out w =
     (case out of None \<Rightarrow> w\<lparr>px_atomic := True\<rparr>
      | Some s \<Rightarrow> if px_block w \<noteq> px_block s \<or> px_parent w \<noteq> px_parent s then s\<lparr>px_atomic := False\<rparr> else s)"

text \<open>One reply was seen before the loop ends, so the missing snapshot at the end is never read.\<close>

function query_loop ::
  "lens_call \<Rightarrow> address list \<Rightarrow> nat \<Rightarrow> nat \<Rightarrow> nat \<Rightarrow> price_snapshot option \<Rightarrow> TokenSources list \<Rightarrow> query_error + price_snapshot" where
  "query_loop ask tokens i batch calls out merged =
     (if i < length tokens \<or> i = 0 then
        let n = min batch (length tokens - i)
        in case ask calls (take n (drop i tokens)) of
             Inl e \<Rightarrow> if e = TooBig \<and> n > 1 then query_loop ask tokens i (max 1 (n div 2)) (calls + 1) out merged else Inl e
           | Inr w \<Rightarrow>
               let out = merge_reply out w; merged = merged @ px_tokens w
               in if n = 0 then Inr (out\<lparr>px_tokens := merged, px_calls := calls + 1\<rparr>)
                  else query_loop ask tokens (i + n) batch (calls + 1) (Some out) merged
      else case out of None \<Rightarrow> Inl (QueryFailed 0) | Some s \<Rightarrow> Inr (s\<lparr>px_tokens := merged, px_calls := calls\<rparr>))"
  by pat_completeness auto
termination
  by (relation "measures [\<lambda>(ask, tokens, i, batch, calls, out, merged). length tokens - i, \<lambda>(ask, tokens, i, batch, calls, out, merged). batch]")
    (auto split: if_splits)

declare query_loop.simps [simp del]

definition DefaultTokensPerCall :: nat where
  "DefaultTokensPerCall = 8"

definition QueryLens :: "lens_call \<Rightarrow> address list \<Rightarrow> int \<Rightarrow> query_error + price_snapshot" where
  "QueryLens ask tokens tokensPerCall =
     query_loop ask tokens 0 (if tokensPerCall \<le> 0 then DefaultTokensPerCall else nat tokensPerCall) 0 None []"

section \<open>The pricer\<close>

record cached =
  ca_quote :: Quote
  ca_sources :: "TokenSources option"
  ca_at :: int

record pricer =
  pc_sources :: Sources
  pc_policy :: Policy
  pc_ttl :: int
  pc_cache :: "address \<rightharpoonup> cached"
  pc_native :: "cached option"

record price_result =
  pr_chain :: nat
  pr_block :: nat
  pr_time :: nat
  pr_native :: "Quote option"
  pr_quotes :: "address \<rightharpoonup> Quote"
  pr_sources :: "address \<rightharpoonup> TokenSources option"
  pr_calls :: nat
  pr_cached :: nat

fun dedupe_loop :: "address set \<Rightarrow> address list \<Rightarrow> address list" where
  "dedupe_loop seen [] = []"
| "dedupe_loop seen (a # as) = (if a = 0 \<or> a \<in> seen then dedupe_loop seen as else a # dedupe_loop (insert a seen) as)"

definition dedupe :: "address list \<Rightarrow> address list" where
  "dedupe as = dedupe_loop {} as"

text \<open>The oldest block of the quotes served and of the native quote.\<close>

definition cachedHeader :: "Quote list \<Rightarrow> Quote option \<Rightarrow> nat \<times> nat" where
  "cachedHeader quotes native =
     (let f = (\<lambda>q (block, ts). if block = 0 \<or> qu_block q < block then (qu_block q, qu_time q) else (block, ts));
          bt = fold f quotes (0, 0)
      in case native of None \<Rightarrow> bt | Some q \<Rightarrow> f q bt)"

definition fresh_entry :: "pricer \<Rightarrow> int \<Rightarrow> cached option \<Rightarrow> bool" where
  "fresh_entry p now c = (case c of None \<Rightarrow> False | Some c \<Rightarrow> now - ca_at c < pc_ttl p)"

text \<open>\<open>now\<close> is read before the lens is asked, \<open>answered\<close> after it has answered.\<close>

definition Prices :: "lens_call \<Rightarrow> int \<Rightarrow> int \<Rightarrow> pricer \<Rightarrow> address list \<Rightarrow> (query_error + price_result) \<times> pricer" where
  "Prices ask now answered p tokens =
     (if SourcesEmpty (pc_sources p)
      then (Inr \<lparr>pr_chain = 0, pr_block = 0, pr_time = 0, pr_native = None, pr_quotes = Map.empty, pr_sources = Map.empty, pr_calls = 0, pr_cached = 0\<rparr>, p)
      else let want = dedupe tokens;
               hits = filter (\<lambda>t. fresh_entry p now (pc_cache p t)) want;
               misses = filter (\<lambda>t. \<not> fresh_entry p now (pc_cache p t)) want;
               served = map_of (map (\<lambda>t. (t, ca_quote (the (pc_cache p t)))) hits);
               shown = map_of (map (\<lambda>t. (t, ca_sources (the (pc_cache p t)))) hits);
               nativeFresh = fresh_entry p now (pc_native p)
           in if misses = [] \<and> nativeFresh
              then let native = ca_quote (the (pc_native p)); (block, ts) = cachedHeader (map (\<lambda>t. the (served t)) hits) (Some native)
                   in (Inr \<lparr>pr_chain = 0, pr_block = block, pr_time = ts, pr_native = Some native, pr_quotes = served, pr_sources = shown,
                            pr_calls = 0, pr_cached = length hits\<rparr>, p)
              else case QueryLens ask (dedupe (misses @ map qk_address (so_quote_tokens (pc_sources p)))) 0 of
                     Inl e \<Rightarrow> (Inl e, p)
                   | Inr snap \<Rightarrow>
                       let (native, quotes) = Resolve snap (pc_sources p) (pc_policy p);
                           cache = fold (\<lambda>t c. c(tk_token t \<mapsto> \<lparr>ca_quote = the (quotes (tk_token t)), ca_sources = Some t, ca_at = answered\<rparr>))
                             (px_tokens snap) (pc_cache p)
                       in (Inr \<lparr>pr_chain = px_chain snap, pr_block = px_block snap, pr_time = px_time snap, pr_native = Some native,
                                pr_quotes = (\<lambda>t. if t \<in> set misses then quotes t else served t),
                                pr_sources = (\<lambda>t. if t \<in> set misses then map_of (rev (map (\<lambda>s. (tk_token s, Some s)) (px_tokens snap))) t else shown t),
                                pr_calls = px_calls snap, pr_cached = length hits\<rparr>,
                           p\<lparr>pc_cache := cache, pc_native := Some \<lparr>ca_quote = native, ca_sources = None, ca_at = answered\<rparr>\<rparr>))"

definition Native :: "lens_call \<Rightarrow> int \<Rightarrow> int \<Rightarrow> pricer \<Rightarrow> (query_error + Quote option) \<times> pricer" where
  "Native ask now answered p =
     (case Prices ask now answered p [] of (Inl e, p) \<Rightarrow> (Inl e, p) | (Inr res, p) \<Rightarrow> (Inr (pr_native res), p))"

section \<open>Batches lose nothing\<close>

text \<open>The size of a reply the node is able to return.\<close>

definition serves :: "nat \<Rightarrow> lens_call \<Rightarrow> bool" where
  "serves cap ask \<longleftrightarrow> (\<forall>c xs. (length xs \<le> cap \<longrightarrow> (\<exists>w. ask c xs = Inr w)) \<and> (\<forall>w. ask c xs = Inr w \<longrightarrow> map tk_token (px_tokens w) = xs)
     \<and> (\<forall>e. ask c xs = Inl e \<longrightarrow> e = TooBig))"

lemma query_loop_serves:
  assumes "serves cap ask" "0 < cap"
  shows "0 < batch \<Longrightarrow> map tk_token merged = take i tokens \<Longrightarrow> i \<le> length tokens \<Longrightarrow> (0 < i \<longrightarrow> out \<noteq> None)
    \<Longrightarrow> \<exists>snap. query_loop ask tokens i batch calls out merged = Inr snap \<and> map tk_token (px_tokens snap) = tokens"
  using assms(1)
proof (induction ask tokens i batch calls out merged rule: query_loop.induct)
  case (1 ask tokens i batch calls out merged)
  define n where "n = min batch (length tokens - i)"
  note step = query_loop.simps [of ask tokens i batch calls out merged]
  show ?case
  proof (cases "i < length tokens \<or> i = 0")
    case False
    then show ?thesis unfolding step using 1(4-6) by auto
  next
    case True
    show ?thesis
    proof (cases "ask calls (take n (drop i tokens))")
      case (Inl e)
      then have e: "e = TooBig" using 1(7) by (simp add: serves_def)
      have "\<not> length (take n (drop i tokens)) \<le> cap" using 1(7) Inl unfolding serves_def by (metis sum.distinct(1))
      moreover have "length (take n (drop i tokens)) = n" by (simp add: n_def)
      ultimately have n1: "1 < n" using assms(2) by linarith
      then show ?thesis using 1(1) [OF True n_def Inl] e 1(3-7) True Inl by (simp add: step n_def [symmetric] Let_def)
    next
      case (Inr w)
      then have w: "map tk_token (px_tokens w) = take n (drop i tokens)" using 1(7) by (simp add: serves_def)
      have m: "map tk_token (merged @ px_tokens w) = take (i + n) tokens" using w 1(4) by (simp add: take_add)
      show ?thesis
      proof (cases "n = 0")
        case True
        then have "i = 0" "tokens = []" using \<open>i < length tokens \<or> i = 0\<close> 1(3) by (auto simp: n_def min_def split: if_splits)
        then show ?thesis using True Inr m unfolding step n_def [symmetric] by (simp add: Let_def)
      next
        case False
        have "i + n \<le> length tokens" using 1(5) by (simp add: n_def)
        then show ?thesis
          using 1(2) [OF True n_def Inr refl refl False] 1(3,7) m False True Inr by (simp add: step n_def [symmetric] Let_def)
      qed
    qed
  qed
qed

lemma query_loop_calls:
  "query_loop ask tokens i batch calls out merged = Inr snap \<Longrightarrow> (0 < i \<longrightarrow> 0 < calls) \<Longrightarrow> 0 < px_calls snap"
proof (induction ask tokens i batch calls out merged rule: query_loop.induct)
  case (1 ask tokens i batch calls out merged)
  note step = query_loop.simps [of ask tokens i batch calls out merged]
  define n where "n = min batch (length tokens - i)"
  show ?case
  proof (cases "i < length tokens \<or> i = 0")
    case False
    then show ?thesis using 1(3,4) by (auto simp: step split: option.splits)
  next
    case True
    then show ?thesis
      using 1(1) [OF True n_def] 1(2) [OF True n_def _ refl refl] 1(3,4)
      by (cases "ask calls (take n (drop i tokens))") (auto simp: step n_def [symmetric] Let_def split: if_splits)
  qed
qed

lemma query_covers:
  assumes "serves cap ask" "0 < cap"
  shows "\<exists>snap. QueryLens ask tokens tokensPerCall = Inr snap \<and> map tk_token (px_tokens snap) = tokens \<and> 0 < px_calls snap"
proof -
  define batch where "batch = (if tokensPerCall \<le> 0 then DefaultTokensPerCall else nat tokensPerCall)"
  have "0 < batch" by (simp add: batch_def DefaultTokensPerCall_def)
  from query_loop_serves [OF assms this, of "[]" 0 tokens None 0]
  obtain snap where "QueryLens ask tokens tokensPerCall = Inr snap" "map tk_token (px_tokens snap) = tokens"
    by (auto simp: QueryLens_def batch_def)
  then show ?thesis using query_loop_calls by (fastforce simp: QueryLens_def)
qed

text \<open>As long as the node can answer for some number of tokens at once, however small, a lens query
  returns, and its reply covers exactly the tokens asked for, in their order: halving a batch that
  is too large neither loses nor repeats one.\<close>

theorem query_covers_every_token:
  assumes "serves cap ask" "0 < cap"
  shows "\<exists>snap. QueryLens ask tokens tokensPerCall = Inr snap \<and> map tk_token (px_tokens snap) = tokens"
  using query_covers [OF assms] by blast

definition demo_ask :: lens_call where
  "demo_ask c xs = (if length xs > 2 then Inl TooBig
     else Inr (demo_price_snap\<lparr>px_tokens := map (\<lambda>a. \<lparr>tk_token = a, tk_contract = False, tk_symbol = [], tk_decimals = None, tk_feeds = [], tk_pools = []\<rparr>) xs\<rparr>))"

lemma demo_serves: "serves 2 demo_ask"
  by (auto simp: serves_def demo_ask_def comp_def)

theorem query_covers_every_token_witness:
  "\<exists>snap. QueryLens demo_ask [3, 1, 4, 1, 5] 0 = Inr snap \<and> map tk_token (px_tokens snap) = [3, 1, 4, 1, 5]"
  using query_covers_every_token [OF demo_serves] by simp

section \<open>The cache\<close>

lemma set_dedupe_loop: "set (dedupe_loop seen as) = {a \<in> set as. a \<noteq> 0 \<and> a \<notin> seen} \<and> distinct (dedupe_loop seen as)"
  by (induction seen as rule: dedupe_loop.induct) auto

lemma set_dedupe [simp]: "set (dedupe as) = set as - {0}" "distinct (dedupe as)"
  using set_dedupe_loop [of "{}" as] by (auto simp: dedupe_def)

lemma map_of_map_self: "map_of (map (\<lambda>t. (t, f t)) xs) t = (if t \<in> set xs then Some (f t) else None)"
  by (induction xs) auto

lemma cache_written:
  "fold (\<lambda>t c. c(tk_token t \<mapsto> \<lparr>ca_quote = g (tk_token t), ca_sources = Some t, ca_at = w\<rparr>)) ts c a =
     (if a \<in> tk_token ` set ts
      then Some \<lparr>ca_quote = g a, ca_sources = Some (last (filter (\<lambda>t. tk_token t = a) ts)), ca_at = w\<rparr> else c a)"
  by (induction ts rule: rev_induct) auto

lemma Resolve_covers: "a \<in> tk_token ` set (px_tokens snap) \<Longrightarrow> \<exists>q. snd (Resolve snap so po) a = Some q"
proof -
  assume "a \<in> tk_token ` set (px_tokens snap)"
  moreover define tab where "tab = rev (map (\<lambda>t. (tk_token t, token_quote (make_resolver snap so po) t)) (px_tokens snap))"
  ultimately have "a \<in> fst ` set tab" by force
  then have "map_of tab a \<noteq> None" by (simp add: map_of_eq_None_iff)
  then show ?thesis by (auto simp: Resolve_def Let_def tab_def)
qed

lemma Resolve_only: "snd (Resolve snap so po) a = Some q \<Longrightarrow> a \<in> tk_token ` set (px_tokens snap)"
  by (auto simp: Resolve_def Let_def dest!: map_of_SomeD)

lemma fresh_entry_iff: "fresh_entry p now c \<longleftrightarrow> (\<exists>x. c = Some x \<and> now - ca_at x < pc_ttl p)"
  by (simp add: fresh_entry_def split: option.splits)

text \<open>The cache can answer for a token.\<close>

definition young :: "pricer \<Rightarrow> int \<Rightarrow> address \<Rightarrow> bool" where
  "young p now t \<longleftrightarrow> fresh_entry p now (pc_cache p t)"

text \<open>What the pricer serves and keeps when the lens has answered with a snapshot.\<close>

definition served_from :: "price_snapshot \<Rightarrow> int \<Rightarrow> int \<Rightarrow> pricer \<Rightarrow> address list \<Rightarrow> price_result \<Rightarrow> pricer \<Rightarrow> bool" where
  "served_from snap now answered p tokens res p' \<longleftrightarrow>
     (let (native, quotes) = Resolve snap (pc_sources p) (pc_policy p)
      in (\<forall>t. pr_quotes res t = (if t \<notin> set tokens - {0} then None
             else if young p now t then map_option ca_quote (pc_cache p t) else quotes t))
         \<and> pr_native res = Some native \<and> pr_calls res = px_calls snap
         \<and> pr_block res = px_block snap \<and> pr_time res = px_time snap
         \<and> (\<forall>t. pc_cache p' t = (if t \<in> tk_token ` set (px_tokens snap)
             then Some \<lparr>ca_quote = the (quotes t), ca_sources = Some (last (filter (\<lambda>s. tk_token s = t) (px_tokens snap))), ca_at = answered\<rparr>
             else pc_cache p t))
         \<and> pc_native p' = Some \<lparr>ca_quote = native, ca_sources = None, ca_at = answered\<rparr>
         \<and> pc_sources p' = pc_sources p \<and> pc_policy p' = pc_policy p \<and> pc_ttl p' = pc_ttl p)"

lemma Prices_cases:
  fixes p :: pricer and now :: int and tokens :: "address list"
  assumes "\<not> SourcesEmpty (pc_sources p)"
  defines "cold \<equiv> {t \<in> set tokens - {0}. \<not> young p now t}"
  defines "asked \<equiv> dedupe (filter (\<lambda>t. \<not> young p now t) (dedupe tokens) @ map qk_address (so_quote_tokens (pc_sources p)))"
  shows "cold = {} \<and> fresh_entry p now (pc_native p) \<Longrightarrow> \<exists>res. Prices ask now answered p tokens = (Inr res, p) \<and> pr_calls res = 0
      \<and> pr_native res = map_option ca_quote (pc_native p)
      \<and> (\<forall>t. pr_quotes res t = (if t \<in> set tokens - {0} then map_option ca_quote (pc_cache p t) else None))"
    and "\<not> (cold = {} \<and> fresh_entry p now (pc_native p)) \<Longrightarrow> QueryLens ask asked 0 = Inl e \<Longrightarrow> Prices ask now answered p tokens = (Inl e, p)"
    and "\<not> (cold = {} \<and> fresh_entry p now (pc_native p)) \<Longrightarrow> QueryLens ask asked 0 = Inr snap
      \<Longrightarrow> \<exists>res p'. Prices ask now answered p tokens = (Inr res, p') \<and> served_from snap now answered p tokens res p'"
proof -
  define misses where "misses = filter (\<lambda>t. \<not> young p now t) (dedupe tokens)"
  define hits where "hits = filter (young p now) (dedupe tokens)"
  define served where "served = map_of (map (\<lambda>t. (t, ca_quote (the (pc_cache p t)))) hits)"
  define shown where "shown = map_of (map (\<lambda>t. (t, ca_sources (the (pc_cache p t)))) hits)"
  have sets: "set misses = cold" "set hits = {t \<in> set tokens - {0}. young p now t}" by (auto simp: misses_def hits_def cold_def)
  have none: "misses = [] \<longleftrightarrow> cold = {}" by (simp flip: sets(1))
  have hit: "served t = (if t \<in> set hits then map_option ca_quote (pc_cache p t) else None)" for t
    by (auto simp: served_def map_of_map_self hits_def young_def fresh_entry_def split: option.splits)
  note unfold = Prices_def [unfolded Let_def, of ask now answered p tokens, folded young_def, folded misses_def hits_def, folded served_def shown_def]
  note asked = asked_def [folded misses_def]
  show "cold = {} \<and> fresh_entry p now (pc_native p) \<Longrightarrow> \<exists>res. Prices ask now answered p tokens = (Inr res, p) \<and> pr_calls res = 0
      \<and> pr_native res = map_option ca_quote (pc_native p)
      \<and> (\<forall>t. pr_quotes res t = (if t \<in> set tokens - {0} then map_option ca_quote (pc_cache p t) else None))"
    using assms(1) sets hit none by (auto simp: unfold cold_def fresh_entry_def split: prod.split option.splits)
  assume warm: "\<not> (cold = {} \<and> fresh_entry p now (pc_native p))"
  note run = unfold [unfolded if_not_P [OF assms(1)] if_not_P [OF warm [folded none]], folded asked]
  show "QueryLens ask asked 0 = Inl e \<Longrightarrow> Prices ask now answered p tokens = (Inl e, p)" by (simp add: run)
  assume q: "QueryLens ask asked 0 = Inr snap"
  obtain native quotes where r: "Resolve snap (pc_sources p) (pc_policy p) = (native, quotes)" by force
  note cache = cache_written [of "\<lambda>a. the (quotes a)" answered "px_tokens snap" "pc_cache p"]
  show "\<exists>res p'. Prices ask now answered p tokens = (Inr res, p') \<and> served_from snap now answered p tokens res p'"
    unfolding run q sum.case r prod.case served_from_def Let_def
    by (auto simp: cache hit sets cold_def)
qed

text \<open>C22: The pricer, for every set of sources that is not empty, every cache and every node. When
  the cache is young enough for every token asked about and for the native asset, the node is not
  asked and the cached quotes are served as they are. Otherwise the node is asked once for exactly
  the tokens that are missing and the quote tokens of the sources, each once and none of them zero.
  An error of the lens is returned and the cache is as before. On a snapshot, a missing token gets
  the quote resolved from that snapshot, a young one its cached quote; every token of the snapshot
  is cached with its new quote as of this reply, and no other entry is touched.

  A node that answers every batch of at most some positive size, covers exactly the tokens asked
  for, and refuses only batches that are too big (\<open>serves\<close>) makes it answer for every token asked
  about but the zero address.\<close>

theorem prices_served:
  fixes p :: pricer and now :: int and tokens :: "address list"
  assumes "\<not> SourcesEmpty (pc_sources p)"
  defines "cold \<equiv> {t \<in> set tokens - {0}. \<not> young p now t}"
  shows "(cold = {} \<and> fresh_entry p now (pc_native p) \<longrightarrow>
        (\<exists>res. Prices ask now answered p tokens = (Inr res, p) \<and> pr_calls res = 0
          \<and> pr_native res = map_option ca_quote (pc_native p)
          \<and> (\<forall>t. pr_quotes res t = (if t \<in> set tokens - {0} then map_option ca_quote (pc_cache p t) else None))))
    \<and> (\<not> (cold = {} \<and> fresh_entry p now (pc_native p)) \<longrightarrow>
        (\<exists>asked. distinct asked \<and> set asked = (cold \<union> qk_address ` set (so_quote_tokens (pc_sources p))) - {0}
          \<and> (case QueryLens ask asked 0 of
               Inl e \<Rightarrow> Prices ask now answered p tokens = (Inl e, p)
             | Inr snap \<Rightarrow> \<exists>res p'. Prices ask now answered p tokens = (Inr res, p') \<and> 0 < pr_calls res
                 \<and> served_from snap now answered p tokens res p')))
    \<and> (\<forall>cap > 0. serves cap ask \<longrightarrow>
        (\<exists>res p'. Prices ask now answered p tokens = (Inr res, p') \<and> dom (pr_quotes res) = set tokens - {0}))"
proof -
  define asked where "asked = dedupe (filter (\<lambda>t. \<not> young p now t) (dedupe tokens) @ map qk_address (so_quote_tokens (pc_sources p)))"
  have set_asked: "set asked = (cold \<union> qk_address ` set (so_quote_tokens (pc_sources p))) - {0}"
    by (auto simp: asked_def cold_def)
  have dist: "distinct asked" by (simp add: asked_def)
  note cases = Prices_cases [OF assms(1), where tokens = tokens and now = now and ask = ask and answered = answered,
    folded cold_def asked_def]
  have young_dom: "pc_cache p t \<noteq> None" if "young p now t" for t using that by (auto simp: young_def fresh_entry_iff)
  have covered: "\<exists>res p'. Prices ask now answered p tokens = (Inr res, p') \<and> dom (pr_quotes res) = set tokens - {0}"
    if c: "0 < cap" "serves cap ask" for cap
  proof (cases "cold = {} \<and> fresh_entry p now (pc_native p)")
    case True
    then have "\<forall>t \<in> set tokens - {0}. pc_cache p t \<noteq> None" using young_dom by (auto simp: cold_def)
    then show ?thesis using cases(1) [OF True] by (fastforce simp: dom_def)
  next
    case False
    obtain snap where q: "QueryLens ask asked 0 = Inr snap" "map tk_token (px_tokens snap) = asked"
      using query_covers [OF c(2,1)] by blast
    obtain res p' where r: "Prices ask now answered p tokens = (Inr res, p')" "served_from snap now answered p tokens res p'"
      using cases(3) [OF False q(1)] by blast
    have "\<exists>quote. snd (Resolve snap (pc_sources p) (pc_policy p)) t = Some quote" if "t \<in> cold" for t
    proof (rule Resolve_covers)
      have "t \<in> set asked" using that unfolding set_asked by (auto simp: cold_def)
      then show "t \<in> tk_token ` set (px_tokens snap)" unfolding q(2) [symmetric] by simp
    qed
    then have "dom (pr_quotes res) = set tokens - {0}"
      using r(2) young_dom by (fastforce simp: served_from_def cold_def dom_def split: prod.splits if_splits)
    then show ?thesis using r(1) by blast
  qed
  have calls: "0 < pr_calls res" if "served_from snap now answered p tokens res p'" "QueryLens ask asked 0 = Inr snap" for snap res p'
    using that query_loop_calls by (fastforce simp: served_from_def QueryLens_def split: prod.splits)
  have read: "case QueryLens ask asked 0 of Inl e \<Rightarrow> Prices ask now answered p tokens = (Inl e, p)
      | Inr snap \<Rightarrow> \<exists>res p'. Prices ask now answered p tokens = (Inr res, p') \<and> 0 < pr_calls res
          \<and> served_from snap now answered p tokens res p'"
    if "\<not> (cold = {} \<and> fresh_entry p now (pc_native p))"
    using cases(2,3) [OF that] calls by (fastforce split: sum.splits)
  show ?thesis using cases(1) read covered dist set_asked by blast
qed

definition demo_pricer :: pricer where
  "demo_pricer = \<lparr>pc_sources = demo_sources, pc_policy = demo_policy, pc_ttl = 12, pc_cache = Map.empty, pc_native = None\<rparr>"

theorem prices_served_witness:
  "\<exists>res p'. Prices demo_ask 50 60 demo_pricer [3, 0, 1, 4, 3] = (Inr res, p') \<and> dom (pr_quotes res) = {3, 1, 4} \<and> pr_calls res \<noteq> 0"
proof -
  have e: "\<not> SourcesEmpty (pc_sources demo_pricer)" by (simp add: demo_pricer_def demo_sources_def SourcesEmpty_def)
  have n: "\<not> fresh_entry demo_pricer 50 (pc_native demo_pricer)" by (simp add: demo_pricer_def fresh_entry_def)
  have s: "set [3, 0, 1, 4, 3] - {0} = {3, 1, 4 :: address}" by auto
  have c: "(0 :: nat) < 2" by simp
  note served = prices_served [OF e, where ask = demo_ask and now = 50 and answered = 60 and tokens = "[3, 0, 1, 4, 3]", unfolded s]
  obtain res p' where r: "Prices demo_ask 50 60 demo_pricer [3, 0, 1, 4, 3] = (Inr res, p')" "dom (pr_quotes res) = {3, 1, 4}"
    using served [THEN conjunct2, THEN conjunct2] c demo_serves by blast
  obtain asked where "case QueryLens demo_ask asked 0 of Inl e \<Rightarrow> Prices demo_ask 50 60 demo_pricer [3, 0, 1, 4, 3] = (Inl e, demo_pricer)
      | Inr snap \<Rightarrow> \<exists>res p'. Prices demo_ask 50 60 demo_pricer [3, 0, 1, 4, 3] = (Inr res, p') \<and> 0 < pr_calls res
          \<and> served_from snap 50 60 demo_pricer [3, 0, 1, 4, 3] res p'"
    using served [THEN conjunct2, THEN conjunct1] n by blast
  then show ?thesis using r by (auto split: sum.splits)
qed

end
