(* ===== verification/Config.thy ===== *)
theory Config
  imports Follower Pricer
begin

text \<open>
  Configuration: \<open>internal/config/config.go\<close>, the built-in price sources of \<open>internal/price/defaults.go\<close>
  and the pricer a chain gets from both (\<open>cmd/evmscand/pricing.go\<close>). The decoded YAML document, the
  environment and the address parser of go-ethereum are arguments; durations are nanoseconds. The
  floating-point cost section, which only prices the request counters, is left out. The lemmas show
  what a configuration that passes validation is good for.
\<close>

section \<open>The document\<close>

record StateCfg =
  sc_enabled :: bool
  sc_node :: string
  sc_require_local :: "bool option"
  sc_resolver :: string
  sc_namehash :: string
  sc_name :: string
  sc_key :: string
  sc_interval :: int
  sc_max_gas :: nat
  sc_max_fee :: string

record Database =
  da_dsn :: string
  da_migrate :: bool

record API =
  ap_listen :: string
  ap_cors :: string
  ap_allow :: bool
  ap_token :: string

record PublisherCfg =
  pg_mode :: string
  pg_submit_timeout :: int
  pg_stale_after :: int
  pg_fallback_gas :: nat
  pg_min_reward :: string

record RegistryCfg =
  rg_chain :: nat
  rg_address :: string
  rg_key :: string
  rg_sync :: int
  rg_auto_publish :: int
  rg_uri :: string
  rg_parent :: string
  rg_resolver :: string
  rg_name_resolver :: string
  rg_publisher :: PublisherCfg

record PriceFeed =
  pf_token :: string
  pf_aggregator :: string
  pf_quote :: string

record QuoteTokenCfg =
  qc_address :: string
  qc_symbol :: string
  qc_wrapped :: bool
  qc_peg :: bool

record Pricing =
  pn_enabled :: "bool option"
  pn_use_defaults :: "bool option"
  pn_feed_registry :: string
  pn_native_feed :: string
  pn_feeds :: "PriceFeed list"
  pn_v3_factory :: string
  pn_v2_factory :: string
  pn_fee_tiers :: "nat list"
  pn_quote_tokens :: "QuoteTokenCfg list"
  pn_twap :: int
  pn_min_twap :: int
  pn_max_age :: int
  pn_ttl :: int

text \<open>The discovery section has the fields of the options it becomes.\<close>

record ChainCfg =
  cc_id :: nat
  cc_name :: string
  cc_node :: string
  cc_require_local :: "bool option"
  cc_confirmations :: nat
  cc_backfill_window :: nat
  cc_tail_window :: nat
  cc_poll :: int
  cc_backfill_interval :: int
  cc_discovery :: DiscoveryOptions
  cc_pricing :: Pricing
  cc_token_lists :: "string list"

record ENSCfg =
  en_disabled :: bool
  en_node :: string
  en_resolver :: string

record Config =
  co_database :: Database
  co_state :: StateCfg
  co_api :: API
  co_registry :: RegistryCfg
  co_chains :: "ChainCfg list"
  co_ens :: ENSCfg

section \<open>Flags\<close>

definition ENSEnabled :: "ENSCfg \<Rightarrow> bool" where
  "ENSEnabled e \<longleftrightarrow> \<not> en_disabled e"

definition PricingEnabled :: "ChainCfg \<Rightarrow> bool" where
  "PricingEnabled c = (case pn_enabled (cc_pricing c) of None \<Rightarrow> True | Some b \<Rightarrow> b)"

definition MergeDefaults :: "Pricing \<Rightarrow> bool" where
  "MergeDefaults p = (case pn_use_defaults p of None \<Rightarrow> True | Some b \<Rightarrow> b)"

definition RequireLocal :: "ChainCfg \<Rightarrow> bool" where
  "RequireLocal c = (case cc_require_local c of None \<Rightarrow> True | Some b \<Rightarrow> b)"

section \<open>Environment\<close>

definition override :: "string \<Rightarrow> string \<Rightarrow> string" where
  "override v old = (if v \<noteq> [] then v else old)"

definition chain_env :: "nat \<Rightarrow> string" where
  "chain_env i = ''EVMSCAN_NODE_'' @ dec_string i"

definition applyEnv :: "(string \<Rightarrow> string) \<Rightarrow> Config \<Rightarrow> Config" where
  "applyEnv env c =
     (let state = (co_state c)\<lparr>sc_key := env ''EVMSCAN_STATE_PUBLISHER_KEY'', sc_node := override (env ''EVMSCAN_STATE_NODE'') (sc_node (co_state c))\<rparr>;
          database = (co_database c)\<lparr>da_dsn := override (env ''EVMSCAN_DATABASE_DSN'') (da_dsn (co_database c))\<rparr>;
          api = (co_api c)\<lparr>ap_listen := override (env ''EVMSCAN_API_LISTEN'') (ap_listen (co_api c)),
                           ap_token := override (env ''EVMSCAN_API_TOKEN'') (ap_token (co_api c))\<rparr>;
          reg = co_registry c;
          reg = reg\<lparr>rg_key := override (env ''EVMSCAN_PUBLISHER_KEY'') (rg_key reg),
                    rg_resolver := override (env ''EVMSCAN_ENS_RESOLVER'') (rg_resolver reg),
                    rg_name_resolver := override (env ''EVMSCAN_ENS_NAME_RESOLVER'') (rg_name_resolver reg),
                    rg_address := override (env ''EVMSCAN_REGISTRY_ADDRESS'') (rg_address reg)\<rparr>;
          chains = (case co_chains c of [] \<Rightarrow> [] | ch # chs \<Rightarrow> ch\<lparr>cc_node := override (env ''EVMSCAN_NODE'') (cc_node ch)\<rparr> # chs);
          chains = map (\<lambda>ch. ch\<lparr>cc_node := override (env (chain_env (cc_id ch))) (cc_node ch)\<rparr>) chains
      in c\<lparr>co_state := state, co_database := database, co_api := api, co_registry := reg, co_chains := chains\<rparr>)"

section \<open>Validation\<close>

datatype config_error =
    Unreadable
  | Unparsable
  | NoDSN
  | NoChains
  | NoConfigChainID nat
  | DuplicateChain nat
  | NoNode nat nat
  | PricingAddress
  | PricingFeed nat
  | PricingQuote nat
  | PricingQuoteToken nat
  | BadNameResolver
  | BadENSResolver
  | BadRegistryAddress
  | NoRegistryChain
  | RegistryChainMissing nat
  | BadPublisherKey
  | BadPublisherMode

fun validate_feeds :: "(string \<Rightarrow> bool) \<Rightarrow> nat \<Rightarrow> PriceFeed list \<Rightarrow> config_error option" where
  "validate_feeds isAddr i [] = None"
| "validate_feeds isAddr i (f # fs) =
     (if \<not> isAddr (pf_token f) \<or> \<not> isAddr (pf_aggregator f) then Some (PricingFeed i)
      else if to_lower (pf_quote f) \<in> {[], ''usd'', ''native'', ''eth''} then validate_feeds isAddr (i + 1) fs
      else Some (PricingQuote i))"

fun validate_quotes :: "(string \<Rightarrow> bool) \<Rightarrow> nat \<Rightarrow> QuoteTokenCfg list \<Rightarrow> config_error option" where
  "validate_quotes isAddr i [] = None"
| "validate_quotes isAddr i (q # qs) = (if \<not> isAddr (qc_address q) then Some (PricingQuoteToken i) else validate_quotes isAddr (i + 1) qs)"

text \<open>The four single addresses are checked in the order of a Go map, so which of several bad ones is
  reported is not fixed; the error does not name it.\<close>

definition validatePricing :: "(string \<Rightarrow> bool) \<Rightarrow> Pricing \<Rightarrow> config_error option" where
  "validatePricing isAddr p =
     (if \<exists>v \<in> set [pn_feed_registry p, pn_native_feed p, pn_v3_factory p, pn_v2_factory p]. v \<noteq> [] \<and> \<not> isAddr v then Some PricingAddress
      else case validate_feeds isAddr 0 (pn_feeds p) of Some e \<Rightarrow> Some e
      | None \<Rightarrow> validate_quotes isAddr 0 (pn_quote_tokens p))"

fun validate_chains :: "(string \<Rightarrow> bool) \<Rightarrow> nat \<Rightarrow> nat list \<Rightarrow> ChainCfg list \<Rightarrow> config_error option" where
  "validate_chains isAddr i seen [] = None"
| "validate_chains isAddr i seen (ch # chs) =
     (if cc_id ch = 0 then Some (NoConfigChainID i)
      else if cc_id ch \<in> set seen then Some (DuplicateChain (cc_id ch))
      else if cc_node ch = [] then Some (NoNode i (cc_id ch))
      else case validatePricing isAddr (cc_pricing ch) of Some e \<Rightarrow> Some e
      | None \<Rightarrow> validate_chains isAddr (i + 1) (cc_id ch # seen) chs)"

definition PublisherModeEOA :: string where
  "PublisherModeEOA = ''eoa''"

definition trim_0x :: "string \<Rightarrow> string" where
  "trim_0x s = (if prefix ''0x'' s then drop 2 s else s)"

definition validate_registry :: "(string \<Rightarrow> bool) \<Rightarrow> nat list \<Rightarrow> RegistryCfg \<Rightarrow> config_error option" where
  "validate_registry isAddr seen reg =
     (if rg_name_resolver reg \<noteq> [] \<and> \<not> isAddr (rg_name_resolver reg) then Some BadNameResolver
      else if rg_resolver reg \<noteq> [] \<and> \<not> isAddr (rg_resolver reg) then Some BadENSResolver
      else if rg_address reg \<noteq> [] \<and> \<not> isAddr (rg_address reg) then Some BadRegistryAddress
      else if rg_address reg \<noteq> [] \<and> rg_chain reg = 0 then Some NoRegistryChain
      else if rg_address reg \<noteq> [] \<and> rg_chain reg \<notin> set seen then Some (RegistryChainMissing (rg_chain reg))
      else if rg_key reg \<noteq> [] \<and> length (trim_0x (rg_key reg)) \<noteq> 64 then Some BadPublisherKey
      else if pg_mode (rg_publisher reg) = [] \<or> pg_mode (rg_publisher reg) = PublisherModeEOA then None
      else Some BadPublisherMode)"

definition validate :: "(string \<Rightarrow> bool) \<Rightarrow> Config \<Rightarrow> config_error option" where
  "validate isAddr c =
     (if da_dsn (co_database c) = [] then Some NoDSN
      else if co_chains c = [] then Some NoChains
      else case validate_chains isAddr 0 [] (co_chains c) of Some e \<Rightarrow> Some e
      | None \<Rightarrow> validate_registry isAddr (map cc_id (co_chains c)) (co_registry c))"

definition RegistryAddress :: "(string \<Rightarrow> address) \<Rightarrow> Config \<Rightarrow> address option" where
  "RegistryAddress hex c = (if rg_address (co_registry c) = [] then None else Some (hex (rg_address (co_registry c))))"

text \<open>What the YAML document is decoded over.\<close>

definition config_defaults :: Config where
  "config_defaults =
     \<lparr>co_database = \<lparr>da_dsn = [], da_migrate = True\<rparr>,
      co_state = \<lparr>sc_enabled = False, sc_node = [], sc_require_local = None, sc_resolver = [], sc_namehash = [], sc_name = [],
                  sc_key = [], sc_interval = 0, sc_max_gas = 0, sc_max_fee = []\<rparr>,
      co_api = \<lparr>ap_listen = ''127.0.0.1:8080'', ap_cors = [], ap_allow = False, ap_token = []\<rparr>,
      co_registry = \<lparr>rg_chain = 0, rg_address = [], rg_key = [], rg_sync = seconds 10, rg_auto_publish = 0, rg_uri = [], rg_parent = [],
                     rg_resolver = [], rg_name_resolver = [],
                     rg_publisher = \<lparr>pg_mode = [], pg_submit_timeout = seconds 180, pg_stale_after = seconds 1800,
                                     pg_fallback_gas = 0, pg_min_reward = []\<rparr>\<rparr>,
      co_chains = [], co_ens = \<lparr>en_disabled = False, en_node = [], en_resolver = []\<rparr>\<rparr>"

text \<open>\<open>readFile\<close> and \<open>unmarshal\<close> are \<open>os.ReadFile\<close> and \<open>yaml.Unmarshal\<close> over the defaults.\<close>

definition Load :: "(string \<Rightarrow> string option) \<Rightarrow> (string \<Rightarrow> Config \<Rightarrow> Config option) \<Rightarrow> (string \<Rightarrow> string) \<Rightarrow> (string \<Rightarrow> bool) \<Rightarrow> string
    \<Rightarrow> config_error + Config" where
  "Load readFile unmarshal env isAddr path =
     (let parsed = (if path = [] then Inr config_defaults
                    else case readFile path of None \<Rightarrow> Inl Unreadable
                    | Some body \<Rightarrow> (case unmarshal body config_defaults of None \<Rightarrow> Inl Unparsable | Some c \<Rightarrow> Inr c))
      in case parsed of Inl e \<Rightarrow> Inl e
      | Inr c \<Rightarrow> let c = applyEnv env c in (case validate isAddr c of Some e \<Rightarrow> Inl e | None \<Rightarrow> Inr c))"

section \<open>Price sources\<close>

definition defaultFeeTiers :: "nat list" where
  "defaultFeeTiers = [100, 500, 3000, 10000]"

definition no_sources :: Sources where
  "no_sources = \<lparr>so_feed_registry = 0, so_native_feed = 0, so_feeds = [], so_v3_factory = 0, so_fee_tiers = [], so_v2_factory = 0, so_quote_tokens = []\<rparr>"

definition wrapped_token :: "address \<Rightarrow> QuoteToken" where
  "wrapped_token a = \<lparr>qk_address = a, qk_symbol = ''WETH'', qk_wrapped = True, qk_peg = False\<rparr>"

definition pegged_token :: "address \<Rightarrow> string \<Rightarrow> QuoteToken" where
  "pegged_token a s = \<lparr>qk_address = a, qk_symbol = s, qk_wrapped = False, qk_peg = True\<rparr>"

definition rollup_sources :: "address \<Rightarrow> address \<Rightarrow> address \<Rightarrow> address \<Rightarrow> address \<Rightarrow> Sources" where
  "rollup_sources nativeFeed v3 weth usdc usdcFeed = no_sources
     \<lparr>so_native_feed := nativeFeed, so_v3_factory := v3, so_fee_tiers := defaultFeeTiers, so_feeds := [(usdc, usdcFeed, 0)],
      so_quote_tokens := [wrapped_token weth, pegged_token usdc ''USDC'']\<rparr>"

definition knownSources :: "(nat \<times> Sources) list" where
  "knownSources =
     [(1, no_sources
        \<lparr>so_feed_registry := 0x47Fb2585D2C56Fe188D0E6ec628a38b74fCeeeDf, so_native_feed := 0x5f4eC3Df9cbd43714FE2740f5E3616155c5b8419,
         so_v3_factory := 0x1F98431c8aD98523631AE4a59f267346ea31F984, so_v2_factory := 0x5C69bEe701ef814a2B6a3EDD4B1652CB9cc5aA6f,
         so_fee_tiers := defaultFeeTiers,
         so_quote_tokens := [wrapped_token 0xC02aaA39b223FE8D0A0e5C4F27eAD9083C756Cc2,
           pegged_token 0xA0b86991c6218b36c1d19D4a2e9Eb0cE3606eB48 ''USDC'', pegged_token 0xdAC17F958D2ee523a2206206994597C13D831ec7 ''USDT'',
           pegged_token 0x6B175474E89094C44Da98b954EedeAC495271d0F ''DAI'']\<rparr>),
      (10, rollup_sources 0x13e3Ee699D1909E989722E753853AE30b17e08c5 0x1F98431c8aD98523631AE4a59f267346ea31F984
         0x4200000000000000000000000000000000000006 0x0b2C639c533813f4Aa9D7837CAf62653d097Ff85 0x16a9FA2FDa030272Ce99B29CF780dFA30361E0f3),
      (8453, rollup_sources 0x71041dddad3595F9CEd3DcCFBe3D1F4b0a16Bb70 0x33128a8fC17869897dcE68Ed026d694621f6FDfD
         0x4200000000000000000000000000000000000006 0x833589fCD6eDb6E08f4c7C32D4f71b54bdA02913 0x7e860098F58bBFC8648a4311b374B1D669a2bc6B),
      (42161, rollup_sources 0x639Fe6ab55C921f74e7fac1ee960C0B6293ba612 0x1F98431c8aD98523631AE4a59f267346ea31F984
         0x82aF49447D8a07e3bd95BD0d56f35241523fBaB1 0xaf88d065e77c8cC2239327C5EDb3A432268e5831 0x50834F3163758fcC1Df9973b6e91f0F0F0434aD3)]"

definition Defaults :: "nat \<Rightarrow> Sources \<times> bool" where
  "Defaults chainID = (case map_of knownSources chainID of None \<Rightarrow> (no_sources, False) | Some s \<Rightarrow> (s, True))"

definition set_address :: "(string \<Rightarrow> address) \<Rightarrow> string \<Rightarrow> address \<Rightarrow> address" where
  "set_address hex v old = (if v \<noteq> [] then hex v else old)"

definition feed_hint :: "(string \<Rightarrow> address) \<Rightarrow> PriceFeed \<Rightarrow> address \<times> address \<times> nat" where
  "feed_hint hex f = (hex (pf_token f), hex (pf_aggregator f), if to_lower (pf_quote f) \<in> {''native'', ''eth''} then 1 else 0)"

definition merge_sources :: "(string \<Rightarrow> address) \<Rightarrow> Pricing \<Rightarrow> Sources \<Rightarrow> Sources" where
  "merge_sources hex pc s =
     \<lparr>so_feed_registry = set_address hex (pn_feed_registry pc) (so_feed_registry s),
      so_native_feed = set_address hex (pn_native_feed pc) (so_native_feed s),
      so_feeds = so_feeds s @ map (feed_hint hex) (pn_feeds pc),
      so_v3_factory = set_address hex (pn_v3_factory pc) (so_v3_factory s),
      so_fee_tiers = (if pn_fee_tiers pc \<noteq> [] then pn_fee_tiers pc else so_fee_tiers s),
      so_v2_factory = set_address hex (pn_v2_factory pc) (so_v2_factory s),
      so_quote_tokens = (if pn_quote_tokens pc \<noteq> []
        then map (\<lambda>q. \<lparr>qk_address = hex (qc_address q), qk_symbol = qc_symbol q, qk_wrapped = qc_wrapped q, qk_peg = qc_peg q\<rparr>) (pn_quote_tokens pc)
        else so_quote_tokens s)\<rparr>"

definition NewPricer :: "Sources \<Rightarrow> Policy \<Rightarrow> int \<Rightarrow> pricer" where
  "NewPricer sources policy ttl =
     \<lparr>pc_sources = sources, pc_policy = policy_defaults policy,
      pc_ttl = (if ttl < 0 then 0 else if ttl = 0 then seconds 12 else ttl), pc_cache = Map.empty, pc_native = None\<rparr>"

definition newPricer :: "(string \<Rightarrow> address) \<Rightarrow> ChainCfg \<Rightarrow> pricer option" where
  "newPricer hex c =
     (if \<not> PricingEnabled c then None
      else let pc = cc_pricing c;
               sources = merge_sources hex pc (if MergeDefaults pc then fst (Defaults (cc_id c)) else no_sources)
           in if SourcesEmpty sources then None
              else Some (NewPricer sources \<lparr>po_max_age = pn_max_age pc, po_min_window = pn_min_twap pc\<rparr> (pn_ttl pc)))"

section \<open>What validation gives\<close>

lemma validate_chains_None:
  "validate_chains isAddr i seen chs = None \<longleftrightarrow>
     distinct (map cc_id chs) \<and> set (map cc_id chs) \<inter> set seen = {}
     \<and> (\<forall>ch \<in> set chs. cc_id ch \<noteq> 0 \<and> cc_node ch \<noteq> [] \<and> validatePricing isAddr (cc_pricing ch) = None)"
  by (induction isAddr i seen chs rule: validate_chains.induct) (auto split: option.splits)

lemma Load_valid:
  "Load readFile unmarshal env isAddr path = Inr c \<Longrightarrow> validate isAddr c = None"
  by (auto simp: Load_def Let_def split: sum.splits option.splits if_splits)

lemma validate_chains_usable:
  assumes "validate isAddr c = None"
  shows "co_chains c \<noteq> []" "distinct (map cc_id (co_chains c))" "ch \<in> set (co_chains c) \<Longrightarrow> cc_id ch \<noteq> 0 \<and> cc_node ch \<noteq> []"
    "rg_address (co_registry c) \<noteq> [] \<Longrightarrow> rg_chain (co_registry c) \<in> set (map cc_id (co_chains c))"
  using assms by (auto simp: validate_def validate_registry_def validate_chains_None split: if_splits option.splits)

text \<open>A chain with built-in sources is priced unless the configuration switches pricing off or drops
  the built-ins: nothing else in the section can take a source away.\<close>

lemma known_sources_used: "i \<in> set (map fst knownSources) \<Longrightarrow> so_native_feed (fst (Defaults i)) \<noteq> 0"
  by (auto simp: knownSources_def Defaults_def no_sources_def rollup_sources_def)

end
