(* ===== verification/ChainSet.thy ===== *)
theory ChainSet
  imports Config
begin

text \<open>
  The chains a process runs: the built-in tuning of \<open>internal/chainprofile/chainprofile.go\<close> and the live
  collection of \<open>internal/chainset/chainset.go\<close>. A locale states what the collection promises to the
  rest of the process; the set is shown to keep it.
\<close>

section \<open>Profiles\<close>

record Profile =
  pf_name :: string
  pf_testnet :: bool
  pf_symbol :: string
  pf_decimals :: int
  pf_wrapped :: address
  pf_block_time :: int
  pf_confirmations :: nat
  pf_backfill_window :: nat
  pf_tail_window :: nat
  pf_poll :: int
  pf_backfill_interval :: int

definition millis :: "nat \<Rightarrow> int" where
  "millis n = int n * 10 ^ 6"

definition Generic :: Profile where
  "Generic = \<lparr>pf_name = ''unknown'', pf_testnet = False, pf_symbol = ''ETH'', pf_decimals = 18, pf_wrapped = 0, pf_block_time = seconds 2,
     pf_confirmations = 30, pf_backfill_window = 100, pf_tail_window = 50, pf_poll = seconds 4, pf_backfill_interval = seconds 2\<rparr>"

definition devProfile :: "string \<Rightarrow> Profile" where
  "devProfile name = \<lparr>pf_name = name, pf_testnet = True, pf_symbol = ''ETH'', pf_decimals = 18, pf_wrapped = 0, pf_block_time = seconds 1,
     pf_confirmations = 0, pf_backfill_window = 5000, pf_tail_window = 5000, pf_poll = seconds 1, pf_backfill_interval = millis 200\<rparr>"

definition known :: "(nat \<times> Profile) list" where
  "known =
     [(1, \<lparr>pf_name = ''mainnet'', pf_testnet = False, pf_symbol = ''ETH'', pf_decimals = 18,
           pf_wrapped = 0xC02aaA39b223FE8D0A0e5C4F27eAD9083C756Cc2, pf_block_time = seconds 12, pf_confirmations = 12,
           pf_backfill_window = 5000, pf_tail_window = 1000, pf_poll = seconds 6, pf_backfill_interval = seconds 1\<rparr>),
      (10, \<lparr>pf_name = ''optimism'', pf_testnet = False, pf_symbol = ''ETH'', pf_decimals = 18,
           pf_wrapped = 0x4200000000000000000000000000000000000006, pf_block_time = seconds 2, pf_confirmations = 30,
           pf_backfill_window = 2000, pf_tail_window = 500, pf_poll = seconds 2, pf_backfill_interval = seconds 1\<rparr>),
      (8453, \<lparr>pf_name = ''base'', pf_testnet = False, pf_symbol = ''ETH'', pf_decimals = 18,
           pf_wrapped = 0x4200000000000000000000000000000000000006, pf_block_time = seconds 2, pf_confirmations = 30,
           pf_backfill_window = 2000, pf_tail_window = 500, pf_poll = seconds 2, pf_backfill_interval = seconds 1\<rparr>),
      (42161, \<lparr>pf_name = ''arbitrum'', pf_testnet = False, pf_symbol = ''ETH'', pf_decimals = 18,
           pf_wrapped = 0x82aF49447D8a07e3bd95BD0d56f35241523fBaB1, pf_block_time = millis 250, pf_confirmations = 240,
           pf_backfill_window = 5000, pf_tail_window = 2000, pf_poll = seconds 1, pf_backfill_interval = seconds 1\<rparr>),
      (11155111, \<lparr>pf_name = ''sepolia'', pf_testnet = True, pf_symbol = ''ETH'', pf_decimals = 18,
           pf_wrapped = 0xfFf9976782d46CC05630D1f6eBAb18b2324d6B14, pf_block_time = seconds 12, pf_confirmations = 6,
           pf_backfill_window = 500, pf_tail_window = 200, pf_poll = seconds 12, pf_backfill_interval = seconds 2\<rparr>),
      (84532, \<lparr>pf_name = ''base-sepolia'', pf_testnet = True, pf_symbol = ''ETH'', pf_decimals = 18,
           pf_wrapped = 0x4200000000000000000000000000000000000006, pf_block_time = seconds 2, pf_confirmations = 15,
           pf_backfill_window = 500, pf_tail_window = 200, pf_poll = seconds 4, pf_backfill_interval = seconds 2\<rparr>),
      (11155420, \<lparr>pf_name = ''optimism-sepolia'', pf_testnet = True, pf_symbol = ''ETH'', pf_decimals = 18,
           pf_wrapped = 0x4200000000000000000000000000000000000006, pf_block_time = seconds 2, pf_confirmations = 15,
           pf_backfill_window = 500, pf_tail_window = 200, pf_poll = seconds 4, pf_backfill_interval = seconds 2\<rparr>),
      (1337, devProfile ''dev''),
      (31337, devProfile ''dev'')]"

definition Lookup :: "nat \<Rightarrow> Profile option" where
  "Lookup chainID = map_of known chainID"

definition For :: "nat \<Rightarrow> string \<Rightarrow> Profile" where
  "For chainID fallbackName =
     (case map_of known chainID of Some p \<Rightarrow> p
      | None \<Rightarrow> if fallbackName \<noteq> [] then Generic\<lparr>pf_name := fallbackName\<rparr> else Generic)"

definition Known :: "nat list" where
  "Known = map fst known"

text \<open>Every profile can be run as it is: no window and no interval is zero.\<close>

lemma For_usable:
  "0 < pf_backfill_window (For i name)" "0 < pf_tail_window (For i name)" "0 < pf_poll (For i name)" "0 < pf_backfill_interval (For i name)"
  "pf_name (For i name) \<noteq> []" "pf_decimals (For i name) = 18"
proof -
  have "\<forall>(i, p) \<in> set known. 0 < pf_backfill_window p \<and> 0 < pf_tail_window p \<and> 0 < pf_poll p \<and> 0 < pf_backfill_interval p
      \<and> pf_name p \<noteq> [] \<and> pf_decimals p = 18"
    by (simp add: known_def devProfile_def seconds_def millis_def)
  then have k: "map_of known i = Some p \<Longrightarrow> 0 < pf_backfill_window p \<and> 0 < pf_tail_window p \<and> 0 < pf_poll p \<and> 0 < pf_backfill_interval p
      \<and> pf_name p \<noteq> [] \<and> pf_decimals p = 18" for p by (blast dest: map_of_SomeD)
  show "0 < pf_backfill_window (For i name)" "0 < pf_tail_window (For i name)" "0 < pf_poll (For i name)" "0 < pf_backfill_interval (For i name)"
    "pf_name (For i name) \<noteq> []" "pf_decimals (For i name) = 18"
    using k by (cases "map_of known i"; simp add: For_def Generic_def seconds_def)+
qed

section \<open>The set\<close>

text \<open>A source is the handle of a dialled connection and whether its endpoint is local.\<close>

record source =
  src_handle :: nat
  src_local :: bool

record ChainEntry =
  ce_id :: nat
  ce_name :: string
  ce_source :: "source option"
  ce_worker :: "Service option"
  ce_pricer :: "pricer option"

record chain_set =
  cs_entries :: "(nat \<times> ChainEntry) list"
  cs_order :: "nat list"

datatype set_error = EntryNeedsID | SetAlreadyRunning nat

definition NewSet :: chain_set where
  "NewSet = \<lparr>cs_entries = [], cs_order = []\<rparr>"

definition SetAdd :: "ChainEntry \<Rightarrow> chain_set \<Rightarrow> set_error + chain_set" where
  "SetAdd e s =
     (if ce_id e = 0 then Inl EntryNeedsID
      else if map_of (cs_entries s) (ce_id e) \<noteq> None then Inl (SetAlreadyRunning (ce_id e))
      else Inr \<lparr>cs_entries = cs_entries s @ [(ce_id e, e)], cs_order = cs_order s @ [ce_id e]\<rparr>)"

definition SetRemove :: "nat \<Rightarrow> chain_set \<Rightarrow> ChainEntry option \<times> chain_set" where
  "SetRemove i s =
     (case map_of (cs_entries s) i of None \<Rightarrow> (None, s)
      | Some e \<Rightarrow> (Some e, \<lparr>cs_entries = filter (\<lambda>(k, v). k \<noteq> i) (cs_entries s), cs_order = remove1 i (cs_order s)\<rparr>))"

definition SetGet :: "chain_set \<Rightarrow> nat \<Rightarrow> ChainEntry option" where
  "SetGet s i = map_of (cs_entries s) i"

definition SetSource :: "chain_set \<Rightarrow> nat \<Rightarrow> source option option" where
  "SetSource s i = map_option ce_source (SetGet s i)"

definition SetWorker :: "chain_set \<Rightarrow> nat \<Rightarrow> Service option" where
  "SetWorker s i = (case SetGet s i of None \<Rightarrow> None | Some e \<Rightarrow> ce_worker e)"

definition SetPricer :: "chain_set \<Rightarrow> nat \<Rightarrow> pricer option" where
  "SetPricer s i = (case SetGet s i of None \<Rightarrow> None | Some e \<Rightarrow> ce_pricer e)"

definition IDs :: "chain_set \<Rightarrow> nat list" where
  "IDs s = cs_order s"

definition Entries :: "chain_set \<Rightarrow> ChainEntry option list" where
  "Entries s = map (SetGet s) (cs_order s)"

definition SetLen :: "chain_set \<Rightarrow> nat" where
  "SetLen s = length (cs_entries s)"

definition First :: "chain_set \<Rightarrow> ChainEntry option option" where
  "First s = (case cs_order s of [] \<Rightarrow> None | i # _ \<Rightarrow> Some (SetGet s i))"

text \<open>The handles \<open>CloseAll\<close> closes, and the set it leaves.\<close>

definition entry_handles :: "ChainEntry \<Rightarrow> nat list" where
  "entry_handles e = (case ce_source e of None \<Rightarrow> [] | Some s \<Rightarrow> [src_handle s])"

definition CloseAll :: "chain_set \<Rightarrow> nat list \<times> chain_set" where
  "CloseAll s = (concat (map (\<lambda>(i, e). entry_handles e) (cs_entries s)), NewSet)"

section \<open>What the set promises\<close>

definition set_ok :: "chain_set \<Rightarrow> bool" where
  "set_ok s \<longleftrightarrow> keys_unique (cs_entries s) \<and> cs_order s = map fst (cs_entries s) \<and> (\<forall>(i, e) \<in> set (cs_entries s). ce_id e = i \<and> i \<noteq> 0)"

text \<open>An ordered collection under unique ids: a member is found under its id, a second one under the
  same id is refused, removing one leaves the others where they are.\<close>

locale ordered_collection =
  fixes ok :: "'s \<Rightarrow> bool" and empty :: 's
    and add :: "'e \<Rightarrow> 's \<Rightarrow> 's option" and remove :: "nat \<Rightarrow> 's \<Rightarrow> 's"
    and get :: "'s \<Rightarrow> nat \<Rightarrow> 'e option" and ids :: "'s \<Rightarrow> nat list" and ident :: "'e \<Rightarrow> nat"
  assumes ok_empty: "ok empty" and ids_empty: "ids empty = []"
    and ok_add: "ok s \<Longrightarrow> add e s = Some s' \<Longrightarrow> ok s'"
    and ids_add: "ok s \<Longrightarrow> add e s = Some s' \<Longrightarrow> ids s' = ids s @ [ident e]"
    and get_add: "ok s \<Longrightarrow> add e s = Some s' \<Longrightarrow> get s' i = (if i = ident e then Some e else get s i)"
    and add_fails: "ok s \<Longrightarrow> add e s = None \<longleftrightarrow> ident e = 0 \<or> get s (ident e) \<noteq> None"
    and ok_remove: "ok s \<Longrightarrow> ok (remove i s)"
    and ids_remove: "ok s \<Longrightarrow> ids (remove i s) = filter (\<lambda>j. j \<noteq> i) (ids s)"
    and get_remove: "ok s \<Longrightarrow> get (remove i s) j = (if j = i then None else get s j)"
    and get_ids: "ok s \<Longrightarrow> get s i \<noteq> None \<longleftrightarrow> i \<in> set (ids s)"
    and distinct_ids: "ok s \<Longrightarrow> distinct (ids s)"
begin

definition add_all :: "'e list \<Rightarrow> 's \<Rightarrow> 's option" where
  "add_all es s = fold (\<lambda>e s. Option.bind s (add e)) es (Some s)"

lemma add_all_Cons: "add_all (e # es) s = (case add e s of None \<Rightarrow> None | Some s \<Rightarrow> add_all es s)"
proof -
  have "fold (\<lambda>e s. Option.bind s (add e)) es None = None" by (induction es) auto
  then show ?thesis by (simp add: add_all_def split: option.split)
qed

text \<open>Members with new ids are all taken, in their order.\<close>

lemma add_all_ids:
  "ok s \<Longrightarrow> distinct (map ident es) \<Longrightarrow> \<forall>e \<in> set es. ident e \<noteq> 0 \<and> ident e \<notin> set (ids s) \<Longrightarrow>
     \<exists>s'. add_all es s = Some s' \<and> ok s' \<and> ids s' = ids s @ map ident es \<and> (\<forall>e \<in> set es. get s' (ident e) = Some e)
        \<and> (\<forall>i. i \<notin> ident ` set es \<longrightarrow> get s' i = get s i)"
proof (induction es arbitrary: s)
  case Nil
  then show ?case by (simp add: add_all_def)
next
  case (Cons e es)
  have "add e s \<noteq> None" using Cons.prems add_fails [of s e] get_ids [of s "ident e"] by auto
  then obtain s1 where s1: "add e s = Some s1" by blast
  note step = ok_add [OF Cons.prems(1) s1] ids_add [OF Cons.prems(1) s1] get_add [OF Cons.prems(1) s1]
  have "\<forall>x \<in> set es. ident x \<noteq> 0 \<and> ident x \<notin> set (ids s1)" using Cons.prems step(2) by (auto simp: image_iff)
  then obtain s' where s': "add_all es s1 = Some s'" "ok s'" "ids s' = ids s1 @ map ident es"
      "\<forall>e \<in> set es. get s' (ident e) = Some e" "\<forall>i. i \<notin> ident ` set es \<longrightarrow> get s' i = get s1 i"
    using Cons.IH [OF step(1)] Cons.prems(2) by auto
  have "get s' (ident e) = Some e" using s'(5) Cons.prems(2) step(3) by auto
  with s' s1 step show ?case by (auto simp: add_all_Cons)
qed

end

lemma set_ok_get: "set_ok s \<Longrightarrow> SetGet s i = Some e \<Longrightarrow> ce_id e = i \<and> i \<noteq> 0"
  by (auto simp: set_ok_def SetGet_def dest: map_of_SomeD)

lemma set_ok_add: "set_ok s \<Longrightarrow> SetAdd e s = Inr s' \<Longrightarrow> set_ok s'"
  by (auto simp: set_ok_def SetAdd_def keys_unique_def map_of_eq_None_iff split: if_splits)

lemma SetAdd_ids: "SetAdd e s = Inr s' \<Longrightarrow> IDs s' = IDs s @ [ce_id e]"
  by (auto simp: SetAdd_def IDs_def split: if_splits)

lemma map_of_filter_neq: "map_of (filter (\<lambda>(k, v). k \<noteq> i) tab) j = (if j = i then None else map_of tab j)"
  by (induction tab) auto

lemma map_fst_filter: "map fst (filter (\<lambda>(k, v). k \<noteq> i) tab) = filter (\<lambda>k. k \<noteq> i) (map fst tab)"
  by (induction tab) auto

lemma set_ok_remove: "set_ok s \<Longrightarrow> set_ok (snd (SetRemove i s))"
  by (auto simp: set_ok_def SetRemove_def keys_unique_def map_fst_filter distinct_remove1_removeAll removeAll_filter_not_eq
      distinct_filter intro!: filter_cong split: option.split)

interpretation live: ordered_collection set_ok NewSet "\<lambda>e s. case SetAdd e s of Inl _ \<Rightarrow> None | Inr s \<Rightarrow> Some s"
  "\<lambda>i s. snd (SetRemove i s)" SetGet IDs ce_id
proof
  show "set_ok NewSet" "IDs NewSet = []" by (simp_all add: set_ok_def NewSet_def keys_unique_def IDs_def)
  fix s s' and e and i j :: nat
  assume ok: "set_ok s"
  show "set_ok s'" if "(case SetAdd e s of Inl _ \<Rightarrow> None | Inr s \<Rightarrow> Some s) = Some s'" using that ok by (auto intro: set_ok_add split: sum.splits)
  show "IDs s' = IDs s @ [ce_id e]" if "(case SetAdd e s of Inl _ \<Rightarrow> None | Inr s \<Rightarrow> Some s) = Some s'"
    using that by (auto simp: SetAdd_def IDs_def split: if_splits)
  show "SetGet s' i = (if i = ce_id e then Some e else SetGet s i)" if "(case SetAdd e s of Inl _ \<Rightarrow> None | Inr s \<Rightarrow> Some s) = Some s'"
    using that by (auto simp: SetAdd_def SetGet_def map_add_def split: if_splits option.splits)
  show "((case SetAdd e s of Inl _ \<Rightarrow> None | Inr s \<Rightarrow> Some s) = None) = (ce_id e = 0 \<or> SetGet s (ce_id e) \<noteq> None)"
    by (auto simp: SetAdd_def SetGet_def)
  show "set_ok (snd (SetRemove i s))" by (rule set_ok_remove [OF ok])
  have d: "distinct (map fst (cs_entries s))" and o: "cs_order s = map fst (cs_entries s)" using ok by (auto simp: set_ok_def keys_unique_def)
  show "IDs (snd (SetRemove i s)) = filter (\<lambda>j. j \<noteq> i) (IDs s)"
    using d o by (auto simp: SetRemove_def IDs_def distinct_remove1_removeAll removeAll_filter_not_eq map_of_eq_None_iff filter_id_conv
        intro!: filter_cong filter_True [symmetric] split: option.split)
  show "SetGet (snd (SetRemove i s)) j = (if j = i then None else SetGet s j)"
    by (auto simp: SetRemove_def SetGet_def map_of_filter_neq split: option.split)
  show "(SetGet s i \<noteq> None) = (i \<in> set (IDs s))" using o by (simp add: SetGet_def IDs_def map_of_eq_None_iff)
  show "distinct (IDs s)" using d o by (simp add: IDs_def)
qed

text \<open>The chain a request without an id means stays what it was while it runs, whatever is added and
  whatever else is removed; there is an entry behind every id.\<close>

lemma First_kept:
  assumes "set_ok s" "First s = Some e"
  shows "SetAdd x s = Inr s' \<Longrightarrow> First s' = Some e" "hd (IDs s) \<noteq> i \<Longrightarrow> First (snd (SetRemove i s)) = Some e"
proof -
  obtain j js where o: "cs_order s = j # js" and e: "e = SetGet s j" using assms(2) by (auto simp: First_def split: list.splits)
  show "First s' = Some e" if a: "SetAdd x s = Inr s'"
  proof -
    have "IDs s' = IDs s @ [ce_id x]" using a by (auto simp: SetAdd_def IDs_def split: if_splits)
    moreover have "SetGet s' j = SetGet s j"
      using live.get_ids [OF assms(1), of j] live.get_add [OF assms(1), of x s' j] a live.add_fails [OF assms(1), of x] o by (auto simp: IDs_def)
    ultimately show ?thesis using o e by (simp add: First_def IDs_def)
  qed
  show "First (snd (SetRemove i s)) = Some e" if "hd (IDs s) \<noteq> i"
    using that live.ids_remove [OF assms(1), of i] live.get_remove [OF assms(1), of i j] o e by (auto simp: First_def IDs_def)
qed

lemma SetLen_ids: "set_ok s \<Longrightarrow> SetLen s = length (IDs s)"
  by (simp add: set_ok_def SetLen_def IDs_def)

end
