(* ===== verification/Endpoint.thy ===== *)
theory Endpoint
  imports Chain "HOL-Library.List_Lexorder" "HOL-Library.Char_ord"
begin

text \<open>
  Node endpoints: \<open>internal/chain/endpoint.go\<close>, and the locality check of \<open>Dial\<close> in
  \<open>internal/chain/source.go\<close>. \<open>url.Parse\<close> with the accessors of its result and \<open>net.ParseIP\<close> are
  arguments. The lemmas show which endpoints count as local and that a rendered endpoint does not
  depend on the parts of its URL that carry credentials.
\<close>

datatype Transport = TransportIPC | TransportWS | TransportHTTP

record Endpoint =
  ep_raw :: string
  ep_transport :: Transport
  ep_local :: bool
  ep_streaming :: bool

text \<open>A parsed URL; \<open>ur_keys\<close> are the keys of the decoded query, each once.\<close>

record URL =
  ur_scheme :: string
  ur_user :: "string option"
  ur_host :: string
  ur_hostname :: string
  ur_path :: string
  ur_raw_query :: string
  ur_keys :: "string list"

type_synonym url_parser = "string \<Rightarrow> URL option"

datatype endpoint_error = EmptyEndpoint | UnparsableEndpoint | EndpointNoHost | NotLocal | DialFailed string

text \<open>\<open>strings.EqualFold\<close> against a word of ASCII letters. Of the letters of \<open>localhost\<close> only the s has
  a further form under Unicode's simple folding, U+017F, two bytes in UTF-8.\<close>

fun simple_fold :: "string \<Rightarrow> string" where
  "simple_fold (a # b # cs) =
     (if a = CHR 0xC5 \<and> b = CHR 0xBF then CHR ''s'' # simple_fold cs else char_lower a # simple_fold (b # cs))"
| "simple_fold cs = to_lower cs"

definition loopbackURL :: "url_parser \<Rightarrow> (string \<Rightarrow> bool option) \<Rightarrow> string \<Rightarrow> endpoint_error + bool" where
  "loopbackURL parse loopbackIP raw =
     (case parse raw of None \<Rightarrow> Inl UnparsableEndpoint
      | Some u \<Rightarrow>
          if ur_hostname u = [] then Inl EndpointNoHost
          else if simple_fold (ur_hostname u) = ''localhost'' then Inr True
          else case loopbackIP (ur_hostname u) of Some b \<Rightarrow> Inr b | None \<Rightarrow> Inr False)"

definition ParseEndpoint :: "url_parser \<Rightarrow> (string \<Rightarrow> bool option) \<Rightarrow> string \<Rightarrow> endpoint_error + Endpoint" where
  "ParseEndpoint parse loopbackIP raw =
     (let low = to_lower raw in
      if raw = [] then Inl EmptyEndpoint
      else if prefix ''ws://'' low \<or> prefix ''wss://'' low then
        (case loopbackURL parse loopbackIP raw of Inl e \<Rightarrow> Inl e
         | Inr b \<Rightarrow> Inr \<lparr>ep_raw = raw, ep_transport = TransportWS, ep_local = b, ep_streaming = True\<rparr>)
      else if prefix ''http://'' low \<or> prefix ''https://'' low then
        (case loopbackURL parse loopbackIP raw of Inl e \<Rightarrow> Inl e
         | Inr b \<Rightarrow> Inr \<lparr>ep_raw = raw, ep_transport = TransportHTTP, ep_local = b, ep_streaming = False\<rparr>)
      else Inr \<lparr>ep_raw = raw, ep_transport = TransportIPC, ep_local = True, ep_streaming = True\<rparr>)"

text \<open>\<open>rpcDial\<close> is the connection attempt of go-ethereum.\<close>

definition Dial :: "url_parser \<Rightarrow> (string \<Rightarrow> bool option) \<Rightarrow> (string \<Rightarrow> string option) \<Rightarrow> string \<Rightarrow> bool \<Rightarrow> endpoint_error + Endpoint" where
  "Dial parse loopbackIP rpcDial raw requireLocal =
     (case ParseEndpoint parse loopbackIP raw of Inl e \<Rightarrow> Inl e
      | Inr ep \<Rightarrow> if requireLocal \<and> \<not> ep_local ep then Inl NotLocal
          else case rpcDial (ep_raw ep) of Some msg \<Rightarrow> Inl (DialFailed msg) | None \<Rightarrow> Inr ep)"

section \<open>Rendering\<close>

fun split_on :: "char \<Rightarrow> string \<Rightarrow> string list" where
  "split_on c [] = [[]]"
| "split_on c (x # xs) =
     (if x = c then [] # split_on c xs else case split_on c xs of [] \<Rightarrow> [[x]] | s # ss \<Rightarrow> (x # s) # ss)"

definition trim_slashes :: "string \<Rightarrow> string" where
  "trim_slashes s = rev (dropWhile (\<lambda>c. c = CHR ''/'') (rev (dropWhile (\<lambda>c. c = CHR ''/'') s)))"

definition redact_path :: "string \<Rightarrow> string" where
  "redact_path path =
     (let segs = split_on (CHR ''/'') (trim_slashes path)
      in if length segs = 1 \<and> segs ! 0 = [] then []
         else if length segs = 1 then (if length (segs ! 0) > 24 then ''/***'' else ''/'' @ segs ! 0)
         else ''/'' @ segs ! 0 @ ''/***'')"

fun join_with :: "string \<Rightarrow> string list \<Rightarrow> string" where
  "join_with sep [] = []"
| "join_with sep [s] = s"
| "join_with sep (s # ss) = s @ sep @ join_with sep ss"

definition Redacted :: "url_parser \<Rightarrow> Endpoint \<Rightarrow> string" where
  "Redacted parse e =
     (if ep_transport e = TransportIPC then ep_raw e
      else case parse (ep_raw e) of None \<Rightarrow> ''(redacted)''
      | Some u \<Rightarrow> ur_scheme u @ ''://'' @ (if ur_user u \<noteq> None then ''***@'' else []) @ ur_host u @ redact_path (ur_path u)
          @ (if ur_raw_query u \<noteq> [] then ''?'' @ join_with ''&'' (map (\<lambda>k. k @ ''=***'') (sort (ur_keys u))) else []))"

definition endpoint_string :: "url_parser \<Rightarrow> Endpoint \<Rightarrow> string" where
  "endpoint_string parse e =
     Redacted parse e @ '' ('' @ (case ep_transport e of TransportIPC \<Rightarrow> ''ipc'' | TransportWS \<Rightarrow> ''ws'' | TransportHTTP \<Rightarrow> ''http'')
       @ '', '' @ (if ep_local e then ''local'' else ''remote'') @ '')''"

section \<open>Local endpoints\<close>

text \<open>An endpoint is local only when it is a socket path, or names the loopback literally.\<close>

lemma ParseEndpoint_local:
  assumes "ParseEndpoint parse loopbackIP raw = Inr ep" "ep_local ep"
  shows "ep_transport ep = TransportIPC
    \<or> (\<exists>u. parse raw = Some u \<and> (simple_fold (ur_hostname u) = ''localhost'' \<or> loopbackIP (ur_hostname u) = Some True))"
  using assms by (auto simp: ParseEndpoint_def loopbackURL_def Let_def split: if_splits option.splits)

lemma ParseEndpoint_raw: "ParseEndpoint parse loopbackIP raw = Inr ep \<Longrightarrow> ep_raw ep = raw \<and> raw \<noteq> []"
  by (auto simp: ParseEndpoint_def Let_def split: if_splits sum.splits)

text \<open>A daemon that insists on local nodes never dials another.\<close>

lemma Dial_local: "Dial parse loopbackIP rpcDial raw True = Inr ep \<Longrightarrow> ep_local ep"
  by (auto simp: Dial_def split: if_splits sum.splits option.splits)

section \<open>Redaction\<close>

lemma split_on_ne [simp]: "split_on c s \<noteq> []"
  by (induction s) (auto split: list.splits)

text \<open>The part of a path that may be shown: the first of several segments, or a single one that is short.\<close>

definition shown_path :: "string \<Rightarrow> string option \<times> bool" where
  "shown_path path =
     (let segs = split_on (CHR ''/'') (trim_slashes path)
      in (if length segs = 1 \<and> length (hd segs) > 24 then None else Some (hd segs), length segs = 1))"

lemma redact_path_shown: "shown_path p = shown_path q \<Longrightarrow> redact_path p = redact_path q"
proof -
  assume eq: "shown_path p = shown_path q"
  obtain a as where a: "split_on (CHR ''/'') (trim_slashes p) = a # as" by (meson neq_Nil_conv split_on_ne)
  obtain b bs where b: "split_on (CHR ''/'') (trim_slashes q) = b # bs" by (meson neq_Nil_conv split_on_ne)
  from eq have "length as = 0 \<longleftrightarrow> length bs = 0" "a = b \<or> (as = [] \<and> length a > 24 \<and> length b > 24)"
    by (auto simp: shown_path_def a b split: if_splits)
  then show ?thesis by (auto simp: redact_path_def a b Let_def)
qed

text \<open>C37: How an endpoint is rendered for logs and for the status page depends only on the scheme, the
  host, whether there is a user, the first path segment and the names of the query parameters: two
  URLs that differ in user, password, later path segments, a long single segment or query values
  render the same.\<close>

theorem redaction_hides_credentials:
  assumes "parse raw = Some u" "parse raw' = Some u'"
    and "ur_scheme u = ur_scheme u'" "ur_host u = ur_host u'" "ur_user u = None \<longleftrightarrow> ur_user u' = None"
    and "shown_path (ur_path u) = shown_path (ur_path u')"
    and "ur_raw_query u = [] \<longleftrightarrow> ur_raw_query u' = []" "distinct (ur_keys u)" "distinct (ur_keys u')" "set (ur_keys u) = set (ur_keys u')"
    and "t \<noteq> TransportIPC"
  shows "Redacted parse \<lparr>ep_raw = raw, ep_transport = t, ep_local = l, ep_streaming = s\<rparr>
    = Redacted parse \<lparr>ep_raw = raw', ep_transport = t, ep_local = l, ep_streaming = s\<rparr>"
proof -
  have "sort (ur_keys u) = sort (ur_keys u')"
    using assms(8-10) by (metis sorted_list_of_set_sort_remdups distinct_remdups_id)
  then show ?thesis using assms redact_path_shown [OF assms(6)] by (simp add: Redacted_def)
qed

definition demo_url :: "string \<Rightarrow> string \<Rightarrow> string \<Rightarrow> URL" where
  "demo_url user path qry = \<lparr>ur_scheme = ''https'', ur_user = Some user, ur_host = ''rpc.example:8545'', ur_hostname = ''rpc.example'',
     ur_path = path, ur_raw_query = qry, ur_keys = [''key'', ''dkey'']\<rparr>"

theorem redaction_hides_credentials_witness:
  "\<exists>parse a b. a \<noteq> b
     \<and> parse a = Some (demo_url ''alice:pw'' ''/ogrpc/0123456789'' ''key=1&dkey=2'')
     \<and> Redacted parse \<lparr>ep_raw = a, ep_transport = TransportHTTP, ep_local = False, ep_streaming = False\<rparr>
       = Redacted parse \<lparr>ep_raw = b, ep_transport = TransportHTTP, ep_local = False, ep_streaming = False\<rparr>
     \<and> Redacted parse \<lparr>ep_raw = a, ep_transport = TransportHTTP, ep_local = False, ep_streaming = False\<rparr>
       = ''https://***@rpc.example:8545/ogrpc/***?dkey=***&key=***''"
proof -
  define parse where "parse = (\<lambda>s :: string. if s = ''a'' then Some (demo_url ''alice:pw'' ''/ogrpc/0123456789'' ''key=1&dkey=2'')
    else Some (demo_url ''bob'' ''/ogrpc/secret/more'' ''key=3&dkey=4''))"
  have p: "parse ''a'' = Some (demo_url ''alice:pw'' ''/ogrpc/0123456789'' ''key=1&dkey=2'')"
    "parse ''b'' = Some (demo_url ''bob'' ''/ogrpc/secret/more'' ''key=3&dkey=4'')" by (simp_all add: parse_def)
  have "shown_path ''/ogrpc/0123456789'' = shown_path ''/ogrpc/secret/more''" by code_simp
  then have "Redacted parse \<lparr>ep_raw = ''a'', ep_transport = TransportHTTP, ep_local = False, ep_streaming = False\<rparr>
      = Redacted parse \<lparr>ep_raw = ''b'', ep_transport = TransportHTTP, ep_local = False, ep_streaming = False\<rparr>"
    by (intro redaction_hides_credentials [OF p]) (simp_all add: demo_url_def)
  moreover have "redact_path ''/ogrpc/0123456789'' = ''/ogrpc/***''"
    "join_with ''&'' (map (\<lambda>k. k @ ''=***'') (sort [''key'', ''dkey''])) = ''dkey=***&key=***''" by code_simp+
  then have "Redacted parse \<lparr>ep_raw = ''a'', ep_transport = TransportHTTP, ep_local = False, ep_streaming = False\<rparr>
      = ''https://***@rpc.example:8545/ogrpc/***?dkey=***&key=***''" by (simp add: Redacted_def p(1)) (simp add: demo_url_def)
  ultimately show ?thesis using p(1) by (intro exI [of _ parse] exI [of _ "''a''"] exI [of _ "''b''"]) simp
qed

end
