(* ===== verification/Supervisor.thy ===== *)
theory Supervisor
  imports ChainSet Endpoint
begin

text \<open>
  Bringing chains up and down: \<open>cmd/evmscand/chains.go\<close>, the start of the chains in \<open>main.go\<close>, and the
  handlers of \<open>internal/api/chains.go\<close> that add, patch and delete a chain. Handlers run one after the
  other, as the supervisor's lock has them; a worker is a goroutine that was launched and has not
  returned. Connections are numbered by the attempts to dial; \<open>su_log\<close>, \<open>su_opened\<close> and \<open>su_closed\<close>
  record what was dialled, opened and closed.

  The lemmas account for every connection, and say which nodes a chain can run on and where the
  trust in its data comes from.
\<close>

section \<open>State\<close>

record ChainTuning =
  tu_confirmations :: nat
  tu_backfill_window :: nat
  tu_tail_window :: nat
  tu_poll :: string
  tu_backfill_interval :: string
  tu_enabled :: bool
  tu_lookback :: nat
  tu_interval :: string

datatype sv_error =
    NoDial endpoint_error
  | ChainIDUnread nat string
  | WrongChain nat nat
  | SetRefused set_error
  | SupAlreadyRunning nat
  | NoEndpointRecorded nat
  | ProfileNotStored
  | RegistryNotConfigured nat

record ens_chain =
  ec_label :: string
  ec_name :: string
  ec_id :: nat

text \<open>What the process talks to: the URL and address parsers, the dialling of go-ethereum, the chain id
  that the node of an attempt answers, whether the profile of that attempt can be written, the codecs
  of \<open>encoding/json\<close> and \<open>time\<close>, name resolution.\<close>

record daemon_env =
  de_parse :: url_parser
  de_ip :: "string \<Rightarrow> bool option"
  de_rpc :: "nat \<Rightarrow> string \<Rightarrow> string option"
  de_chain :: "nat \<Rightarrow> string + nat"
  de_stored :: "nat \<Rightarrow> bool"
  de_hex :: "string \<Rightarrow> address"
  de_is_hex :: "string \<Rightarrow> bool"
  de_decode :: "string \<Rightarrow> ChainTuning"
  de_encode :: "ChainTuning \<Rightarrow> string"
  de_duration :: "string \<Rightarrow> int option"
  de_show :: "int \<Rightarrow> string"
  de_text :: "sv_error \<Rightarrow> string"
  de_ens :: "(string \<Rightarrow> string + ens_chain) option"

record 'a supervisor =
  su_db :: "'a chain_db_scheme"
  su_set :: chain_set
  su_log :: "string list"
  su_opened :: "nat list"
  su_closed :: "nat list"
  su_workers :: "(ChainEntry \<times> bool) list"
  su_cancelled :: bool

definition close_entry :: "ChainEntry \<Rightarrow> 'a supervisor \<Rightarrow> 'a supervisor" where
  "close_entry e st = st\<lparr>su_closed := su_closed st @ entry_handles e\<rparr>"

section \<open>Tuning\<close>

definition no_tuning :: ChainTuning where
  "no_tuning = \<lparr>tu_confirmations = 0, tu_backfill_window = 0, tu_tail_window = 0, tu_poll = [], tu_backfill_interval = [],
     tu_enabled = False, tu_lookback = 0, tu_interval = []\<rparr>"

definition tuningJSON :: "daemon_env \<Rightarrow> Options \<Rightarrow> string" where
  "tuningJSON env opts = de_encode env
     \<lparr>tu_confirmations = op_confirmations opts, tu_backfill_window = op_backfill_window opts, tu_tail_window = op_tail_window opts,
      tu_poll = de_show env (op_poll opts), tu_backfill_interval = de_show env (op_backfill_interval opts),
      tu_enabled = di_enabled (op_discovery opts), tu_lookback = di_lookback (op_discovery opts),
      tu_interval = de_show env (di_interval (op_discovery opts))\<rparr>"

definition parseTuning :: "daemon_env \<Rightarrow> string \<Rightarrow> Profile \<Rightarrow> ChainTuning" where
  "parseTuning env raw p =
     (let t = (if raw \<noteq> [] then de_decode env raw else no_tuning);
          t = (if tu_backfill_window t = 0 then t\<lparr>tu_backfill_window := pf_backfill_window p\<rparr> else t);
          t = (if tu_tail_window t = 0 then t\<lparr>tu_tail_window := pf_tail_window p\<rparr> else t)
      in if tu_lookback t = 0 then t\<lparr>tu_lookback := pf_tail_window p * 10\<rparr> else t)"

definition parseDur :: "daemon_env \<Rightarrow> string \<Rightarrow> int \<Rightarrow> int" where
  "parseDur env s fallback =
     (if s = [] then fallback else case de_duration env s of None \<Rightarrow> fallback | Some d \<Rightarrow> if d \<le> 0 then fallback else d)"

definition config_options :: "ChainCfg \<Rightarrow> Options" where
  "config_options c = \<lparr>op_chain_name = cc_name c, op_confirmations = cc_confirmations c, op_backfill_window = cc_backfill_window c,
     op_tail_window = cc_tail_window c, op_poll = cc_poll c, op_backfill_interval = cc_backfill_interval c, op_discovery = cc_discovery c\<rparr>"

definition stored_options :: "daemon_env \<Rightarrow> ChainProfile \<Rightarrow> Options" where
  "stored_options env prof =
     (let p = For (cp_id prof) (cp_name prof); t = parseTuning env (cp_tuning prof) p
      in \<lparr>op_chain_name = cp_name prof, op_confirmations = tu_confirmations t, op_backfill_window = tu_backfill_window t,
          op_tail_window = tu_tail_window t, op_poll = parseDur env (tu_poll t) (pf_poll p),
          op_backfill_interval = parseDur env (tu_backfill_interval t) (pf_backfill_interval p),
          op_discovery = \<lparr>di_enabled = tu_enabled t, di_lookback = tu_lookback t, di_max_blocks = tu_tail_window t,
            di_interval = parseDur env (tu_interval t) (pf_poll p * 3), di_auto = False, di_min_events = 0, di_min_blocks = 0,
            di_max_promotions = 0, di_min_voters = 0\<rparr>\<rparr>)"

section \<open>Starting and stopping\<close>

definition dialAndBuild :: "daemon_env \<Rightarrow> nat \<Rightarrow> string \<Rightarrow> string \<Rightarrow> bool \<Rightarrow> Options \<Rightarrow> ChainCfg \<Rightarrow> 'a supervisor
    \<Rightarrow> (sv_error + ChainEntry) \<times> 'a supervisor" where
  "dialAndBuild env chainID name node requireLocal opts pricingCfg st =
     (let h = length (su_log st); st = st\<lparr>su_log := su_log st @ [node]\<rparr>
      in case Dial (de_parse env) (de_ip env) (de_rpc env h) node requireLocal of
           Inl e \<Rightarrow> (Inl (NoDial e), st)
         | Inr ep \<Rightarrow>
             let st = st\<lparr>su_opened := su_opened st @ [h]\<rparr>
             in case de_chain env h of
                  Inl msg \<Rightarrow> (Inl (ChainIDUnread chainID msg), st\<lparr>su_closed := su_closed st @ [h]\<rparr>)
                | Inr actual \<Rightarrow>
                    if actual \<noteq> chainID then (Inl (WrongChain chainID actual), st\<lparr>su_closed := su_closed st @ [h]\<rparr>)
                    else (Inr \<lparr>ce_id = chainID, ce_name = name, ce_source = Some \<lparr>src_handle = h, src_local = ep_local ep\<rparr>,
                               ce_worker = Some (New chainID opts), ce_pricer = newPricer (de_hex env) pricingCfg\<rparr>, st))"

definition trustForEndpoint :: "ChainEntry \<Rightarrow> trust" where
  "trustForEndpoint e = (case ce_source e of Some s \<Rightarrow> if src_local s then TrustVerified else TrustUnverified | None \<Rightarrow> TrustUnverified)"

definition launch :: "ChainEntry \<Rightarrow> bool \<Rightarrow> 'a supervisor \<Rightarrow> 'a supervisor" where
  "launch e fatal st = (case ce_worker e of None \<Rightarrow> st | Some _ \<Rightarrow> st\<lparr>su_workers := su_workers st @ [(e, fatal)]\<rparr>)"

definition config_profile :: "daemon_env \<Rightarrow> ChainCfg \<Rightarrow> ChainEntry \<Rightarrow> ChainProfile" where
  "config_profile env c entry =
     (let p = For (cc_id c) (cc_name c)
      in \<lparr>cp_id = cc_id c, cp_name = cc_name c, cp_enabled = True, cp_source = Some ChainSourceConfig, cp_trust = Some (trustForEndpoint entry),
          cp_node_url = cc_node c, cp_native_symbol = pf_symbol p, cp_native_decimals = pf_decimals p,
          cp_wrapped = (if pf_wrapped p \<noteq> 0 then Some (pf_wrapped p) else None), cp_tuning = tuningJSON env (config_options c),
          cp_ens_name = [], cp_ens_at = None\<rparr>)"

definition startConfigChain :: "daemon_env \<Rightarrow> ChainCfg \<Rightarrow> 'a supervisor \<Rightarrow> sv_error option \<times> 'a supervisor" where
  "startConfigChain env c st =
     (let h = length (su_log st)
      in case dialAndBuild env (cc_id c) (cc_name c) (cc_node c) (RequireLocal c) (config_options c) c st of
           (Inl e, st) \<Rightarrow> (Some e, st)
         | (Inr entry, st) \<Rightarrow>
             (case SetAdd entry (su_set st) of
                Inl e \<Rightarrow> (Some (SetRefused e), close_entry entry st)
              | Inr s \<Rightarrow>
                  let st = st\<lparr>su_set := s\<rparr>;
                      st = (if de_stored env h
                            then (case UpsertChainProfile (config_profile env c entry) (su_db st) of Inl _ \<Rightarrow> st | Inr db \<Rightarrow> st\<lparr>su_db := db\<rparr>)
                            else st)
                  in (None, launch entry True st)))"

definition bare_chain :: "nat \<Rightarrow> string \<Rightarrow> ChainCfg" where
  "bare_chain i name = \<lparr>cc_id = i, cc_name = name, cc_node = [], cc_require_local = None, cc_confirmations = 0, cc_backfill_window = 0,
     cc_tail_window = 0, cc_poll = 0, cc_backfill_interval = 0,
     cc_discovery = \<lparr>di_enabled = False, di_lookback = 0, di_max_blocks = 0, di_interval = 0, di_auto = False, di_min_events = 0,
       di_min_blocks = 0, di_max_promotions = 0, di_min_voters = 0\<rparr>,
     cc_pricing = \<lparr>pn_enabled = None, pn_use_defaults = None, pn_feed_registry = [], pn_native_feed = [], pn_feeds = [], pn_v3_factory = [],
       pn_v2_factory = [], pn_fee_tiers = [], pn_quote_tokens = [], pn_twap = 0, pn_min_twap = 0, pn_max_age = 0, pn_ttl = 0\<rparr>,
     cc_token_lists = []\<rparr>"

definition StartStored :: "daemon_env \<Rightarrow> nat \<Rightarrow> ChainProfile \<Rightarrow> 'a supervisor \<Rightarrow> sv_error option \<times> 'a supervisor" where
  "StartStored env now prof st =
     (if SetGet (su_set st) (cp_id prof) \<noteq> None then (Some (SupAlreadyRunning (cp_id prof)), st)
      else if cp_node_url prof = [] then (Some (NoEndpointRecorded (cp_id prof)), st)
      else let h = length (su_log st)
        in case dialAndBuild env (cp_id prof) (cp_name prof) (cp_node_url prof) False (stored_options env prof)
                  (bare_chain (cp_id prof) (cp_name prof)) st of
             (Inl e, st) \<Rightarrow> (Some e, st\<lparr>su_db := SetChainError (cp_id prof) (Some (de_text env e)) now (su_db st)\<rparr>)
           | (Inr entry, st) \<Rightarrow>
               (case SetAdd entry (su_set st) of
                  Inl e \<Rightarrow> (Some (SetRefused e), close_entry entry st)
                | Inr s \<Rightarrow>
                    let st = st\<lparr>su_set := s\<rparr>; prof = prof\<lparr>cp_enabled := True, cp_trust := Some (trustForEndpoint entry)\<rparr>
                    in if \<not> de_stored env h then (Some ProfileNotStored, st)
                       else case UpsertChainProfile prof (su_db st) of
                         Inl _ \<Rightarrow> (Some ProfileNotStored, st)
                       | Inr db \<Rightarrow> (None, launch entry False (st\<lparr>su_db := SetChainError (cp_id prof) None now db\<rparr>))))"

definition Stop :: "nat \<Rightarrow> 'a supervisor \<Rightarrow> 'a supervisor" where
  "Stop chainID st =
     (case SetRemove chainID (su_set st) of
        (None, _) \<Rightarrow> st
      | (Some e, s) \<Rightarrow> close_entry e (st\<lparr>su_set := s\<rparr>))"

text \<open>The \<open>k\<close>-th worker returns, with an error or without.\<close>

definition quarantine :: "nat \<Rightarrow> nat \<Rightarrow> string \<Rightarrow> 'a supervisor \<Rightarrow> 'a supervisor" where
  "quarantine now chainID err st =
     (let st = Stop chainID st;
          db = SetChainError chainID (Some err) now (su_db st)
      in st\<lparr>su_db := (case SetChainTrust chainID ''quarantined'' ''daemon'' now db of Inl _ \<Rightarrow> db | Inr db \<Rightarrow> db)\<rparr>)"

definition worker_returns :: "nat \<Rightarrow> nat \<Rightarrow> string option \<Rightarrow> 'a supervisor \<Rightarrow> 'a supervisor" where
  "worker_returns now k err st =
     (if length (su_workers st) \<le> k then st
      else let (e, fatal) = su_workers st ! k;
               st = st\<lparr>su_workers := take k (su_workers st) @ drop (k + 1) (su_workers st)\<rparr>
           in case err of
                None \<Rightarrow> st
              | Some msg \<Rightarrow>
                  if su_cancelled st then st
                  else if fatal then st\<lparr>su_cancelled := True\<rparr>
                  else quarantine now (ce_id e) msg st)"

section \<open>Startup\<close>

fun start_configured :: "daemon_env \<Rightarrow> ChainCfg list \<Rightarrow> 'a supervisor \<Rightarrow> sv_error option \<times> 'a supervisor" where
  "start_configured env [] st = (None, st)"
| "start_configured env (c # cs) st =
     (case startConfigChain env c st of (Some e, st) \<Rightarrow> (Some e, st) | (None, st) \<Rightarrow> start_configured env cs st)"

definition row_profile :: "nat \<Rightarrow> ChainRow \<Rightarrow> ChainProfile" where
  "row_profile i r = \<lparr>cp_id = i, cp_name = ch_name r, cp_enabled = ch_enabled r, cp_source = Some (ch_source r), cp_trust = Some (ch_trust r),
     cp_node_url = (case ch_node_url r of None \<Rightarrow> [] | Some u \<Rightarrow> u),
     cp_native_symbol = (case ch_native_symbol r of None \<Rightarrow> [] | Some s \<Rightarrow> s), cp_native_decimals = ch_native_decimals r,
     cp_wrapped = ch_wrapped r, cp_tuning = ch_profile r,
     cp_ens_name = (case ch_ens_name r of None \<Rightarrow> [] | Some n \<Rightarrow> n), cp_ens_at = ch_ens_at r\<rparr>"

fun start_stored :: "daemon_env \<Rightarrow> nat \<Rightarrow> (nat \<times> ChainRow) list \<Rightarrow> 'a supervisor \<Rightarrow> 'a supervisor" where
  "start_stored env now [] st = st"
| "start_stored env now ((i, r) # rows) st =
     start_stored env now rows
       (if ch_source r = ChainSourceConfig \<or> SetGet (su_set st) i \<noteq> None then st else snd (StartStored env now (row_profile i r) st))"

definition boot :: "daemon_env \<Rightarrow> nat \<Rightarrow> Config \<Rightarrow> 'a supervisor \<Rightarrow> sv_error option \<times> 'a supervisor" where
  "boot env now cfg st =
     (case start_configured env (co_chains cfg) st of
        (Some e, st) \<Rightarrow> (Some e, st)
      | (None, st) \<Rightarrow>
          let st = start_stored env now (ListChainProfiles True (su_db st)) st; i = rg_chain (co_registry cfg)
          in (if RegistryAddress (de_hex env) cfg \<noteq> None \<and> SetSource (su_set st) i = None then Some (RegistryNotConfigured i) else None, st))"

definition shutdown :: "'a supervisor \<Rightarrow> 'a supervisor" where
  "shutdown st = (case CloseAll (su_set st) of (hs, s) \<Rightarrow> st\<lparr>su_set := s, su_closed := su_closed st @ hs, su_cancelled := True\<rparr>)"

section \<open>Connections are accounted for\<close>

definition live_handles :: "chain_set \<Rightarrow> nat list" where
  "live_handles s = concat (map (\<lambda>(i, e). entry_handles e) (cs_entries s))"

text \<open>A member of the set runs on a node that answered its chain id.\<close>

definition entry_good :: "daemon_env \<Rightarrow> string list \<Rightarrow> ChainEntry \<Rightarrow> bool" where
  "entry_good env lg e \<longleftrightarrow> (\<exists>src w ep. ce_source e = Some src \<and> ce_worker e = Some w \<and> sv_chain w = ce_id e
     \<and> src_handle src < length lg \<and> de_chain env (src_handle src) = Inr (ce_id e)
     \<and> ParseEndpoint (de_parse env) (de_ip env) (lg ! src_handle src) = Inr ep \<and> ep_local ep = src_local src)"

text \<open>Every connection that was opened is closed, or belongs to a member of the set, or is one of \<open>hs\<close>.\<close>

definition conn_ok :: "daemon_env \<Rightarrow> nat list \<Rightarrow> 'a supervisor \<Rightarrow> bool" where
  "conn_ok env hs st \<longleftrightarrow> set_ok (su_set st)
     \<and> mset (su_opened st) = mset (su_closed st) + mset (live_handles (su_set st)) + mset hs
     \<and> distinct (su_opened st) \<and> (\<forall>h \<in> set (su_opened st). h < length (su_log st))
     \<and> (\<forall>(i, e) \<in> set (cs_entries (su_set st)). entry_good env (su_log st) e)
     \<and> (\<forall>(e, b) \<in> set (su_workers st). entry_good env (su_log st) e)"

lemma conn_ok_db [simp]: "conn_ok env hs (st\<lparr>su_db := db\<rparr>) = conn_ok env hs st"
  and conn_ok_cancel [simp]: "conn_ok env hs (st\<lparr>su_cancelled := b\<rparr>) = conn_ok env hs st"
  by (simp_all add: conn_ok_def)

lemma entry_good_log: "entry_good env lg e \<Longrightarrow> entry_good env (lg @ xs) e"
  by (force simp: entry_good_def nth_append)

lemma conn_ok_log: "conn_ok env hs st \<Longrightarrow> conn_ok env hs (st\<lparr>su_log := su_log st @ xs\<rparr>)"
  by (fastforce simp: conn_ok_def intro: entry_good_log)

lemma conn_ok_close: "conn_ok env (h # hs) st \<Longrightarrow> conn_ok env hs (st\<lparr>su_closed := su_closed st @ [h]\<rparr>)"
  by (simp add: conn_ok_def)

lemma conn_ok_open:
  "conn_ok env [] st \<Longrightarrow> h \<notin> set (su_opened st) \<Longrightarrow> h < length (su_log st) \<Longrightarrow> conn_ok env [h] (st\<lparr>su_opened := su_opened st @ [h]\<rparr>)"
  by (auto simp: conn_ok_def)

lemma conn_ok_close_entry: "conn_ok env (entry_handles e) st \<Longrightarrow> conn_ok env [] (close_entry e st)"
  by (simp add: conn_ok_def close_entry_def)

lemma conn_ok_add:
  assumes "conn_ok env (entry_handles e) st" "SetAdd e (su_set st) = Inr s" "entry_good env (su_log st) e"
  shows "conn_ok env [] (st\<lparr>su_set := s\<rparr>)"
  using assms set_ok_add [of "su_set st" e s] by (auto simp: conn_ok_def SetAdd_def live_handles_def split: if_splits)

lemma mset_live_remove:
  "distinct (map fst tab) \<Longrightarrow> map_of tab i = Some e \<Longrightarrow>
     mset (concat (map (\<lambda>(i, e). entry_handles e) tab))
     = mset (concat (map (\<lambda>(i, e). entry_handles e) (filter (\<lambda>(k, v). k \<noteq> i) tab))) + mset (entry_handles e)"
proof (induction tab)
  case (Cons x tab)
  obtain k v where x: "x = (k, v)" by force
  show ?case
  proof (cases "k = i")
    case True
    then have "filter (\<lambda>(k, v). k \<noteq> i) tab = tab" using Cons.prems(1) x by (force simp: filter_id_conv)
    then show ?thesis using True x Cons.prems by simp
  next
    case False
    then show ?thesis using Cons x by simp
  qed
qed simp

lemma conn_ok_Stop: "conn_ok env [] st \<Longrightarrow> conn_ok env [] (Stop i st)"
proof (cases "map_of (cs_entries (su_set st)) i")
  case None
  then show "conn_ok env [] st \<Longrightarrow> ?thesis" by (simp add: Stop_def SetRemove_def)
next
  case (Some e)
  assume ok: "conn_ok env [] st"
  obtain s where s: "SetRemove i (su_set st) = (Some e, s)" "cs_entries s = filter (\<lambda>(k, v). k \<noteq> i) (cs_entries (su_set st))"
    using Some by (simp add: SetRemove_def)
  have "set_ok s" using ok set_ok_remove [of "su_set st" i] s(1) by (simp add: conn_ok_def)
  moreover have "mset (live_handles (su_set st)) = mset (live_handles s) + mset (entry_handles e)"
    using ok mset_live_remove [OF _ Some] by (simp add: conn_ok_def set_ok_def keys_unique_def live_handles_def s(2))
  moreover have "set (cs_entries s) \<subseteq> set (cs_entries (su_set st))" unfolding s(2) by auto
  ultimately show ?thesis using ok unfolding conn_ok_def by (auto simp: Stop_def s(1) close_entry_def)
qed

lemma conn_ok_launch: "conn_ok env [] st \<Longrightarrow> entry_good env (su_log st) e \<Longrightarrow> conn_ok env [] (launch e b st)"
  by (auto simp: conn_ok_def launch_def split: option.split)

lemma Stop_log [simp]: "su_log (Stop i st) = su_log st" "su_db (Stop i st) = su_db st" "su_workers (Stop i st) = su_workers st"
  "su_cancelled (Stop i st) = su_cancelled st"
  by (auto simp: Stop_def close_entry_def split: prod.split option.split)

lemma conn_ok_quarantine: "conn_ok env [] st \<Longrightarrow> conn_ok env [] (quarantine now i err st)"
  by (simp add: quarantine_def Let_def conn_ok_Stop)

lemma conn_ok_worker: "conn_ok env [] st \<Longrightarrow> conn_ok env [] (worker_returns now k err st)"
proof -
  assume ok: "conn_ok env [] st"
  have "set (take k (su_workers st) @ drop (k + 1) (su_workers st)) \<subseteq> set (su_workers st)"
    by (auto dest: in_set_takeD in_set_dropD)
  with ok have "conn_ok env [] (st\<lparr>su_workers := take k (su_workers st) @ drop (k + 1) (su_workers st)\<rparr>)" unfolding conn_ok_def by auto
  then show ?thesis using ok by (auto simp: worker_returns_def Let_def intro: conn_ok_quarantine split: prod.split option.split)
qed

lemma conn_ok_shutdown: "conn_ok env [] st \<Longrightarrow> conn_ok env [] (shutdown st)"
  by (auto simp: conn_ok_def shutdown_def CloseAll_def NewSet_def live_handles_def set_ok_def keys_unique_def)

text \<open>What dialling leaves: a connection in hand with an entry for it, or everything as it was.\<close>

lemma dialAndBuild_cases:
  assumes "dialAndBuild env i name node reqLocal opts cfg st = (r, st')" "conn_ok env [] st"
  shows "su_log st' = su_log st @ [node]" "su_db st' = su_db st" "su_set st' = su_set st" "su_workers st' = su_workers st"
    "su_cancelled st' = su_cancelled st"
    "case r of Inl _ \<Rightarrow> conn_ok env [] st'
     | Inr e \<Rightarrow> conn_ok env (entry_handles e) st' \<and> entry_good env (su_log st') e \<and> ce_id e = i \<and> ce_name e = name
         \<and> ce_worker e = Some (New i opts) \<and> (\<exists>src. ce_source e = Some src \<and> src_handle src = length (su_log st) \<and> (reqLocal \<longrightarrow> src_local src))"
proof -
  define st1 where "st1 = st\<lparr>su_log := su_log st @ [node]\<rparr>"
  have ok1: "conn_ok env [] st1" using conn_ok_log [OF assms(2)] by (simp add: st1_def)
  have fresh: "length (su_log st) \<notin> set (su_opened st1)" using assms(2) by (auto simp: conn_ok_def st1_def)
  define st2 where "st2 = st1\<lparr>su_opened := su_opened st1 @ [length (su_log st)]\<rparr>"
  have ok2: "conn_ok env [length (su_log st)] st2" unfolding st2_def by (rule conn_ok_open [OF ok1 fresh]) (simp add: st1_def)
  have fields: "su_log st2 = su_log st @ [node]" "su_db st2 = su_db st" "su_set st2 = su_set st" "su_workers st2 = su_workers st"
    "su_cancelled st2 = su_cancelled st" by (simp_all add: st2_def st1_def)
  note run = assms(1) [unfolded dialAndBuild_def Let_def, folded st1_def, folded st2_def]
  have "su_log st' = su_log st @ [node] \<and> su_db st' = su_db st \<and> su_set st' = su_set st \<and> su_workers st' = su_workers st
    \<and> su_cancelled st' = su_cancelled st
    \<and> (case r of Inl _ \<Rightarrow> conn_ok env [] st'
       | Inr e \<Rightarrow> conn_ok env (entry_handles e) st' \<and> entry_good env (su_log st') e \<and> ce_id e = i \<and> ce_name e = name
         \<and> ce_worker e = Some (New i opts) \<and> (\<exists>src. ce_source e = Some src \<and> src_handle src = length (su_log st) \<and> (reqLocal \<longrightarrow> src_local src)))"
  proof (cases "Dial (de_parse env) (de_ip env) (de_rpc env (length (su_log st))) node reqLocal")
    case (Inl e)
    then show ?thesis using run ok1 by (auto simp: st1_def)
  next
    case (Inr ep)
    note dial = Inr
    have run2: "(case de_chain env (length (su_log st)) of
        Inl msg \<Rightarrow> (Inl (ChainIDUnread i msg), st2\<lparr>su_closed := su_closed st2 @ [length (su_log st)]\<rparr>)
      | Inr actual \<Rightarrow> if actual \<noteq> i then (Inl (WrongChain i actual), st2\<lparr>su_closed := su_closed st2 @ [length (su_log st)]\<rparr>)
          else (Inr \<lparr>ce_id = i, ce_name = name, ce_source = Some \<lparr>src_handle = length (su_log st), src_local = ep_local ep\<rparr>,
                     ce_worker = Some (New i opts), ce_pricer = newPricer (de_hex env) cfg\<rparr>, st2)) = (r, st')"
      using run dial by simp
    have parsed: "ParseEndpoint (de_parse env) (de_ip env) node = Inr ep" and local: "reqLocal \<longrightarrow> ep_local ep"
      using dial by (auto simp: Dial_def split: sum.splits if_splits option.splits)
    show ?thesis
    proof (cases "de_chain env (length (su_log st)) = Inr i")
      case True
      then show ?thesis using run2 ok2 fields parsed local by (auto simp: entry_handles_def entry_good_def New_def)
    next
      case False
      then show ?thesis using run2 conn_ok_close [OF ok2] fields by (auto split: sum.splits if_splits)
    qed
  qed
  then show "su_log st' = su_log st @ [node]" "su_db st' = su_db st" "su_set st' = su_set st" "su_workers st' = su_workers st"
    "su_cancelled st' = su_cancelled st"
    "case r of Inl _ \<Rightarrow> conn_ok env [] st'
     | Inr e \<Rightarrow> conn_ok env (entry_handles e) st' \<and> entry_good env (su_log st') e \<and> ce_id e = i \<and> ce_name e = name
         \<and> ce_worker e = Some (New i opts) \<and> (\<exists>src. ce_source e = Some src \<and> src_handle src = length (su_log st) \<and> (reqLocal \<longrightarrow> src_local src))"
    by blast+
qed

lemma launch_db [simp]: "su_db (launch e b st) = su_db st" "su_log (launch e b st) = su_log st" "su_set (launch e b st) = su_set st"
  by (auto simp: launch_def split: option.split)

lemma close_entry_db [simp]: "su_db (close_entry e st) = su_db st" "su_log (close_entry e st) = su_log st" "su_set (close_entry e st) = su_set st"
  "su_workers (close_entry e st) = su_workers st"
  by (simp_all add: close_entry_def)

section \<open>Trust is earned\<close>

text \<open>A chain that is verified although nobody set its trust was first reached through a local endpoint.\<close>

definition local_node :: "daemon_env \<Rightarrow> string list \<Rightarrow> nat \<Rightarrow> bool" where
  "local_node env lg i \<longleftrightarrow> (\<exists>h < length lg. \<exists>ep. ParseEndpoint (de_parse env) (de_ip env) (lg ! h) = Inr ep \<and> ep_local ep \<and> de_chain env h = Inr i)"

definition trust_earned :: "daemon_env \<Rightarrow> string list \<Rightarrow> 'a chain_db_scheme \<Rightarrow> bool" where
  "trust_earned env lg db \<longleftrightarrow>
     (\<forall>i r. map_of (chains db) i = Some r \<and> ch_trust r = TrustVerified \<and> ch_trust_at r = None \<longrightarrow> local_node env lg i)"

lemma local_node_log: "local_node env lg i \<Longrightarrow> local_node env (lg @ xs) i"
  unfolding local_node_def by (metis length_append nth_append trans_less_add1)

lemma trust_earned_log: "trust_earned env lg db \<Longrightarrow> trust_earned env (lg @ xs) db"
  by (auto simp: trust_earned_def intro: local_node_log)

lemma trust_earned_row:
  assumes "trust_earned env lg db" "\<And>r. map_of (chains db) i = Some r \<Longrightarrow> ch_trust (f r) = ch_trust r \<and> ch_trust_at (f r) = ch_trust_at r"
  shows "trust_earned env lg (db\<lparr>chains := update_row i f (chains db)\<rparr>)"
  using assms by (auto simp: trust_earned_def split: if_splits)

lemma trust_earned_error: "trust_earned env lg db \<Longrightarrow> trust_earned env lg (SetChainError i cause now db)"
  by (auto simp: SetChainError_def intro: trust_earned_row split: option.split)

lemma trust_earned_enabled: "trust_earned env lg db \<Longrightarrow> SetChainEnabled i b db = Inr db' \<Longrightarrow> trust_earned env lg db'"
  by (auto simp: SetChainEnabled_def intro: trust_earned_row split: if_splits)

lemma trust_earned_set: "trust_earned env lg db \<Longrightarrow> SetChainTrust i level who now db = Inr db' \<Longrightarrow> trust_earned env lg db'"
  by (auto simp: SetChainTrust_def trust_earned_def split: option.splits if_splits)

lemma trust_earned_label: "trust_earned env lg db \<Longrightarrow> trust_earned env lg (UpsertChain i name db)"
  by (auto simp: UpsertChain_def trust_earned_def default_chain_def split: option.splits if_splits)

lemma trust_earned_profile:
  assumes "trust_earned env lg db" "UpsertChainProfile p db = Inr db'" "cp_trust p = Some (trustForEndpoint e)" "entry_good env lg e" "ce_id e = cp_id p"
  shows "trust_earned env lg db'"
proof -
  have db': "db' = db\<lparr>chains := upsert (cp_id p) (profile_row p) (merge_profile (profile_row p)) (chains db)\<rparr>"
    using assms(2) by (auto simp: UpsertChainProfile_def split: if_splits)
  have "ch_trust (profile_row p) = TrustVerified \<Longrightarrow> local_node env lg (cp_id p)"
    using assms(3-5) by (auto simp: profile_row_def trustForEndpoint_def local_node_def entry_good_def split: if_splits)
  then show ?thesis using assms(1) by (auto simp: db' trust_earned_def merge_profile_def split: if_splits option.splits)
qed

section \<open>The invariant of the supervisor\<close>

definition sv_ok :: "daemon_env \<Rightarrow> 'a supervisor \<Rightarrow> bool" where
  "sv_ok env st \<longleftrightarrow> conn_ok env [] st \<and> trust_earned env (su_log st) (su_db st)"

lemma sv_ok_start_config: "sv_ok env st \<Longrightarrow> sv_ok env (snd (startConfigChain env c st))"
proof -
  assume ok: "sv_ok env st"
  obtain r st1 where d: "dialAndBuild env (cc_id c) (cc_name c) (cc_node c) (RequireLocal c) (config_options c) c st = (r, st1)" by force
  note D = dialAndBuild_cases [OF d, of] ok [unfolded sv_ok_def]
  have c: "conn_ok env [] st" and t: "trust_earned env (su_log st1) (su_db st1)"
    using ok trust_earned_log dialAndBuild_cases(1,2) [OF d] by (auto simp: sv_ok_def)
  show ?thesis
  proof (cases r)
    case (Inl e)
    then show ?thesis using d t dialAndBuild_cases(6) [OF d c] by (simp add: startConfigChain_def sv_ok_def)
  next
    case (Inr e)
    have e: "conn_ok env (entry_handles e) st1" "entry_good env (su_log st1) e" "ce_id e = cc_id c"
      using dialAndBuild_cases(6) [OF d c] Inr by auto
    show ?thesis
    proof (cases "SetAdd e (su_set st1)")
      case (Inl x)
      then show ?thesis using d Inr t conn_ok_close_entry [OF e(1)] by (simp add: startConfigChain_def sv_ok_def)
    next
      case (Inr s)
      have c2: "conn_ok env [] (st1\<lparr>su_set := s\<rparr>)" by (rule conn_ok_add [OF e(1) Inr e(2)])
      have t2: "trust_earned env (su_log st1) db" if "UpsertChainProfile (config_profile env c e) (su_db st1) = Inr db" for db
        by (rule trust_earned_profile [OF t that _ e(2)]) (simp_all add: config_profile_def Let_def e(3))
      define st2 where "st2 = (if de_stored env (length (su_log st))
        then (case UpsertChainProfile (config_profile env c e) (su_db st1) of Inl _ \<Rightarrow> st1\<lparr>su_set := s\<rparr> | Inr db \<Rightarrow> st1\<lparr>su_set := s, su_db := db\<rparr>)
        else st1\<lparr>su_set := s\<rparr>)"
      have "su_log st2 = su_log st1" "trust_earned env (su_log st1) (su_db st2)" "conn_ok env [] st2"
        using t t2 c2 by (auto simp: st2_def split: sum.splits)
      moreover from this have "conn_ok env [] (launch e True st2)" using e(2) by (intro conn_ok_launch) simp_all
      moreover have "snd (startConfigChain env c st) = launch e True st2"
        using d \<open>r = Inr e\<close> Inr by (simp add: startConfigChain_def st2_def Let_def)
      ultimately show ?thesis by (simp add: sv_ok_def)
    qed
  qed
qed

text \<open>Starting a stored chain fails, or puts an entry for it into the set; when it succeeds its worker runs.\<close>

lemma StartStored_cases:
  assumes "StartStored env now prof st = (r, st')" "conn_ok env [] st"
  shows "conn_ok env [] st' \<and>
   ((su_set st' = su_set st \<and> su_workers st' = su_workers st \<and> r \<noteq> None \<and> (\<exists>xs. su_log st' = su_log st @ xs)
      \<and> (su_db st' = su_db st \<or> (\<exists>m. su_db st' = SetChainError (cp_id prof) (Some m) now (su_db st))))
    \<or> (\<exists>e ws. SetAdd e (su_set st) = Inr (su_set st') \<and> su_workers st' = su_workers st @ ws \<and> ce_id e = cp_id prof \<and> entry_good env (su_log st') e
        \<and> (\<exists>src. ce_source e = Some src \<and> src_handle src = length (su_log st))
        \<and> su_log st' = su_log st @ [cp_node_url prof] \<and> su_closed st' = su_closed st
        \<and> (r \<noteq> None \<longrightarrow> su_db st' = su_db st)
        \<and> (r = None \<longrightarrow> ws = [(e, False)] \<and> su_cancelled st' = su_cancelled st
            \<and> (\<exists>db. UpsertChainProfile (prof\<lparr>cp_enabled := True, cp_trust := Some (trustForEndpoint e)\<rparr>) (su_db st) = Inr db
                 \<and> su_db st' = SetChainError (cp_id prof) None now db))))"
proof -
  define dial where "dial = dialAndBuild env (cp_id prof) (cp_name prof) (cp_node_url prof) False (stored_options env prof)
                  (bare_chain (cp_id prof) (cp_name prof)) st"
  note run = assms(1) [unfolded StartStored_def, folded dial_def]
  obtain d st1 where d: "dial = (d, st1)" by force
  note D = dialAndBuild_cases [OF d [unfolded dial_def] assms(2)]
  have closed: "d = Inr e \<Longrightarrow> su_closed st1 = su_closed st" for e
    using d by (auto simp: dial_def dialAndBuild_def Let_def split: sum.splits if_splits)
  show ?thesis
  proof (cases "SetGet (su_set st) (cp_id prof) \<noteq> None \<or> cp_node_url prof = []")
    case True
    then show ?thesis using run assms(2) by (auto split: if_splits)
  next
    case False
    show ?thesis
    proof (cases d)
      case (Inl x)
      then show ?thesis using run d D False by auto
    next
      case (Inr e)
      note e = this D(6) [unfolded this, simplified]
      show ?thesis
      proof (cases "SetAdd e (su_set st1)")
        case (Inl x)
        then have "SetGet (su_set st) (ce_id e) \<noteq> None \<or> ce_id e = 0" using D(3) by (auto simp: SetAdd_def SetGet_def split: if_splits)
        then show ?thesis using Inl run d D False e conn_ok_close_entry [of env e st1] by auto
      next
        case (Inr s)
        define st2 where "st2 = st1\<lparr>su_set := s\<rparr>"
        define prof' where "prof' = prof\<lparr>cp_enabled := True, cp_trust := Some (trustForEndpoint e)\<rparr>"
        have run2: "(if \<not> de_stored env (length (su_log st)) then (Some ProfileNotStored, st2)
          else case UpsertChainProfile prof' (su_db st2) of Inl _ \<Rightarrow> (Some ProfileNotStored, st2)
            | Inr db \<Rightarrow> (None, launch e False (st2\<lparr>su_db := SetChainError (cp_id prof) None now db\<rparr>))) = (r, st')"
          using run d False e(1) Inr by (auto simp: st2_def prof'_def Let_def split: if_splits sum.splits)
        have f: "SetAdd e (su_set st) = Inr (su_set st2)" "su_workers st2 = su_workers st" "su_log st2 = su_log st @ [cp_node_url prof]"
          "su_closed st2 = su_closed st" "su_cancelled st2 = su_cancelled st" "su_db st2 = su_db st" "entry_good env (su_log st2) e"
          using Inr D closed [OF e(1)] e(2) by (simp_all add: st2_def)
        have l: "launch e False x = x\<lparr>su_workers := su_workers x @ [(e, False)]\<rparr>" for x :: "'a supervisor" using e(2) by (simp add: launch_def)
        have c2: "conn_ok env [] st2" unfolding st2_def by (rule conn_ok_add [OF _ Inr]) (use e(2) in auto)
        show ?thesis
        proof (cases "de_stored env (length (su_log st)) \<and> (\<exists>db. UpsertChainProfile prof' (su_db st) = Inr db)")
          case True
          then obtain db where db: "UpsertChainProfile prof' (su_db st) = Inr db" by blast
          then have "r = None" "st' = st2\<lparr>su_db := SetChainError (cp_id prof) None now db, su_workers := su_workers st @ [(e, False)]\<rparr>"
            using run2 True f by (auto simp: l)
          moreover have "conn_ok env [] st'"
            using conn_ok_launch [of env "st2\<lparr>su_db := SetChainError (cp_id prof) None now db\<rparr>" e False] c2 f calculation(2) by (simp add: l)
          ultimately show ?thesis using f e(2) db unfolding prof'_def by (intro conjI disjI2 exI [of _ e] exI [of _ "[(e, False)]"]) auto
        next
          case False
          then have "r = Some ProfileNotStored" "st' = st2" using run2 f by (auto split: sum.splits if_splits)
          then show ?thesis using f e(2) c2 by (intro conjI disjI2 exI [of _ e] exI [of _ "[]"]) auto
        qed
      qed
    qed
  qed
qed

lemma sv_ok_start_stored: "sv_ok env st \<Longrightarrow> sv_ok env (snd (StartStored env now prof st))"
proof -
  assume ok: "sv_ok env st"
  then have c: "conn_ok env [] st" and t: "trust_earned env (su_log st) (su_db st)" by (auto simp: sv_ok_def)
  obtain r st' where s: "StartStored env now prof st = (r, st')" by force
  note C = StartStored_cases [OF s c]
  have "trust_earned env (su_log st') (su_db st')" if "su_set st' = su_set st \<and> su_workers st' = su_workers st \<and> r \<noteq> None \<and> (\<exists>xs. su_log st' = su_log st @ xs)
      \<and> (su_db st' = su_db st \<or> (\<exists>m. su_db st' = SetChainError (cp_id prof) (Some m) now (su_db st)))"
  proof -
    note m = that
    obtain xs where xs: "su_log st' = su_log st @ xs" using m by blast
    have t': "trust_earned env (su_log st') (su_db st)" unfolding xs by (rule trust_earned_log [OF t])
    show ?thesis using m t' trust_earned_error [OF t', of "cp_id prof" _ now] by auto
  qed
  moreover have "trust_earned env (su_log st') (su_db st')" if e: "ce_id e = cp_id prof" "entry_good env (su_log st') e"
      and lg: "su_log st' = su_log st @ [cp_node_url prof]" and db: "r \<noteq> None \<longrightarrow> su_db st' = su_db st"
      "r = None \<longrightarrow> (\<exists>db. UpsertChainProfile (prof\<lparr>cp_enabled := True, cp_trust := Some (trustForEndpoint e)\<rparr>) (su_db st) = Inr db
         \<and> su_db st' = SetChainError (cp_id prof) None now db)" for e
  proof (cases "r = None")
    case False
    then show ?thesis using trust_earned_log [OF t] lg db(1) by simp
  next
    case True
    then obtain db' where "UpsertChainProfile (prof\<lparr>cp_enabled := True, cp_trust := Some (trustForEndpoint e)\<rparr>) (su_db st) = Inr db'"
      "su_db st' = SetChainError (cp_id prof) None now db'" using db(2) by blast
    then show ?thesis using trust_earned_profile [OF trust_earned_log [OF t] _ _ e(2) [unfolded lg]] e(1) lg by (simp add: trust_earned_error)
  qed
  ultimately show ?thesis using C s unfolding sv_ok_def by auto
qed

lemma sv_ok_Stop: "sv_ok env st \<Longrightarrow> sv_ok env (Stop i st)"
  by (simp add: sv_ok_def conn_ok_Stop)

lemma sv_ok_worker: "sv_ok env st \<Longrightarrow> sv_ok env (worker_returns now k err st)"
proof -
  assume ok: "sv_ok env st"
  have q: "trust_earned env (su_log s) (su_db s) \<Longrightarrow> trust_earned env (su_log (quarantine now i msg s)) (su_db (quarantine now i msg s))" for i msg and s :: "'a supervisor"
    using trust_earned_error [of env "su_log s" "su_db s" i "Some msg" now] by (auto simp: quarantine_def Let_def intro: trust_earned_set split: sum.split)
  have "trust_earned env (su_log (worker_returns now k err st)) (su_db (worker_returns now k err st))"
    using ok q by (auto simp: worker_returns_def Let_def sv_ok_def split: prod.split option.split)
  then show ?thesis using ok by (simp add: sv_ok_def conn_ok_worker)
qed

lemma sv_ok_shutdown: "sv_ok env st \<Longrightarrow> sv_ok env (shutdown st)"
  by (auto simp: sv_ok_def conn_ok_shutdown) (simp add: shutdown_def CloseAll_def)

lemma sv_ok_configured: "sv_ok env st \<Longrightarrow> sv_ok env (snd (start_configured env cs st))"
proof (induction cs arbitrary: st)
  case (Cons c cs)
  obtain r st1 where s: "startConfigChain env c st = (r, st1)" by force
  then have "sv_ok env st1" using sv_ok_start_config [OF Cons.prems, of c] by simp
  then show ?case using Cons.IH by (cases r) (simp_all add: s)
qed simp

lemma sv_ok_stored: "sv_ok env st \<Longrightarrow> sv_ok env (start_stored env now rows st)"
proof (induction rows arbitrary: st)
  case (Cons x rows)
  obtain i r where x: "x = (i, r)" by force
  show ?case unfolding x start_stored.simps by (rule Cons.IH) (simp add: Cons.prems sv_ok_start_stored)
qed simp

lemma sv_ok_boot: "sv_ok env st \<Longrightarrow> sv_ok env (snd (boot env now cfg st))"
proof -
  assume ok: "sv_ok env st"
  obtain r st1 where s: "start_configured env (co_chains cfg) st = (r, st1)" by force
  have "sv_ok env st1" using sv_ok_configured [OF ok, of "co_chains cfg"] s by simp
  then show ?thesis using sv_ok_stored by (cases r) (simp_all add: boot_def s Let_def)
qed

section \<open>What a start adds\<close>

definition extends :: "'a supervisor \<Rightarrow> 'a supervisor \<Rightarrow> bool" where
  "extends st st' \<longleftrightarrow> (\<exists>is. IDs (su_set st') = IDs (su_set st) @ is) \<and> (\<exists>ws. su_workers st' = su_workers st @ ws)
     \<and> (\<forall>i e. SetGet (su_set st) i = Some e \<longrightarrow> SetGet (su_set st') i = Some e)"

lemma extends_refl [simp]: "extends st st"
  by (simp add: extends_def)

lemma extends_trans: "extends st st' \<Longrightarrow> extends st' st'' \<Longrightarrow> extends st st''"
  by (auto simp: extends_def)

lemma extends_add:
  assumes "set_ok (su_set st)" "SetAdd e (su_set st) = Inr (su_set st')" "su_workers st' = su_workers st @ ws"
  shows "extends st st'"
proof -
  have "IDs (su_set st') = IDs (su_set st) @ [ce_id e]" by (rule SetAdd_ids [OF assms(2)])
  moreover have "SetGet (su_set st') i = Some x" if "SetGet (su_set st) i = Some x" for i x
    using live.get_add [OF assms(1), of e "su_set st'" i] live.add_fails [OF assms(1), of e] assms(2) that by auto
  ultimately show ?thesis using assms(3) by (auto simp: extends_def)
qed

lemma StartStored_extends: "conn_ok env [] st \<Longrightarrow> extends st (snd (StartStored env now prof st))"
proof -
  assume ok: "conn_ok env [] st"
  then have "set_ok (su_set st)" by (simp add: conn_ok_def)
  obtain r st' where s: "StartStored env now prof st = (r, st')" by force
  have "extends st st'" if "su_set st' = su_set st \<and> su_workers st' = su_workers st" using that by (simp add: extends_def)
  then show ?thesis using StartStored_cases [OF s ok] extends_add [OF \<open>set_ok (su_set st)\<close>] by (auto simp: s)
qed

lemma conn_ok_start_stored: "conn_ok env [] st \<Longrightarrow> conn_ok env [] (snd (StartStored env now prof st))"
  using StartStored_cases [OF prod.collapse [symmetric]] by blast

lemma start_stored_extends: "conn_ok env [] st \<Longrightarrow> extends st (start_stored env now rows st)"
proof (induction rows arbitrary: st)
  case (Cons x rows)
  obtain i r where x: "x = (i, r)" by force
  define st1 where "st1 = (if ch_source r = ChainSourceConfig \<or> SetGet (su_set st) i \<noteq> None then st else snd (StartStored env now (row_profile i r) st))"
  have "conn_ok env [] st1" "extends st st1"
    using Cons.prems conn_ok_start_stored StartStored_extends by (auto simp: st1_def)
  then show ?case unfolding x start_stored.simps st1_def [symmetric] using Cons.IH extends_trans by blast
qed simp

text \<open>A configured chain whose node can be dialled and is on the right network comes up.\<close>

definition node_ready :: "daemon_env \<Rightarrow> nat \<Rightarrow> ChainCfg \<Rightarrow> bool" where
  "node_ready env h c \<longleftrightarrow> (\<exists>ep. Dial (de_parse env) (de_ip env) (de_rpc env h) (cc_node c) (RequireLocal c) = Inr ep) \<and> de_chain env h = Inr (cc_id c)"

lemma startConfigChain_ready:
  assumes "conn_ok env [] st" "node_ready env (length (su_log st)) c" "cc_id c \<noteq> 0" "SetGet (su_set st) (cc_id c) = None"
  shows "\<exists>e st'. startConfigChain env c st = (None, st') \<and> SetAdd e (su_set st) = Inr (su_set st') \<and> ce_id e = cc_id c \<and> ce_source e \<noteq> None
    \<and> su_workers st' = su_workers st @ [(e, True)] \<and> su_log st' = su_log st @ [cc_node c] \<and> conn_ok env [] st'"
proof -
  obtain r st1 where d: "dialAndBuild env (cc_id c) (cc_name c) (cc_node c) (RequireLocal c) (config_options c) c st = (r, st1)" by force
  note D = dialAndBuild_cases [OF d assms(1)]
  have "\<exists>e. r = Inr e" using d assms(2) by (auto simp: dialAndBuild_def Let_def node_ready_def)
  then obtain e where r: "r = Inr e" by blast
  note e = D(6) [unfolded r, simplified]
  obtain s where s: "SetAdd e (su_set st) = Inr s" using assms(3,4) e by (cases "SetAdd e (su_set st)") (auto simp: SetAdd_def SetGet_def split: if_splits)
  define st2 where "st2 = (if de_stored env (length (su_log st))
    then (case UpsertChainProfile (config_profile env c e) (su_db st1) of Inl _ \<Rightarrow> st1\<lparr>su_set := s\<rparr> | Inr db \<Rightarrow> st1\<lparr>su_set := s, su_db := db\<rparr>)
    else st1\<lparr>su_set := s\<rparr>)"
  have st2: "su_set st2 = s" "su_workers st2 = su_workers st" "su_log st2 = su_log st @ [cc_node c]"
    using D by (auto simp: st2_def split: sum.splits)
  have "startConfigChain env c st = (None, launch e True st2)"
    using d r s D(3) by (simp add: startConfigChain_def st2_def Let_def)
  moreover have "launch e True st2 = st2\<lparr>su_workers := su_workers st2 @ [(e, True)]\<rparr>" using e by (simp add: launch_def)
  moreover have "conn_ok env [] (st1\<lparr>su_set := s\<rparr>)" using s D(3) e by (intro conn_ok_add) auto
  then have "conn_ok env [] st2" by (auto simp: st2_def split: sum.splits)
  then have "conn_ok env [] (launch e True st2)" using e st2(3) D(1) by (intro conn_ok_launch) auto
  ultimately show ?thesis using st2 s e by (intro exI [of _ e] exI [of _ "launch e True st2"]) auto
qed

lemma start_configured_ready:
  "conn_ok env [] st \<Longrightarrow> \<forall>j < length cs. node_ready env (length (su_log st) + j) (cs ! j) \<Longrightarrow> distinct (map cc_id cs)
    \<Longrightarrow> \<forall>c \<in> set cs. cc_id c \<noteq> 0 \<and> SetGet (su_set st) (cc_id c) = None
    \<Longrightarrow> \<exists>st'. start_configured env cs st = (None, st') \<and> conn_ok env [] st' \<and> IDs (su_set st') = IDs (su_set st) @ map cc_id cs \<and> extends st st'
      \<and> (\<forall>c \<in> set cs. \<exists>e. SetGet (su_set st') (cc_id c) = Some e \<and> ce_id e = cc_id c \<and> ce_source e \<noteq> None \<and> (e, True) \<in> set (su_workers st'))"
proof (induction cs arbitrary: st)
  case (Cons c cs)
  have ok: "conn_ok env [] st" "set_ok (su_set st)" using Cons.prems(1) by (auto simp: conn_ok_def)
  have "node_ready env (length (su_log st)) c" using Cons.prems(2) by force
  then obtain e st1 where s: "startConfigChain env c st = (None, st1)" "SetAdd e (su_set st) = Inr (su_set st1)" "ce_id e = cc_id c"
      "ce_source e \<noteq> None" "su_workers st1 = su_workers st @ [(e, True)]" "su_log st1 = su_log st @ [cc_node c]" "conn_ok env [] st1"
    using startConfigChain_ready [OF ok(1)] Cons.prems(4) by force
  have ids: "IDs (su_set st1) = IDs (su_set st) @ [cc_id c]" using SetAdd_ids [OF s(2)] s(3) by simp
  have get1: "SetGet (su_set st1) i = (if i = cc_id c then Some e else SetGet (su_set st) i)" for i
    using live.get_add [OF ok(2), of e "su_set st1" i] s(2,3) by simp
  have "node_ready env (length (su_log st1) + j) (cs ! j)" if "j < length cs" for j
    using Cons.prems(2) [rule_format, of "Suc j"] that s(6) by simp
  moreover have "cc_id x \<noteq> 0 \<and> SetGet (su_set st1) (cc_id x) = None" if "x \<in> set cs" for x
    using Cons.prems(3,4) that by (auto simp: get1 image_iff)
  ultimately obtain st' where st': "start_configured env cs st1 = (None, st')" "conn_ok env [] st'" "IDs (su_set st') = IDs (su_set st1) @ map cc_id cs"
      "extends st1 st'" "\<forall>c \<in> set cs. \<exists>e. SetGet (su_set st') (cc_id c) = Some e \<and> ce_id e = cc_id c \<and> ce_source e \<noteq> None \<and> (e, True) \<in> set (su_workers st')"
    using Cons.IH [OF s(7)] Cons.prems(3) by auto
  have e1: "extends st st1" by (rule extends_add [OF ok(2) s(2) s(5)])
  have "SetGet (su_set st') (cc_id c) = Some e" "(e, True) \<in> set (su_workers st')" using st'(4) get1 s(5) by (auto simp: extends_def)
  then show ?case using st' s ids extends_trans [OF e1 st'(4)] by auto
qed simp

end
