(* ===== verification/ChainAPI.thy ===== *)
theory ChainAPI
  imports Supervisor
begin

text \<open>
  The handlers of \<open>internal/api/chains.go\<close> that change what runs: \<open>addChain\<close>, \<open>patchChain\<close> and
  \<open>deleteChain\<close> on decoded requests, and the listing. Answers are HTTP status codes. With the workers
  and the start of the process they make the step relation of the chains, whose invariants are the
  properties at the end.
\<close>

section \<open>Requests\<close>

record addChainRequest =
  ar_ens_name :: string
  ar_chain :: nat
  ar_name :: string
  ar_node :: string
  ar_native :: "(string \<times> int \<times> string) option"
  ar_confirmations :: "nat option"
  ar_backfill_window :: "nat option"
  ar_tail_window :: "nat option"
  ar_discovery :: "(bool option \<times> nat option) option"

text \<open>\<open>strings.TrimSpace\<close> on ASCII white space.\<close>

definition is_space :: "char \<Rightarrow> bool" where
  "is_space c \<longleftrightarrow> c = CHR '' '' \<or> c = CHR 0x09 \<or> c = CHR 0x0A \<or> c = CHR 0x0B \<or> c = CHR 0x0C \<or> c = CHR 0x0D"

definition TrimSpace :: "string \<Rightarrow> string" where
  "TrimSpace s = rev (dropWhile is_space (rev (dropWhile is_space s)))"

definition firstNonEmpty :: "string list \<Rightarrow> string" where
  "firstNonEmpty vals = (case find (\<lambda>v. v \<noteq> []) vals of None \<Rightarrow> [] | Some v \<Rightarrow> v)"

section \<open>Adding\<close>

text \<open>The chain id and the name a request means: the status of the refusal, or id, ENS name and label.\<close>

definition identify :: "daemon_env \<Rightarrow> addChainRequest \<Rightarrow> nat + nat \<times> string \<times> string" where
  "identify env req =
     (if ar_ens_name req = [] then (if ar_chain req = 0 then Inl 400 else Inr (ar_chain req, [], ar_name req))
      else case de_ens env of None \<Rightarrow> Inl 501
      | Some lookup \<Rightarrow>
          (case lookup (ar_ens_name req) of Inl _ \<Rightarrow> Inl 400
           | Inr c \<Rightarrow>
               if ar_chain req \<noteq> 0 \<and> ar_chain req \<noteq> ec_id c then Inl 400
               else if ec_id c = 0 then Inl 400
               else Inr (ec_id c, ec_name c, if ar_name req = [] then ec_label c else ar_name req)))"

definition request_native :: "daemon_env \<Rightarrow> addChainRequest \<Rightarrow> ChainProfile \<Rightarrow> ChainProfile option" where
  "request_native env req prof =
     (case ar_native req of None \<Rightarrow> Some prof
      | Some (symbol, decimals, wrapped) \<Rightarrow>
          let prof = (if symbol \<noteq> [] then prof\<lparr>cp_native_symbol := symbol\<rparr> else prof);
              prof = (if decimals > 0 then prof\<lparr>cp_native_decimals := decimals\<rparr> else prof)
          in if wrapped = [] then Some prof
             else if \<not> de_is_hex env wrapped then None
             else Some (prof\<lparr>cp_wrapped := Some (de_hex env wrapped)\<rparr>))"

definition request_tuning :: "daemon_env \<Rightarrow> addChainRequest \<Rightarrow> Profile \<Rightarrow> ChainTuning" where
  "request_tuning env req p =
     (let window = (\<lambda>given default. case given of Some w \<Rightarrow> if w > 0 then w else default | None \<Rightarrow> default)
      in \<lparr>tu_confirmations = (case ar_confirmations req of Some c \<Rightarrow> c | None \<Rightarrow> pf_confirmations p),
          tu_backfill_window = window (ar_backfill_window req) (pf_backfill_window p),
          tu_tail_window = window (ar_tail_window req) (pf_tail_window p),
          tu_poll = de_show env (pf_poll p), tu_backfill_interval = de_show env (pf_backfill_interval p),
          tu_enabled = (case ar_discovery req of Some (Some b, _) \<Rightarrow> b | _ \<Rightarrow> False),
          tu_lookback = (case ar_discovery req of Some (_, Some n) \<Rightarrow> n | _ \<Rightarrow> pf_tail_window p * 10),
          tu_interval = de_show env (pf_poll p * 3)\<rparr>)"

definition request_profile :: "daemon_env \<Rightarrow> nat \<Rightarrow> addChainRequest \<Rightarrow> nat \<times> string \<times> string \<Rightarrow> ChainProfile option" where
  "request_profile env now req idn =
     (let (chainID, ensName, name) = idn; p = For chainID name; node = TrimSpace (ar_node req);
          prof = \<lparr>cp_id = chainID, cp_name = firstNonEmpty [name, pf_name p], cp_enabled = True, cp_source = Some ChainSourceAPI,
            cp_trust = Some (case ParseEndpoint (de_parse env) (de_ip env) node of
              Inr ep \<Rightarrow> if ep_local ep then TrustVerified else TrustUnverified | Inl _ \<Rightarrow> TrustUnverified),
            cp_node_url = node, cp_native_symbol = pf_symbol p, cp_native_decimals = pf_decimals p,
            cp_wrapped = (if pf_wrapped p \<noteq> 0 then Some (pf_wrapped p) else None), cp_tuning = de_encode env (request_tuning env req p),
            cp_ens_name = ensName, cp_ens_at = (if ensName \<noteq> [] then Some now else None)\<rparr>
      in request_native env req prof)"

definition addChain :: "daemon_env \<Rightarrow> nat \<Rightarrow> addChainRequest \<Rightarrow> 'a supervisor \<Rightarrow> nat \<times> 'a supervisor" where
  "addChain env now req st =
     (if TrimSpace (ar_node req) = [] then (400, st)
      else case identify env req of Inl status \<Rightarrow> (status, st)
      | Inr idn \<Rightarrow>
          if SetGet (su_set st) (fst idn) \<noteq> None then (409, st)
          else case request_profile env now req idn of None \<Rightarrow> (400, st)
          | Some prof \<Rightarrow>
              (case StartStored env now prof st of
                 (Some _, st) \<Rightarrow> (400, st)
               | (None, st) \<Rightarrow> (case GetChainProfile (fst idn) (su_db st) of Inl _ \<Rightarrow> (500, st) | Inr _ \<Rightarrow> (201, st))))"

section \<open>Patching and deleting\<close>

definition patch_enabled :: "nat \<Rightarrow> bool option \<Rightarrow> 'a supervisor \<Rightarrow> nat option \<times> 'a supervisor" where
  "patch_enabled chainID enabled st =
     (case enabled of None \<Rightarrow> (None, st)
      | Some b \<Rightarrow>
          (case SetChainEnabled chainID b (su_db st) of Inl _ \<Rightarrow> (Some 400, st)
           | Inr db \<Rightarrow> (None, if b then st\<lparr>su_db := db\<rparr> else Stop chainID (st\<lparr>su_db := db\<rparr>))))"

definition patchChain :: "nat \<Rightarrow> nat \<Rightarrow> bool option \<Rightarrow> string \<Rightarrow> string \<Rightarrow> 'a supervisor \<Rightarrow> nat \<times> 'a supervisor" where
  "patchChain now chainID enabled level who st =
     (let set = (if level = [] then Inr (su_db st)
                 else if level \<noteq> ''verified'' \<and> level \<noteq> ''unverified'' then Inl 400
                 else case SetChainTrust chainID level who now (su_db st) of Inl _ \<Rightarrow> Inl 400 | Inr db \<Rightarrow> Inr db)
      in case set of Inl status \<Rightarrow> (status, st)
      | Inr db \<Rightarrow>
          (case patch_enabled chainID enabled (st\<lparr>su_db := db\<rparr>) of
             (Some status, st) \<Rightarrow> (status, st)
           | (None, st) \<Rightarrow> (case GetChainProfile chainID (su_db st) of Inl _ \<Rightarrow> (404, st) | Inr _ \<Rightarrow> (200, st))))"

definition deleteChain :: "nat \<Rightarrow> 'a supervisor \<Rightarrow> nat \<times> 'a supervisor" where
  "deleteChain chainID st =
     (let st = Stop chainID st
      in (200, case SetChainEnabled chainID False (su_db st) of Inl _ \<Rightarrow> st | Inr db \<Rightarrow> st\<lparr>su_db := db\<rparr>))"

section \<open>Listing\<close>

text \<open>Of a listed chain: its id, name, whether it is enabled and running, and its trust.\<close>

record chain_view =
  vw_id :: nat
  vw_name :: string
  vw_enabled :: bool
  vw_source :: chain_source
  vw_trust :: trust
  vw_verified :: bool
  vw_running :: bool
  vw_local :: bool

definition chainViewFromProfile :: "nat \<times> ChainRow \<Rightarrow> chain_view" where
  "chainViewFromProfile p = \<lparr>vw_id = fst p, vw_name = ch_name (snd p), vw_enabled = ch_enabled (snd p), vw_source = ch_source (snd p),
     vw_trust = ch_trust (snd p), vw_verified = (ch_trust (snd p) = TrustVerified), vw_running = False, vw_local = False\<rparr>"

definition overlay :: "ChainEntry \<Rightarrow> chain_view \<Rightarrow> chain_view" where
  "overlay e v = v\<lparr>vw_running := True, vw_name := (if vw_name v = [] then ce_name e else vw_name v),
     vw_local := (case ce_source e of None \<Rightarrow> False | Some s \<Rightarrow> src_local s)\<rparr>"

fun overlay_all :: "ChainEntry option list \<Rightarrow> (nat \<times> chain_view) list \<Rightarrow> (nat \<times> chain_view) list" where
  "overlay_all [] views = views"
| "overlay_all (None # es) views = overlay_all es views"
| "overlay_all (Some e # es) views =
     overlay_all es (upsert (ce_id e)
       (overlay e \<lparr>vw_id = ce_id e, vw_name = ce_name e, vw_enabled = True, vw_source = ChainSourceConfig, vw_trust = TrustUnverified,
                   vw_verified = False, vw_running = False, vw_local = False\<rparr>)
       (overlay e) views)"

definition listChains :: "'a supervisor \<Rightarrow> chain_view list" where
  "listChains st = map snd (overlay_all (Entries (su_set st)) (map (\<lambda>p. (fst p, chainViewFromProfile p)) (ListChainProfiles False (su_db st))))"

definition defaultChainID :: "'a supervisor \<Rightarrow> nat" where
  "defaultChainID st = (case First (su_set st) of Some (Some e) \<Rightarrow> ce_id e | _ \<Rightarrow> 0)"

section \<open>Steps\<close>

inductive sv_step :: "daemon_env \<Rightarrow> 'a supervisor \<Rightarrow> 'a supervisor \<Rightarrow> bool" for env where
  boot: "sv_step env st (snd (boot env now cfg st))"
| added: "sv_step env st (snd (addChain env now req st))"
| patched: "sv_step env st (snd (patchChain now i enabled level who st))"
| deleted: "sv_step env st (snd (deleteChain i st))"
| returned: "sv_step env st (worker_returns now k err st)"
| label: "sv_step env st (st\<lparr>su_db := UpsertChain i name (su_db st)\<rparr>)"
| head: "sv_step env st (st\<lparr>su_db := SetChainHead i b h (su_db st)\<rparr>)"
| floor: "sv_step env st (st\<lparr>su_db := SetHistoryFloor i f now (su_db st)\<rparr>)"
| closed: "sv_step env st (shutdown st)"

inductive_cases sv_stepE: "sv_step env st st'"

lemma sv_ok_db: "sv_ok env st \<Longrightarrow> trust_earned env (su_log st) db \<Longrightarrow> sv_ok env (st\<lparr>su_db := db\<rparr>)"
  by (simp add: sv_ok_def)

lemma sv_ok_earned: "sv_ok env st \<Longrightarrow> trust_earned env (su_log st) (su_db st)"
  by (simp add: sv_ok_def)

lemma sv_ok_enabled: "sv_ok env st \<Longrightarrow> SetChainEnabled i b (su_db st) = Inr db \<Longrightarrow> sv_ok env (st\<lparr>su_db := db\<rparr>)"
  by (rule sv_ok_db [OF _ trust_earned_enabled [OF sv_ok_earned]])

lemma sv_ok_added: "sv_ok env st \<Longrightarrow> sv_ok env (snd (addChain env now req st))"
proof -
  assume ok: "sv_ok env st"
  have "sv_ok env (snd (StartStored env now prof st))" for prof by (rule sv_ok_start_stored [OF ok])
  then have "StartStored env now prof st = (r, st') \<Longrightarrow> sv_ok env st'" for prof r st' by (metis snd_conv)
  then show ?thesis using ok by (auto simp: addChain_def split: sum.split option.split prod.split)
qed

lemma sv_ok_patched: "sv_ok env st \<Longrightarrow> sv_ok env (snd (patchChain now i enabled level who st))"
proof -
  assume ok: "sv_ok env st"
  have en: "sv_ok env s \<Longrightarrow> sv_ok env (snd (patch_enabled i enabled s))" for s :: "'a supervisor"
    by (auto simp: patch_enabled_def intro!: sv_ok_Stop intro: sv_ok_enabled split: option.split sum.split)
  have set: "sv_ok env (st\<lparr>su_db := db\<rparr>)" if "SetChainTrust i level who now (su_db st) = Inr db" for db
    by (rule sv_ok_db [OF ok trust_earned_set [OF sv_ok_earned [OF ok] that]])
  have same: "st\<lparr>su_db := su_db st\<rparr> = st" by simp
  have pat: "patch_enabled i enabled s = (r, s') \<Longrightarrow> sv_ok env s \<Longrightarrow> sv_ok env s'" for r and s s' :: "'a supervisor"
    using en [of s] by simp
  show ?thesis unfolding patchChain_def Let_def using ok set same
    by (auto split: sum.split option.split prod.split intro: pat)
qed

lemma sv_ok_deleted: "sv_ok env st \<Longrightarrow> sv_ok env (snd (deleteChain i st))"
  by (auto simp: deleteChain_def Let_def intro: sv_ok_enabled [OF sv_ok_Stop] sv_ok_Stop simp del: Stop_log split: sum.split)

lemma sv_ok_step: "sv_step env st st' \<Longrightarrow> sv_ok env st \<Longrightarrow> sv_ok env st'"
proof (induction rule: sv_step.induct)
  case (head st i b h)
  have "trust_earned env (su_log st) (SetChainHead i b h (su_db st))"
    using sv_ok_earned [OF head] by (auto simp: SetChainHead_def intro: trust_earned_row)
  then show ?case by (rule sv_ok_db [OF head])
next
  case (floor st i f now)
  have "trust_earned env (su_log st) (SetHistoryFloor i f now (su_db st))"
    using sv_ok_earned [OF floor] by (auto simp: SetHistoryFloor_def intro: trust_earned_row)
  then show ?case by (rule sv_ok_db [OF floor])
qed (auto intro: sv_ok_boot sv_ok_added sv_ok_patched sv_ok_deleted sv_ok_worker sv_ok_shutdown sv_ok_db trust_earned_label sv_ok_earned)

lemma sv_ok_steps: "(sv_step env)\<^sup>*\<^sup>* st st' \<Longrightarrow> sv_ok env st \<Longrightarrow> sv_ok env st'"
  by (induction rule: rtranclp_induct) (auto intro: sv_ok_step)

text \<open>A process that has just started, on a table of chains.\<close>

definition fresh :: "'a chain_db_scheme \<Rightarrow> 'a supervisor" where
  "fresh db = \<lparr>su_db = db, su_set = NewSet, su_log = [], su_opened = [], su_closed = [], su_workers = [], su_cancelled = False\<rparr>"

lemma sv_ok_fresh: "chains db = [] \<Longrightarrow> sv_ok env (fresh db)"
  by (simp add: sv_ok_def conn_ok_def fresh_def NewSet_def set_ok_def keys_unique_def live_handles_def trust_earned_def)

section \<open>Properties\<close>

text \<open>A deployment for the witnesses: node \<open>''http://l''\<close> is local, every node is on chain 7, writes succeed.\<close>

definition demo_daemon :: daemon_env where
  "demo_daemon = \<lparr>de_parse = (\<lambda>s. Some \<lparr>ur_scheme = ''http'', ur_user = None, ur_host = drop 7 s, ur_hostname = drop 7 s, ur_path = [],
       ur_raw_query = [], ur_keys = []\<rparr>), de_ip = (\<lambda>s. if s = ''l'' then Some True else Some False), de_rpc = (\<lambda>h s. None), de_chain = (\<lambda>h. Inr 7),
     de_stored = (\<lambda>h. True), de_hex = (\<lambda>s. 0), de_is_hex = (\<lambda>s. True), de_decode = (\<lambda>s. no_tuning), de_encode = (\<lambda>t. ''{}''),
     de_duration = (\<lambda>s. None), de_show = (\<lambda>d. []), de_text = (\<lambda>e. ''e''), de_ens = None\<rparr>"

definition demo_add :: "string \<Rightarrow> addChainRequest" where
  "demo_add node = \<lparr>ar_ens_name = [], ar_chain = 7, ar_name = ''seven'', ar_node = node, ar_native = None, ar_confirmations = None,
     ar_backfill_window = None, ar_tail_window = None, ar_discovery = None\<rparr>"

definition empty_chain_db :: chain_db where
  "empty_chain_db = \<lparr>interactions = [], pending_events = [], chains = []\<rparr>"

definition demo_local :: "unit supervisor" where
  "demo_local = snd (addChain demo_daemon 5 (demo_add ''http://l'') (fresh empty_chain_db))"

text \<open>The same chain deleted, and added again with a node that is not local.\<close>

definition demo_remote :: "unit supervisor" where
  "demo_remote = snd (addChain demo_daemon 9 (demo_add ''http://r'') (snd (deleteChain 7 demo_local)))"

lemma demo_steps: "(sv_step demo_daemon)\<^sup>*\<^sup>* (fresh empty_chain_db) demo_local" "(sv_step demo_daemon)\<^sup>*\<^sup>* (fresh empty_chain_db) demo_remote"
proof -
  show one: "(sv_step demo_daemon)\<^sup>*\<^sup>* (fresh empty_chain_db) demo_local"
    unfolding demo_local_def by (rule r_into_rtranclp) (rule sv_step.added)
  also have "sv_step demo_daemon demo_local (snd (deleteChain 7 demo_local))" by (rule sv_step.deleted)
  also have "sv_step demo_daemon (snd (deleteChain 7 demo_local)) demo_remote" unfolding demo_remote_def by (rule sv_step.added)
  finally show "(sv_step demo_daemon)\<^sup>*\<^sup>* (fresh empty_chain_db) demo_remote" .
qed

text \<open>C13: Whatever is started, added, patched, deleted or fails, in any order: the running chains have
  different ids, each runs on a connection of its own whose node answered that chain id when it was
  dialled, and every connection that was ever opened is either the one of a running chain or was
  closed exactly once.\<close>

theorem connections_accounted:
  assumes "chains db = []" "(sv_step env)\<^sup>*\<^sup>* (fresh db) st"
  shows "distinct (IDs (su_set st)) \<and> (\<forall>i. SetGet (su_set st) i \<noteq> None \<longleftrightarrow> i \<in> set (IDs (su_set st)))
    \<and> (\<forall>i e. SetGet (su_set st) i = Some e \<longrightarrow> (\<exists>src. ce_source e = Some src \<and> de_chain env (src_handle src) = Inr i))
    \<and> distinct (su_closed st @ live_handles (su_set st))
    \<and> set (su_opened st) = set (su_closed st) \<union> set (live_handles (su_set st))"
proof -
  have c: "conn_ok env [] st" using sv_ok_steps [OF assms(2) sv_ok_fresh [OF assms(1)]] by (simp add: sv_ok_def)
  then have ok: "set_ok (su_set st)" and m: "mset (su_opened st) = mset (su_closed st @ live_handles (su_set st))" and d: "distinct (su_opened st)"
    and g: "\<forall>(i, e) \<in> set (cs_entries (su_set st)). entry_good env (su_log st) e" by (auto simp: conn_ok_def)
  have "\<exists>src. ce_source e = Some src \<and> de_chain env (src_handle src) = Inr i" if "SetGet (su_set st) i = Some e" for i e
  proof -
    have "entry_good env (su_log st) e" using g that by (auto simp: SetGet_def dest: map_of_SomeD)
    then show ?thesis using set_ok_get [OF ok that] by (auto simp: entry_good_def)
  qed
  moreover have "distinct (su_closed st @ live_handles (su_set st))" using d mset_eq_imp_distinct_iff [OF m] by simp
  moreover have "set (su_opened st) = set (su_closed st) \<union> set (live_handles (su_set st))" using mset_eq_setD [OF m] by simp
  ultimately show ?thesis using live.distinct_ids [OF ok] live.get_ids [OF ok] by auto
qed

lemma demo_nodes:
  "ParseEndpoint (de_parse demo_daemon) (de_ip demo_daemon) ''http://l'' = Inr \<lparr>ep_raw = ''http://l'', ep_transport = TransportHTTP, ep_local = True, ep_streaming = False\<rparr>"
  "ParseEndpoint (de_parse demo_daemon) (de_ip demo_daemon) ''http://r'' = Inr \<lparr>ep_raw = ''http://r'', ep_transport = TransportHTTP, ep_local = False, ep_streaming = False\<rparr>"
  "TrimSpace ''http://l'' = ''http://l''" "TrimSpace ''http://r'' = ''http://r''"
  by code_simp+

text \<open>Adding chain 7 from a state in which it does not run.\<close>

definition added_entry :: "nat \<Rightarrow> bool \<Rightarrow> ChainProfile \<Rightarrow> ChainEntry" where
  "added_entry h l prof = \<lparr>ce_id = 7, ce_name = ''seven'', ce_source = Some \<lparr>src_handle = h, src_local = l\<rparr>,
     ce_worker = Some (New 7 (stored_options demo_daemon prof)), ce_pricer = newPricer (de_hex demo_daemon) (bare_chain 7 ''seven'')\<rparr>"

definition added_profile :: "nat \<Rightarrow> string \<Rightarrow> bool \<Rightarrow> ChainProfile" where
  "added_profile now node l = \<lparr>cp_id = 7, cp_name = ''seven'', cp_enabled = True, cp_source = Some ChainSourceAPI,
     cp_trust = Some (if l then TrustVerified else TrustUnverified), cp_node_url = node, cp_native_symbol = pf_symbol (For 7 ''seven''),
     cp_native_decimals = pf_decimals (For 7 ''seven''),
     cp_wrapped = (if pf_wrapped (For 7 ''seven'') \<noteq> 0 then Some (pf_wrapped (For 7 ''seven'')) else None), cp_tuning = ''{}'',
     cp_ens_name = [], cp_ens_at = None\<rparr>"

definition added_db :: "nat \<Rightarrow> ChainProfile \<Rightarrow> chain_db \<Rightarrow> chain_db" where
  "added_db now prof db = SetChainError 7 None now (db\<lparr>chains := upsert 7 (profile_row prof) (merge_profile (profile_row prof)) (chains db)\<rparr>)"

definition started :: "nat \<Rightarrow> string \<Rightarrow> bool \<Rightarrow> unit supervisor \<Rightarrow> unit supervisor" where
  "started now node l st = st\<lparr>su_db := added_db now (added_profile now node l) (su_db st),
     su_set := \<lparr>cs_entries = cs_entries (su_set st) @ [(7, added_entry (length (su_log st)) l (added_profile now node l))], cs_order = cs_order (su_set st) @ [7]\<rparr>,
     su_log := su_log st @ [node], su_opened := su_opened st @ [length (su_log st)],
     su_workers := su_workers st @ [(added_entry (length (su_log st)) l (added_profile now node l), False)]\<rparr>"

lemma demo_start:
  assumes "(node, l) \<in> {(''http://l'', True), (''http://r'', False)}" "map_of (cs_entries (su_set st)) 7 = None"
  shows "StartStored demo_daemon now (added_profile now node l) st = (None, started now node l st)"
proof -
  define prof where "prof = added_profile now node l"
  have node: "node \<noteq> []" using assms(1) by auto
  obtain ep where ep: "ParseEndpoint (de_parse demo_daemon) (de_ip demo_daemon) node = Inr ep" "ep_local ep = l"
    using assms(1) demo_nodes by auto
  have f: "cp_id prof = 7" "cp_name prof = ''seven''" "cp_node_url prof = node" by (simp_all add: prof_def added_profile_def)
  have env: "de_rpc demo_daemon = (\<lambda>h s. None)" "de_chain demo_daemon = (\<lambda>h. Inr 7)" "de_stored demo_daemon = (\<lambda>h. True)" by (simp_all add: demo_daemon_def)
  have e: "\<lparr>ce_id = 7, ce_name = ''seven'', ce_source = Some \<lparr>src_handle = h, src_local = l\<rparr>,
     ce_worker = Some (New 7 (stored_options demo_daemon prof)), ce_pricer = newPricer (de_hex demo_daemon) (bare_chain 7 ''seven'')\<rparr> = added_entry h l prof" for h
    by (simp add: added_entry_def)
  have same: "prof\<lparr>cp_enabled := True, cp_trust := Some (trustForEndpoint (added_entry h l prof))\<rparr> = prof" for h
    by (simp add: prof_def added_profile_def trustForEndpoint_def added_entry_def)
  show ?thesis
    using node assms(2) unfolding prof_def [symmetric] started_def StartStored_def dialAndBuild_def Let_def f env Dial_def ep(1)
    by (simp add: f env ep e same SetGet_def SetAdd_def UpsertChainProfile_def added_db_def launch_def)
      (simp add: added_entry_def)
qed

lemma demo_add_result:
  assumes "(node, l) \<in> {(''http://l'', True), (''http://r'', False)}" "map_of (cs_entries (su_set st)) 7 = None"
  shows "addChain demo_daemon now (demo_add node) st = (201, started now node l st)"
proof -
  have id: "identify demo_daemon (demo_add node) = Inr (7, [], ''seven'')" by (simp add: identify_def demo_add_def)
  have trim: "TrimSpace node = node" "node \<noteq> []" using assms(1) demo_nodes by auto
  obtain ep where ep: "ParseEndpoint (de_parse demo_daemon) (de_ip demo_daemon) node = Inr ep" "ep_local ep = l"
    using assms(1) demo_nodes by auto
  have prof: "request_profile demo_daemon now (demo_add node) (7, [], ''seven'') = Some (added_profile now node l)"
    using trim by (simp add: request_profile_def request_native_def demo_add_def added_profile_def Let_def ep firstNonEmpty_def)
      (simp add: demo_daemon_def)
  show ?thesis using trim assms(2) prof id demo_start [OF assms, of now]
    by (simp add: addChain_def demo_add_def [of node] SetGet_def started_def GetChainProfile_def added_db_def SetChainError_def)
qed

lemma demo_local_state:
  "cs_entries (su_set demo_local) = [(7, added_entry 0 True (added_profile 5 ''http://l'' True))]" "cs_order (su_set demo_local) = [7]"
  "su_log demo_local = [''http://l'']" "su_opened demo_local = [0]" "su_closed demo_local = []"
  "su_workers demo_local = [(added_entry 0 True (added_profile 5 ''http://l'' True), False)]" "\<not> su_cancelled demo_local"
  "su_db demo_local = added_db 5 (added_profile 5 ''http://l'' True) empty_chain_db"
  unfolding demo_local_def by (subst demo_add_result [where l = True]; simp add: fresh_def NewSet_def started_def)+

definition demo_stopped :: "unit supervisor" where
  "demo_stopped = snd (deleteChain 7 demo_local)"

lemma demo_stopped_state:
  "cs_entries (su_set demo_stopped) = []" "cs_order (su_set demo_stopped) = []"
  "su_log demo_stopped = [''http://l'']" "su_opened demo_stopped = [0]" "su_closed demo_stopped = [0]"
  "su_workers demo_stopped = [(added_entry 0 True (added_profile 5 ''http://l'' True), False)]"
  "map (\<lambda>(i, r). (i, ch_trust r, ch_trust_at r)) (chains (su_db demo_stopped)) = [(7, TrustVerified, None)]"
  by (simp_all add: demo_stopped_def deleteChain_def Let_def Stop_def SetRemove_def demo_local_state close_entry_def entry_handles_def added_entry_def
      SetChainEnabled_def added_db_def SetChainError_def update_row_def empty_chain_db_def upsert_def added_profile_def profile_row_def default_chain_def)

lemma demo_remote_state:
  "map (\<lambda>(i, e). (i, ce_source e)) (cs_entries (su_set demo_remote)) = [(7, Some \<lparr>src_handle = 1, src_local = False\<rparr>)]"
  "su_closed demo_remote = [0]" "su_opened demo_remote = [0, 1]"
  "map (\<lambda>(i, r). (i, ch_trust r, ch_trust_at r, ch_node_url r)) (chains (su_db demo_remote)) = [(7, TrustVerified, None, Some ''http://r'')]"
proof -
  obtain r where r: "chains (su_db demo_stopped) = [(7, r)]" "ch_trust r = TrustVerified" "ch_trust_at r = None"
    using demo_stopped_state(7) by auto
  have "map_of (cs_entries (su_set demo_stopped)) 7 = None" by (simp add: demo_stopped_state)
  note add = demo_add_result [where l = False and node = "''http://r''", OF _ this, of 9]
  show "map (\<lambda>(i, e). (i, ce_source e)) (cs_entries (su_set demo_remote)) = [(7, Some \<lparr>src_handle = 1, src_local = False\<rparr>)]"
    "su_closed demo_remote = [0]" "su_opened demo_remote = [0, 1]"
    "map (\<lambda>(i, r). (i, ch_trust r, ch_trust_at r, ch_node_url r)) (chains (su_db demo_remote)) = [(7, TrustVerified, None, Some ''http://r'')]"
    unfolding demo_remote_def demo_stopped_def [symmetric]
    by (simp_all add: add started_def demo_stopped_state r added_entry_def)
      (simp_all add: added_db_def SetChainError_def upsert_def update_row_def merge_profile_def profile_row_def nullStr_def coalesce_def r
        added_profile_def)
qed

theorem connections_accounted_witness:
  "distinct (su_closed demo_remote @ live_handles (su_set demo_remote)) \<and> su_closed demo_remote = [0] \<and> su_opened demo_remote = [0, 1]"
  using connections_accounted [OF _ demo_steps(2)] demo_remote_state by (simp add: empty_chain_db_def)

text \<open>C14: The data of a chain is trusted without anybody having said so only if a local node answered
  for this chain: whatever requests come in, a chain that is recorded as verified was either set by
  a trust decision that is on record, or was reached at some time through a local endpoint.\<close>

theorem verified_trust_is_earned:
  assumes "chains db = []" "(sv_step env)\<^sup>*\<^sup>* (fresh db) st" "map_of (chains (su_db st)) i = Some r" "ch_trust r = TrustVerified"
  shows "ch_trust_at r \<noteq> None \<or> (\<exists>h < length (su_log st). \<exists>ep. ParseEndpoint (de_parse env) (de_ip env) (su_log st ! h) = Inr ep
    \<and> ep_local ep \<and> de_chain env h = Inr i)"
proof -
  have "trust_earned env (su_log st) (su_db st)" using sv_ok_steps [OF assms(2) sv_ok_fresh [OF assms(1)]] by (rule sv_ok_earned)
  then have "local_node env (su_log st) i" if "ch_trust_at r = None" using that assms(3,4) by (auto simp: trust_earned_def)
  then show ?thesis unfolding local_node_def by (cases "ch_trust_at r = None") simp_all
qed

theorem verified_trust_is_earned_witness:
  "\<exists>h < length (su_log demo_remote). \<exists>ep. ParseEndpoint (de_parse demo_daemon) (de_ip demo_daemon) (su_log demo_remote ! h) = Inr ep \<and> ep_local ep"
proof -
  obtain r where r: "map_of (chains (su_db demo_remote)) 7 = Some r" "ch_trust r = TrustVerified" "ch_trust_at r = None"
    using demo_remote_state(4) by auto
  from verified_trust_is_earned [OF _ demo_steps(2) r(1,2)] r(3) show ?thesis by (auto simp: empty_chain_db_def)
qed

text \<open>The trust of a chain does not follow its endpoint. When a recorded chain is started again, with
  another node, its new endpoint is stored but the trust it was first given stays: a chain that was
  verified because its first node was local is still verified on a remote one.\<close>

theorem restart_keeps_old_trust:
  assumes "sv_ok env st" "map_of (chains (su_db st)) (cp_id prof) = Some r" "StartStored env now prof st = (None, st')"
  shows "\<exists>e r'. SetGet (su_set st') (cp_id prof) = Some e \<and> map_of (chains (su_db st')) (cp_id prof) = Some r'
    \<and> ch_trust r' = ch_trust r \<and> ch_trust_at r' = ch_trust_at r \<and> ch_node_url r' = Some (cp_node_url prof)"
proof -
  have ok: "conn_ok env [] st" "set_ok (su_set st)" using assms(1) by (auto simp: sv_ok_def conn_ok_def)
  have url: "cp_node_url prof \<noteq> []" using assms(3) by (auto simp: StartStored_def split: if_splits)
  obtain e db where e: "SetAdd e (su_set st) = Inr (su_set st')" "ce_id e = cp_id prof"
      "UpsertChainProfile (prof\<lparr>cp_enabled := True, cp_trust := Some (trustForEndpoint e)\<rparr>) (su_db st) = Inr db"
      "su_db st' = SetChainError (cp_id prof) None now db"
    using StartStored_cases [OF assms(3) ok(1)] by auto
  have "SetGet (su_set st') (cp_id prof) = Some e" using live.get_add [OF ok(2), of e "su_set st'" "cp_id prof"] e(1,2) by simp
  moreover have "\<exists>r'. map_of (chains (su_db st')) (cp_id prof) = Some r' \<and> ch_trust r' = ch_trust r \<and> ch_trust_at r' = ch_trust_at r
      \<and> ch_node_url r' = Some (cp_node_url prof)"
    using e(3,4) assms(2) url by (auto simp: UpsertChainProfile_def SetChainError_def merge_profile_def profile_row_def nullStr_def coalesce_def split: if_splits)
  ultimately show ?thesis by blast
qed

lemma demo_stopped_ok: "sv_ok demo_daemon demo_stopped"
  unfolding demo_stopped_def by (rule sv_ok_deleted [OF sv_ok_steps [OF demo_steps(1) sv_ok_fresh]]) (simp add: empty_chain_db_def)

theorem restart_keeps_old_trust_witness:
  "\<exists>e r. SetGet (su_set demo_remote) 7 = Some e \<and> map_of (chains (su_db demo_remote)) 7 = Some r \<and> ch_trust r = TrustVerified
     \<and> ch_trust_at r = None \<and> ch_node_url r = Some ''http://r'' \<and> ce_source e = Some \<lparr>src_handle = 1, src_local = False\<rparr>"
proof -
  obtain r where r: "map_of (chains (su_db demo_stopped)) 7 = Some r" "ch_trust r = TrustVerified" "ch_trust_at r = None"
    using demo_stopped_state(7) by auto
  have none: "map_of (cs_entries (su_set demo_stopped)) 7 = None" by (simp add: demo_stopped_state)
  have id: "cp_id (added_profile now node l) = 7" for now node l by (simp add: added_profile_def)
  have url: "cp_node_url (added_profile 9 ''http://r'' False) = ''http://r''" by (simp_all add: added_profile_def)
  have rem: "demo_remote = started 9 ''http://r'' False demo_stopped"
    using demo_add_result [of "''http://r''" False demo_stopped 9] none by (simp add: demo_remote_def demo_stopped_def)
  have "(''http://r'', False) \<in> {(''http://l'', True), (''http://r'', False)}" by simp
  from restart_keeps_old_trust [OF demo_stopped_ok _ demo_start [OF this none, of 9], unfolded id url, OF r(1)] r
  obtain e r' where e: "SetGet (su_set demo_remote) 7 = Some e" "map_of (chains (su_db demo_remote)) 7 = Some r'" "ch_trust r' = TrustVerified"
      "ch_trust_at r' = None" "ch_node_url r' = Some ''http://r''" unfolding rem by auto
  moreover have "ce_source e = Some \<lparr>src_handle = 1, src_local = False\<rparr>"
    using e(1) demo_remote_state(1) by (auto simp: SetGet_def dest: map_of_SomeD)
  ultimately show ?thesis by blast
qed

text \<open>C16: Stopping a chain does not stop its worker. When a chain is stopped and started again, the old
  worker still runs beside the new one, on a connection that is closed; and when the old one then
  fails, the supervisor takes the new chain out of the set and quarantines it.\<close>

theorem stopped_worker_survives:
  assumes "sv_ok env st" "SetGet (su_set st) i = Some e" "su_workers st ! k = (e, False)" "k < length (su_workers st)" "\<not> su_cancelled st"
    and "StartStored env now prof (Stop i st) = (None, st')" "cp_id prof = i"
  shows "\<exists>e'. e' \<noteq> e \<and> SetGet (su_set st') i = Some e' \<and> (e', False) \<in> set (su_workers st') \<and> (e, False) \<in> set (su_workers st')
    \<and> set (entry_handles e) \<subseteq> set (su_closed st')
    \<and> SetGet (su_set (worker_returns now k (Some msg) st')) i = None
    \<and> (\<exists>r. map_of (chains (su_db (worker_returns now k (Some msg) st'))) i = Some r \<and> ch_trust r = TrustQuarantined)"
proof -
  have ok: "conn_ok env [] st" "set_ok (su_set st)" using assms(1) by (auto simp: sv_ok_def conn_ok_def)
  note conn_ok_Stop [OF ok(1), of i]
  moreover from this have "set_ok (su_set (Stop i st))" by (simp add: conn_ok_def)
  ultimately have ok1: "conn_ok env [] (Stop i st)" "set_ok (su_set (Stop i st))" .
  obtain e' db where e': "SetAdd e' (su_set (Stop i st)) = Inr (su_set st')" "su_workers st' = su_workers st @ [(e', False)]" "ce_id e' = i"
      "\<exists>src. ce_source e' = Some src \<and> src_handle src = length (su_log st)" "su_closed st' = su_closed (Stop i st)" "\<not> su_cancelled st'"
      "UpsertChainProfile (prof\<lparr>cp_enabled := True, cp_trust := Some (trustForEndpoint e')\<rparr>) (su_db st) = Inr db"
      "su_db st' = SetChainError i None now db"
    using StartStored_cases [OF assms(6) ok1(1)] assms(5,7) by auto
  have get: "SetGet (su_set st') i = Some e'" using live.get_add [OF ok1(2), of e' "su_set st'" i] e'(1,3) by simp
  have "entry_good env (su_log st) e" using ok(1) assms(2) by (auto simp: conn_ok_def SetGet_def dest: map_of_SomeD)
  then have ne: "e' \<noteq> e" and id: "ce_id e = i" using e'(4) set_ok_get [OF ok(2) assms(2)] by (auto simp: entry_good_def)
  have nth: "su_workers st' ! k = (e, False)" "k < length (su_workers st')" using e'(2) assms(3,4) by (simp_all add: nth_append)
  have closed: "set (entry_handles e) \<subseteq> set (su_closed st')"
    using assms(2) by (auto simp: e'(5) Stop_def SetRemove_def close_entry_def SetGet_def split: option.splits)
  have row: "map_of (chains (su_db st')) i \<noteq> None"
    using e'(7,8) assms(7) by (auto simp: UpsertChainProfile_def SetChainError_def split: if_splits)
  have ret: "worker_returns now k (Some msg) st' = quarantine now i msg (st'\<lparr>su_workers := take k (su_workers st') @ drop (k + 1) (su_workers st')\<rparr>)"
    using nth e'(6) id by (simp add: worker_returns_def Let_def)
  have "SetGet (su_set (worker_returns now k (Some msg) st')) i = None"
    using get by (auto simp: ret quarantine_def Let_def Stop_def SetRemove_def SetGet_def close_entry_def map_of_filter_neq split: option.split)
  moreover have "\<exists>r. map_of (chains (su_db (worker_returns now k (Some msg) st'))) i = Some r \<and> ch_trust r = TrustQuarantined"
    using row by (auto simp: ret quarantine_def Let_def SetChainError_def SetChainTrust_def parse_trust_def)
  moreover have "(e, False) \<in> set (su_workers st')" using nth nth_mem by metis
  ultimately show ?thesis using ne get e'(2) closed by (intro exI [of _ e']) auto
qed

theorem stopped_worker_survives_witness:
  "\<exists>st' e'. StartStored demo_daemon 9 (added_profile 9 ''http://r'' False) (Stop 7 demo_local) = (None, st') \<and> SetGet (su_set st') 7 = Some e'
     \<and> SetGet (su_set (worker_returns 9 0 (Some ''eof'') st')) 7 = None"
proof -
  have ok: "sv_ok demo_daemon demo_local" by (rule sv_ok_steps [OF demo_steps(1) sv_ok_fresh]) (simp add: empty_chain_db_def)
  have none: "map_of (cs_entries (su_set (Stop 7 demo_local))) 7 = None"
    by (simp add: Stop_def SetRemove_def demo_local_state close_entry_def)
  have "(''http://r'', False) \<in> {(''http://l'', True), (''http://r'', False)}" by simp
  note go = demo_start [OF this none, of 9]
  have "\<exists>e'. SetGet (su_set (started 9 ''http://r'' False (Stop 7 demo_local))) 7 = Some e'
    \<and> SetGet (su_set (worker_returns 9 0 (Some ''eof'') (started 9 ''http://r'' False (Stop 7 demo_local)))) 7 = None"
    using stopped_worker_survives [where e = "added_entry 0 True (added_profile 5 ''http://l'' True)" and k = 0 and msg = "''eof''", OF ok _ _ _ _ go]
    by (simp add: demo_local_state SetGet_def added_profile_def) blast
  then show ?thesis using go by blast
qed

text \<open>C15: A configuration that passes validation comes up: when the node of every configured chain can be
  dialled under its locality rule and answers the chain's id, startup succeeds, whatever earlier
  chains the database holds. All configured chains run, with their workers, in the order of the
  configuration and before any other; the first is the default; the chain of the registry has a
  connection.\<close>

theorem validated_config_comes_up:
  assumes "validate isAddr cfg = None" "\<forall>j < length (co_chains cfg). node_ready env j (co_chains cfg ! j)"
  shows "\<exists>st is. boot env now cfg (fresh db) = (None, st) \<and> IDs (su_set st) = map cc_id (co_chains cfg) @ is
    \<and> (\<forall>c \<in> set (co_chains cfg). \<exists>e. SetGet (su_set st) (cc_id c) = Some e \<and> ce_source e \<noteq> None \<and> (e, True) \<in> set (su_workers st))
    \<and> defaultChainID st = cc_id (hd (co_chains cfg))
    \<and> (rg_address (co_registry cfg) \<noteq> [] \<longrightarrow> (\<exists>src. SetSource (su_set st) (rg_chain (co_registry cfg)) = Some (Some src)))"
proof -
  note V = validate_chains_usable [OF assms(1)]
  have c0: "conn_ok env [] (fresh db)"
    by (simp add: conn_ok_def fresh_def NewSet_def set_ok_def keys_unique_def live_handles_def)
  have "\<forall>c \<in> set (co_chains cfg). cc_id c \<noteq> 0 \<and> SetGet (su_set (fresh db)) (cc_id c) = None"
    using V(3) by (simp add: fresh_def NewSet_def SetGet_def)
  moreover have "\<forall>j < length (co_chains cfg). node_ready env (length (su_log (fresh db)) + j) (co_chains cfg ! j)"
    using assms(2) by (simp add: fresh_def)
  ultimately obtain st1 where st1: "start_configured env (co_chains cfg) (fresh db) = (None, st1)" "conn_ok env [] st1"
      "IDs (su_set st1) = map cc_id (co_chains cfg)"
      "\<forall>c \<in> set (co_chains cfg). \<exists>e. SetGet (su_set st1) (cc_id c) = Some e \<and> ce_id e = cc_id c \<and> ce_source e \<noteq> None \<and> (e, True) \<in> set (su_workers st1)"
    using start_configured_ready [OF c0 _ V(2)] by (auto simp: fresh_def NewSet_def IDs_def)
  define st where "st = start_stored env now (ListChainProfiles True (su_db st1)) st1"
  have ext: "extends st1 st" unfolding st_def by (rule start_stored_extends [OF st1(2)])
  then obtain "is" where ids: "IDs (su_set st) = map cc_id (co_chains cfg) @ is" using st1(3) by (auto simp: extends_def)
  have run: "\<exists>e. SetGet (su_set st) (cc_id c) = Some e \<and> ce_id e = cc_id c \<and> ce_source e \<noteq> None \<and> (e, True) \<in> set (su_workers st)"
    if "c \<in> set (co_chains cfg)" for c using st1(4) that ext unfolding extends_def by fastforce
  obtain c cs where c: "co_chains cfg = c # cs" using V(1) by (cases "co_chains cfg") auto
  have dflt: "defaultChainID st = cc_id (hd (co_chains cfg))"
    using run [of c] ids by (auto simp: c defaultChainID_def First_def IDs_def)
  have reg: "\<exists>src. SetSource (su_set st) (rg_chain (co_registry cfg)) = Some (Some src)" if "rg_address (co_registry cfg) \<noteq> []"
  proof -
    note m = V(4) [OF that]
    obtain x where "x \<in> set (co_chains cfg)" "rg_chain (co_registry cfg) = cc_id x" using m by auto
    then show ?thesis using run [of x] by (auto simp: SetSource_def)
  qed
  have "boot env now cfg (fresh db) = (None, st)"
    using st1(1) reg by (auto simp: boot_def Let_def st_def [symmetric] RegistryAddress_def)
  moreover have "\<forall>c \<in> set (co_chains cfg). \<exists>e. SetGet (su_set st) (cc_id c) = Some e \<and> ce_source e \<noteq> None \<and> (e, True) \<in> set (su_workers st)"
    using run by blast
  ultimately show ?thesis using ids dflt reg by blast
qed

definition demo_config :: Config where
  "demo_config = config_defaults\<lparr>co_database := \<lparr>da_dsn = ''pg'', da_migrate = True\<rparr>,
     co_chains := [(bare_chain 7 ''seven'')\<lparr>cc_node := ''http://l''\<rparr>]\<rparr>"

theorem validated_config_comes_up_witness:
  "\<exists>st. boot demo_daemon 5 demo_config (fresh empty_chain_db) = (None, st) \<and> defaultChainID st = 7"
proof -
  have v: "validate (\<lambda>s. True) demo_config = None"
    by (simp add: validate_def demo_config_def config_defaults_def bare_chain_def validatePricing_def validate_registry_def)
  have chains: "co_chains demo_config = [(bare_chain 7 ''seven'')\<lparr>cc_node := ''http://l''\<rparr>]" by (simp add: demo_config_def)
  have "Dial (de_parse demo_daemon) (de_ip demo_daemon) (de_rpc demo_daemon 0) ''http://l'' True
      = Inr \<lparr>ep_raw = ''http://l'', ep_transport = TransportHTTP, ep_local = True, ep_streaming = False\<rparr>"
    unfolding Dial_def demo_nodes by (simp add: demo_daemon_def)
  then have "node_ready demo_daemon 0 ((bare_chain 7 ''seven'')\<lparr>cc_node := ''http://l''\<rparr>)"
    by (auto simp: node_ready_def bare_chain_def RequireLocal_def) (simp add: demo_daemon_def)
  then have "\<forall>j < length (co_chains demo_config). node_ready demo_daemon j (co_chains demo_config ! j)" by (simp add: chains)
  from validated_config_comes_up [OF v this, of 5 empty_chain_db] show ?thesis by (auto simp: chains bare_chain_def)
qed

section \<open>Failed workers\<close>

text \<open>A chain that was added at runtime and whose worker fails is taken out of the set and quarantined, but
  stays enabled, so the next startup lists it for starting again.\<close>

lemma failed_chain_is_quarantined:
  fixes now k :: nat and msg :: string and st :: "'a supervisor"
  assumes "\<not> su_cancelled st" "k < length (su_workers st)" "su_workers st ! k = (e, False)" "map_of (chains (su_db st)) (ce_id e) = Some r"
    "keys_unique (chains (su_db st))" "ch_enabled r"
  defines "st' \<equiv> worker_returns now k (Some msg) st"
  shows "SetGet (su_set st') (ce_id e) = None"
    "\<exists>r'. map_of (chains (su_db st')) (ce_id e) = Some r' \<and> ch_trust r' = TrustQuarantined \<and> ch_error r' = msg \<and> ch_trust_by r' = ''daemon''
       \<and> (ce_id e, r') \<in> set (ListChainProfiles True (su_db st'))"
proof -
  have st': "st' = quarantine now (ce_id e) msg (st\<lparr>su_workers := take k (su_workers st) @ drop (k + 1) (su_workers st)\<rparr>)"
    using assms(1-3) by (simp add: st'_def worker_returns_def)
  show "SetGet (su_set st') (ce_id e) = None"
    by (auto simp: st' quarantine_def Let_def Stop_def SetRemove_def SetGet_def close_entry_def map_of_filter_neq split: option.split)
  have "\<exists>r'. map_of (chains (su_db st')) (ce_id e) = Some r' \<and> ch_trust r' = TrustQuarantined \<and> ch_error r' = msg \<and> ch_trust_by r' = ''daemon'' \<and> ch_enabled r'"
    using assms(4,6) by (auto simp: st' quarantine_def Let_def SetChainError_def SetChainTrust_def parse_trust_def)
  then show "\<exists>r'. map_of (chains (su_db st')) (ce_id e) = Some r' \<and> ch_trust r' = TrustQuarantined \<and> ch_error r' = msg \<and> ch_trust_by r' = ''daemon''
       \<and> (ce_id e, r') \<in> set (ListChainProfiles True (su_db st'))"
    by (auto simp: ListChainProfiles_def dest: map_of_SomeD)
qed

end
