(* ===== verification/Access.thy ===== *)
theory Access
  imports Prelude
begin

text \<open>
  Who may call what: the routes, \<open>guarded\<close>, \<open>authorized\<close> and the middleware of \<open>internal/api/server.go\<close>. A
  request has the segments of its path decoded one by one, so a segment may hold a slash that was
  escaped, as the router sees it; the guard sees the joined path. The file server that answers for
  every other path is left out.
\<close>

section \<open>Routes\<close>

datatype segment = Lit string | Wild

type_synonym route = "string \<times> segment list"

definition accounts_route :: "string \<Rightarrow> segment list" where
  "accounts_route leaf = [Lit ''v1'', Lit ''accounts'', Wild, Lit leaf]"

definition routes :: "route list" where
  "routes =
     [(''GET'', [Lit ''v1'', Lit ''health'']),
      (''GET'', [Lit ''v1'', Lit ''status'']),
      (''GET'', [Lit ''v1'', Lit ''chains'']),
      (''GET'', [Lit ''v1'', Lit ''chains'', Lit ''resolve'']),
      (''POST'', [Lit ''v1'', Lit ''chains'']),
      (''PATCH'', [Lit ''v1'', Lit ''chains'', Wild]),
      (''DELETE'', [Lit ''v1'', Lit ''chains'', Wild]),
      (''GET'', [Lit ''v1'', Lit ''assets'']),
      (''POST'', [Lit ''v1'', Lit ''assets'']),
      (''GET'', [Lit ''v1'', Lit ''assets'', Wild]),
      (''GET'', [Lit ''v1'', Lit ''assets'', Wild, Lit ''accounts'']),
      (''GET'', [Lit ''v1'', Lit ''accounts'']),
      (''GET'', [Lit ''v1'', Lit ''accounts'', Wild]),
      (''GET'', accounts_route ''contracts''),
      (''GET'', accounts_route ''portfolio''),
      (''GET'', [Lit ''v1'', Lit ''graph'']),
      (''GET'', [Lit ''v1'', Lit ''prices'']),
      (''GET'', [Lit ''v1'', Lit ''lens'']),
      (''GET'', [Lit ''v1'', Lit ''hints'']),
      (''GET'', [Lit ''v1'', Lit ''hints'', Wild]),
      (''GET'', [Lit ''v1'', Lit ''demand'']),
      (''POST'', [Lit ''v1'', Lit ''demand'']),
      (''GET'', [Lit ''v1'', Lit ''demand'', Lit ''relay'']),
      (''POST'', [Lit ''v1'', Lit ''demand'', Lit ''relay'']),
      (''GET'', [Lit ''v1'', Lit ''names'']),
      (''POST'', [Lit ''v1'', Lit ''names'']),
      (''POST'', [Lit ''v1'', Lit ''verdict'']),
      (''GET'', [Lit ''v1'', Lit ''candidates'']),
      (''POST'', [Lit ''v1'', Lit ''candidates'', Wild, Lit ''promote'']),
      (''POST'', [Lit ''v1'', Lit ''candidates'', Wild, Lit ''spam'']),
      (''POST'', [Lit ''v1'', Lit ''candidates'', Wild, Lit ''unspam'']),
      (''POST'', [Lit ''v1'', Lit ''assets'', Wild, Lit ''report'']),
      (''POST'', [Lit ''v1'', Lit ''assets'', Wild, Lit ''unreport'']),
      (''GET'', [Lit ''v1'', Lit ''decisions'']),
      (''GET'', [Lit ''v1'', Lit ''epochs'']),
      (''POST'', [Lit ''v1'', Lit ''epochs'']),
      (''GET'', [Lit ''v1'', Lit ''epochs'', Wild]),
      (''GET'', [Lit ''v1'', Lit ''epochs'', Wild, Lit ''proof'']),
      (''GET'', [Lit ''v1'', Lit ''epochs'', Wild, Lit ''snapshot'']),
      (''GET'', [Lit ''v1'', Lit ''epochs'', Wild, Lit ''manifest'']),
      (''GET'', [Lit ''ccip'', Wild, Wild]),
      (''POST'', [Lit ''ccip'']),
      (''GET'', [Lit ''ens'', Wild, Wild]),
      (''POST'', [Lit ''ens'']),
      (''GET'', accounts_route ''hint''),
      (''GET'', accounts_route ''hint.json''),
      (''POST'', accounts_route ''hint''),
      (''GET'', accounts_route ''state''),
      (''POST'', accounts_route ''state''),
      (''GET'', [Lit ''v1'', Lit ''state'', Lit ''revisions'', Wild]),
      (''GET'', [Lit ''v1'', Lit ''state'', Lit ''checkpoints'', Wild]),
      (''POST'', [Lit ''v1'', Lit ''state'', Lit ''checkpoints'']),
      (''GET'', [Lit ''v1'', Lit ''state'', Lit ''status'']),
      (''GET'', accounts_route ''asset-commit''),
      (''POST'', accounts_route ''asset-commit'')]"

text \<open>A request, with the value of its \<open>Authorization\<close> header.\<close>

record request =
  rq_method :: string
  rq_segments :: "string list"
  rq_authorization :: string

fun seg_matches :: "segment \<Rightarrow> string \<Rightarrow> bool" where
  "seg_matches (Lit l) s = (s = l)"
| "seg_matches Wild s = (s \<noteq> [])"

definition handles :: "route \<Rightarrow> request \<Rightarrow> bool" where
  "handles r rq \<longleftrightarrow> (fst r = rq_method rq \<or> fst r = ''GET'' \<and> rq_method rq = ''HEAD'') \<and> list_all2 seg_matches (snd r) (rq_segments rq)"

definition url_path :: "request \<Rightarrow> string" where
  "url_path rq = concat (map (\<lambda>s. CHR ''/'' # s) (rq_segments rq))"

section \<open>The guard\<close>

definition guarded :: "request \<Rightarrow> bool" where
  "guarded rq =
     (if rq_method rq = ''GET'' \<or> rq_method rq = ''HEAD'' \<or> rq_method rq = ''OPTIONS'' then False
      else let p = url_path rq
           in if p = ''/ccip'' \<or> p = ''/ens'' \<or> prefix ''/v1/demand/relay'' p then False
              else if p = ''/v1/names'' then False
              else if p = ''/v1/verdict'' then False
              else if prefix ''/v1/accounts/'' p \<and> (suffix ''/hint'' p \<or> suffix ''/asset-commit'' p \<or> rq_method rq = ''POST'' \<and> suffix ''/state'' p) then False
              else True)"

definition bearer :: string where
  "bearer = ''Bearer ''"

definition authorized :: "string \<Rightarrow> request \<Rightarrow> bool" where
  "authorized token rq =
     (if token = [] \<or> \<not> guarded rq then True
      else if \<not> prefix bearer (rq_authorization rq) then False
      else drop (length bearer) (rq_authorization rq) = token)"

datatype verdict_http = NoContent | Unauthorized | Passed

definition withMiddleware :: "string \<Rightarrow> request \<Rightarrow> verdict_http" where
  "withMiddleware token rq =
     (if rq_method rq = ''OPTIONS'' then NoContent else if \<not> authorized token rq then Unauthorized else Passed)"

text \<open>A route is served when the middleware passes the request on and the route handles it.\<close>

definition served :: "string \<Rightarrow> route \<Rightarrow> request \<Rightarrow> bool" where
  "served token r rq \<longleftrightarrow> withMiddleware token rq = Passed \<and> handles r rq"

section \<open>What is open\<close>

text \<open>The writes that carry a reader's own signature, or that anybody may call.\<close>

definition open_writes :: "route list" where
  "open_writes =
     [(''POST'', [Lit ''v1'', Lit ''demand'', Lit ''relay'']), (''POST'', [Lit ''v1'', Lit ''names'']), (''POST'', [Lit ''v1'', Lit ''verdict'']),
      (''POST'', [Lit ''ccip'']), (''POST'', [Lit ''ens'']),
      (''POST'', accounts_route ''hint''), (''POST'', accounts_route ''state''), (''POST'', accounts_route ''asset-commit'')]"

lemma list_all2_Lit:
  "list_all2 seg_matches [] ss \<longleftrightarrow> ss = []"
  "list_all2 seg_matches (Lit l # ps) ss \<longleftrightarrow> (\<exists>ss'. ss = l # ss' \<and> list_all2 seg_matches ps ss')"
  "list_all2 seg_matches (Wild # ps) ss \<longleftrightarrow> (\<exists>s ss'. ss = s # ss' \<and> s \<noteq> [] \<and> list_all2 seg_matches ps ss')"
  by (auto simp: list_all2_Cons1)

lemma suffix_append_Cons: "suffix s (xs @ s)"
  by (simp add: suffix_def)

lemma guarded_writes:
  "\<forall>r \<in> set routes. fst r \<noteq> ''GET'' \<longrightarrow> handles r rq \<longrightarrow> guarded rq = (r \<notin> set open_writes)"
  unfolding routes_def open_writes_def accounts_route_def
  by (simp add: handles_def list_all2_Lit) (auto simp: guarded_def url_path_def suffix_def)

text \<open>C17: Every route that is not a read is behind the operator's token, except the ones that carry a
  reader's own signature and the two name gateways: when a token is configured and any other such
  route is served, the request carried exactly that token. Reads, and those exceptions, are served
  to anybody.\<close>

theorem mutations_need_the_token:
  assumes "token \<noteq> []" "r \<in> set routes" "handles r rq"
  shows "if fst r = ''GET'' \<or> r \<in> set open_writes then served token r rq
    else served token r rq \<longleftrightarrow> rq_authorization rq = ''Bearer '' @ token"
proof (cases "fst r = ''GET''")
  case True
  then have "\<not> guarded rq" "rq_method rq \<noteq> ''OPTIONS''" using assms(3) by (auto simp: handles_def guarded_def)
  then show ?thesis using True assms(3) by (simp add: served_def withMiddleware_def authorized_def)
next
  case False
  have m: "rq_method rq = fst r" "fst r \<noteq> ''OPTIONS''"
    using False assms(2,3) by (auto simp: handles_def routes_def)
  have g: "guarded rq = (r \<notin> set open_writes)" using guarded_writes assms(2,3) False by blast
  have "authorized token rq \<longleftrightarrow> rq_authorization rq = ''Bearer '' @ token" if "guarded rq"
    using that assms(1) by (auto simp: authorized_def bearer_def prefix_def)
  then show ?thesis using False m g assms(3) by (auto simp: served_def withMiddleware_def authorized_def)
qed

definition retune :: "string \<Rightarrow> request" where
  "retune auth = \<lparr>rq_method = ''PATCH'', rq_segments = [''v1'', ''chains'', ''7''], rq_authorization = auth\<rparr>"

theorem mutations_need_the_token_witness:
  "served ''s3'' (''PATCH'', [Lit ''v1'', Lit ''chains'', Wild]) (retune ''Bearer s3'')
     \<and> \<not> served ''s3'' (''PATCH'', [Lit ''v1'', Lit ''chains'', Wild]) (retune ''Bearer s3 '')"
proof -
  have "(''PATCH'', [Lit ''v1'', Lit ''chains'', Wild]) \<in> set routes" by (simp add: routes_def)
  from mutations_need_the_token [OF _ this, of "''s3''" "retune ''Bearer s3''"]
    mutations_need_the_token [OF _ this, of "''s3''" "retune ''Bearer s3 ''"]
  show ?thesis by (simp add: handles_def open_writes_def accounts_route_def retune_def)
qed

end
