(* ===== verification/Token.thy ===== *)
theory Token
  imports Prelude
begin

text \<open>
  What a contract says about itself: \<open>internal/token/token.go\<close>. A Go string is its list of bytes.
  The reply of the contract is whatever the node hands back for the call, so the decoder is run on
  bytes an attacker chose. A panic is the outer \<open>None\<close>.
\<close>

section \<open>UTF-8 as the standard library decodes it\<close>

text \<open>The first byte of a longer character: how many bytes follow, and the range of the next one.\<close>

definition accept :: "byte \<Rightarrow> (nat \<times> byte \<times> byte) option" where
  "accept b =
     (if 0xC2 \<le> b \<and> b \<le> 0xDF then Some (1, 0x80, 0xBF)
      else if b = 0xE0 then Some (2, 0xA0, 0xBF)
      else if b = 0xED then Some (2, 0x80, 0x9F)
      else if 0xE1 \<le> b \<and> b \<le> 0xEF then Some (2, 0x80, 0xBF)
      else if b = 0xF0 then Some (3, 0x90, 0xBF)
      else if 0xF1 \<le> b \<and> b \<le> 0xF3 then Some (3, 0x80, 0xBF)
      else if b = 0xF4 then Some (3, 0x80, 0x8F)
      else None)"

definition cont :: "byte \<Rightarrow> bool" where
  "cont b \<longleftrightarrow> 0x80 \<le> b \<and> b \<le> 0xBF"

fun continues :: "nat \<Rightarrow> byte \<Rightarrow> byte \<Rightarrow> byte list \<Rightarrow> bool" where
  "continues n lo hi [] = False"
| "continues n lo hi (c # cs) = (Suc (length cs) = n \<and> lo \<le> c \<and> c \<le> hi \<and> list_all cont cs)"

text \<open>The length of the valid character a string starts with, 0 when its first byte is invalid.\<close>

fun char_len :: "byte list \<Rightarrow> nat" where
  "char_len [] = 0"
| "char_len (b # bs) =
     (if b < 0x80 then 1
      else case accept b of None \<Rightarrow> 0
      | Some (n, lo, hi) \<Rightarrow> if continues n lo hi (take n bs) then Suc n else 0)"

text \<open>The characters of a string, each by its bytes; an invalid byte is skipped.\<close>

function chars :: "byte list \<Rightarrow> byte list list" where
  "chars [] = []"
| "chars (b # bs) =
     (let n = char_len (b # bs)
      in if n = 0 then chars bs else take n (b # bs) # chars (drop n (b # bs)))"
  by pat_completeness auto
termination by (relation "measure length") auto

fun rune_of :: "byte list \<Rightarrow> nat" where
  "rune_of [a] = unat a"
| "rune_of [a, b] = unat (a AND 0x1F) * 64 + unat (b AND 0x3F)"
| "rune_of [a, b, c] = unat (a AND 0x0F) * 4096 + unat (b AND 0x3F) * 64 + unat (c AND 0x3F)"
| "rune_of [a, b, c, d] = unat (a AND 0x07) * 262144 + unat (b AND 0x3F) * 4096 + unat (c AND 0x3F) * 64 + unat (d AND 0x3F)"
| "rune_of _ = 0"

definition ToValidUTF8 :: "byte list \<Rightarrow> byte list" where
  "ToValidUTF8 s = concat (chars s)"

definition ValidString :: "byte list \<Rightarrow> bool" where
  "ValidString s \<longleftrightarrow> ToValidUTF8 s = s"

text \<open>The code points of \<open>unicode.IsSpace\<close>.\<close>

definition IsSpace :: "nat \<Rightarrow> bool" where
  "IsSpace r \<longleftrightarrow> 9 \<le> r \<and> r \<le> 13 \<or> r = 0x20 \<or> r = 0x85 \<or> r = 0xA0 \<or> r = 0x1680 \<or> 0x2000 \<le> r \<and> r \<le> 0x200A
     \<or> r = 0x2028 \<or> r = 0x2029 \<or> r = 0x202F \<or> r = 0x205F \<or> r = 0x3000"

definition trim_both :: "('a \<Rightarrow> bool) \<Rightarrow> 'a list \<Rightarrow> 'a list" where
  "trim_both p xs = rev (dropWhile p (rev (dropWhile p xs)))"

section \<open>Cleaning\<close>

definition control :: "nat \<Rightarrow> bool" where
  "control r \<longleftrightarrow> r < 0x20 \<or> r = 0x7F"

definition drop_control :: "byte list \<Rightarrow> byte list" where
  "drop_control s = concat (filter (\<lambda>c. \<not> control (rune_of c)) (chars s))"

definition trim_space :: "byte list \<Rightarrow> byte list" where
  "trim_space s = concat (trim_both (\<lambda>c. IsSpace (rune_of c)) (chars s))"

definition Clean :: "byte list \<Rightarrow> byte list" where
  "Clean s =
     (let s = (if \<not> ValidString s then ToValidUTF8 s else s)
      in trim_space (drop_control s))"

section \<open>Calls\<close>

datatype token_error = CallFailed | ShortReturn | BadOffset | OffsetOutOfRange | BadLength | BodyOutOfRange | Unrecognised

text \<open>\<open>CallAtHead\<close> on a contract and call data; \<open>None\<close> is an error of the node.\<close>

type_synonym token_node = "address \<Rightarrow> byte list \<Rightarrow> byte list option"

record TokenMetadata =
  md_symbol :: "byte list"
  md_name :: "byte list"
  md_decimals :: "int option"

definition token_selector :: "hashfn \<Rightarrow> string \<Rightarrow> byte list" where
  "token_selector H sig = take 4 (hash_bytes (H (ascii sig)))"

definition callUint :: "token_node \<Rightarrow> address \<Rightarrow> byte list \<Rightarrow> token_error + nat" where
  "callUint node addr data =
     (case node addr data of None \<Rightarrow> Inl CallFailed
      | Some out \<Rightarrow> if length out < 32 then Inl ShortReturn else Inr (be_nat (take 32 out)))"

text \<open>\<open>out[from:to]\<close>, which panics unless the bounds are ordered and within the slice.\<close>

definition sub_slice :: "byte list \<Rightarrow> u64 \<Rightarrow> u64 \<Rightarrow> byte list option" where
  "sub_slice out f t =
     (if f \<le> t \<and> unat t \<le> length out then Some (take (unat t - unat f) (drop (unat f) out)) else None)"

definition trim_zeros :: "byte list \<Rightarrow> byte list" where
  "trim_zeros out = rev (dropWhile (\<lambda>b. b = 0) (rev out))"

definition string_body :: "byte list \<Rightarrow> u64 \<Rightarrow> byte list \<Rightarrow> (token_error + byte list) option" where
  "string_body out off word =
     (let len = be_nat word
      in if len \<ge> 2 ^ 64 then Some (Inl BadLength)
         else let n = word_of_nat len :: u64;
                  n = (if n > 1024 then 1024 else n);
                  start = off + 32
              in if start + n > word_of_nat (length out) then Some (Inl BodyOutOfRange)
                 else map_option (\<lambda>body. Inr (Clean body)) (sub_slice out start (start + n)))"

definition decode_string :: "byte list \<Rightarrow> (token_error + byte list) option" where
  "decode_string out =
     (if length out = 32 then Some (Inr (Clean (trim_zeros out)))
      else if length out \<ge> 64 then
        (let offset = be_nat (take 32 out)
         in if offset \<ge> 2 ^ 64 then Some (Inl BadOffset)
            else let off = word_of_nat offset :: u64
                 in if off + 32 > word_of_nat (length out) then Some (Inl OffsetOutOfRange)
                    else Option.bind (sub_slice out off (off + 32)) (string_body out off))
      else Some (Inl Unrecognised))"

definition callString :: "token_node \<Rightarrow> address \<Rightarrow> byte list \<Rightarrow> (token_error + byte list) option" where
  "callString node addr data =
     (case node addr data of None \<Rightarrow> Some (Inl CallFailed) | Some out \<Rightarrow> decode_string out)"

definition token_text :: "(token_error + byte list) \<Rightarrow> byte list" where
  "token_text r = (case r of Inl _ \<Rightarrow> [] | Inr s \<Rightarrow> s)"

definition probe_decimals :: "token_error + nat \<Rightarrow> int option" where
  "probe_decimals r = (case r of Inl _ \<Rightarrow> None | Inr d \<Rightarrow> if d < 2 ^ 64 \<and> d \<le> 77 then Some (int d) else None)"

definition Probe :: "hashfn \<Rightarrow> token_node \<Rightarrow> address \<Rightarrow> TokenMetadata option" where
  "Probe H node addr =
     (case callString node addr (token_selector H ''symbol()'') of None \<Rightarrow> None
      | Some symbol \<Rightarrow>
          (case callString node addr (token_selector H ''name()'') of None \<Rightarrow> None
           | Some name \<Rightarrow>
               Some \<lparr>md_symbol = token_text symbol, md_name = token_text name,
                 md_decimals = probe_decimals (callUint node addr (token_selector H ''decimals()''))\<rparr>))"

definition left_pad :: "byte list \<Rightarrow> byte list" where
  "left_pad bs = replicate (32 - length bs) 0 @ bs"

definition BalanceOf :: "hashfn \<Rightarrow> token_node \<Rightarrow> address \<Rightarrow> address \<Rightarrow> token_error + nat" where
  "BalanceOf H node tok account = callUint node tok (token_selector H ''balanceOf(address)'' @ left_pad (addr_bytes account))"

text \<open>The minimal bytes of a \<open>big.Int\<close>.\<close>

fun big_bytes :: "nat \<Rightarrow> byte list" where
  "big_bytes v = (if v = 0 then [] else big_bytes (v div 256) @ [word_of_nat v])"

declare big_bytes.simps [simp del]

definition BalanceOf1155 :: "hashfn \<Rightarrow> token_node \<Rightarrow> address \<Rightarrow> address \<Rightarrow> nat \<Rightarrow> token_error + nat" where
  "BalanceOf1155 H node tok account tid =
     callUint node tok (token_selector H ''balanceOf(address,uint256)'' @ left_pad (addr_bytes account) @ left_pad (big_bytes tid))"

section \<open>Characters\<close>

definition is_char :: "byte list \<Rightarrow> bool" where
  "is_char c \<longleftrightarrow> c \<noteq> [] \<and> char_len c = length c"

lemma continues_length: "continues n lo hi cs \<Longrightarrow> length cs = n"
  by (cases cs) auto

lemma char_len_le: "char_len s \<le> length s"
  by (cases s) (auto dest!: continues_length split: option.splits)

lemma char_len_append: "0 < char_len c \<Longrightarrow> char_len (c @ t) = char_len c"
  by (cases c) (auto dest: continues_length split: option.splits if_splits)

lemma is_char_take: "0 < char_len s \<Longrightarrow> is_char (take (char_len s) s)"
  by (cases s) (auto simp: is_char_def dest: continues_length split: option.splits if_splits)

lemma chars_append: "is_char c \<Longrightarrow> chars (c @ t) = c # chars t"
  using char_len_append [of c t] by (cases c) (auto simp: is_char_def Let_def)

lemma chars_concat: "list_all is_char cs \<Longrightarrow> chars (concat cs) = cs"
  by (induction cs) (auto simp: chars_append)

lemma chars_are_chars: "list_all is_char (chars s)"
  by (induction s rule: chars.induct) (auto simp: Let_def simp del: char_len.simps intro: is_char_take)

lemma dropWhile_idem [simp]: "dropWhile p (dropWhile p xs) = dropWhile p xs"
  by (induction xs) auto

lemma trim_both_set: "set (trim_both p xs) \<subseteq> set xs"
  unfolding trim_both_def by (auto dest!: set_dropWhileD)

lemma trim_both_ends:
  assumes "trim_both p xs \<noteq> []"
  shows "\<not> p (hd (trim_both p xs))" and "\<not> p (last (trim_both p xs))"
proof -
  define ys where "ys = dropWhile p xs"
  have t: "trim_both p xs = rev (dropWhile p (rev ys))" by (simp add: trim_both_def ys_def)
  have ne: "dropWhile p (rev ys) \<noteq> []" using assms t by simp
  show "\<not> p (last (trim_both p xs))" using hd_dropWhile [OF ne] ne by (simp add: t last_rev)
  have "ys \<noteq> []" using ne by auto
  then have hd: "\<not> p (hd ys)" using hd_dropWhile [of p xs] by (simp add: ys_def)
  have "takeWhile p (rev ys) @ dropWhile p (rev ys) = rev ys" by simp
  then have "ys = trim_both p xs @ rev (takeWhile p (rev ys))" unfolding t by (metis rev_append rev_rev_ident)
  then have "hd ys = hd (trim_both p xs)" using assms by (metis hd_append2)
  then show "\<not> p (hd (trim_both p xs))" using hd by simp
qed

lemma trim_both_id: "xs = [] \<or> \<not> p (hd xs) \<and> \<not> p (last xs) \<Longrightarrow> trim_both p xs = xs"
  by (auto simp: trim_both_def dropWhile_eq_self_iff [THEN iffD2] hd_rev)

lemma trim_both_idem: "trim_both p (trim_both p xs) = trim_both p xs"
  by (rule trim_both_id) (use trim_both_ends in blast)

text \<open>The characters that survive.\<close>

definition kept :: "byte list \<Rightarrow> byte list list" where
  "kept s = trim_both (\<lambda>c. IsSpace (rune_of c)) (filter (\<lambda>c. \<not> control (rune_of c)) (chars s))"

lemma chars_ToValidUTF8: "chars (ToValidUTF8 s) = chars s"
  by (simp add: ToValidUTF8_def chars_concat chars_are_chars)

lemma kept_chars: "list_all is_char (kept s)"
  using trim_both_set chars_are_chars unfolding kept_def by (fastforce simp: list_all_iff)

lemma Clean_kept: "Clean s = concat (kept s)"
proof -
  have "chars (drop_control t) = filter (\<lambda>c. \<not> control (rune_of c)) (chars t)" for t
    unfolding drop_control_def using chars_are_chars [of t] by (intro chars_concat) (auto simp: list_all_iff)
  then show ?thesis by (simp add: Clean_def trim_space_def kept_def chars_ToValidUTF8 Let_def)
qed

lemma chars_Clean: "chars (Clean s) = kept s"
  by (simp add: Clean_kept chars_concat kept_chars)

lemma kept_not_control: "c \<in> set (kept s) \<Longrightarrow> \<not> control (rune_of c)"
  using trim_both_set unfolding kept_def by fastforce

lemma kept_ends: "kept s \<noteq> [] \<Longrightarrow> \<not> IsSpace (rune_of (hd (kept s))) \<and> \<not> IsSpace (rune_of (last (kept s)))"
  unfolding kept_def using trim_both_ends by blast

lemma Clean_idem: "Clean (Clean s) = Clean s"
proof -
  have "filter (\<lambda>c. \<not> control (rune_of c)) (kept s) = kept s"
    by (simp add: filter_id_conv kept_not_control)
  then have "kept (Clean s) = kept s"
    unfolding kept_def [of "Clean s"] chars_Clean using trim_both_id kept_ends by metis
  then show ?thesis by (simp add: Clean_kept)
qed

lemma continues_high: "\<lbrakk>continues n lo hi cs; 0x80 \<le> lo; x \<in> set cs\<rbrakk> \<Longrightarrow> 0x80 \<le> x"
  by (cases cs) (auto simp: list_all_iff cont_def)

lemma char_bytes:
  assumes "is_char c"
  shows "(\<exists>b. c = [b] \<and> b < 0x80) \<or> (\<forall>b \<in> set c. 0x80 \<le> b)"
proof (cases c)
  case (Cons b bs)
  show ?thesis
  proof (cases "b < 0x80")
    case True
    then show ?thesis using assms Cons by (auto simp: is_char_def)
  next
    case False
    then obtain n lo hi where a: "accept b = Some (n, lo, hi)" "continues n lo hi (take n bs)" "n = length bs"
      using assms Cons by (auto simp: is_char_def split: option.splits if_splits)
    have "0x80 \<le> lo" using a(1) by (auto simp: accept_def split: if_splits)
    then show ?thesis using continues_high [OF a(2)] a(3) False Cons by auto
  qed
qed (use assms in \<open>simp add: is_char_def\<close>)

text \<open>C35: What a contract's name or symbol becomes: valid UTF-8 without ASCII control bytes or DEL, with no
  white space at either end; cleaning it again changes nothing.\<close>

theorem Clean_is_safe:
  "ValidString (Clean s) \<and> (\<forall>b \<in> set (Clean s). 0x20 \<le> b \<and> b \<noteq> 0x7F)
     \<and> (chars (Clean s) = [] \<or> \<not> IsSpace (rune_of (hd (chars (Clean s)))) \<and> \<not> IsSpace (rune_of (last (chars (Clean s)))))
     \<and> Clean (Clean s) = Clean s"
proof (intro conjI ballI)
  show "ValidString (Clean s)" by (simp add: ValidString_def ToValidUTF8_def chars_Clean) (simp add: Clean_kept)
  show "Clean (Clean s) = Clean s" by (rule Clean_idem)
  show "chars (Clean s) = [] \<or> \<not> IsSpace (rune_of (hd (chars (Clean s)))) \<and> \<not> IsSpace (rune_of (last (chars (Clean s))))"
    using kept_ends by (auto simp: chars_Clean)
  fix b assume "b \<in> set (Clean s)"
  then obtain c where c: "c \<in> set (kept s)" "b \<in> set c" by (auto simp: Clean_kept)
  then have "is_char c" using kept_chars by (auto simp: list_all_iff)
  note cb = char_bytes [OF this]
  have k: "\<not> control (rune_of c)" using kept_not_control c by blast
  show "0x20 \<le> b"
  proof (cases "c = [b]")
    case True
    then show ?thesis using k by (simp add: control_def word_le_nat_alt)
  next
    case False
    then have "0x80 \<le> b" using cb c by auto
    then show ?thesis by (simp add: word_le_nat_alt)
  qed
  show "b \<noteq> 0x7F"
  proof
    assume "b = 0x7F"
    then have "c = [b]" using cb c by (auto simp: word_le_nat_alt)
    then show False using k \<open>b = 0x7F\<close> by (simp add: control_def)
  qed
qed

lemma demo_clean: "Clean [0x20, 0x44, 0x1B, 0xFF, 0x41, 0x0A] = [0x44, 0x41]"
  by code_simp

theorem Clean_is_safe_witness:
  "ValidString [0x44, 0x41] \<and> Clean [0x44, 0x41] = [0x44, 0x41]"
  using Clean_is_safe [of "[0x20, 0x44, 0x1B, 0xFF, 0x41, 0x0A]"] by (simp add: demo_clean)

section \<open>Decoding a string\<close>

text \<open>\<open>AppendSpecialCase\<close> aside, the ABI encodes one string as its offset, its length and its padded bytes.\<close>

definition abi_string :: "byte list \<Rightarrow> byte list" where
  "abi_string s = nat_be 32 32 @ nat_be 32 (length s) @ s @ replicate ((32 - length s mod 32) mod 32) 0"

lemma sub_slice_Some: "\<lbrakk>unat f \<le> unat t; unat t \<le> length out\<rbrakk> \<Longrightarrow> sub_slice out f t = Some (take (unat t - unat f) (drop (unat f) out))"
  by (simp add: sub_slice_def word_le_nat_alt)

lemma unat_small: "n < 2 ^ 64 \<Longrightarrow> unat (word_of_nat n :: u64) = n"
  by (simp add: unat_of_nat take_bit_nat_eq_self)

lemma string_body_reads:
  assumes "length out < 2 ^ 63" "unat off + 32 \<le> length out" "be_nat w < 2 ^ 64"
  shows "string_body out off w =
    (let n = min (be_nat w) 1024 in if unat off + 32 + n > length out then Some (Inl BodyOutOfRange)
       else Some (Inr (Clean (take n (drop (unat off + 32) out)))))"
proof -
  define n where "n = min (be_nat w) 1024"
  have wn: "(if (word_of_nat (be_nat w) :: u64) > 1024 then 1024 else word_of_nat (be_nat w)) = (word_of_nat n :: u64)"
    using assms(3) by (auto simp: n_def min_def word_less_nat_alt unat_small)
  have st: "unat (off + 32) = unat off + 32"
    using assms(1,2) by (simp add: unat_add_lem [THEN iffD1])
  have un: "unat (word_of_nat n :: u64) = n" by (simp add: n_def unat_small)
  have en: "unat (off + 32 + word_of_nat n) = unat off + 32 + n"
    using assms(1,2) st un by (subst unat_add_lem [THEN iffD1]) (auto simp: n_def)
  show ?thesis
    unfolding string_body_def Let_def wn n_def [symmetric]
    using assms(1,3) st en by (simp add: word_less_nat_alt unat_small sub_slice_Some not_less)
qed

text \<open>C36: A conforming reply is read back: the string, cleaned, or the first 1024 bytes of a longer one.\<close>

theorem decode_string_reads_abi:
  assumes "length s < 2 ^ 60"
  shows "decode_string (abi_string s) = Some (Inr (Clean (take 1024 s)))"
proof -
  define out where "out = abi_string s"
  have len: "64 + length s \<le> length out" "length out < 2 ^ 63" "length out \<noteq> 32" using assms by (auto simp: out_def abi_string_def)
  have off: "be_nat (take 32 out) = 32" by (simp add: out_def abi_string_def be_simps)
  have w: "take 32 (drop 32 out) = nat_be 32 (length s)" by (simp add: out_def abi_string_def)
  have l: "be_nat (nat_be 32 (length s)) = length s" using assms by (simp add: be_simps)
  have body: "take n (drop 64 out) = take n s" if "n \<le> length s" for n
    using that by (simp add: out_def abi_string_def)
  have "sub_slice out 32 64 = Some (nat_be 32 (length s))" using len w by (simp add: sub_slice_Some)
  then show ?thesis using assms len
    by (simp add: decode_string_def Let_def out_def [symmetric] off word_less_nat_alt unat_small string_body_reads l body)
      (auto simp: min_def)
qed

theorem decode_string_reads_abi_witness:
  "decode_string (abi_string [0x44, 0x41, 0x49]) = Some (Inr (Clean [0x44, 0x41, 0x49]))"
  using decode_string_reads_abi [of "[0x44, 0x41, 0x49]"] by simp

text \<open>The bound check on the offset adds 32 to it; the last 32 values of a \<open>uint64\<close> wrap around and pass.\<close>

definition hostile_offset :: "byte list \<Rightarrow> bool" where
  "hostile_offset out \<longleftrightarrow> 64 \<le> length out \<and> 2 ^ 64 - 32 \<le> be_nat (take 32 out) \<and> be_nat (take 32 out) < 2 ^ 64"

lemma decode_string_None:
  assumes "length out < 2 ^ 63"
  shows "decode_string out = None \<longleftrightarrow> hostile_offset out"
proof -
  define k where "k = be_nat (take 32 out)"
  define off where "off = (word_of_nat k :: u64)"
  consider "length out < 64" | "64 \<le> length out" "2 ^ 64 \<le> k" | "64 \<le> length out" "k < 2 ^ 64 - 32"
    | "64 \<le> length out" "2 ^ 64 - 32 \<le> k" "k < 2 ^ 64" by linarith
  then show ?thesis
  proof cases
    case 3
    have u: "unat off = k" "unat (off + 32) = k + 32"
      using 3 by (auto simp: off_def unat_small unat_add_lem [THEN iffD1])
    have "string_body out off w \<noteq> None" if "k + 32 \<le> length out" for w
      using that assms u string_body_reads [of out off w] by (cases "be_nat w < 2 ^ 64") (simp_all add: Let_def, simp add: string_body_def)
    then show ?thesis using 3 assms u
      by (auto simp: decode_string_def hostile_offset_def Let_def k_def [symmetric] off_def [symmetric] word_less_nat_alt unat_small sub_slice_Some not_less)
  next
    case 4
    have u: "unat off = k" using 4 by (simp add: off_def unat_small)
    have w: "unat (off + 32) = k + 32 - 2 ^ 64" using 4 u by (simp add: unat_word_ariths le_mod_geq)
    have "sub_slice out off (off + 32) = None" using 4 u w by (simp add: sub_slice_def word_le_nat_alt)
    then show ?thesis using 4 assms w
      by (auto simp: decode_string_def hostile_offset_def Let_def k_def [symmetric] off_def [symmetric] word_less_nat_alt unat_small not_less)
  qed (auto simp: decode_string_def hostile_offset_def Let_def k_def)
qed

text \<open>C29: The probe panics exactly when the contract answers \<open>symbol()\<close> or \<open>name()\<close> with at least 64 bytes
  whose offset is one of the last 32 values of a \<open>uint64\<close>. Every other reply is decoded or refused, so
  these are the replies with which a contract brings down whoever asks for its name.\<close>

theorem Probe_panics_on_wrap:
  assumes "\<And>data out. node addr data = Some out \<Longrightarrow> length out < 2 ^ 63"
  shows "Probe H node addr = None
    \<longleftrightarrow> (\<exists>out. (node addr (token_selector H ''symbol()'') = Some out \<or> node addr (token_selector H ''name()'') = Some out) \<and> hostile_offset out)"
proof -
  have cn: "callString node addr data = None \<longleftrightarrow> (\<exists>out. node addr data = Some out \<and> hostile_offset out)" for data
    using assms decode_string_None by (auto simp: callString_def split: option.splits)
  have pr: "Probe H node addr = None \<longleftrightarrow>
      callString node addr (token_selector H ''symbol()'') = None \<or> callString node addr (token_selector H ''name()'') = None"
    by (auto simp: Probe_def split: option.splits)
  show ?thesis unfolding pr cn by blast
qed

definition wrapping_reply :: "byte list" where
  "wrapping_reply = nat_be 32 (2 ^ 64 - 32) @ replicate 32 0"

theorem Probe_panics_on_wrap_witness:
  "Probe (\<lambda>_. 0) (\<lambda>_ _. Some wrapping_reply) 1 = None"
proof -
  have "length wrapping_reply = 64" "be_nat (take 32 wrapping_reply) = 2 ^ 64 - 32" by (simp_all add: wrapping_reply_def be_simps)
  then show ?thesis using Probe_panics_on_wrap [of "\<lambda>_ _. Some wrapping_reply" 1 "\<lambda>_. 0"] by (simp add: hostile_offset_def)
qed

text \<open>A C1 control such as CSI is a valid character above the ASCII range and is kept.\<close>

lemma Clean_keeps_c1: "Clean [0xC2, 0x9B, 0x33, 0x31, 0x6D] = [0xC2, 0x9B, 0x33, 0x31, 0x6D]"
  by code_simp

end
