(* ===== verification/Lens.thy ===== *)
theory Lens
  imports Token Chain EvmLog "HOL-Library.Log_Nat"
begin

text \<open>
  The batched read of an account's position: \<open>Query\<close>, \<open>splitIDs\<close> and the views of
  \<open>internal/lens/lens.go\<close> on the records of \<open>wire.go\<close>. The ABI codec and the node are arguments; the
  node is asked with the number of the call, so its head may move between two calls. What the
  contract answers (\<open>contracts/src/AssetLens.sol\<close>) is stated in \<open>reply\<close>. A panic is the outer \<open>None\<close>.
\<close>

section \<open>Data\<close>

definition MaxReplyBytes :: nat where "MaxReplyBytes = 24576"
definition MaxPayloadBytes :: nat where "MaxPayloadBytes = 49152"
definition LensTokensPerCall :: nat where "LensTokensPerCall = 24"

record TokenQuery =
  tq_token :: address
  tq_ids :: "nat list"

record LensRequest =
  lr_account :: address
  lr_tokens :: "TokenQuery list"
  lr_spenders :: "address list"
  lr_include_uri :: bool
  lr_include_code :: bool
  lr_enumerate :: u64
  lr_gas_per_call :: u64
  lr_max_string :: u64
  lr_tokens_per_call :: int
  lr_skip_nonce :: bool

record LensAccount =
  la_address :: address
  la_balance :: nat
  la_code_hash :: hash
  la_code_size :: u64
  la_is_contract :: bool
  la_is_delegated :: bool
  la_delegate :: address
  la_code :: "byte list"
  la_nonce :: u64
  la_nonce_known :: bool

record Allowance =
  aw_spender :: address
  aw_amount :: "nat option"
  aw_approved_for_all :: bool

record TokenID =
  ti_id :: nat
  ti_owner :: "address option"
  ti_balance :: "nat option"
  ti_approved :: "address option"
  ti_uri :: "byte list"
  ti_uri_truncated :: bool

record LensToken =
  lt_address :: address
  lt_is_contract :: bool
  lt_standard :: byte
  lt_supports_erc165 :: bool
  lt_is_erc721 :: bool
  lt_is_erc1155 :: bool
  lt_is_enumerable :: bool
  lt_symbol :: "byte list"
  lt_name :: "byte list"
  lt_decimals :: "int option"
  lt_total_supply :: "nat option"
  lt_balance :: "nat option"
  lt_allowances :: "Allowance list"
  lt_ids :: "TokenID list"

definition lens_metadata :: "LensToken \<Rightarrow> TokenMetadata" where
  "lens_metadata t = \<lparr>md_symbol = lt_symbol t, md_name = lt_name t, md_decimals = lt_decimals t\<rparr>"

record LensResult =
  ls_chain_id :: u64
  ls_block :: u64
  ls_parent :: hash
  ls_timestamp :: u64
  ls_base_fee :: nat
  ls_account :: LensAccount
  ls_tokens :: "LensToken list"
  ls_calls :: nat
  ls_atomic :: bool

text \<open>The wire records of \<open>wire.go\<close>.\<close>

record wireChainInfo =
  wc_chain_id :: nat
  wc_block :: nat
  wc_parent :: hash
  wc_timestamp :: nat
  wc_base_fee :: nat

record wireAccountInfo =
  wa_account :: address
  wa_balance :: nat
  wa_code_hash :: hash
  wa_code_size :: nat
  wa_is_contract :: bool
  wa_is_delegated :: bool
  wa_delegate :: address
  wa_code :: "byte list"

record wireTokenIdInfo =
  wi_id :: nat
  wi_owner :: address
  wi_owner_known :: bool
  wi_balance :: nat
  wi_balance_known :: bool
  wi_approved :: address
  wi_approved_known :: bool
  wi_uri :: "byte list"
  wi_uri_truncated :: bool

record wireTokenInfo =
  wt_token :: address
  wt_is_contract :: bool
  wt_standard :: byte
  wt_supports_erc165 :: bool
  wt_is_erc721 :: bool
  wt_is_erc1155 :: bool
  wt_is_enumerable :: bool
  wt_symbol :: "byte list"
  wt_name :: "byte list"
  wt_decimals :: byte
  wt_has_decimals :: bool
  wt_total_supply :: nat
  wt_has_total_supply :: bool
  wt_balance :: nat
  wt_has_balance :: bool
  wt_allowances :: "nat list"
  wt_allowance_known :: "bool list"
  wt_approved_for_all :: "bool list"
  wt_ids :: "wireTokenIdInfo list"

record wireResult =
  wr_chain :: wireChainInfo
  wr_account :: wireAccountInfo
  wr_tokens :: "wireTokenInfo list"

record wireRequest =
  wq_account :: address
  wq_spenders :: "address list"
  wq_tokens :: "TokenQuery list"
  wq_include_uri :: bool
  wq_include_code :: bool
  wq_enumerate :: nat
  wq_gas_per_call :: nat
  wq_max_string :: nat

section \<open>One call\<close>

datatype lens_error = PayloadTooBig nat | CallError string

definition lensNeedles :: "string list" where
  "lensNeedles =
    [''max code size exceeded'', ''max initcode size exceeded'', ''code size'',
     ''out of gas'', ''gas required exceeds'', ''exceeds block gas limit'',
     ''intrinsic gas'', ''response size'', ''returned more than'', ''-32005'']"

fun tooBig :: "lens_error \<Rightarrow> bool" where
  "tooBig (PayloadTooBig _) = True"
| "tooBig (CallError s) = contains_any (to_lower s) lensNeedles"

text \<open>The codec, the node by number of the call, the context and the nonce read.\<close>

record lens_env =
  le_encode :: "wireRequest \<Rightarrow> string + byte list"
  le_call :: "nat \<Rightarrow> byte list \<Rightarrow> string + byte list"
  le_decode :: "byte list \<Rightarrow> string + wireResult"
  le_cancelled :: "nat \<Rightarrow> bool"
  le_nonce :: "u64 option"

definition callOnce :: "lens_env \<Rightarrow> LensRequest \<Rightarrow> nat \<Rightarrow> TokenQuery list \<Rightarrow> lens_error + wireResult" where
  "callOnce E rq k tokens =
     (case le_encode E \<lparr>wq_account = lr_account rq, wq_spenders = lr_spenders rq, wq_tokens = tokens,
          wq_include_uri = lr_include_uri rq, wq_include_code = lr_include_code rq,
          wq_enumerate = unat (lr_enumerate rq), wq_gas_per_call = unat (lr_gas_per_call rq),
          wq_max_string = unat (lr_max_string rq)\<rparr> of
        Inl e \<Rightarrow> Inl (CallError e)
      | Inr payload \<Rightarrow>
          if length payload > MaxPayloadBytes then Inl (PayloadTooBig (length payload))
          else case le_call E k payload of
            Inl e \<Rightarrow> Inl (CallError e)
          | Inr ret \<Rightarrow> (case le_decode E ret of Inl e \<Rightarrow> Inl (CallError e) | Inr w \<Rightarrow> Inr w))"

section \<open>From the wire to the view\<close>

definition wire_u64 :: "nat \<Rightarrow> u64" where
  "wire_u64 v = (if v < 2 ^ 64 then word_of_nat v else 0)"

definition lens_view :: "wireResult \<Rightarrow> LensResult" where
  "lens_view w =
     (let c = wr_chain w; a = wr_account w
      in \<lparr>ls_chain_id = wire_u64 (wc_chain_id c), ls_block = wire_u64 (wc_block c), ls_parent = wc_parent c,
          ls_timestamp = wire_u64 (wc_timestamp c), ls_base_fee = wc_base_fee c,
          ls_account = \<lparr>la_address = wa_account a, la_balance = wa_balance a, la_code_hash = wa_code_hash a,
            la_code_size = wire_u64 (wa_code_size a), la_is_contract = wa_is_contract a,
            la_is_delegated = wa_is_delegated a, la_delegate = wa_delegate a, la_code = wa_code a,
            la_nonce = 0, la_nonce_known = False\<rparr>,
          ls_tokens = [], ls_calls = 0, ls_atomic = True\<rparr>)"

definition view_id :: "wireTokenIdInfo \<Rightarrow> TokenID" where
  "view_id d = \<lparr>ti_id = wi_id d,
     ti_owner = (if wi_owner_known d then Some (wi_owner d) else None),
     ti_balance = (if wi_balance_known d then Some (wi_balance d) else None),
     ti_approved = (if wi_approved_known d then Some (wi_approved d) else None),
     ti_uri = Clean (wi_uri d), ti_uri_truncated = wi_uri_truncated d\<rparr>"

text \<open>One spender; \<open>t.Allowances[j]\<close> panics when only the flags are long enough.\<close>

definition view_allowance :: "wireTokenInfo \<Rightarrow> nat \<Rightarrow> address \<Rightarrow> Allowance option" where
  "view_allowance t j spender =
     (let approved = (j < length (wt_approved_for_all t) \<and> wt_approved_for_all t ! j)
      in if j < length (wt_allowance_known t) \<and> wt_allowance_known t ! j then
           if j < length (wt_allowances t) then Some \<lparr>aw_spender = spender, aw_amount = Some (wt_allowances t ! j), aw_approved_for_all = approved\<rparr>
           else None
         else Some \<lparr>aw_spender = spender, aw_amount = None, aw_approved_for_all = approved\<rparr>)"

definition viewToken :: "wireTokenInfo \<Rightarrow> address list \<Rightarrow> LensToken option" where
  "viewToken t spenders =
     map_option (\<lambda>allowances.
       \<lparr>lt_address = wt_token t, lt_is_contract = wt_is_contract t, lt_standard = wt_standard t,
        lt_supports_erc165 = wt_supports_erc165 t, lt_is_erc721 = wt_is_erc721 t, lt_is_erc1155 = wt_is_erc1155 t,
        lt_is_enumerable = wt_is_enumerable t, lt_symbol = Clean (wt_symbol t), lt_name = Clean (wt_name t),
        lt_decimals = (if wt_has_decimals t then Some (int (unat (wt_decimals t))) else None),
        lt_total_supply = (if wt_has_total_supply t then Some (wt_total_supply t) else None),
        lt_balance = (if wt_has_balance t then Some (wt_balance t) else None),
        lt_allowances = allowances, lt_ids = map view_id (wt_ids t)\<rparr>)
     (those (map (\<lambda>(j, s). view_allowance t j s) (enumerate 0 spenders)))"

section \<open>The plan\<close>

record planned =
  pl_query :: TokenQuery
  pl_at :: nat

definition splitIDs :: "planned list \<Rightarrow> nat \<Rightarrow> planned list" where
  "splitIDs plans i =
     (let p = plans ! i; ids = tq_ids (pl_query p); half = length ids div 2;
          left = p\<lparr>pl_query := (pl_query p)\<lparr>tq_ids := take half ids\<rparr>\<rparr>;
          right = p\<lparr>pl_query := (pl_query p)\<lparr>tq_ids := drop half ids\<rparr>\<rparr>
      in take i plans @ [left, right] @ drop (Suc i) plans)"

definition put_token :: "nat \<Rightarrow> LensToken \<Rightarrow> LensToken option list \<Rightarrow> LensToken option list" where
  "put_token pos tok merged =
     merged[pos := Some (case merged ! pos of None \<Rightarrow> tok | Some t \<Rightarrow> t\<lparr>lt_ids := lt_ids t @ lt_ids tok\<rparr>)]"

text \<open>The answers of one call, from the plan at position \<open>k\<close> on; \<open>plans[i+j]\<close> panics past the plan.\<close>

fun merge_tokens :: "address list \<Rightarrow> planned list \<Rightarrow> nat \<Rightarrow> wireTokenInfo list \<Rightarrow> LensToken option list \<Rightarrow> LensToken option list option" where
  "merge_tokens spenders plans k [] merged = Some merged"
| "merge_tokens spenders plans k (wt # wts) merged =
     (if k \<ge> length plans then None
      else case viewToken wt spenders of None \<Rightarrow> None
      | Some tok \<Rightarrow> merge_tokens spenders plans (Suc k) wts (put_token (pl_at (plans ! k)) tok merged))"

datatype lens_failure = LensCancelled | LensFailed nat nat lens_error

text \<open>What is known of the result: the view of the first reply with its chain record.\<close>

type_synonym lens_acc = "(LensResult \<times> wireChainInfo) option"

definition note_reply :: "wireResult \<Rightarrow> lens_acc \<Rightarrow> lens_acc" where
  "note_reply w out =
     (case out of None \<Rightarrow> Some (lens_view w, wr_chain w)
      | Some (r, first) \<Rightarrow>
          if wc_block (wr_chain w) \<noteq> wc_block first \<or> wc_parent (wr_chain w) \<noteq> wc_parent first
          then Some (r\<lparr>ls_atomic := False\<rparr>, first) else out)"

definition id_weight :: "planned \<Rightarrow> nat" where
  "id_weight p = 2 * max 1 (length (tq_ids (pl_query p))) - 1"

definition weight :: "planned list \<Rightarrow> nat" where
  "weight ps = sum_list (map id_weight ps)"

lemma weight_simps [simp]: "weight [] = 0" "weight (p # ps) = id_weight p + weight ps" "weight (ps @ qs) = weight ps + weight qs"
  by (auto simp: weight_def)

lemma id_weight_pos: "0 < id_weight p"
  by (simp add: id_weight_def)

lemma weight_drop:
  assumes "i < length plans" "0 < n" shows "weight (drop (i + n) plans) < weight (drop i plans)"
proof -
  have "drop i plans = plans ! i # drop (Suc i) plans" using assms(1) by (simp add: Cons_nth_drop_Suc)
  moreover have "weight (drop (n - 1) ps) \<le> weight ps" for ps :: "planned list"
    using weight_simps(3) [of "take (n - 1) ps" "drop (n - 1) ps"] by simp
  from this [of "drop (Suc i) plans"] have "weight (drop (i + n) plans) \<le> weight (drop (Suc i) plans)"
    using assms(2) by (simp add: add.commute)
  ultimately show ?thesis using id_weight_pos [of "plans ! i"] by simp
qed

lemma weight_pos: "i < length plans \<Longrightarrow> 0 < weight (drop i plans)"
  using weight_drop [of i plans 1] by simp

definition halves :: "planned \<Rightarrow> planned \<times> planned" where
  "halves p =
     (let ids = tq_ids (pl_query p); half = length ids div 2
      in (p\<lparr>pl_query := (pl_query p)\<lparr>tq_ids := take half ids\<rparr>\<rparr>, p\<lparr>pl_query := (pl_query p)\<lparr>tq_ids := drop half ids\<rparr>\<rparr>))"

lemma splitIDs_rest:
  assumes "i < length plans"
  shows "drop i (splitIDs plans i) = fst (halves (plans ! i)) # snd (halves (plans ! i)) # drop (Suc i) plans"
    and "i < length (splitIDs plans i)"
  using assms by (simp_all add: splitIDs_def halves_def Let_def)

lemma weight_split:
  assumes "i < length plans" "1 < length (tq_ids (pl_query (plans ! i)))"
  shows "weight (drop i (splitIDs plans i)) < weight (drop i plans)"
proof -
  define p where "p = plans ! i"
  define h where "h = length (tq_ids (pl_query p)) div 2"
  define k where "k = length (tq_ids (pl_query p)) - h"
  have hk: "length (tq_ids (pl_query p)) = h + k" "0 < h" "0 < k" using assms(2) by (auto simp: p_def h_def k_def)
  have ls: "length (tq_ids (pl_query (fst (halves p)))) = h" "length (tq_ids (pl_query (snd (halves p)))) = k"
    by (simp_all add: halves_def Let_def h_def k_def)
  have "id_weight (fst (halves p)) = 2 * h - 1" "id_weight (snd (halves p)) = 2 * k - 1" "id_weight p = 2 * (h + k) - 1"
    using hk ls by (auto simp: id_weight_def)
  moreover have "drop i plans = p # drop (Suc i) plans" using assms(1) by (simp add: Cons_nth_drop_Suc p_def)
  ultimately show ?thesis using splitIDs_rest(1) [OF assms(1)] hk(2,3) by (simp add: p_def)
qed

function lens_loop ::
    "lens_env \<Rightarrow> LensRequest \<Rightarrow> planned list \<Rightarrow> nat \<Rightarrow> nat \<Rightarrow> nat \<Rightarrow> lens_acc \<Rightarrow> LensToken option list
     \<Rightarrow> (lens_failure + lens_acc \<times> LensToken option list \<times> nat) option" where
  "lens_loop E rq plans i batch calls out merged =
     (if i < length plans \<or> i = 0 then
        let n = min batch (length plans - i)
        in case callOnce E rq calls (map pl_query (take n (drop i plans))) of
             Inl e \<Rightarrow>
               if le_cancelled E calls then Some (Inl LensCancelled)
               else if tooBig e \<and> n > 1 then lens_loop E rq plans i (max 1 (n div 2)) (calls + 1) out merged
               else if tooBig e \<and> i \<ge> length plans then None
               else if tooBig e \<and> length (tq_ids (pl_query (plans ! i))) > 1 then
                 lens_loop E rq (splitIDs plans i) i batch (calls + 1) out merged
               else Some (Inl (LensFailed n i e))
           | Inr w \<Rightarrow>
               (case merge_tokens (lr_spenders rq) plans i (wr_tokens w) merged of None \<Rightarrow> None
                | Some merged' \<Rightarrow>
                    if n = 0 then Some (Inr (note_reply w out, merged', calls + 1))
                    else lens_loop E rq plans (i + n) batch (calls + 1) (note_reply w out) merged')
      else Some (Inr (out, merged, calls)))"
  by pat_completeness auto
termination
  by (relation "measures [\<lambda>(E, rq, plans, i, batch, calls, out, merged). weight (drop i plans),
      \<lambda>(E, rq, plans, i, batch, calls, out, merged). batch]")
    (auto simp: min_def weight_drop weight_pos weight_split not_le split: if_splits)

declare lens_loop.simps [simp del]

definition QueryAssets :: "lens_env \<Rightarrow> LensRequest \<Rightarrow> (lens_failure + LensResult) option" where
  "QueryAssets E rq =
     (let batch = (if lr_tokens_per_call rq \<le> 0 then LensTokensPerCall else nat (lr_tokens_per_call rq));
          plans = map (\<lambda>(i, t). \<lparr>pl_query = t, pl_at = i\<rparr>) (enumerate 0 (lr_tokens rq))
      in case lens_loop E rq plans 0 batch 0 None (replicate (length (lr_tokens rq)) None) of
           None \<Rightarrow> None
         | Some (Inl e) \<Rightarrow> Some (Inl e)
         | Some (Inr (out, merged, calls)) \<Rightarrow>
             (case (out, those merged) of
                (Some (r, first), Some tokens) \<Rightarrow>
                  let r = r\<lparr>ls_tokens := tokens, ls_calls := calls\<rparr>
                  in Some (Inr (case (if lr_skip_nonce rq then None else le_nonce E) of None \<Rightarrow> r
                       | Some nonce \<Rightarrow> r\<lparr>ls_account := (ls_account r)\<lparr>la_nonce := nonce, la_nonce_known := True\<rparr>\<rparr>))
              | _ \<Rightarrow> None))"

section \<open>What a conforming node answers\<close>

text \<open>The contract run at one block: the chain and account records, what a token says of itself, and of each id.\<close>

record lens_block =
  lb_chain :: wireChainInfo
  lb_account :: wireAccountInfo
  lb_facts :: "address \<Rightarrow> wireTokenInfo"
  lb_one :: "address \<Rightarrow> nat \<Rightarrow> wireTokenIdInfo"
  lb_enum :: "address \<Rightarrow> wireTokenIdInfo list"

definition answer_ids :: "lens_block \<Rightarrow> TokenQuery \<Rightarrow> wireTokenIdInfo list" where
  "answer_ids b q =
     (if \<not> wt_is_contract (lb_facts b (tq_token q)) then []
      else if tq_ids q = [] then lb_enum b (tq_token q) else map (lb_one b (tq_token q)) (tq_ids q))"

definition answer :: "lens_block \<Rightarrow> TokenQuery \<Rightarrow> wireTokenInfo" where
  "answer b q = (lb_facts b (tq_token q))\<lparr>wt_token := tq_token q, wt_ids := answer_ids b q\<rparr>"

definition reply :: "lens_block \<Rightarrow> TokenQuery list \<Rightarrow> wireResult" where
  "reply b qs = \<lparr>wr_chain = lb_chain b, wr_account = lb_account b, wr_tokens = map (answer b) qs\<rparr>"

text \<open>The queries a request can be cut into: its tokens, with some of their ids.\<close>

definition part_of :: "LensRequest \<Rightarrow> TokenQuery \<Rightarrow> bool" where
  "part_of rq q \<longleftrightarrow> (\<exists>t \<in> set (lr_tokens rq). tq_token q = tq_token t \<and> set (tq_ids q) \<subseteq> set (tq_ids t))"

text \<open>Whatever succeeds as call \<open>k\<close> is the answer of block \<open>bl k\<close>, with one allowance per spender.\<close>

definition answers_as :: "lens_env \<Rightarrow> LensRequest \<Rightarrow> (nat \<Rightarrow> lens_block) \<Rightarrow> bool" where
  "answers_as E rq bl \<longleftrightarrow>
     (\<forall>k. \<forall>a. length (lr_spenders rq) \<le> length (wt_allowances (lb_facts (bl k) a)))
     \<and> (\<forall>k qs w. list_all (part_of rq) qs \<longrightarrow> callOnce E rq k qs = Inr w \<longrightarrow> w = reply (bl k) qs)"

definition seen :: "address list \<Rightarrow> lens_block \<Rightarrow> TokenQuery \<Rightarrow> LensToken" where
  "seen spenders b q = the (viewToken (answer b q) spenders)"

lemma those_map_Some: "\<forall>x \<in> set xs. f x = Some (g x) \<Longrightarrow> those (map f xs) = Some (map g xs)"
  by (induction xs) auto

lemma viewToken_Some: "length spenders \<le> length (wt_allowances t) \<Longrightarrow> viewToken t spenders \<noteq> None"
proof -
  assume m: "length spenders \<le> length (wt_allowances t)"
  have "\<forall>x \<in> set (enumerate 0 spenders). (\<lambda>(j, s). view_allowance t j s) x = Some (the ((\<lambda>(j, s). view_allowance t j s) x))"
    using m by (auto simp: in_set_enumerate_eq view_allowance_def Let_def)
  from those_map_Some [OF this] show ?thesis by (simp add: viewToken_def)
qed

lemma viewToken_ids: "viewToken (t\<lparr>wt_ids := X\<rparr>) spenders = map_option (\<lambda>v. v\<lparr>lt_ids := map view_id X\<rparr>) (viewToken t spenders)"
proof -
  have "view_allowance (t\<lparr>wt_ids := X\<rparr>) = view_allowance t" by (simp add: view_allowance_def fun_eq_iff cong del: if_weak_cong)
  then show ?thesis by (simp add: viewToken_def option.map_comp o_def)
qed

text \<open>The part of the view that does not depend on the ids asked for.\<close>

definition seen_facts :: "address list \<Rightarrow> lens_block \<Rightarrow> address \<Rightarrow> LensToken" where
  "seen_facts spenders b a = the (viewToken ((lb_facts b a)\<lparr>wt_token := a\<rparr>) spenders)"

definition fits_spenders :: "address list \<Rightarrow> lens_block \<Rightarrow> bool" where
  "fits_spenders spenders b \<longleftrightarrow> (\<forall>a. length spenders \<le> length (wt_allowances (lb_facts b a)))"

lemma viewToken_answer:
  assumes "fits_spenders spenders b"
  shows "viewToken (answer b q) spenders = Some (seen spenders b q)"
    and "seen spenders b q = (seen_facts spenders b (tq_token q))\<lparr>lt_ids := map view_id (answer_ids b q)\<rparr>"
    and "lt_address (seen spenders b q) = tq_token q"
proof -
  let ?t = "(lb_facts b (tq_token q))\<lparr>wt_token := tq_token q\<rparr>"
  have "viewToken ?t spenders \<noteq> None" using assms by (intro viewToken_Some) (simp add: fits_spenders_def)
  then obtain v where v: "viewToken ?t spenders = Some v" by auto
  have a: "answer b q = ?t\<lparr>wt_ids := answer_ids b q\<rparr>" by (simp add: answer_def)
  have f: "seen_facts spenders b (tq_token q) = v" by (simp add: seen_facts_def v)
  show "viewToken (answer b q) spenders = Some (seen spenders b q)" by (simp add: seen_def a viewToken_ids v)
  show s: "seen spenders b q = (seen_facts spenders b (tq_token q))\<lparr>lt_ids := map view_id (answer_ids b q)\<rparr>"
    by (simp add: seen_def a viewToken_ids v f)
  show "lt_address (seen spenders b q) = tq_token q" using v by (auto simp: s f viewToken_def)
qed

section \<open>Filling the answer\<close>

text \<open>Putting one planned answer into the list of slots: the first makes the slot, later ones extend it.\<close>

definition fill :: "(TokenQuery \<Rightarrow> 'a) \<Rightarrow> ('a \<Rightarrow> 'a \<Rightarrow> 'a) \<Rightarrow> planned \<Rightarrow> 'a option list \<Rightarrow> 'a option list" where
  "fill f g p m = m[pl_at p := Some (case m ! pl_at p of None \<Rightarrow> f (pl_query p) | Some t \<Rightarrow> g t (f (pl_query p)))]"

lemma length_fill [simp]: "length (fill f g p m) = length m" "length (fold (fill f g) ps m) = length m"
  by (simp add: fill_def) (induction ps arbitrary: m; simp add: fill_def)

lemma fill_twice:
  assumes "pl_at l = pl_at p" "pl_at r = pl_at p" "pl_at p < length m"
    "g (f (pl_query l)) (f (pl_query r)) = f (pl_query p)"
    "\<And>t. g (g t (f (pl_query l))) (f (pl_query r)) = g t (f (pl_query p))"
  shows "fill f g r (fill f g l m) = fill f g p m"
  using assms by (auto simp: fill_def split: option.splits)

lemma fill_map:
  assumes "pl_at p < length m" "\<And>t u. h (g t u) = g' (h t) (h u)"
  shows "map (map_option h) (fill f g p m) = fill (h \<circ> f) g' p (map (map_option h) m)"
  using assms by (auto simp: fill_def map_update split: option.splits)

lemma fold_fill_map:
  assumes "\<forall>p \<in> set ps. pl_at p < length m" "\<And>t u. h (g t u) = g' (h t) (h u)"
  shows "map (map_option h) (fold (fill f g) ps m) = fold (fill (h \<circ> f) g') ps (map (map_option h) m)"
  using assms(1) by (induction ps arbitrary: m) (simp_all add: fill_map [where g' = g'] assms(2))

definition initial_plan :: "nat \<Rightarrow> TokenQuery list \<Rightarrow> planned list" where
  "initial_plan k ts = map (\<lambda>(i, t). \<lparr>pl_query = t, pl_at = i\<rparr>) (enumerate k ts)"

lemma fold_fill_initial:
  "fold (fill f g) (initial_plan (length pre) ts) (pre @ replicate (length ts) None) = pre @ map (\<lambda>t. Some (f t)) ts"
proof (induction ts arbitrary: pre)
  case (Cons t ts)
  have "fill f g \<lparr>pl_query = t, pl_at = length pre\<rparr> (pre @ None # replicate (length ts) None)
      = (pre @ [Some (f t)]) @ replicate (length ts) None"
    by (simp add: fill_def nth_append)
  then show ?case using Cons.IH [of "pre @ [Some (f t)]"] by (simp add: initial_plan_def)
qed (simp add: initial_plan_def)

abbreviation more_ids :: "LensToken \<Rightarrow> LensToken \<Rightarrow> LensToken" where
  "more_ids t u \<equiv> t\<lparr>lt_ids := lt_ids t @ lt_ids u\<rparr>"

abbreviation absorb :: "address list \<Rightarrow> lens_block \<Rightarrow> planned \<Rightarrow> LensToken option list \<Rightarrow> LensToken option list" where
  "absorb spenders b \<equiv> fill (seen spenders b) more_ids"

abbreviation address_slot :: "planned \<Rightarrow> address option list \<Rightarrow> address option list" where
  "address_slot \<equiv> fill tq_token (\<lambda>a _. a)"

lemma merge_reply:
  assumes "fits_spenders spenders b"
  shows "merge_tokens spenders plans k (map (answer b) (map pl_query (take n (drop k plans)))) m
    = Some (fold (absorb spenders b) (take n (drop k plans)) m)"
proof (induction n arbitrary: k m)
  case (Suc n)
  show ?case
  proof (cases "k < length plans")
    case True
    then have "take (Suc n) (drop k plans) = plans ! k # take n (drop (Suc k) plans)"
      by (simp add: Cons_nth_drop_Suc [symmetric])
    then show ?thesis using True Suc.IH [of "Suc k"] viewToken_answer(1) [OF assms] by (simp add: fill_def put_token_def)
  qed simp
qed simp

lemma halves_at [simp]: "pl_at (fst (halves p)) = pl_at p" "pl_at (snd (halves p)) = pl_at p"
  "tq_token (pl_query (fst (halves p))) = tq_token (pl_query p)" "tq_token (pl_query (snd (halves p))) = tq_token (pl_query p)"
  by (simp_all add: halves_def Let_def)

lemma absorb_halves:
  assumes "fits_spenders spenders b" "pl_at p < length m" "1 < length (tq_ids (pl_query p))"
  shows "absorb spenders b (snd (halves p)) (absorb spenders b (fst (halves p)) m) = absorb spenders b p m"
proof -
  have "answer_ids b (pl_query (fst (halves p))) @ answer_ids b (pl_query (snd (halves p))) = answer_ids b (pl_query p)"
    using assms(3) by (auto simp: answer_ids_def halves_def Let_def simp flip: map_append)
  then show ?thesis
    using assms(2) by (intro fill_twice) (simp_all add: viewToken_answer(2) [OF assms(1)] flip: map_append)
qed

lemma address_halves: "pl_at p < length m \<Longrightarrow> address_slot (snd (halves p)) (address_slot (fst (halves p)) m) = address_slot p m"
  by (intro fill_twice) simp_all

lemma drop_plan: "i < length ps \<Longrightarrow> drop i ps = ps ! i # drop (Suc i) ps"
  by (simp add: Cons_nth_drop_Suc)

lemma fold_split:
  assumes "i < length plans" "fill f g (snd (halves (plans ! i))) (fill f g (fst (halves (plans ! i))) m) = fill f g (plans ! i) m"
  shows "fold (fill f g) (drop i (splitIDs plans i)) m = fold (fill f g) (drop i plans) m"
  unfolding splitIDs_rest(1) [OF assms(1)] drop_plan [OF assms(1)] using assms(2) by simp

text \<open>Every planned answer has a slot and is part of the request.\<close>

definition slots_in :: "LensRequest \<Rightarrow> planned list \<Rightarrow> nat \<Rightarrow> nat \<Rightarrow> bool" where
  "slots_in rq plans i n \<longleftrightarrow> (\<forall>p \<in> set (drop i plans). pl_at p < n \<and> part_of rq (pl_query p))"

lemma part_of_halves: "part_of rq (pl_query p) \<Longrightarrow> part_of rq (pl_query (fst (halves p))) \<and> part_of rq (pl_query (snd (halves p)))"
  by (auto simp: part_of_def halves_def Let_def dest: in_set_takeD in_set_dropD)

lemma slots_in_split: "\<lbrakk>slots_in rq plans i n; i < length plans\<rbrakk> \<Longrightarrow> slots_in rq (splitIDs plans i) i n"
  unfolding slots_in_def splitIDs_rest(1) by (simp add: drop_plan part_of_halves)

lemma slots_in_drop: "slots_in rq plans i n \<Longrightarrow> slots_in rq plans (i + k) n"
  by (auto simp: slots_in_def add.commute [of i] dest: in_set_dropD simp flip: drop_drop)

lemma slots_in_nth: "\<lbrakk>slots_in rq plans i n; i < length plans\<rbrakk> \<Longrightarrow> pl_at (plans ! i) < n"
  by (simp add: slots_in_def Cons_nth_drop_Suc [symmetric])

lemma slots_in_batch: "slots_in rq plans i n \<Longrightarrow> list_all (part_of rq) (map pl_query (take k (drop i plans)))"
  by (auto simp: slots_in_def list_all_iff dest: in_set_takeD)

lemma fold_drop_add: "fold f (drop (i + n) ps) (fold f (take n (drop i ps)) m) = fold f (drop i ps) m"
proof -
  have "drop i ps = take n (drop i ps) @ drop (i + n) ps" by (metis add.commute append_take_drop_id drop_drop)
  then show ?thesis by (metis comp_apply fold_append)
qed

lemma conforming_call:
  assumes "answers_as E rq bl" "slots_in rq plans i l" "callOnce E rq k (map pl_query (take n (drop i plans))) = Inr w"
  shows "w = reply (bl k) (map pl_query (take n (drop i plans)))"
    and "merge_tokens (lr_spenders rq) plans i (wr_tokens w) m = Some (fold (absorb (lr_spenders rq) (bl k)) (take n (drop i plans)) m)"
    and "fits_spenders (lr_spenders rq) (bl k)"
proof -
  show w: "w = reply (bl k) (map pl_query (take n (drop i plans)))" using assms slots_in_batch [OF assms(2)] by (simp add: answers_as_def)
  show f: "fits_spenders (lr_spenders rq) (bl k)" using assms(1) by (simp add: answers_as_def fits_spenders_def)
  show "merge_tokens (lr_spenders rq) plans i (wr_tokens w) m = Some (fold (absorb (lr_spenders rq) (bl k)) (take n (drop i plans)) m)"
    using merge_reply [OF f] by (simp add: w reply_def)
qed

section \<open>The loop\<close>

text \<open>The queries of one call, and the induction rule of the loop with one case per way through its body.\<close>

definition batch_at :: "planned list \<Rightarrow> nat \<Rightarrow> nat \<Rightarrow> planned list" where
  "batch_at plans i batch = take (min batch (length plans - i)) (drop i plans)"

lemma lens_loop_rule [consumes 1, case_names stop fail panic halve split bad last step]:
  fixes P :: "planned list \<Rightarrow> nat \<Rightarrow> nat \<Rightarrow> nat \<Rightarrow> lens_acc \<Rightarrow> LensToken option list
     \<Rightarrow> (lens_failure + lens_acc \<times> LensToken option list \<times> nat) option \<Rightarrow> bool"
  assumes res: "lens_loop E rq plans i batch calls out m = res"
    and stop: "\<And>plans i batch calls out m. \<lbrakk>length plans \<le> i; i \<noteq> 0\<rbrakk> \<Longrightarrow> P plans i batch calls out m (Some (Inr (out, m, calls)))"
    and fail: "\<And>plans i batch calls out m e r. \<lbrakk>callOnce E rq calls (map pl_query (batch_at plans i batch)) = Inl e;
        le_cancelled E calls \<or> \<not> tooBig e \<or> i < length plans \<and> min batch (length plans - i) \<le> 1 \<and> length (tq_ids (pl_query (plans ! i))) \<le> 1\<rbrakk>
      \<Longrightarrow> P plans i batch calls out m (Some (Inl r))"
    and panic: "\<And>batch calls out m e. \<lbrakk>callOnce E rq calls [] = Inl e; tooBig e; \<not> le_cancelled E calls\<rbrakk> \<Longrightarrow> P [] 0 batch calls out m None"
    and halve: "\<And>plans i batch calls out m e r. \<lbrakk>callOnce E rq calls (map pl_query (batch_at plans i batch)) = Inl e; tooBig e;
        1 < min batch (length plans - i); P plans i (max 1 (min batch (length plans - i) div 2)) (calls + 1) out m r\<rbrakk>
      \<Longrightarrow> P plans i batch calls out m r"
    and split: "\<And>plans i batch calls out m e r. \<lbrakk>callOnce E rq calls (map pl_query (batch_at plans i batch)) = Inl e; tooBig e;
        i < length plans; 1 < length (tq_ids (pl_query (plans ! i))); P (splitIDs plans i) i batch (calls + 1) out m r\<rbrakk>
      \<Longrightarrow> P plans i batch calls out m r"
    and bad: "\<And>plans i batch calls out m w. \<lbrakk>callOnce E rq calls (map pl_query (batch_at plans i batch)) = Inr w;
        merge_tokens (lr_spenders rq) plans i (wr_tokens w) m = None\<rbrakk> \<Longrightarrow> P plans i batch calls out m None"
    and last: "\<And>plans i batch calls out m w m'. \<lbrakk>callOnce E rq calls (map pl_query (batch_at plans i batch)) = Inr w;
        merge_tokens (lr_spenders rq) plans i (wr_tokens w) m = Some m'; batch = 0 \<or> plans = [] \<and> i = 0\<rbrakk>
      \<Longrightarrow> P plans i batch calls out m (Some (Inr (note_reply w out, m', calls + 1)))"
    and step: "\<And>plans i batch calls out m w m' r. \<lbrakk>callOnce E rq calls (map pl_query (batch_at plans i batch)) = Inr w;
        merge_tokens (lr_spenders rq) plans i (wr_tokens w) m = Some m'; 0 < batch; i < length plans;
        lens_loop E rq plans (i + min batch (length plans - i)) batch (calls + 1) (note_reply w out) m' = r;
        P plans (i + min batch (length plans - i)) batch (calls + 1) (note_reply w out) m' r\<rbrakk>
      \<Longrightarrow> P plans i batch calls out m r"
  shows "P plans i batch calls out m res"
proof -
  have "E' = E \<longrightarrow> rq' = rq \<longrightarrow> P plans i batch calls out m (lens_loop E' rq' plans i batch calls out m)" for E' rq'
  proof (induction E' rq' plans i batch calls out m rule: lens_loop.induct)
    case (1 E' rq' plans i batch calls out m)
    define n where "n = min batch (length plans - i)"
    define c where "c = callOnce E rq calls (map pl_query (batch_at plans i batch))"
    have bat: "batch_at plans i batch = take n (drop i plans)" by (simp add: batch_at_def n_def)
    have loop: "lens_loop E rq plans i batch calls out m = (if i < length plans \<or> i = 0 then
        (case c of Inl e \<Rightarrow>
               if le_cancelled E calls then Some (Inl LensCancelled)
               else if tooBig e \<and> n > 1 then lens_loop E rq plans i (max 1 (n div 2)) (calls + 1) out m
               else if tooBig e \<and> i \<ge> length plans then None
               else if tooBig e \<and> length (tq_ids (pl_query (plans ! i))) > 1 then
                 lens_loop E rq (splitIDs plans i) i batch (calls + 1) out m
               else Some (Inl (LensFailed n i e))
           | Inr w \<Rightarrow>
               (case merge_tokens (lr_spenders rq) plans i (wr_tokens w) m of None \<Rightarrow> None
                | Some merged' \<Rightarrow>
                    if n = 0 then Some (Inr (note_reply w out, merged', calls + 1))
                    else lens_loop E rq plans (i + n) batch (calls + 1) (note_reply w out) merged'))
      else Some (Inr (out, m, calls)))"
      by (simp add: lens_loop.simps [of E rq plans] c_def bat Let_def flip: n_def)
    show ?case
    proof (intro impI)
      assume eq: "E' = E" "rq' = rq"
      note c_call = c_def [unfolded bat n_def]
      show "P plans i batch calls out m (lens_loop E' rq' plans i batch calls out m)"
      proof (cases "i < length plans \<or> i = 0")
        case act: True
        show ?thesis
        proof (cases c)
          case (Inl e)
          have call: "callOnce E rq calls (map pl_query (batch_at plans i batch)) = Inl e" using Inl c_def by simp
          have call': "callOnce E' rq' calls (map pl_query (take (min batch (length plans - i)) (drop i plans))) = Inl e"
            using Inl c_call eq by simp
          consider "le_cancelled E calls \<or> \<not> tooBig e" | "\<not> le_cancelled E calls" "tooBig e" "n > 1"
            | "\<not> le_cancelled E calls" "tooBig e" "n \<le> 1" "i \<ge> length plans"
            | "\<not> le_cancelled E calls" "tooBig e" "n \<le> 1" "i < length plans" "length (tq_ids (pl_query (plans ! i))) > 1"
            | "\<not> le_cancelled E calls" "tooBig e" "n \<le> 1" "i < length plans" "length (tq_ids (pl_query (plans ! i))) \<le> 1"
            by linarith
          then show ?thesis
          proof cases
            case 1
            then show ?thesis using fail [OF call] act Inl unfolding eq loop by auto
          next
            case 2
            then have "P plans i (max 1 (n div 2)) (calls + 1) out m (lens_loop E rq plans i (max 1 (n div 2)) (calls + 1) out m)"
              using "1.IH"(1) [OF act refl call'] eq by (simp add: n_def)
            then show ?thesis using halve [OF call] act Inl 2 unfolding eq loop by (simp add: n_def)
          next
            case 3
            then have "plans = []" "i = 0" using act by auto
            then show ?thesis using panic [of calls e batch out m] call act Inl 3 unfolding eq loop by (simp add: batch_at_def)
          next
            case 4
            then have nn: "Suc 0 < batch \<longrightarrow> \<not> Suc 0 < length plans - i" by (auto simp: n_def min_def split: if_splits)
            from 4 have "P (splitIDs plans i) i batch (calls + 1) out m (lens_loop E rq (splitIDs plans i) i batch (calls + 1) out m)"
              using "1.IH"(2) [OF act refl call'] eq nn by (simp add: n_def)
            then show ?thesis using split [OF call] act Inl 4 unfolding eq loop by simp
          next
            case 5
            then show ?thesis using fail [OF call, folded n_def] act Inl unfolding eq loop by auto
          qed
        next
          case (Inr w)
          have call: "callOnce E rq calls (map pl_query (batch_at plans i batch)) = Inr w" using Inr c_def by simp
          have call': "callOnce E' rq' calls (map pl_query (take (min batch (length plans - i)) (drop i plans))) = Inr w"
            using Inr c_call eq by simp
          show ?thesis
          proof (cases "merge_tokens (lr_spenders rq) plans i (wr_tokens w) m")
            case None
            then show ?thesis using bad [OF call] act Inr unfolding eq loop by simp
          next
            case (Some m')
            show ?thesis
            proof (cases "n = 0")
              case True
              then have "batch = 0 \<or> plans = [] \<and> i = 0" using act by (auto simp: n_def min_def split: if_splits)
              then show ?thesis using last [OF call Some] act Inr Some True unfolding eq loop by simp
            next
              case False
              then have batch_pos: "0 < batch" "i < length plans" by (auto simp: n_def)
              from False have "P plans (i + n) batch (calls + 1) (note_reply w out) m' (lens_loop E rq plans (i + n) batch (calls + 1) (note_reply w out) m')"
                using "1.IH"(3) [OF act refl call'] Some eq by (simp add: n_def)
              then show ?thesis using step [OF call Some, folded n_def] act Inr Some False batch_pos unfolding eq loop by auto
            qed
          qed
        qed
      next
        case False
        then show ?thesis using stop [of plans i batch calls out m] unfolding eq loop by simp
      qed
    qed
  qed
  then show ?thesis unfolding res [symmetric] by blast
qed

text \<open>Once a reply is known, it stays; only the flag may fall.\<close>

lemma note_reply_first: "note_reply w (Some (v, f)) = Some (v, f) \<or> note_reply w (Some (v, f)) = Some (v\<lparr>ls_atomic := False\<rparr>, f)"
  by (auto simp: note_reply_def)

lemma note_reply_Some: "note_reply w out \<noteq> None"
  by (auto simp: note_reply_def split: option.splits)

lemma loop_first:
  "lens_loop E rq plans i batch calls out m = res \<Longrightarrow> out = Some (v, f) \<Longrightarrow> res = Some (Inr (out', m', c'))
    \<Longrightarrow> out' = Some (v, f) \<or> out' = Some (v\<lparr>ls_atomic := False\<rparr>, f)"
proof (induction arbitrary: v rule: lens_loop_rule)
  case (last plans i batch calls out m w m')
  then show ?case using note_reply_first [of w v f] by auto
next
  case (step plans i batch calls out m w m' r)
  then consider "note_reply w out = Some (v, f)" | "note_reply w out = Some (v\<lparr>ls_atomic := False\<rparr>, f)"
    using note_reply_first [of w v f] by auto
  then show ?case using step.IH step.prems by cases fastforce+
qed auto

text \<open>Two different blocks are told apart by what the loop compares: the number and the parent.\<close>

definition no_siblings :: "(nat \<Rightarrow> lens_block) \<Rightarrow> bool" where
  "no_siblings bl \<longleftrightarrow>
     (\<forall>j k. wc_block (lb_chain (bl j)) = wc_block (lb_chain (bl k)) \<and> wc_parent (lb_chain (bl j)) = wc_parent (lb_chain (bl k)) \<longrightarrow> bl j = bl k)"

lemma same_block: "\<lbrakk>no_siblings bl; lb_chain (bl j) = lb_chain (bl k)\<rbrakk> \<Longrightarrow> bl j = bl k"
  by (simp add: no_siblings_def)

text \<open>The first reply is that of some block; while the flag is up, it is all that is known.\<close>

definition first_ok :: "(nat \<Rightarrow> lens_block) \<Rightarrow> lens_acc \<Rightarrow> bool" where
  "first_ok bl out \<longleftrightarrow> out = None \<or> (\<exists>k v. out = Some (v, lb_chain (bl k)) \<and> (ls_atomic v \<longrightarrow> v = lens_view (reply (bl k) [])))"

lemma lens_view_reply: "lens_view (reply b qs) = lens_view (reply b [])" "wr_chain (reply b qs) = lb_chain b" "ls_atomic (lens_view w)"
  by (simp_all add: lens_view_def reply_def Let_def)

lemma note_first_ok: "first_ok bl out \<Longrightarrow> first_ok bl (note_reply (reply (bl k) qs) out)"
  using lens_view_reply(1) [of "bl k" qs] by (fastforce simp: first_ok_def note_reply_def lens_view_reply(2,3) split: if_splits)

lemma note_atomic:
  assumes "no_siblings bl" "first_ok bl out" "note_reply (reply (bl k) qs) out = Some (v, f)" "ls_atomic v"
  shows "f = lb_chain (bl k)" "v = lens_view (reply (bl k) [])"
proof -
  have "f = lb_chain (bl k) \<and> v = lens_view (reply (bl k) [])"
  proof (cases out)
    case None
    then show ?thesis using assms(3) by (simp add: note_reply_def lens_view_reply(2)) (simp add: lens_view_reply(1) [of "bl k" qs])
  next
    case (Some o)
    then obtain j u where u: "out = Some (u, lb_chain (bl j))" "ls_atomic u \<longrightarrow> u = lens_view (reply (bl j) [])"
      using assms(2) by (auto simp: first_ok_def)
    show ?thesis
    proof (cases "wc_block (lb_chain (bl k)) = wc_block (lb_chain (bl j)) \<and> wc_parent (lb_chain (bl k)) = wc_parent (lb_chain (bl j))")
      case True
      then have "bl k = bl j" using assms(1) by (auto simp: no_siblings_def)
      then show ?thesis using True u assms(3,4) by (simp add: note_reply_def lens_view_reply(2))
    next
      case False
      then show ?thesis using u(1) assms(3,4) by (auto simp: note_reply_def lens_view_reply(2))
    qed
  qed
  then show "f = lb_chain (bl k)" "v = lens_view (reply (bl k) [])" by auto
qed

lemma loop_atomic:
  "lens_loop E rq plans i batch calls out m = res \<Longrightarrow> answers_as E rq bl \<Longrightarrow> no_siblings bl \<Longrightarrow> 0 < batch
    \<Longrightarrow> slots_in rq plans i (length m) \<Longrightarrow> first_ok bl out \<Longrightarrow> res = Some (Inr (Some (r', f'), m', c')) \<Longrightarrow> ls_atomic r'
    \<Longrightarrow> \<exists>k. f' = lb_chain (bl k) \<and> r' = lens_view (reply (bl k) []) \<and> m' = fold (absorb (lr_spenders rq) (bl k)) (drop i plans) m"
proof (induction rule: lens_loop_rule)
  case (stop plans i batch calls out m)
  then show ?case by (auto simp: first_ok_def)
next
  case (split plans i batch calls out m e r)
  have f: "fits_spenders (lr_spenders rq) (bl k)" for k using split.prems(1) by (simp add: answers_as_def fits_spenders_def)
  have "fold (absorb (lr_spenders rq) (bl k)) (drop i (splitIDs plans i)) m = fold (absorb (lr_spenders rq) (bl k)) (drop i plans) m" for k
    by (rule fold_split [OF split.hyps(3)], rule absorb_halves [OF f]) (use split slots_in_nth in auto)
  then show ?case using split slots_in_split by simp
next
  case (last plans i batch calls out m w m1)
  note c = conforming_call(1) [OF last.prems(1) last.prems(4) last.hyps(1) [unfolded batch_at_def]]
    conforming_call(2) [OF last.prems(1) last.prems(4) last.hyps(1) [unfolded batch_at_def], of m]
  have "plans = []" "i = 0" using last by auto
  then have nr: "note_reply (reply (bl calls) []) out = Some (r', f')" and "m' = m" using last c by auto
  then show ?case using note_atomic [OF last.prems(2,5) nr last.prems(7)] \<open>plans = []\<close>
    by (intro exI [of _ calls]) simp
next
  case (step plans i batch calls out m w m1 r)
  define n where "n = min batch (length plans - i)"
  note c = conforming_call(1) [OF step.prems(1) step.prems(4) step.hyps(1) [unfolded batch_at_def], folded n_def]
    conforming_call(2) [OF step.prems(1) step.prems(4) step.hyps(1) [unfolded batch_at_def], of m, folded n_def]
  have m1: "m1 = fold (absorb (lr_spenders rq) (bl calls)) (take n (drop i plans)) m" using step.hyps(2) c(2) by simp
  then obtain k where k: "f' = lb_chain (bl k)" "r' = lens_view (reply (bl k) [])"
      "m' = fold (absorb (lr_spenders rq) (bl k)) (drop (i + n) plans) m1"
    using step.IH step.prems slots_in_drop note_first_ok [OF step.prems(5)] c(1) unfolding n_def [symmetric] by auto
  obtain v f where vf: "note_reply w out = Some (v, f)" using note_reply_Some [of w out] by auto
  from loop_first [OF step.hyps(5) vf step.prems(6)] step.prems(7) have "f' = f" "ls_atomic v" by auto
  then have "lb_chain (bl k) = lb_chain (bl calls)" using note_atomic(1) [OF step.prems(2,5)] vf c(1) k(1) by simp
  then have "bl k = bl calls" by (rule same_block [OF step.prems(2)])
  then show ?case using k m1 by (auto simp: fold_drop_add)
qed auto

text \<open>The slots get the addresses of the plan, whatever the blocks.\<close>

abbreviation addresses :: "LensToken option list \<Rightarrow> address option list" where
  "addresses m \<equiv> map (map_option lt_address) m"

lemma addresses_absorbed:
  assumes "fits_spenders spenders b" "\<forall>p \<in> set ps. pl_at p < length m"
  shows "addresses (fold (absorb spenders b) ps m) = fold address_slot ps (addresses m)"
proof -
  have "(lt_address \<circ> seen spenders b) = tq_token" by (simp add: fun_eq_iff viewToken_answer(3) [OF assms(1)])
  then show ?thesis using fold_fill_map [OF assms(2), of lt_address more_ids "\<lambda>a _. a" "seen spenders b"] by simp
qed

text \<open>A node whose only complaint is the size, and which answers any lone query of at most one id.\<close>

definition fits_alone :: "lens_env \<Rightarrow> LensRequest \<Rightarrow> bool" where
  "fits_alone E rq \<longleftrightarrow>
     (\<forall>k qs e. list_all (part_of rq) qs \<longrightarrow> callOnce E rq k qs = Inl e \<longrightarrow>
        tooBig e \<and> \<not> le_cancelled E k \<and> (1 < length qs \<or> (\<exists>q. qs = [q] \<and> 1 < length (tq_ids q))))"

lemma floorlog_half: "\<lbrakk>1 < n; n \<le> batch\<rbrakk> \<Longrightarrow> floorlog 2 (max 1 (n div 2)) + 1 \<le> floorlog 2 batch"
  using floorlog_mono [of n batch 2] by (simp add: compute_floorlog [of 2 n])

lemma floorlog_batch: "0 < batch \<Longrightarrow> 0 < floorlog 2 batch"
  by (simp add: compute_floorlog)

text \<open>What the result of the loop is, by kind: a panic, an answer after so many calls, or an error.\<close>

definition loop_post :: "lens_env \<Rightarrow> LensRequest \<Rightarrow> planned list \<Rightarrow> nat \<Rightarrow> nat \<Rightarrow> nat \<Rightarrow> LensToken option list
     \<Rightarrow> (lens_failure + lens_acc \<times> LensToken option list \<times> nat) option \<Rightarrow> bool" where
  "loop_post E rq plans i batch calls m res \<longleftrightarrow>
     (case res of
        None \<Rightarrow> plans = [] \<and> (\<exists>e. callOnce E rq calls [] = Inl e \<and> tooBig e \<and> \<not> le_cancelled E calls)
      | Some (Inl _) \<Rightarrow> \<not> fits_alone E rq
      | Some (Inr (out', m', c')) \<Rightarrow>
          out' \<noteq> None \<and> addresses m' = fold address_slot (drop i plans) (addresses m)
          \<and> c' + 1 \<le> calls + weight (drop i plans) + (if plans = [] then 1 else 0) + floorlog 2 batch)"

lemma loop_post_mono:
  assumes "loop_post E rq plans' i' batch' calls' m' res" "plans' = [] \<longrightarrow> plans = [] \<and> calls' = calls" "plans = [] \<longleftrightarrow> plans' = []"
    "fold address_slot (drop i' plans') (addresses m') = fold address_slot (drop i plans) (addresses m)"
    "calls' + weight (drop i' plans') + floorlog 2 batch' \<le> calls + weight (drop i plans) + floorlog 2 batch"
  shows "loop_post E rq plans i batch calls m res"
  using assms by (auto simp: loop_post_def split: option.splits sum.splits)

lemma splitIDs_ne: "i < length plans \<Longrightarrow> splitIDs plans i \<noteq> []"
  by (simp add: splitIDs_def Let_def)

lemma loop_returns:
  "lens_loop E rq plans i batch calls out m = res \<Longrightarrow> answers_as E rq bl \<Longrightarrow> 0 < batch \<Longrightarrow> slots_in rq plans i (length m)
    \<Longrightarrow> i = 0 \<or> i \<le> length plans \<and> out \<noteq> None \<Longrightarrow> loop_post E rq plans i batch calls m res"
proof (induction rule: lens_loop_rule)
  case (stop plans i batch calls out m)
  then show ?case using floorlog_batch [of batch] by (auto simp: loop_post_def)
next
  case (fail plans i batch calls out m e r)
  have "\<not> fits_alone E rq"
  proof
    assume "fits_alone E rq"
    with fail.hyps(1) slots_in_batch [OF fail.prems(3)] have f: "tooBig e" "\<not> le_cancelled E calls"
        "1 < length (batch_at plans i batch) \<or> (\<exists>q. map pl_query (batch_at plans i batch) = [q] \<and> 1 < length (tq_ids q))"
      unfolding fits_alone_def batch_at_def by (metis length_map)+
    with fail.hyps(2) have i: "i < length plans" "min batch (length plans - i) \<le> 1" "length (tq_ids (pl_query (plans ! i))) \<le> 1" by auto
    then have "min batch (length plans - i) = 1" using fail.prems(2) by linarith
    then have "batch_at plans i batch = [plans ! i]" using i(1) by (simp add: batch_at_def drop_plan)
    then show False using f(3) i(3) by simp
  qed
  then show ?case by (simp add: loop_post_def)
next
  case (panic batch calls out m e)
  then show ?case by (auto simp: loop_post_def)
next
  case (halve plans i batch calls out m e r)
  have "floorlog 2 (max 1 (min batch (length plans - i) div 2)) + 1 \<le> floorlog 2 batch" using halve.hyps(3) by (intro floorlog_half) auto
  moreover have "plans \<noteq> []" using halve.hyps(3) by auto
  moreover have "loop_post E rq plans i (max 1 (min batch (length plans - i) div 2)) (calls + 1) m r"
    using halve.IH [OF halve.prems(1) _ halve.prems(3,4)] by simp
  ultimately show ?case by (elim loop_post_mono) auto
next
  case (split plans i batch calls out m e r)
  have "fold address_slot (drop i (splitIDs plans i)) (addresses m) = fold address_slot (drop i plans) (addresses m)"
    by (rule fold_split [OF split.hyps(3)], rule address_halves) (use split slots_in_nth in auto)
  moreover have "plans \<noteq> []" "splitIDs plans i \<noteq> []" using split.hyps(3) splitIDs_ne by auto
  moreover have "loop_post E rq (splitIDs plans i) i batch (calls + 1) m r"
    using split.IH [OF split.prems(1,2) slots_in_split [OF split.prems(3) split.hyps(3)]] split.prems(4)
      splitIDs_rest(2) [OF split.hyps(3)] by auto
  ultimately show ?case using weight_split [OF split.hyps(3,4)] by (elim loop_post_mono) auto
next
  case (bad plans i batch calls out m w)
  then show ?case using conforming_call(2) [OF bad.prems(1) bad.prems(3) bad.hyps(1) [unfolded batch_at_def], of m] by simp
next
  case (last plans i batch calls out m w m1)
  note c = conforming_call(2) [OF last.prems(1) last.prems(3) last.hyps(1) [unfolded batch_at_def], of m]
  have "plans = []" "i = 0" using last by auto
  then show ?case using last c floorlog_batch [of batch] by (auto simp: loop_post_def note_reply_def split: option.splits)
next
  case (step plans i batch calls out m w m1 r)
  define n where "n = min batch (length plans - i)"
  note c = conforming_call(2) [OF step.prems(1) step.prems(3) step.hyps(1) [unfolded batch_at_def], of m, folded n_def]
    conforming_call(3) [OF step.prems(1) step.prems(3) step.hyps(1) [unfolded batch_at_def]]
  have m1: "m1 = fold (absorb (lr_spenders rq) (bl calls)) (take n (drop i plans)) m" using step.hyps(2) c(1) by simp
  have n: "0 < n" "i + n \<le> length plans" using step.hyps(3,4) by (auto simp: n_def)
  have "\<forall>p \<in> set (take n (drop i plans)). pl_at p < length m" using step.prems(3) by (auto simp: slots_in_def dest: in_set_takeD)
  then have "fold address_slot (drop (i + n) plans) (addresses m1) = fold address_slot (drop i plans) (addresses m)"
    by (simp add: m1 addresses_absorbed [OF c(2)] fold_drop_add)
  moreover have "loop_post E rq plans (i + n) batch (calls + 1) m1 r"
    using step.IH step.prems m1 n slots_in_drop note_reply_Some unfolding n_def [symmetric] by simp
  moreover have "plans \<noteq> []" using step.hyps(4) by auto
  ultimately show ?case using weight_drop [OF step.hyps(4) n(1)] by (elim loop_post_mono) auto
qed

section \<open>The query\<close>

definition batch_size :: "LensRequest \<Rightarrow> nat" where
  "batch_size rq = (if lr_tokens_per_call rq \<le> 0 then LensTokensPerCall else nat (lr_tokens_per_call rq))"

definition query_loop_of :: "lens_env \<Rightarrow> LensRequest \<Rightarrow> (lens_failure + lens_acc \<times> LensToken option list \<times> nat) option" where
  "query_loop_of E rq =
     lens_loop E rq (initial_plan 0 (lr_tokens rq)) 0 (batch_size rq) 0 None (replicate (length (lr_tokens rq)) None)"

definition with_nonce :: "lens_env \<Rightarrow> LensRequest \<Rightarrow> LensResult \<Rightarrow> LensResult" where
  "with_nonce E rq r =
     (case (if lr_skip_nonce rq then None else le_nonce E) of None \<Rightarrow> r
      | Some nonce \<Rightarrow> r\<lparr>ls_account := (ls_account r)\<lparr>la_nonce := nonce, la_nonce_known := True\<rparr>\<rparr>)"

lemma QueryAssets_alt:
  "QueryAssets E rq =
     (case query_loop_of E rq of None \<Rightarrow> None | Some (Inl e) \<Rightarrow> Some (Inl e)
      | Some (Inr (out, merged, calls)) \<Rightarrow>
          (case (out, those merged) of
             (Some (r, first), Some tokens) \<Rightarrow> Some (Inr (with_nonce E rq (r\<lparr>ls_tokens := tokens, ls_calls := calls\<rparr>)))
           | _ \<Rightarrow> None))"
  by (simp add: QueryAssets_def query_loop_of_def batch_size_def initial_plan_def with_nonce_def Let_def
      split: option.splits sum.splits prod.splits)

lemma batch_size_pos: "0 < batch_size rq"
  by (simp add: batch_size_def LensTokensPerCall_def)

lemma with_nonce_fields [simp]: "ls_tokens (with_nonce E rq r) = ls_tokens r" "ls_calls (with_nonce E rq r) = ls_calls r"
  "ls_atomic (with_nonce E rq r) = ls_atomic r" "ls_block (with_nonce E rq r) = ls_block r" "ls_parent (with_nonce E rq r) = ls_parent r"
  by (auto simp: with_nonce_def split: option.splits)

lemma initial_slots: "slots_in rq (initial_plan 0 (lr_tokens rq)) 0 (length (replicate (length (lr_tokens rq)) None))"
  by (auto simp: slots_in_def initial_plan_def in_set_enumerate_eq part_of_def)

lemma initial_weight: "weight (initial_plan k ts) = (\<Sum>t\<leftarrow>ts. 2 * max 1 (length (tq_ids t)) - 1)"
  by (induction ts arbitrary: k) (simp_all add: initial_plan_def id_weight_def)

lemma initial_empty: "initial_plan 0 ts = [] \<longleftrightarrow> ts = []"
  by (cases ts) (simp_all add: initial_plan_def)

lemma those_addresses: "addresses m = map Some as \<Longrightarrow> \<exists>ts. those m = Some ts \<and> map lt_address ts = as"
  by (induction m arbitrary: as) (auto simp: Cons_eq_map_conv)

lemma query_loop_post: 
  assumes "answers_as E rq bl"
  shows "loop_post E rq (initial_plan 0 (lr_tokens rq)) 0 (batch_size rq) 0 (replicate (length (lr_tokens rq)) None) (query_loop_of E rq)"
  by (rule loop_returns [OF _ assms batch_size_pos initial_slots]) (simp_all add: query_loop_of_def)

text \<open>C23: A read that is reported as atomic is exactly what one call at one block would have answered, for
  every token in the caller's order with all its ids, however the tokens were batched and their ids
  split, and however the head moved in between; provided no two blocks that were read share number
  and parent.\<close>

theorem atomic_query_is_one_call:
  assumes "answers_as E rq bl" and "no_siblings bl" and "QueryAssets E rq = Some (Inr r)" and "ls_atomic r"
  shows "\<exists>k. ls_tokens r = map (seen (lr_spenders rq) (bl k)) (lr_tokens rq)
    \<and> ls_block r = wire_u64 (wc_block (lb_chain (bl k))) \<and> ls_parent r = wc_parent (lb_chain (bl k))"
proof -
  from assms(3) obtain v f m c tokens where
    loop: "query_loop_of E rq = Some (Inr (Some (v, f), m, c))" and tokens: "those m = Some tokens"
    and r: "r = with_nonce E rq (v\<lparr>ls_tokens := tokens, ls_calls := c\<rparr>)"
    by (auto simp: QueryAssets_alt split: option.splits sum.splits)
  have "ls_atomic v" using assms(4) r by simp
  from loop_atomic [OF loop [unfolded query_loop_of_def] assms(1,2) batch_size_pos initial_slots _ refl this]
  obtain k where k: "v = lens_view (reply (bl k) [])"
    "m = fold (absorb (lr_spenders rq) (bl k)) (initial_plan 0 (lr_tokens rq)) (replicate (length (lr_tokens rq)) None)"
    by (auto simp: first_ok_def)
  have "m = map Some (map (seen (lr_spenders rq) (bl k)) (lr_tokens rq))"
    using fold_fill_initial [of "seen (lr_spenders rq) (bl k)" more_ids "[]"] k(2) by simp
  then have "tokens = map (seen (lr_spenders rq) (bl k)) (lr_tokens rq)"
    using tokens those_map_Some [of "map (seen (lr_spenders rq) (bl k)) (lr_tokens rq)" Some id] by simp
  then show ?thesis using r k(1) by (auto simp: lens_view_def reply_def Let_def)
qed

lemma query_answers:
  assumes "answers_as E rq bl" and "fits_alone E rq" and "lr_tokens rq \<noteq> []"
  obtains v f m c tokens where "query_loop_of E rq = Some (Inr (Some (v, f), m, c))"
    "QueryAssets E rq = Some (Inr (with_nonce E rq (v\<lparr>ls_tokens := tokens, ls_calls := c\<rparr>)))"
    "map lt_address tokens = map tq_token (lr_tokens rq)"
    "c + 1 \<le> (\<Sum>t\<leftarrow>lr_tokens rq. 2 * max 1 (length (tq_ids t)) - 1) + floorlog 2 (batch_size rq)"
proof -
  note post = query_loop_post [OF assms(1)]
  obtain out m c where loop: "query_loop_of E rq = Some (Inr (out, m, c))"
    using post assms(2,3) by (auto simp: loop_post_def initial_empty split: option.splits sum.splits prod.splits)
  with post have p: "out \<noteq> None" "addresses m = fold address_slot (initial_plan 0 (lr_tokens rq)) (replicate (length (lr_tokens rq)) None)"
      "c + 1 \<le> weight (initial_plan 0 (lr_tokens rq)) + floorlog 2 (batch_size rq)"
    using assms(3) by (auto simp: loop_post_def initial_empty)
  have "addresses m = map Some (map tq_token (lr_tokens rq))"
    using fold_fill_initial [of tq_token "\<lambda>a _. a" "[]"] p(2) by simp
  then obtain tokens where "those m = Some tokens" "map lt_address tokens = map tq_token (lr_tokens rq)" using those_addresses by blast
  then show ?thesis using that loop p by (auto simp: QueryAssets_alt initial_weight)
qed

text \<open>A head that does not move leaves the flag up.\<close>

lemma loop_one_head:
  "lens_loop E rq plans i batch calls out m = res \<Longrightarrow> answers_as E rq bl \<Longrightarrow> slots_in rq plans i (length m)
    \<Longrightarrow> \<forall>k. lb_chain (bl k) = h \<Longrightarrow> (case out of None \<Rightarrow> True | Some (v, f) \<Rightarrow> ls_atomic v \<and> f = h) \<Longrightarrow> res = Some (Inr (Some (r', f'), m', c')) \<Longrightarrow> ls_atomic r'"
proof (induction rule: lens_loop_rule)
  case (split plans i batch calls out m e r)
  then show ?case using slots_in_split by simp
next
  case (last plans i batch calls out m w m1)
  note c = conforming_call(1) [OF last.prems(1) last.prems(2) last.hyps(1) [unfolded batch_at_def]]
  have "note_reply w out = Some (r', f')" using last.prems(5) by simp
  then show ?case using last.prems(3,4) c by (auto simp: note_reply_def lens_view_reply(2,3) split: option.splits if_splits)
next
  case (step plans i batch calls out m w m1 r)
  note c = conforming_call(1) [OF step.prems(1) step.prems(2) step.hyps(1) [unfolded batch_at_def]]
  have "case note_reply w out of None \<Rightarrow> True | Some (v, f) \<Rightarrow> ls_atomic v \<and> f = h"
    using step.prems(3,4) c by (auto simp: note_reply_def lens_view_reply(2,3) split: option.splits)
  moreover have "length m1 = length m"
    using step.hyps(2) conforming_call(2) [OF step.prems(1) step.prems(2) step.hyps(1) [unfolded batch_at_def], of m] by auto
  ultimately show ?case using step.IH step.prems slots_in_drop by simp
qed auto

text \<open>C24: The query ends: when the node refuses nothing but what is too big, and never a lone token with at
  most one id, it returns an answer for every token in the caller's order, after at most two calls
  per id and one for each halving of the batch; and the answer is atomic when the head did not move.\<close>

theorem query_returns_within_calls:
  assumes "answers_as E rq bl" and "fits_alone E rq" and "lr_tokens rq \<noteq> []"
  shows "\<exists>r. QueryAssets E rq = Some (Inr r) \<and> map lt_address (ls_tokens r) = map tq_token (lr_tokens rq)
    \<and> ls_calls r + 1 \<le> (\<Sum>t\<leftarrow>lr_tokens rq. 2 * max 1 (length (tq_ids t)) - 1) + floorlog 2 (batch_size rq)
    \<and> ((\<forall>k. lb_chain (bl k) = lb_chain (bl 0)) \<longrightarrow> ls_atomic r)"
  using assms
proof (rule query_answers)
  fix v f m c tokens
  assume q: "query_loop_of E rq = Some (Inr (Some (v, f), m, c))"
    "QueryAssets E rq = Some (Inr (with_nonce E rq (v\<lparr>ls_tokens := tokens, ls_calls := c\<rparr>)))"
    "map lt_address tokens = map tq_token (lr_tokens rq)"
    "c + 1 \<le> (\<Sum>t\<leftarrow>lr_tokens rq. 2 * max 1 (length (tq_ids t)) - 1) + floorlog 2 (batch_size rq)"
  have "ls_atomic v" if "\<forall>k. lb_chain (bl k) = lb_chain (bl 0)"
    by (rule loop_one_head [OF q(1) [unfolded query_loop_of_def] assms(1) initial_slots that]) simp_all
  then show ?thesis using q by simp
qed

text \<open>With a node that answers what it is asked, the query panics exactly when it asks for no token and
  the node finds the account alone too big: the loop then reads the ids of a plan that is empty.\<close>

theorem query_panics_without_tokens:
  assumes "answers_as E rq bl"
  shows "QueryAssets E rq = None
    \<longleftrightarrow> lr_tokens rq = [] \<and> (\<exists>e. callOnce E rq 0 [] = Inl e \<and> tooBig e \<and> \<not> le_cancelled E 0)"
proof
  note post = query_loop_post [OF assms]
  {
    assume none: "QueryAssets E rq = None"
    show "lr_tokens rq = [] \<and> (\<exists>e. callOnce E rq 0 [] = Inl e \<and> tooBig e \<and> \<not> le_cancelled E 0)"
    proof (cases "query_loop_of E rq")
      case None
      then show ?thesis using post by (simp add: loop_post_def initial_empty)
    next
      case (Some x)
      then obtain out m c where loop: "query_loop_of E rq = Some (Inr (out, m, c))" using none by (auto simp: QueryAssets_alt split: sum.splits)
      with post have p: "out \<noteq> None" "addresses m = fold address_slot (initial_plan 0 (lr_tokens rq)) (replicate (length (lr_tokens rq)) None)"
        by (auto simp: loop_post_def)
      have "addresses m = map Some (map tq_token (lr_tokens rq))"
        using fold_fill_initial [of tq_token "\<lambda>a _. a" "[]"] p(2) by simp
      then obtain tokens where "those m = Some tokens" using those_addresses by blast
      then show ?thesis using none loop p(1) by (auto simp: QueryAssets_alt)
    qed
  next
    assume big: "lr_tokens rq = [] \<and> (\<exists>e. callOnce E rq 0 [] = Inl e \<and> tooBig e \<and> \<not> le_cancelled E 0)"
    then show "QueryAssets E rq = None"
      by (auto simp: QueryAssets_alt query_loop_of_def initial_plan_def lens_loop.simps [of E rq "[]"])
  }
qed

section \<open>A small node\<close>

text \<open>Short addresses and ids are sent as bytes, the reply names the call it belongs to; replies to more than
  four bytes are refused.\<close>

definition demo_block :: "nat \<Rightarrow> nat \<Rightarrow> lens_block" where
  "demo_block number balance =
     \<lparr>lb_chain = \<lparr>wc_chain_id = 1, wc_block = number, wc_parent = 0, wc_timestamp = 0, wc_base_fee = 0\<rparr>,
      lb_account = \<lparr>wa_account = 3, wa_balance = 0, wa_code_hash = 0, wa_code_size = 0, wa_is_contract = False,
        wa_is_delegated = False, wa_delegate = 0, wa_code = []\<rparr>,
      lb_facts = (\<lambda>a. \<lparr>wt_token = a, wt_is_contract = True, wt_standard = 20, wt_supports_erc165 = False, wt_is_erc721 = False,
        wt_is_erc1155 = False, wt_is_enumerable = False, wt_symbol = [], wt_name = [], wt_decimals = 18, wt_has_decimals = True,
        wt_total_supply = 0, wt_has_total_supply = False, wt_balance = balance, wt_has_balance = True,
        wt_allowances = [], wt_allowance_known = [], wt_approved_for_all = [], wt_ids = []\<rparr>),
      lb_one = (\<lambda>a i. \<lparr>wi_id = i, wi_owner = 3, wi_owner_known = True, wi_balance = 0, wi_balance_known = False,
        wi_approved = 0, wi_approved_known = False, wi_uri = [], wi_uri_truncated = False\<rparr>),
      lb_enum = (\<lambda>a. [])\<rparr>"

definition demo_encode :: "TokenQuery list \<Rightarrow> byte list" where
  "demo_encode qs = concat (map (\<lambda>q. [word_of_nat (unat (tq_token q)), word_of_nat (length (tq_ids q))] @ map word_of_nat (tq_ids q)) qs)"

function demo_parse :: "byte list \<Rightarrow> TokenQuery list" where
  "demo_parse (a # l # bs) =
     \<lparr>tq_token = word_of_nat (unat a), tq_ids = map unat (take (unat l) bs)\<rparr> # demo_parse (drop (unat l) bs)"
| "demo_parse [a] = []"
| "demo_parse [] = []"
  by pat_completeness auto
termination by (relation "measure length") auto

definition demo_env :: "(nat \<Rightarrow> lens_block) \<Rightarrow> lens_env" where
  "demo_env f =
     \<lparr>le_encode = (\<lambda>q. Inr (demo_encode (wq_tokens q))),
      le_call = (\<lambda>k payload. if length payload > 4 then Inl ''max code size exceeded'' else Inr (word_of_nat (min k 255) # payload)),
      le_decode = (\<lambda>ret. Inr (reply (f (unat (hd ret))) (demo_parse (tl ret)))),
      le_cancelled = (\<lambda>_. False), le_nonce = None\<rparr>"

definition demo_tokens :: LensRequest where
  "demo_tokens = \<lparr>lr_account = 3, lr_tokens = [\<lparr>tq_token = 1, tq_ids = [5, 6, 7]\<rparr>, \<lparr>tq_token = 2, tq_ids = []\<rparr>],
     lr_spenders = [], lr_include_uri = False, lr_include_code = False, lr_enumerate = 0, lr_gas_per_call = 0,
     lr_max_string = 0, lr_tokens_per_call = 0, lr_skip_nonce = False\<rparr>"

definition small_query :: "TokenQuery \<Rightarrow> bool" where
  "small_query q \<longleftrightarrow> unat (tq_token q) < 256 \<and> (\<forall>i \<in> set (tq_ids q). i < 256)"

lemma demo_query_parts: "part_of demo_tokens q \<Longrightarrow> small_query q"
  by (auto simp: part_of_def demo_tokens_def small_query_def)

lemma unat_byte: "n < 256 \<Longrightarrow> unat (word_of_nat n :: byte) = n"
  by (simp add: unat_of_nat take_bit_nat_eq_self)

lemma demo_round_trip: "\<lbrakk>list_all small_query qs; length (demo_encode qs) < 256\<rbrakk> \<Longrightarrow> demo_parse (demo_encode qs) = qs"
proof (induction qs)
  case (Cons q qs)
  have len: "length (tq_ids q) < 256" "length (demo_encode qs) < 256" using Cons.prems(2) by (auto simp: demo_encode_def)
  have "map (unat \<circ> (word_of_nat :: nat \<Rightarrow> byte)) (tq_ids q) = tq_ids q"
    using Cons.prems(1) by (auto simp: small_query_def unat_byte intro: map_idI)
  moreover have "(ucast (ucast (tq_token q) :: byte) :: address) = tq_token q"
    using Cons.prems(1) by (simp add: word_unat_eq_iff unsigned_ucast_eq take_bit_nat_eq_self unsigned_take_bit_eq small_query_def)
  ultimately show ?case using Cons len
    by (simp add: demo_encode_def small_query_def unat_byte)
qed (simp add: demo_encode_def)

lemma demo_call:
  "callOnce (demo_env f) rq k qs =
     (if length (demo_encode qs) > 4 then Inl (if length (demo_encode qs) > MaxPayloadBytes then PayloadTooBig (length (demo_encode qs)) else CallError ''max code size exceeded'')
      else Inr (reply (f (min k 255)) (demo_parse (demo_encode qs))))"
  by (simp add: callOnce_def demo_env_def MaxPayloadBytes_def unat_byte)

lemma demo_answers:
  assumes "\<And>k a. wt_allowances (lb_facts (f k) a) = []"
  shows "answers_as (demo_env f) demo_tokens (\<lambda>k. f (min k 255))"
proof -
  have "demo_parse (demo_encode qs) = qs" if "list_all (part_of demo_tokens) qs" "length (demo_encode qs) \<le> 4" for qs
    using that demo_query_parts by (intro demo_round_trip) (auto simp: list_all_iff)
  moreover have "lr_spenders demo_tokens = []" by (simp add: demo_tokens_def)
  ultimately show ?thesis using assms by (auto simp: answers_as_def demo_call split: if_splits)
qed

lemma demo_too_big: "contains_any (to_lower ''max code size exceeded'') lensNeedles"
  by code_simp

lemma demo_fits: "fits_alone (demo_env f) demo_tokens"
proof -
  have "1 < length qs \<or> (\<exists>q. qs = [q] \<and> 1 < length (tq_ids q))" if "4 < length (demo_encode qs)" for qs
    using that by (cases qs; cases "tl qs") (auto simp: demo_encode_def)
  moreover have "le_cancelled (demo_env f) k = False" for k by (simp add: demo_env_def)
  ultimately show ?thesis unfolding fits_alone_def
    by (auto simp: demo_call demo_too_big split: if_splits)
qed

theorem query_returns_within_calls_witness:
  "\<exists>r. QueryAssets (demo_env (\<lambda>_. demo_block 100 10)) demo_tokens = Some (Inr r) \<and> map lt_address (ls_tokens r) = [1, 2] \<and> ls_calls r \<le> 10"
proof -
  have a: "answers_as (demo_env (\<lambda>_. demo_block 100 10)) demo_tokens (\<lambda>_. demo_block 100 10)"
    using demo_answers [of "\<lambda>_. demo_block 100 10"] by (simp add: demo_block_def)
  have "floorlog 2 (batch_size demo_tokens) = 5" by (simp add: demo_tokens_def batch_size_def LensTokensPerCall_def compute_floorlog)
  then show ?thesis using query_returns_within_calls [OF a demo_fits] by (auto simp: demo_tokens_def)
qed

theorem atomic_query_is_one_call_witness:
  "\<exists>r. QueryAssets (demo_env (\<lambda>_. demo_block 100 10)) demo_tokens = Some (Inr r) \<and> ls_atomic r
     \<and> ls_tokens r = map (seen [] (demo_block 100 10)) (lr_tokens demo_tokens)"
proof -
  have a: "answers_as (demo_env (\<lambda>_. demo_block 100 10)) demo_tokens (\<lambda>_. demo_block 100 10)"
    using demo_answers [of "\<lambda>_. demo_block 100 10"] by (simp add: demo_block_def)
  have ne: "lr_tokens demo_tokens \<noteq> []" "lr_spenders demo_tokens = []" by (simp_all add: demo_tokens_def)
  obtain v f m c tokens where q: "query_loop_of (demo_env (\<lambda>_. demo_block 100 10)) demo_tokens = Some (Inr (Some (v, f), m, c))"
    "QueryAssets (demo_env (\<lambda>_. demo_block 100 10)) demo_tokens
      = Some (Inr (with_nonce (demo_env (\<lambda>_. demo_block 100 10)) demo_tokens (v\<lparr>ls_tokens := tokens, ls_calls := c\<rparr>)))"
    using query_answers [OF a demo_fits ne(1)] by metis
  have "ls_atomic v" by (rule loop_one_head [OF q(1) [unfolded query_loop_of_def] a initial_slots]) simp_all
  then show ?thesis
    using atomic_query_is_one_call [OF a _ q(2)] q(2) ne(2) by (simp add: no_siblings_def)
qed

definition refusing_env :: lens_env where
  "refusing_env = (demo_env (\<lambda>_. demo_block 100 10))\<lparr>le_call := (\<lambda>_ _. Inl ''max code size exceeded'')\<rparr>"

theorem query_panics_without_tokens_witness:
  "QueryAssets refusing_env (demo_tokens\<lparr>lr_tokens := []\<rparr>) = None"
proof -
  have call: "callOnce refusing_env rq k qs \<noteq> Inr w" "callOnce refusing_env rq k [] = Inl (CallError ''max code size exceeded'')" for rq k qs w
    by (simp_all add: callOnce_def refusing_env_def demo_env_def demo_encode_def)
  have "answers_as refusing_env (demo_tokens\<lparr>lr_tokens := []\<rparr>) (\<lambda>_. demo_block 100 10)"
    by (simp add: answers_as_def call demo_tokens_def)
  moreover have "le_cancelled refusing_env 0 = False" by (simp add: refusing_env_def demo_env_def)
  ultimately show ?thesis using query_panics_without_tokens demo_too_big by (simp add: call(2))
qed

text \<open>Two blocks of the same number under the same parent are taken for one: the head is replaced by its
  sibling between two calls, the balances come from both, and the result is still called atomic.\<close>

definition demo_pair :: LensRequest where
  "demo_pair = demo_tokens\<lparr>lr_tokens := [\<lparr>tq_token = 1, tq_ids = []\<rparr>, \<lparr>tq_token = 2, tq_ids = []\<rparr>], lr_tokens_per_call := 1\<rparr>"

lemma siblings_pass_as_atomic:
  "\<exists>r. QueryAssets (demo_env (\<lambda>k. demo_block 100 (if k = 0 then 10 else 20))) demo_pair = Some (Inr r)
     \<and> ls_atomic r \<and> map lt_balance (ls_tokens r) = [Some 10, Some 20]"
  by (simp add: QueryAssets_def demo_pair_def demo_tokens_def lens_loop.simps demo_call demo_encode_def reply_def answer_def demo_block_def
      answer_ids_def viewToken_def note_reply_def put_token_def lens_view_def demo_env_def Let_def callOnce_def MaxPayloadBytes_def unat_byte)

end
