(* ===== verification/Spec2Isabelle.thy ===== *)
theory Spec2Isabelle
  imports Merkle Recount Discovery StatePub Mirror Pricer ChainAPI Access Lens
begin

text \<open>
  A verification library for evm-scan, an indexer that answers which contracts an account has
  touched. This theory collects the development; it holds no definitions of its own.

  \<^bold>\<open>The program.\<close> For each chain an indexer reads the logs of an allowlist of contracts through an
  execution client. A \<^emph>\<open>follower\<close> walks up from the block an asset was registered at, a
  \<^emph>\<open>backfiller\<close> walks down from it to the oldest block the node serves; both fold what they read
  into a rollup table, the follower through a buffer of unconfirmed events that a reorganisation
  can drop. A \<^emph>\<open>discovery\<close> sweep counts contracts seen at the head and promotes them by rules,
  votes and verdicts. A \<^emph>\<open>publisher\<close> commits to the rollup with Merkle roots, bonds the commitment
  in a registry contract, finalizes it and claims the reward. Readers check membership with
  published filters, keep signed state of their own, and verify everything by proofs.

  \<^bold>\<open>Theories and sources\<close> (paths under \<open>src/internal\<close>).

  \<^item> \<open>Prelude\<close>: Go types, big-endian encodings, \<open>sort.Search\<close>, decimal strings.
  \<^item> \<open>Commitment\<close>: a locale for hash commitments; \<open>Merkle\<close> (\<open>merkle/merkle.go\<close>) and \<open>Trie\<close>
    (\<open>userstate/trie.go\<close>) interpret it. Paths are complete, sound up to an exhibited collision,
    and roots bind what they commit to.
  \<^item> \<open>EvmLog\<close> (\<open>evmlog/decode.go\<close>): the decoder refines a table of events.
  \<^item> \<open>IndexStore\<close>, \<open>ChainStore\<close>, \<open>AssetStore\<close>, \<open>DemandStore\<close>, \<open>CandidateStore\<close>, \<open>EpochStore\<close>,
    \<open>StateStore\<close> (\<open>store/*.go\<close>): the database. The locales \<open>deadline_guard\<close> and \<open>deadline_steps\<close> state
    when a signature can be replayed: never, whatever is written in between. A table is an association list under its primary
    key, a statement is a function on the record of tables; the records extend each other, so an
    operation of one component applies to every larger database. \<open>epoch_db\<close> and \<open>state_db\<close> are two
    extensions of the tables below them, of parts that do not meet.
  \<^item> \<open>Aggregate\<close> (\<open>indexer/aggregate.go\<close>): folding disjoint windows in any order is one fold;
    buffering and promoting is folding directly.
  \<^item> \<open>Chain\<close> (\<open>chain/source.go\<close>, \<open>logs_errors.go\<close>), \<open>History\<close> (\<open>chain/history.go\<close>): the adaptive
    sweep tiles its range and ends; the history floor rests on evidence.
  \<^item> \<open>Follower\<close>, \<open>Backfill\<close>, \<open>Recount\<close>, \<open>Discovery\<close> (\<open>indexer/service.go\<close>, \<open>discovery.go\<close>,
    \<open>history_anchor.go\<close>): one tick of each worker on the database and the node. A tick counts the
    new events once, a walk down ends at the floor having read each window once, and the reorg check
    leaves what it compared as canonical; \<open>Recount\<close>, on failed ticks, and one property each of \<open>Backfill\<close>, \<open>Discovery\<close> and
    \<open>Commitments\<close> show where the code falls short of its comments.
  \<^item> \<open>HintFilter\<close>, \<open>FilterCache\<close> (\<open>hintfilter/*.go\<close>): filters round-trip through their file format
    and never miss a key; the decoder panics on one kind of file only; the cache never goes back. A locale states what a membership file
    promises, interpreted by the sorted and the bloom structure.
  \<^item> \<open>UserState\<close> (\<open>userstate/state.go\<close>), \<open>StateStore\<close>: signed snapshots; heads never roll back, an
    admitted snapshot is what the projection shows, checkpoints export and import.
  \<^item> \<open>Publisher\<close>, \<open>Lifecycle\<close>, \<open>Commitments\<close> (\<open>hintreg/publisher.go\<close>, the ticks of
    \<open>cmd/evmscand\<close>): programs over a state with numbered external calls and the list of accepted
    transactions. The locale \<open>effect\<close> of \<open>Lifecycle\<close> carries a relation on states across a program;
    an epoch moves along its life cycle, is bonded once, and its claims verify.
  \<^item> \<open>Snapshot\<close> (\<open>snapshot/*.go\<close>): a written document verifies against its commitment, and the
    database restored from it commits to the same roots.
  \<^item> \<open>Mirror\<close> (\<open>hintreg/mirror.go\<close>): a sync brings the asset table in line with the registry, as far as
    it gets.
  \<^item> \<open>StatePub\<close> (\<open>statepub/publisher.go\<close>, \<open>store/state_publications.go\<close>): the checkpoint
    publisher has one publication in flight and accounts for every transaction.
  \<^item> \<open>PriceMath\<close>, \<open>PriceQuote\<close>, \<open>Pricer\<close> (\<open>price/*.go\<close>): the error of the tick ratio is bounded, a
    quote is the best of all its candidates and has the confidence its sources support, and the
    cached pricer serves young quotes and those of its last reply, nothing else.
  \<^item> \<open>Config\<close> (\<open>config/config.go\<close>, \<open>price/defaults.go\<close>, \<open>cmd/evmscand/pricing.go\<close>), \<open>ChainSet\<close>
    (\<open>chainprofile\<close>, \<open>chainset\<close>), \<open>Endpoint\<close> (\<open>chain/endpoint.go\<close>), \<open>Supervisor\<close>
    (\<open>cmd/evmscand/chains.go\<close>, start-up in \<open>main.go\<close>), \<open>ChainAPI\<close> (\<open>api/chains.go\<close>): which chains run. A
    validated configuration comes up, connections are closed once, trust is earned; two properties
    show what stopping and re-adding a chain leaves behind. The locale \<open>ordered_collection\<close> states what the
    live set promises.
  \<^item> \<open>Token\<close> (\<open>token/token.go\<close>), \<open>Lens\<close> (\<open>lens/lens.go\<close>, \<open>wire.go\<close>): what is read from contracts. Names are
    cleaned; the replies that panic the probe are characterised. The batched read is one terminating
    loop with its own induction rule: batching and splitting are invisible in an atomic answer, and the
    number of calls is bounded.
  \<^item> \<open>Access\<close> (\<open>api/server.go\<close>): the routes and the guard that puts the writes behind the operator's token.

  \<^bold>\<open>How state and effects are modelled.\<close> Fallible operations return a sum with the error on the left
  or an option; a panic is the outer \<open>None\<close> where the code can panic. Concurrent or repeated
  operations are inductive step relations (\<open>state_step\<close>, \<open>write_step\<close>, \<open>cache_step\<close>, \<open>chain_step\<close>, \<open>pub_step\<close>)
  with invariants by rule induction. Loops that need not end in general are partial functions with
  a proof that they return (\<open>sweep_loop\<close>), all others are total; no fuel is used. Block heights
  are naturals, and where Go's \<open>uint64\<close> can wrap the operation is reduced \<open>mod 2 ^ 64\<close> or done on
  words.

  \<^bold>\<open>Parameters.\<close> Keccak-256 is an argument of every definition that hashes; the theorems that need it
  assume no collision among the strings that were hashed, and say which. EIP-712 hashing and
  signature recovery, the fuse filter, the floating-point sizings of the bloom filter, the node,
  the registry contract, the submitter and the clock are arguments that may answer anything unless
  a theorem names a hypothesis.

  \<^bold>\<open>Not modelled.\<close> JSON and YAML codecs and most HTTP handlers, command-line tools beyond start-up, RPC
  transport and transaction signing, ENS and CCIP calls, contract metadata reads and the timers of
  the worker goroutines: I/O and glue around the operations above. Failures of the database itself
  are not modelled, except a transaction that a constraint rejects and, in \<open>Supervisor\<close>, a profile that
  cannot be written.
\<close>

end
